(* ===== verification/Kernel_Prelude.thy ===== *)
theory Kernel_Prelude
  imports Main "HOL-Library.Word"
begin

text \<open>
  What every component of the kernel model shares: the machine integer types of
  \<^verbatim>\<open>kernel/include/los_typedef.h\<close>, the C idioms on flag words
  (\<open>if (x & m)\<close>, \<open>x |= m\<close>, \<open>x &= ~m\<close>) with a small algebra that decides them, positions in
  lists (insertion before and after a node, removal), and the collections of rewrite rules
  that the component theories extend.
\<close>

unbundle bit_operations_syntax

section \<open>Machine integers\<close>

type_synonym u8 = "8 word"
type_synonym u16 = "16 word"
type_synonym u32 = "32 word"
type_synonym u64 = "64 word"

text \<open>
  A value of type \<open>INT32\<close> is kept as the integer it denotes. \<open>i32\<close> is the conversion of an
  arithmetic result to 32 bits, \<open>i32_of_u64\<close> the C conversion \<open>(INT32)x\<close> of a 64 bit unsigned
  value.
\<close>

definition i32 :: "int \<Rightarrow> int" where
  "i32 x = signed_take_bit 31 x"

definition i32_of_u64 :: "u64 \<Rightarrow> int" where
  "i32_of_u64 x = sint (ucast x :: u32)"

definition u64_of_i32 :: "int \<Rightarrow> u64" where
  "u64_of_i32 x = word_of_int x"

lemma i32_in_range [simp]: "- 2147483648 \<le> x \<Longrightarrow> x < 2147483648 \<Longrightarrow> i32 x = x"
  by (simp add: i32_def signed_take_bit_int_eq_self)

lemma i32_of_u64_small:
  assumes "uint x < 2147483648"
  shows "i32_of_u64 x = uint x"
proof -
  have "i32_of_u64 x = signed_take_bit 31 (uint x)"
    using assms by (simp add: i32_of_u64_def sint_uint unsigned_ucast_eq take_bit_int_eq_self)
  moreover have "- (2 ^ 31) \<le> uint x"
    by (rule order_trans [OF _ uint_ge_0]) simp
  ultimately show ?thesis
    using assms by (simp add: signed_take_bit_int_eq_self)
qed

lemma trunc32:
  assumes "uint x < 2 ^ 32"
  shows "ucast (ucast x :: u32) = (x :: u64)"
proof -
  have "take_bit 32 x = x"
    using assms by (intro word_uint_eqI) (simp add: unsigned_take_bit_eq take_bit_int_eq_self)
  moreover have "ucast (ucast x :: u32) = take_bit 32 x"
    by (rule bit_word_eqI) (simp add: bit_simps)
  ultimately show ?thesis by simp
qed

lemma uint_add_nowrap:
  "uint (a :: 'a::len word) + uint b < 2 ^ LENGTH('a) \<Longrightarrow> uint (a + b) = uint a + uint b"
  by (simp add: uint_word_ariths mod_pos_pos_trivial)

lemma word_dec_le: "c \<noteq> 0 \<Longrightarrow> c \<le> m \<Longrightarrow> c - 1 \<le> (m :: 'a::len word)"
  by (simp add: word_le_nat_alt unat_minus_one)

lemma word_inc_le: "c \<noteq> m \<Longrightarrow> c \<le> m \<Longrightarrow> c + 1 \<le> (m :: 'a::len word)"
  by (rule inc_le) (simp add: less_le)

lemma unat_inc: "c < m \<Longrightarrow> unat (c + 1) = unat (c :: 'a::len word) + 1"
proof -
  assume "c < m"
  moreover have "unat m < 2 ^ LENGTH('a)" by simp
  ultimately have "unat c + 1 < 2 ^ LENGTH('a)" by (simp only: word_less_nat_alt)
  then show ?thesis by (simp add: unat_word_ariths)
qed

lemma unat_bound: "unat (w :: 'a::len word) < 2 ^ LENGTH('a)"
  by simp

lemma unat_ucast16_32 [simp]: "unat (ucast (x :: u16) :: u32) = unat x"
  using unat_bound [of x] by (simp add: unsigned_ucast_eq take_bit_nat_eq_self)

lemma unat_ucast32_64: "unat (ucast (x :: u32) :: u64) = unat x"
proof -
  have "unat x < 2 ^ 32" using unat_bound [of x] by simp
  then have "unat x < 2 ^ 64" by simp
  then show ?thesis by (simp add: unsigned_ucast_eq take_bit_nat_eq_self)
qed

lemma unat_trunc32: "unat (ucast (ucast (x :: u64) :: u32) :: u64) = unat x mod 2 ^ 32"
  unfolding unat_ucast32_64 by (simp add: unsigned_ucast_eq take_bit_eq_mod)

lemma unat_add_le: "unat (a :: u32) + unat n \<le> unat (z :: u32) \<Longrightarrow> unat (a + n) = unat a + unat n"
proof -
  assume "unat a + unat n \<le> unat z"
  then have "unat a + unat n < 2 ^ LENGTH(32)" using unat_bound [of z] by linarith
  then show ?thesis by (simp add: unat_word_ariths)
qed

lemma min_part:
  fixes a b p :: u32
  assumes "p \<le> a" "p \<le> b"
  shows "min a b = p + min (a - p) (b - p)"
proof -
  have "a - p \<le> b - p \<longleftrightarrow> a \<le> b"
    using assms unat_sub [OF assms(1)] unat_sub [OF assms(2)] by (auto simp: word_le_nat_alt)
  then show ?thesis by (simp add: min_def)
qed

lemma unat_min: "unat (min a b) = min (unat a) (unat (b :: u32))"
  by (simp add: min_def word_le_nat_alt)

lemma unat_clear_low: "unat ((w :: 'a::len word) AND NOT (mask n)) = unat w div 2 ^ n * 2 ^ n"
proof -
  have "unat (w AND NOT (mask n)) = push_bit n (drop_bit n (unat w))"
  proof (rule bit_eqI)
    fix m
    show "bit (unat (w AND NOT (mask n))) m \<longleftrightarrow> bit (push_bit n (drop_bit n (unat w))) m"
      by (cases "n \<le> m") (auto simp: bit_simps dest: bit_imp_le_length)
  qed
  then show ?thesis by (simp add: push_bit_eq_mult drop_bit_eq_div)
qed

section \<open>Flag words\<close>

text \<open>
  \<open>has st m\<close> is the C condition \<open>st & m\<close>: some bit of the mask is set. With the three rules below
  the simplifier decides every condition on a word that was built by setting and clearing
  constant masks.
\<close>

definition has :: "'a::len word \<Rightarrow> 'a word \<Rightarrow> bool" where
  "has st m \<longleftrightarrow> st AND m \<noteq> 0"

lemma has_zero [simp]: "\<not> has st 0" "\<not> has 0 m"
  by (simp_all add: has_def)

lemma has_or [simp]: "has (a OR b) m \<longleftrightarrow> has a m \<or> has b m"
  by (auto simp: has_def bit_eq_iff bit_simps)

lemma has_clr [simp]: "has (a AND NOT b) m \<longleftrightarrow> has a (m AND NOT b)"
  by (simp add: has_def ac_simps)

lemma has_and_neg [simp]: "has (a AND - numeral n) m \<longleftrightarrow> has a (- numeral n AND m)"
  by (simp add: has_def ac_simps)

lemma has_mask_or: "has a (m OR n) \<longleftrightarrow> has a m \<or> has a n"
  by (auto simp: has_def bit_eq_iff bit_simps)

lemma has_self [simp]: "has m m \<longleftrightarrow> m \<noteq> 0"
  by (simp add: has_def)

lemma has_numeral [simp]:
  "has (numeral a :: 'a::len word) (numeral b) \<longleftrightarrow> (numeral a AND numeral b :: 'a word) \<noteq> 0"
  by (simp add: has_def)

lemma has_one [simp]:
  "has (1 :: 'a::len word) (numeral b) \<longleftrightarrow> (1 AND numeral b :: 'a word) \<noteq> 0"
  "has (numeral b :: 'a::len word) 1 \<longleftrightarrow> (numeral b AND 1 :: 'a word) \<noteq> 0"
  by (simp_all add: has_def)

lemma has_neg_numeral [simp]:
  "has (numeral a :: 'a::len word) (- numeral b) \<longleftrightarrow> (numeral a AND - numeral b :: 'a word) \<noteq> 0"
  "has (1 :: 'a::len word) (- numeral b) \<longleftrightarrow> (1 AND - numeral b :: 'a word) \<noteq> 0"
  by (simp_all add: has_def)

lemma and_nonzero_iff: "x AND y \<noteq> 0 \<longleftrightarrow> (\<exists>b. bit (x :: 'a::len word) b \<and> bit y b)"
  using bit_imp_le_length [of y] by (auto simp: bit_eq_iff bit_simps)

lemma and_absorb_iff: "y = x AND y \<longleftrightarrow> (\<forall>b. bit y b \<longrightarrow> bit (x :: 'a::len word) b)"
  using bit_imp_le_length [of y] by (auto simp: bit_eq_iff bit_simps)

section \<open>Positions in lists\<close>

text \<open>\<open>ins_before p x xs\<close> puts \<open>x\<close> in front of the node \<open>p\<close>, \<open>ins_after p x xs\<close> behind it.\<close>

fun ins_before :: "'a \<Rightarrow> 'a \<Rightarrow> 'a list \<Rightarrow> 'a list" where
  "ins_before p x [] = []"
| "ins_before p x (y # ys) = (if y = p then x # y # ys else y # ins_before p x ys)"

fun ins_after :: "'a \<Rightarrow> 'a \<Rightarrow> 'a list \<Rightarrow> 'a list" where
  "ins_after p x [] = []"
| "ins_after p x (y # ys) = (if y = p then y # x # ys else y # ins_after p x ys)"

lemma set_ins_before [simp]: "p \<in> set xs \<Longrightarrow> set (ins_before p x xs) = insert x (set xs)"
  by (induction xs) auto

lemma set_ins_after [simp]: "p \<in> set xs \<Longrightarrow> set (ins_after p x xs) = insert x (set xs)"
  by (induction xs) auto

lemma ins_before_absent [simp]: "p \<notin> set xs \<Longrightarrow> ins_before p x xs = xs"
  by (induction xs) auto

lemma ins_after_absent [simp]: "p \<notin> set xs \<Longrightarrow> ins_after p x xs = xs"
  by (induction xs) auto

lemma ins_before_append [simp]:
  "p \<notin> set xs \<Longrightarrow> ins_before p x (xs @ p # ys) = xs @ x # p # ys"
  by (induction xs) auto

lemma ins_after_append [simp]:
  "p \<notin> set xs \<Longrightarrow> ins_after p x (xs @ p # ys) = xs @ p # x # ys"
  by (induction xs) auto

lemma distinct_ins_before:
  "distinct xs \<Longrightarrow> x \<notin> set xs \<Longrightarrow> distinct (ins_before p x xs)"
proof (induction xs)
  case (Cons y ys)
  then show ?case by (cases "p \<in> set ys") auto
qed simp

lemma distinct_ins_after:
  "distinct xs \<Longrightarrow> x \<notin> set xs \<Longrightarrow> distinct (ins_after p x xs)"
proof (induction xs)
  case (Cons y ys)
  then show ?case by (cases "p \<in> set ys") auto
qed simp

lemma length_ins_before [simp]: "p \<in> set xs \<Longrightarrow> length (ins_before p x xs) = Suc (length xs)"
  by (induction xs) auto

lemma remove1_append_mid [simp]: "x \<notin> set xs \<Longrightarrow> remove1 x (xs @ x # ys) = xs @ ys"
  by (simp add: remove1_append)

lemma set_remove1_distinct: "distinct xs \<Longrightarrow> set (remove1 x xs) = set xs - {x}"
  by (rule set_remove1_eq)

lemma hd_remove1_other: "hd xs \<noteq> x \<Longrightarrow> xs \<noteq> [] \<Longrightarrow> hd (remove1 x xs) = hd xs"
  by (cases xs) auto

text \<open>Positions of a ring of size \<open>n\<close> at different distances from one start differ.\<close>

lemma ring_distance:
  fixes h j k n :: nat
  assumes "j < n" "k < n" "(h + j) mod n = (h + k) mod n"
  shows "j = k"
proof -
  have *: "a = b" if "a \<le> b" "b < n" "(h + b) mod n = (h + a) mod n" for a b
  proof -
    have "n dvd b - a" using that mod_eq_dvd_iff_nat [of "h + a" "h + b" n] by simp
    moreover have "b - a < n" using that by simp
    ultimately have "\<not> 0 < b - a" by (meson nat_dvd_not_less)
    then show ?thesis using that(1) by simp
  qed
  show ?thesis using * [of j k] * [of k j] assms by (cases "j \<le> k") auto
qed

section \<open>Handles\<close>

text \<open>
  The control blocks of semaphores, queues and timers are named by handles: the index of the block in
  the low 16 bits and a count of its reuses in the high ones.
\<close>

definition handle_index :: "u32 \<Rightarrow> u32" where
  "handle_index h = h AND 0xFFFF"

definition handle_make :: "u32 \<Rightarrow> u32 \<Rightarrow> u32" where
  "handle_make cnt i = push_bit 16 cnt OR i"

lemma handle_index_take: "handle_index h = take_bit 16 h"
proof -
  have "(0xFFFF :: u32) = mask 16" by (simp add: mask_eq_exp_minus_1)
  then show ?thesis by (simp add: handle_index_def take_bit_eq_mask)
qed

lemma handle_index_make: "handle_index (handle_make c i) = handle_index i"
  unfolding handle_index_take handle_make_def by (rule bit_word_eqI) (auto simp: bit_simps)

lemma handle_index_idem: "handle_index (handle_index h) = handle_index h"
  by (simp add: handle_index_take)

lemma handle_index_small: "i < 65536 \<Longrightarrow> handle_index (of_nat i) = of_nat i"
  by (simp add: handle_index_take take_bit_of_nat take_bit_nat_eq_self)

lemma unat_handle_index: "unat (handle_index h) < 65536"
  by (simp add: handle_index_take unsigned_take_bit_eq take_bit_nat_less_exp [of 16, simplified])

lemma handle_make_zero: "handle_make 0 i = i"
  by (simp add: handle_make_def)

text \<open>The next handle of a block differs from the last one.\<close>

lemma handle_next: "handle_make (drop_bit 16 h + 1) (handle_index h) \<noteq> h"
proof
  assume eq: "handle_make (drop_bit 16 h + 1) (handle_index h) = h"
  have "bit (handle_make (drop_bit 16 h + 1) (handle_index h)) 16 \<longleftrightarrow> bit (drop_bit 16 h + 1) 0"
    by (simp add: handle_make_def handle_index_take bit_simps)
  also have "\<dots> \<longleftrightarrow> \<not> bit (drop_bit 16 h) 0" by (simp add: bit_0)
  also have "\<dots> \<longleftrightarrow> \<not> bit h 16" by (simp add: bit_simps)
  finally show False unfolding eq by simp
qed

section \<open>Bytes in memory\<close>

text \<open>Memory areas are functions from offsets to bytes; a 32 bit value is stored with its low byte first.\<close>

definition mem_write :: "nat \<Rightarrow> u8 list \<Rightarrow> (nat \<Rightarrow> u8) \<Rightarrow> nat \<Rightarrow> u8" where
  "mem_write a bs m = (\<lambda>x. if a \<le> x \<and> x < a + length bs then bs ! (x - a) else m x)"

definition mem_read :: "nat \<Rightarrow> nat \<Rightarrow> (nat \<Rightarrow> u8) \<Rightarrow> u8 list" where
  "mem_read a n m = map m [a..<a + n]"

definition bytes_of_u32 :: "u32 \<Rightarrow> u8 list" where
  "bytes_of_u32 w = [ucast w, ucast (drop_bit 8 w), ucast (drop_bit 16 w), ucast (drop_bit 24 w)]"

fun u32_of_bytes :: "u8 list \<Rightarrow> u32" where
  "u32_of_bytes [] = 0"
| "u32_of_bytes (b # bs) = ucast b OR push_bit 8 (u32_of_bytes bs)"

lemma length_bytes_of_u32 [simp]: "length (bytes_of_u32 w) = 4"
  by (simp add: bytes_of_u32_def)

lemma u32_of_bytes_of_u32 [simp]: "u32_of_bytes (bytes_of_u32 w) = w"
proof (rule bit_word_eqI)
  fix n assume "n < LENGTH(32)"
  then consider "n < 8" | "8 \<le> n" "n < 16" | "16 \<le> n" "n < 24" | "24 \<le> n" "n < 32" by fastforce
  then show "bit (u32_of_bytes (bytes_of_u32 w)) n = bit w n"
    by cases (auto simp: bytes_of_u32_def bit_simps)
qed

lemma length_mem_read [simp]: "length (mem_read a n m) = n"
  by (simp add: mem_read_def)

lemma mem_read_write_same: "mem_read a (length bs) (mem_write a bs m) = bs"
  by (rule nth_equalityI) (auto simp: mem_read_def mem_write_def)

lemma mem_read_write_part: "n \<le> length bs \<Longrightarrow> mem_read a n (mem_write a bs m) = take n bs"
  by (rule nth_equalityI) (auto simp: mem_read_def mem_write_def)

lemma mem_read_write_other:
  "a + n \<le> b \<or> b + length bs \<le> a \<Longrightarrow> mem_read a n (mem_write b bs m) = mem_read a n m"
  by (rule nth_equalityI) (auto simp: mem_read_def mem_write_def)

lemma mem_read_take: "k \<le> n \<Longrightarrow> take k (mem_read a n m) = mem_read a k m"
  by (rule nth_equalityI) (auto simp: mem_read_def)

section \<open>Rule collections\<close>

named_theorems kdefs \<open>definitions unfolded to compute a kernel operation\<close>
named_theorems kframe \<open>what an operation leaves alone\<close>

end
