(* ===== verification/Dl_List.thy ===== *)
theory Dl_List
  imports Kernel_Prelude
begin

text \<open>
  The intrusive circular doubly linked lists of \<^verbatim>\<open>kernel/include/los_list.h\<close>. The memory that
  holds the nodes is a pair of maps from addresses to addresses (\<open>NULL\<close> is \<open>0\<close>), and every list
  operation is the sequence of stores of the source. \<open>dl_list h l xs\<close> says that the circle
  through the head \<open>l\<close> is well formed and holds the nodes \<open>xs\<close>; \<open>dl_lists\<close> says it of several
  heads that share no node. The locale \<open>intrusive_lists\<close> is the contract the kernel relies on
  when it moves a control block between lists; it is interpreted here on the pointer
  operations, and in the scheduler theory on the lists of task identifiers that the rest of
  the model uses.
\<close>

section \<open>Nodes and the operations on them\<close>

record dl_heap =
  pstNext :: "nat \<Rightarrow> nat"
  pstPrev :: "nat \<Rightarrow> nat"

definition set_next :: "nat \<Rightarrow> nat \<Rightarrow> dl_heap \<Rightarrow> dl_heap" where
  "set_next p v h = h\<lparr>pstNext := (pstNext h)(p := v)\<rparr>"

definition set_prev :: "nat \<Rightarrow> nat \<Rightarrow> dl_heap \<Rightarrow> dl_heap" where
  "set_prev p v h = h\<lparr>pstPrev := (pstPrev h)(p := v)\<rparr>"

lemma set_next_simps [simp]:
  "pstNext (set_next p v h) = (pstNext h)(p := v)" "pstPrev (set_next p v h) = pstPrev h"
  by (simp_all add: set_next_def)

lemma set_prev_simps [simp]:
  "pstPrev (set_prev p v h) = (pstPrev h)(p := v)" "pstNext (set_prev p v h) = pstNext h"
  by (simp_all add: set_prev_def)

definition LOS_ListInit :: "nat \<Rightarrow> dl_heap \<Rightarrow> dl_heap" where
  "LOS_ListInit l h = set_prev l l (set_next l l h)"

definition LOS_ListAdd :: "nat \<Rightarrow> nat \<Rightarrow> dl_heap \<Rightarrow> dl_heap" where
  "LOS_ListAdd l node h0 =
     (let h1 = set_next node (pstNext h0 l) h0;
          h2 = set_prev node l h1;
          h3 = set_prev (pstNext h2 l) node h2
      in set_next l node h3)"

definition LOS_ListTailInsert :: "nat \<Rightarrow> nat \<Rightarrow> dl_heap \<Rightarrow> dl_heap" where
  "LOS_ListTailInsert l node h = LOS_ListAdd (pstPrev h l) node h"

definition LOS_ListHeadInsert :: "nat \<Rightarrow> nat \<Rightarrow> dl_heap \<Rightarrow> dl_heap" where
  "LOS_ListHeadInsert l node h = LOS_ListAdd l node h"

definition LOS_ListDelete :: "nat \<Rightarrow> dl_heap \<Rightarrow> dl_heap" where
  "LOS_ListDelete node h0 =
     (let h1 = set_prev (pstNext h0 node) (pstPrev h0 node) h0;
          h2 = set_next (pstPrev h1 node) (pstNext h1 node) h1;
          h3 = set_next node 0 h2
      in set_prev node 0 h3)"

definition LOS_ListEmpty :: "nat \<Rightarrow> dl_heap \<Rightarrow> bool" where
  "LOS_ListEmpty l h \<longleftrightarrow> pstNext h l = l"

definition LOS_DL_LIST_FIRST :: "nat \<Rightarrow> dl_heap \<Rightarrow> nat" where
  "LOS_DL_LIST_FIRST l h = pstNext h l"

definition LOS_DL_LIST_LAST :: "nat \<Rightarrow> dl_heap \<Rightarrow> nat" where
  "LOS_DL_LIST_LAST l h = pstPrev h l"

definition LOS_ListDelInit :: "nat \<Rightarrow> dl_heap \<Rightarrow> dl_heap" where
  "LOS_ListDelInit l h0 =
     (let h1 = set_prev (pstNext h0 l) (pstPrev h0 l) h0;
          h2 = set_next (pstPrev h1 l) (pstNext h1 l) h1
      in LOS_ListInit l h2)"

definition LOS_ListAddList :: "nat \<Rightarrow> nat \<Rightarrow> dl_heap \<Rightarrow> dl_heap" where
  "LOS_ListAddList oldList newList h0 =
     (let oldListHead = pstNext h0 oldList;
          oldListTail = oldList;
          newListHead = newList;
          newListTail = pstPrev h0 newList;
          h1 = set_next oldListTail newListHead h0;
          h2 = set_prev newListHead oldListTail h1;
          h3 = set_prev oldListHead newListTail h2
      in set_next newListTail oldListHead h3)"

definition LOS_ListTailInsertList :: "nat \<Rightarrow> nat \<Rightarrow> dl_heap \<Rightarrow> dl_heap" where
  "LOS_ListTailInsertList oldList newList h = LOS_ListAddList (pstPrev h oldList) newList h"

definition LOS_ListHeadInsertList :: "nat \<Rightarrow> nat \<Rightarrow> dl_heap \<Rightarrow> dl_heap" where
  "LOS_ListHeadInsertList oldList newList h = LOS_ListAddList oldList newList h"

text \<open>
  \<^verbatim>\<open>LOS_DL_LIST_FOR_EACH\<close>: the nodes the loop visits, with the number of steps it may take.
  \<open>None\<close> is a walk that has not come back to the head by then.
\<close>

fun dl_walk :: "nat \<Rightarrow> nat \<Rightarrow> nat \<Rightarrow> dl_heap \<Rightarrow> nat list option" where
  "dl_walk 0 l item h = None"
| "dl_walk (Suc n) l item h =
     (if item = l then Some [] else map_option ((#) item) (dl_walk n l (pstNext h item) h))"

definition LOS_DL_LIST_FOR_EACH :: "nat \<Rightarrow> nat \<Rightarrow> dl_heap \<Rightarrow> nat list option" where
  "LOS_DL_LIST_FOR_EACH fuel l h = dl_walk fuel l (pstNext h l) h"

section \<open>Well-formed circles\<close>

fun dl_seg :: "dl_heap \<Rightarrow> nat \<Rightarrow> nat list \<Rightarrow> nat \<Rightarrow> bool" where
  "dl_seg h a [] b \<longleftrightarrow> pstNext h a = b \<and> pstPrev h b = a"
| "dl_seg h a (x # xs) b \<longleftrightarrow> pstNext h a = x \<and> pstPrev h x = a \<and> dl_seg h x xs b"

definition dl_list :: "dl_heap \<Rightarrow> nat \<Rightarrow> nat list \<Rightarrow> bool" where
  "dl_list h l xs \<longleftrightarrow> dl_seg h l xs l \<and> distinct (l # xs) \<and> 0 \<notin> set (l # xs)"

definition dl_lists :: "nat set \<Rightarrow> dl_heap \<Rightarrow> (nat \<Rightarrow> nat list) \<Rightarrow> bool" where
  "dl_lists H h L \<longleftrightarrow>
     (\<forall>l\<in>H. dl_list h l (L l)) \<and>
     (\<forall>l\<in>H. \<forall>m\<in>H. l \<noteq> m \<longrightarrow> set (l # L l) \<inter> set (m # L m) = {})"

lemma dl_seg_append [simp]:
  "dl_seg h a (xs @ y # ys) b \<longleftrightarrow> dl_seg h a xs y \<and> dl_seg h y ys b"
  by (induction xs arbitrary: a) auto

text \<open>A segment reads the forward links of its sources and the backward links of its targets.\<close>

lemma dl_seg_cong:
  assumes "\<And>x. x \<in> set (a # xs) \<Longrightarrow> pstNext h' x = pstNext h x"
    and "\<And>x. x \<in> set (xs @ [b]) \<Longrightarrow> pstPrev h' x = pstPrev h x"
  shows "dl_seg h' a xs b = dl_seg h a xs b"
  using assms by (induction xs arbitrary: a) auto

lemma dl_list_cong:
  assumes "\<And>x. x \<in> set (l # xs) \<Longrightarrow> pstNext h' x = pstNext h x \<and> pstPrev h' x = pstPrev h x"
  shows "dl_list h' l xs = dl_list h l xs"
proof -
  have "dl_seg h' l xs l = dl_seg h l xs l"
    using assms by (intro dl_seg_cong) auto
  then show ?thesis by (simp add: dl_list_def)
qed

lemma dl_list_next: "dl_list h l xs \<Longrightarrow> pstNext h l = hd (xs @ [l])"
  by (cases xs) (auto simp: dl_list_def)

lemma dl_list_prev: "dl_list h l xs \<Longrightarrow> pstPrev h l = last (l # xs)"
  by (cases xs rule: rev_cases) (auto simp: dl_list_def)

lemma dl_seg_unique: 
  "dl_seg h a xs l \<Longrightarrow> dl_seg h a ys l \<Longrightarrow> l \<notin> set xs \<Longrightarrow> l \<notin> set ys \<Longrightarrow> xs = ys"
proof (induction xs arbitrary: a ys)
  case Nil
  then show ?case by (cases ys) auto
next
  case (Cons x xs)
  then show ?case by (cases ys) auto
qed

lemma dl_list_unique: "dl_list h l xs \<Longrightarrow> dl_list h l ys \<Longrightarrow> xs = ys"
  by (auto simp: dl_list_def dest: dl_seg_unique)

section \<open>What the operations do to a circle\<close>

lemma LOS_ListAdd_links:
  assumes "n \<noteq> p"
  shows "pstNext (LOS_ListAdd p n h) = (pstNext h)(n := pstNext h p, p := n)"
    and "pstPrev (LOS_ListAdd p n h) = (pstPrev h)(n := p, pstNext h p := n)"
  using assms by (simp_all add: LOS_ListAdd_def Let_def fun_upd_twist)

lemma dl_seg_add_here:
  assumes "dl_seg h p vs b" "distinct (p # vs)" "b \<notin> set vs" "n \<notin> set (p # vs)" "n \<noteq> b"
  shows "dl_seg (LOS_ListAdd p n h) p (n # vs) b"
proof (cases vs)
  case Nil
  with assms show ?thesis by (auto simp: LOS_ListAdd_links)
next
  case (Cons v ws)
  have "dl_seg (LOS_ListAdd p n h) v ws b = dl_seg h v ws b"
    using assms Cons by (intro dl_seg_cong) (auto simp: LOS_ListAdd_links)
  with assms Cons show ?thesis by (auto simp: LOS_ListAdd_links)
qed

lemma dl_seg_add_away:
  assumes "n \<noteq> p" "p \<notin> set (a # us)" "n \<notin> set (a # us @ [c])" "pstNext h p \<notin> set (us @ [c])"
  shows "dl_seg (LOS_ListAdd p n h) a us c = dl_seg h a us c"
  using assms by (intro dl_seg_cong) (auto simp: LOS_ListAdd_links)

definition ins_node :: "nat \<Rightarrow> nat \<Rightarrow> nat \<Rightarrow> nat list \<Rightarrow> nat list" where
  "ins_node l p n xs = (if p = l then n # xs else ins_after p n xs)"

lemma dl_list_add:
  assumes dl: "dl_list h l xs" and p: "p \<in> set (l # xs)" and n: "n \<notin> set (l # xs)" "n \<noteq> 0"
  shows "dl_list (LOS_ListAdd p n h) l (ins_node l p n xs)"
proof (cases "p = l")
  case True
  then show ?thesis
    using assms dl_seg_add_here [of h l xs l n] by (auto simp: dl_list_def ins_node_def)
next
  case False
  with p have "p \<in> set xs" by simp
  then obtain us vs where xs: "xs = us @ p # vs" "p \<notin> set us"
    by (meson split_list_first)
  have segs: "dl_seg h l us p" "dl_seg h p vs l" and d: "distinct (l # us @ p # vs)"
    and z: "0 \<notin> set (l # us @ p # vs)"
    using dl xs by (auto simp: dl_list_def)
  have nx: "pstNext h p \<notin> set (us @ [p])"
    using segs(2) d by (cases vs) auto
  have "dl_seg (LOS_ListAdd p n h) l us p"
    using segs(1) d n xs nx by (subst dl_seg_add_away) auto
  moreover have "dl_seg (LOS_ListAdd p n h) p (n # vs) l"
    using segs(2) d n xs by (intro dl_seg_add_here) auto
  ultimately show ?thesis
    using False xs d z n by (simp add: dl_list_def ins_node_def)
qed

lemma LOS_ListDelete_links:
  assumes "pstPrev h n \<noteq> n" "pstNext h n \<noteq> n"
  shows "pstNext (LOS_ListDelete n h) = (pstNext h)(pstPrev h n := pstNext h n, n := 0)"
    and "pstPrev (LOS_ListDelete n h) = (pstPrev h)(pstNext h n := pstPrev h n, n := 0)"
  using assms by (simp_all add: LOS_ListDelete_def Let_def)

text \<open>Unlinking \<open>n\<close> between \<open>a\<close> and \<open>b\<close>: the two segments around it join.\<close>

lemma dl_seg_delete:
  assumes segs: "dl_seg h a us n" "dl_seg h n vs b"
    and d: "distinct (us @ n # vs)" "a \<notin> set (us @ n # vs)" "b \<notin> set (us @ n # vs)"
  shows "dl_seg (LOS_ListDelete n h) a (us @ vs) b"
proof -
  let ?h = "LOS_ListDelete n h"
  have pn: "pstPrev h n = last (a # us)"
    using segs by (cases us rule: rev_cases) auto
  have nn: "pstNext h n = hd (vs @ [b])"
    using segs by (cases vs) auto
  have last_in: "last (a # us) \<in> set (a # us)" and hd_in: "hd (vs @ [b]) \<in> set (vs @ [b])"
    by (rule last_in_set; simp) (rule hd_in_set; simp)
  have ne: "pstPrev h n \<noteq> n" "pstNext h n \<noteq> n"
    using pn nn last_in hd_in d by auto
  note links = LOS_ListDelete_links [OF ne, unfolded pn nn]
  show ?thesis
  proof (cases vs)
    case Nil
    show ?thesis
    proof (cases us rule: rev_cases)
      case Nil
      with \<open>vs = []\<close> segs d links show ?thesis by auto
    next
      case (snoc us' u)
      have "dl_seg ?h a us' u = dl_seg h a us' u"
        using d snoc \<open>vs = []\<close> links by (intro dl_seg_cong) auto
      with snoc \<open>vs = []\<close> segs d links show ?thesis by auto
    qed
  next
    case (Cons v vs')
    have tl: "dl_seg ?h v vs' b"
    proof -
      have "dl_seg ?h v vs' b = dl_seg h v vs' b"
        using d Cons links last_in by (intro dl_seg_cong) auto
      then show ?thesis using segs Cons by simp
    qed
    show ?thesis
    proof (cases us rule: rev_cases)
      case Nil
      with Cons tl d links show ?thesis by auto
    next
      case (snoc us' u)
      have "dl_seg ?h a us' u = dl_seg h a us' u"
        using d snoc Cons links by (intro dl_seg_cong) auto
      with snoc Cons tl segs d links show ?thesis by auto
    qed
  qed
qed

lemma dl_list_delete:
  assumes dl: "dl_list h l xs" and n: "n \<in> set xs"
  shows "dl_list (LOS_ListDelete n h) l (remove1 n xs)"
proof -
  from n obtain us vs where xs: "xs = us @ n # vs" "n \<notin> set us"
    by (meson split_list_first)
  with dl have "dl_seg (LOS_ListDelete n h) l (us @ vs) l"
    by (intro dl_seg_delete) (auto simp: dl_list_def)
  with dl xs show ?thesis by (auto simp: dl_list_def)
qed

lemma dl_list_delete_frame:
  assumes dl: "dl_list h l xs" and n: "n \<in> set xs" and x: "x \<notin> set (l # xs)"
  shows "pstNext (LOS_ListDelete n h) x = pstNext h x \<and> pstPrev (LOS_ListDelete n h) x = pstPrev h x"
proof -
  from n obtain us vs where xs: "xs = us @ n # vs" by (meson split_list_first)
  have p: "pstPrev h n = last (l # us)"
    using dl xs by (cases us rule: rev_cases) (auto simp: dl_list_def)
  have q: "pstNext h n = hd (vs @ [l])"
    using dl xs by (cases vs) (auto simp: dl_list_def)
  have "last (l # us) \<in> set (l # us)" "hd (vs @ [l]) \<in> set (vs @ [l])"
    by (rule last_in_set, simp) (rule hd_in_set, simp)
  moreover from this dl xs have "pstPrev h n \<noteq> n" "pstNext h n \<noteq> n"
    by (auto simp: dl_list_def p q)
  ultimately show ?thesis
    using x xs by (auto simp: LOS_ListDelete_links p q)
qed

lemma dl_list_add_frame:
  assumes dl: "dl_list h l xs" and p: "p \<in> set (l # xs)" and n: "n \<notin> set (l # xs)"
    and x: "x \<notin> set (l # xs)" "x \<noteq> n"
  shows "pstNext (LOS_ListAdd p n h) x = pstNext h x \<and> pstPrev (LOS_ListAdd p n h) x = pstPrev h x"
proof -
  have "pstNext h p \<in> set (l # xs)"
  proof (cases "p = l")
    case True
    with dl show ?thesis by (cases xs) (auto simp: dl_list_def)
  next
    case False
    with p obtain us vs where "xs = us @ p # vs" by (auto simp: in_set_conv_decomp)
    with dl show ?thesis by (cases vs) (auto simp: dl_list_def)
  qed
  moreover have "n \<noteq> p" using p n by auto
  ultimately show ?thesis
    using p x by (auto simp: LOS_ListAdd_links)
qed

text \<open>
  Inserting at the tail of a circle appends; inserting \<open>at the tail of a node\<close> puts the new
  node in front of it. This is how a sorted wait list is kept.
\<close>

lemma dl_prev_node:
  assumes "dl_list h l (us @ p # vs)"
  shows "pstPrev h p = last (l # us)"
  using assms by (cases us rule: rev_cases) (auto simp: dl_list_def)

lemma ins_node_last: "l \<notin> set xs \<Longrightarrow> distinct xs \<Longrightarrow> ins_node l (last (l # xs)) n xs = xs @ [n]"
  by (cases xs rule: rev_cases) (auto simp: ins_node_def)

lemma ins_node_before:
  assumes "distinct (l # us @ p # vs)"
  shows "ins_node l (last (l # us)) n (us @ p # vs) = ins_before p n (us @ p # vs)"
proof -
  have "ins_before p n (us @ p # vs) = us @ n # p # vs" using assms by simp
  then show ?thesis
    using assms by (cases us rule: rev_cases) (auto simp: ins_node_def)
qed

lemma dl_list_empty: "dl_list h l xs \<Longrightarrow> LOS_ListEmpty l h \<longleftrightarrow> xs = []"
  by (cases xs) (auto simp: LOS_ListEmpty_def dl_list_def)

lemma dl_walk_seg:
  "dl_seg h a xs l \<Longrightarrow> l \<notin> set xs \<Longrightarrow> length xs < fuel \<Longrightarrow> dl_walk fuel l (pstNext h a) h = Some xs"
proof (induction xs arbitrary: a fuel)
  case Nil
  then show ?case by (cases fuel) auto
next
  case (Cons x xs)
  then show ?case by (cases fuel) auto
qed

section \<open>Several circles in one memory\<close>

lemma dl_listsD [dest]: "dl_lists H h L \<Longrightarrow> l \<in> H \<Longrightarrow> dl_list h l (L l)"
  by (simp add: dl_lists_def)

lemma dl_lists_disjoint:
  "dl_lists H h L \<Longrightarrow> l \<in> H \<Longrightarrow> m \<in> H \<Longrightarrow> l \<noteq> m \<Longrightarrow> set (l # L l) \<inter> set (m # L m) = {}"
  unfolding dl_lists_def by blast

lemma dl_lists_update:
  assumes dls: "dl_lists H h L" and l: "l \<in> H" and new: "dl_list h' l xs"
    and sub: "set xs \<subseteq> insert n (set (L l))" and n: "\<And>m. m \<in> H \<Longrightarrow> m \<noteq> l \<Longrightarrow> n \<notin> set (m # L m)"
    and frame: "\<And>x. x \<notin> set (l # L l) \<Longrightarrow> x \<noteq> n \<Longrightarrow>
      pstNext h' x = pstNext h x \<and> pstPrev h' x = pstPrev h x"
  shows "dl_lists H h' (L(l := xs))"
  unfolding dl_lists_def
proof (intro conjI ballI impI)
  fix m assume m: "m \<in> H"
  show "dl_list h' m ((L(l := xs)) m)"
  proof (cases "m = l")
    case False
    have "dl_list h' m (L m) = dl_list h m (L m)"
      using dl_lists_disjoint [OF dls l m] False n [OF m]
      by (intro dl_list_cong frame) auto
    with dls m False show ?thesis by auto
  qed (simp add: new)
next
  fix m k assume mk: "m \<in> H" "k \<in> H" "m \<noteq> k"
  have "set (m # L m) \<inter> set (k # L k) = {}"
    using dl_lists_disjoint [OF dls] mk by blast
  then show "set (m # (L(l := xs)) m) \<inter> set (k # (L(l := xs)) k) = {}"
    using sub n [of m] n [of k] mk by (auto split: if_splits)
qed

definition dl_ok :: "nat set \<Rightarrow> dl_heap \<Rightarrow> bool" where
  "dl_ok H h \<longleftrightarrow> (\<exists>L. dl_lists H h L)"

definition dl_seq :: "nat set \<Rightarrow> dl_heap \<Rightarrow> nat \<Rightarrow> nat list" where
  "dl_seq H h l = (if l \<in> H then (THE xs. dl_list h l xs) else [])"

lemma dl_seq_eq: "dl_list h l xs \<Longrightarrow> l \<in> H \<Longrightarrow> dl_seq H h l = xs"
  by (auto simp: dl_seq_def intro: dl_list_unique)

lemma dl_ok_lists: "dl_ok H h \<Longrightarrow> dl_lists H h (dl_seq H h)"
proof -
  assume "dl_ok H h"
  then obtain L where L: "dl_lists H h L" by (auto simp: dl_ok_def)
  then have "dl_seq H h l = L l" if "l \<in> H" for l
    using that by (auto intro: dl_seq_eq)
  with L show ?thesis by (simp add: dl_lists_def)
qed

lemma dl_seq_upd:
  assumes "dl_lists H h (L(l := xs))" "l \<in> H" "\<And>m. m \<notin> H \<Longrightarrow> L m = []"
  shows "dl_ok H h" "dl_seq H h = L(l := xs)"
proof -
  show "dl_ok H h" using assms(1) by (auto simp: dl_ok_def)
  show "dl_seq H h = L(l := xs)"
  proof
    fix m
    show "dl_seq H h m = (L(l := xs)) m"
    proof (cases "m \<in> H")
      case True
      with assms(1) show ?thesis by (intro dl_seq_eq) auto
    next
      case False
      with assms(2,3) show ?thesis by (auto simp: dl_seq_def)
    qed
  qed
qed

section \<open>The contract of intrusive lists\<close>

text \<open>
  What the kernel relies on: \<open>seq h l\<close> is the content of the list with head \<open>l\<close>. A node that is
  on no list can be linked at either end or in front of a linked node; unlinking a node does
  not need to know which list it is on.
\<close>

locale intrusive_lists =
  fixes ok :: "'h \<Rightarrow> bool"
    and seq :: "'h \<Rightarrow> 'l \<Rightarrow> 'n list"
    and head :: "'l \<Rightarrow> bool"
    and node :: "'n \<Rightarrow> bool"
    and tail_insert :: "'l \<Rightarrow> 'n \<Rightarrow> 'h \<Rightarrow> 'h"
    and head_insert :: "'l \<Rightarrow> 'n \<Rightarrow> 'h \<Rightarrow> 'h"
    and insert_before :: "'n \<Rightarrow> 'n \<Rightarrow> 'h \<Rightarrow> 'h"
    and delete :: "'n \<Rightarrow> 'h \<Rightarrow> 'h"
    and empty :: "'l \<Rightarrow> 'h \<Rightarrow> bool"
    and first :: "'l \<Rightarrow> 'h \<Rightarrow> 'n"
  assumes seq_distinct: "ok h \<Longrightarrow> head l \<Longrightarrow> distinct (seq h l)"
    and seq_disjoint: "ok h \<Longrightarrow> head l \<Longrightarrow> head m \<Longrightarrow> l \<noteq> m \<Longrightarrow> set (seq h l) \<inter> set (seq h m) = {}"
    and tail_insert_law: "ok h \<Longrightarrow> head l \<Longrightarrow> node n \<Longrightarrow> (\<And>m. head m \<Longrightarrow> n \<notin> set (seq h m)) \<Longrightarrow>
      ok (tail_insert l n h) \<and> seq (tail_insert l n h) = (seq h)(l := seq h l @ [n])"
    and head_insert_law: "ok h \<Longrightarrow> head l \<Longrightarrow> node n \<Longrightarrow> (\<And>m. head m \<Longrightarrow> n \<notin> set (seq h m)) \<Longrightarrow>
      ok (head_insert l n h) \<and> seq (head_insert l n h) = (seq h)(l := n # seq h l)"
    and insert_before_law: "ok h \<Longrightarrow> head l \<Longrightarrow> node n \<Longrightarrow> (\<And>m. head m \<Longrightarrow> n \<notin> set (seq h m)) \<Longrightarrow>
      p \<in> set (seq h l) \<Longrightarrow>
      ok (insert_before p n h) \<and> seq (insert_before p n h) = (seq h)(l := ins_before p n (seq h l))"
    and delete_law: "ok h \<Longrightarrow> head l \<Longrightarrow> n \<in> set (seq h l) \<Longrightarrow>
      ok (delete n h) \<and> seq (delete n h) = (seq h)(l := remove1 n (seq h l))"
    and empty_law: "ok h \<Longrightarrow> head l \<Longrightarrow> empty l h \<longleftrightarrow> seq h l = []"
    and first_law: "ok h \<Longrightarrow> head l \<Longrightarrow> seq h l \<noteq> [] \<Longrightarrow> first l h = hd (seq h l)"
begin

text \<open>After a deletion the node is on no list, so it can be linked again elsewhere.\<close>

lemma delete_unlinks:
  assumes "ok h" "head l" "n \<in> set (seq h l)" "head m"
  shows "n \<notin> set (seq (delete n h) m)"
  using delete_law [OF assms(1-3)] seq_disjoint [OF assms(1,2,4)] seq_distinct [OF assms(1,2)]
    assms(3) by (auto simp: set_remove1_eq)

lemma move_to_tail:
  assumes "ok h" "head l" "n \<in> set (seq h l)" "head m" "node n" "l \<noteq> m"
  shows "ok (tail_insert m n (delete n h))"
    and "seq (tail_insert m n (delete n h)) =
      (seq h)(l := remove1 n (seq h l), m := seq h m @ [n])"
proof -
  note d = delete_law [OF assms(1-3)]
  from d have "ok (delete n h)" by simp
  from tail_insert_law [OF this assms(4,5)] delete_unlinks [OF assms(1-3)]
  have "ok (tail_insert m n (delete n h)) \<and> seq (tail_insert m n (delete n h)) =
      (seq (delete n h))(m := seq (delete n h) m @ [n])"
    by blast
  with d assms(6) show "ok (tail_insert m n (delete n h))"
    and "seq (tail_insert m n (delete n h)) =
      (seq h)(l := remove1 n (seq h l), m := seq h m @ [n])"
    by simp_all
qed

text \<open>First in, first out: a node appended to a list leaves it after all earlier ones.\<close>

lemma tail_insert_first:
  assumes "ok h" "head l" "node n" "\<And>m. head m \<Longrightarrow> n \<notin> set (seq h m)"
  shows "first l (tail_insert l n h) = (if empty l h then n else first l h)"
  using tail_insert_law [OF assms(1-4)] empty_law [OF assms(1,2)] first_law [OF assms(1,2)]
    first_law [of "tail_insert l n h" l] assms(2) by simp

lemma delete_after_tail_insert:
  assumes "ok h" "head l" "node n" "\<And>m. head m \<Longrightarrow> n \<notin> set (seq h m)"
  shows "seq (delete n (tail_insert l n h)) = seq h"
  using tail_insert_law [OF assms(1-4)] delete_law [of "tail_insert l n h" l n] assms(2,4)
  by (simp add: fun_upd_idem)

end

section \<open>The pointer operations meet the contract\<close>

lemma dl_add_lists:
  assumes ok: "dl_ok H h" and l: "l \<in> H" and p: "p \<in> set (l # dl_seq H h l)"
    and n: "n \<noteq> 0" "n \<notin> H" and free: "\<And>m. m \<in> H \<Longrightarrow> n \<notin> set (dl_seq H h m)"
  shows "dl_ok H (LOS_ListAdd p n h) \<and>
    dl_seq H (LOS_ListAdd p n h) = (dl_seq H h)(l := ins_node l p n (dl_seq H h l))"
proof -
  note dls = dl_ok_lists [OF ok]
  note dl = dl_listsD [OF dls l]
  have nl: "n \<notin> set (l # dl_seq H h l)" using free l n by auto
  have "dl_lists H (LOS_ListAdd p n h) ((dl_seq H h)(l := ins_node l p n (dl_seq H h l)))"
  proof (rule dl_lists_update [OF dls l])
    show "dl_list (LOS_ListAdd p n h) l (ins_node l p n (dl_seq H h l))"
      by (rule dl_list_add [OF dl p nl n(1)])
    show "pstNext (LOS_ListAdd p n h) x = pstNext h x \<and> pstPrev (LOS_ListAdd p n h) x = pstPrev h x"
      if "x \<notin> set (l # dl_seq H h l)" "x \<noteq> n" for x
      using that by (intro dl_list_add_frame [OF dl p nl])
    show "set (ins_node l p n (dl_seq H h l)) \<subseteq> insert n (set (dl_seq H h l))"
      using p by (auto simp: ins_node_def)
  qed (use free n in auto)
  from dl_seq_upd [OF this l] show ?thesis by (simp add: dl_seq_def)
qed

lemma dl_delete_lists:
  assumes ok: "dl_ok H h" and l: "l \<in> H" and n: "n \<in> set (dl_seq H h l)"
  shows "dl_ok H (LOS_ListDelete n h) \<and>
    dl_seq H (LOS_ListDelete n h) = (dl_seq H h)(l := remove1 n (dl_seq H h l))"
proof -
  note dls = dl_ok_lists [OF ok]
  note dl = dl_listsD [OF dls l]
  have "dl_lists H (LOS_ListDelete n h) ((dl_seq H h)(l := remove1 n (dl_seq H h l)))"
  proof (rule dl_lists_update [OF dls l, where n = n])
    show "dl_list (LOS_ListDelete n h) l (remove1 n (dl_seq H h l))"
      by (rule dl_list_delete [OF dl n])
    show "pstNext (LOS_ListDelete n h) x = pstNext h x \<and> pstPrev (LOS_ListDelete n h) x = pstPrev h x"
      if "x \<notin> set (l # dl_seq H h l)" for x
      using that by (intro dl_list_delete_frame [OF dl n])
    show "n \<notin> set (m # dl_seq H h m)" if "m \<in> H" "m \<noteq> l" for m
      using dl_lists_disjoint [OF dls l that(1)] that n by auto
  qed (use set_remove1_subset in auto)
  from dl_seq_upd [OF this l] show ?thesis by (simp add: dl_seq_def)
qed

interpretation dl: intrusive_lists "dl_ok H" "dl_seq H" "\<lambda>l. l \<in> H" "\<lambda>n. n \<noteq> 0 \<and> n \<notin> H"
  LOS_ListTailInsert LOS_ListHeadInsert LOS_ListTailInsert LOS_ListDelete
  LOS_ListEmpty LOS_DL_LIST_FIRST for H
proof (unfold_locales, goal_cases)
  case (1 h l)
  from dl_listsD [OF dl_ok_lists [OF 1(1)] 1(2)] show ?case by (simp add: dl_list_def)
next
  case (2 h l m)
  with dl_lists_disjoint [OF dl_ok_lists [OF 2(1)] 2(2,3)] show ?case by auto
next
  case (3 h l n)
  note dl = dl_listsD [OF dl_ok_lists [OF 3(1)] 3(2)]
  have "last (l # dl_seq H h l) \<in> set (l # dl_seq H h l)" by (rule last_in_set) simp
  from dl_add_lists [OF 3(1,2) this] 3 dl show ?case
    by (simp add: LOS_ListTailInsert_def dl_list_prev [OF dl] ins_node_last dl_list_def
        del: last.simps)
next
  case (4 h l n)
  from dl_add_lists [OF 4(1,2), of l n] 4 show ?case
    by (simp add: LOS_ListHeadInsert_def ins_node_def)
next
  case (5 h l n p)
  note dl = dl_listsD [OF dl_ok_lists [OF 5(1)] 5(2)]
  from 5(5) obtain us vs where xs: "dl_seq H h l = us @ p # vs"
    by (meson split_list_first)
  have "last (l # us) \<in> set (l # us)" by (rule last_in_set) simp
  then have "last (l # us) \<in> set (l # dl_seq H h l)" using xs by auto
  from dl_add_lists [OF 5(1,2) this, of n] 5 have
    "dl_ok H (LOS_ListAdd (last (l # us)) n h) \<and> dl_seq H (LOS_ListAdd (last (l # us)) n h) =
      (dl_seq H h)(l := ins_node l (last (l # us)) n (dl_seq H h l))" by blast
  moreover have "pstPrev h p = last (l # us)"
    using dl unfolding xs by (rule dl_prev_node)
  moreover have "ins_node l (last (l # us)) n (dl_seq H h l) = ins_before p n (dl_seq H h l)"
    using dl unfolding xs by (intro ins_node_before) (simp add: dl_list_def)
  ultimately show ?case by (simp add: LOS_ListTailInsert_def del: last.simps)
next
  case (6 h l n)
  then show ?case by (rule dl_delete_lists)
next
  case (7 h l)
  from dl_list_empty [OF dl_listsD [OF dl_ok_lists [OF 7(1)] 7(2)]] show ?case .
next
  case (8 h l)
  from dl_list_next [OF dl_listsD [OF dl_ok_lists [OF 8(1)] 8(2)]] 8(3) show ?case
    by (simp add: LOS_DL_LIST_FIRST_def)
qed

section \<open>Properties\<close>

lemma dl_lists_cong_content: "\<forall>k\<in>H. L k = L' k \<Longrightarrow> dl_lists H h L = dl_lists H h L'"
  by (simp add: dl_lists_def)

lemma dl_lists_seq:
  assumes "dl_lists H h L" "l \<in> H"
  shows "dl_seq H h l = L l"
  using dl_seq_eq [OF dl_listsD [OF assms] assms(2)] .

lemma dl_lists_node:
  assumes "dl_lists H h L" "l \<in> H" "n \<in> set (L l)"
  shows "n \<noteq> 0 \<and> n \<notin> H"
proof -
  have "n \<noteq> m" if "m \<in> H" for m
    using dl_lists_disjoint [OF assms(1,2) that] dl_listsD [OF assms(1,2)] assms(3)
    by (cases "m = l") (auto simp: dl_list_def)
  moreover have "n \<noteq> 0" using dl_listsD [OF assms(1,2)] assms(3) unfolding dl_list_def by (metis list.set_intros(2))
  ultimately show ?thesis by blast
qed

text \<open>
  C36. Moving a linked node to another list, as the kernel does for every control block
  (\<open>LOS_ListDelete\<close> then \<open>LOS_ListTailInsert\<close>): the stores keep all circles well formed and
  disjoint, take the node out of the list it was on and append it to the other one.
\<close>

theorem list_move_to_tail:
  assumes "dl_lists H h L" "l \<in> H" "m \<in> H" "l \<noteq> m" "n \<in> set (L l)"
  shows "dl_lists H (LOS_ListTailInsert m n (LOS_ListDelete n h))
    (L(l := remove1 n (L l), m := L m @ [n]))"
proof -
  have ok: "dl_ok H h" using assms(1) by (auto simp: dl_ok_def)
  note eq = dl_lists_seq [OF assms(1)]
  have n: "n \<noteq> 0 \<and> n \<notin> H" by (rule dl_lists_node [OF assms(1,2,5)])
  have "n \<in> set (dl_seq H h l)" using assms(2,5) eq by simp
  note move = dl.move_to_tail [where H = H, OF ok assms(2) this assms(3) n assms(4)]
  show ?thesis
    using dl_ok_lists [OF move(1)] assms(2,3) eq unfolding move(2)
    by (subst dl_lists_cong_content [where L' = "(dl_seq H h)(l := remove1 n (dl_seq H h l), m := dl_seq H h m @ [n])"])
      auto
qed

definition dl_example :: dl_heap where
  "dl_example = \<lparr>pstNext = (\<lambda>_. 0)(1 := 10, 10 := 11, 11 := 1, 2 := 2),
                 pstPrev = (\<lambda>_. 0)(1 := 11, 11 := 10, 10 := 1, 2 := 2)\<rparr>"

theorem list_move_to_tail_witness:
  "dl_lists {1, 2} (LOS_ListTailInsert 2 10 (LOS_ListDelete 10 dl_example))
    (((\<lambda>_. [])(1 := [10, 11]))(1 := [11], 2 := [10]))"
  using list_move_to_tail [of "{1, 2}" dl_example "(\<lambda>_. [])(1 := [10, 11])" 1 2 10]
  by (simp add: dl_lists_def dl_list_def dl_example_def)

text \<open>
  \<open>LOS_DL_LIST_FOR_EACH\<close> over a well-formed circle ends after one step per node and visits
  exactly the linked nodes, in order.
\<close>

theorem list_for_each:
  assumes "dl_list h l xs" "length xs < fuel"
  shows "LOS_DL_LIST_FOR_EACH fuel l h = Some xs"
  using assms dl_walk_seg [of h l xs l fuel] by (simp add: LOS_DL_LIST_FOR_EACH_def dl_list_def)

theorem list_for_each_witness:
  "LOS_DL_LIST_FOR_EACH 3 1 dl_example = Some [10, 11]"
  by (rule list_for_each) (simp_all add: dl_list_def dl_example_def)

lemma dl_seg_nth_ends:
  assumes "dl_seg h a xs b"
  shows "pstNext h a = hd (xs @ [b])" "pstPrev h b = last (a # xs)"
proof -
  show "pstNext h a = hd (xs @ [b])" using assms by (cases xs) auto
  show "pstPrev h b = last (a # xs)" using assms by (cases xs rule: rev_cases) auto
qed

text \<open>
  \<open>LOS_ListAddList\<close> splices a whole circle, its head included, behind the head of another
  one: the result is one well-formed circle with the spliced nodes first.
\<close>

theorem list_add_list:
  assumes "dl_list h l xs" "dl_list h n ys" "set (l # xs) \<inter> set (n # ys) = {}"
  shows "dl_list (LOS_ListAddList l n h) l (n # ys @ xs)"
proof -
  let ?h = "LOS_ListAddList l n h" and ?a = "hd (xs @ [l])" and ?b = "last (n # ys)"
  have segs: "dl_seg h l xs l" "dl_seg h n ys n" and d: "distinct (l # xs)" "distinct (n # ys)"
    using assms by (auto simp: dl_list_def)
  note e = dl_seg_nth_ends [OF segs(1)] dl_seg_nth_ends [OF segs(2)]
  have a: "?a \<in> set (xs @ [l])" and b: "?b \<in> set (n # ys)"
    by (rule hd_in_set; simp) (rule last_in_set; simp)
  have links: "pstNext ?h = (pstNext h)(l := n, ?b := ?a)" "pstPrev ?h = (pstPrev h)(n := l, ?a := ?b)"
    using a b assms(3) by (auto simp: LOS_ListAddList_def Let_def e fun_eq_iff)
  have "dl_seg ?h n (ys @ xs) l"
  proof (cases xs)
    case Nil
    then show ?thesis
    proof (cases ys rule: rev_cases)
      case (snoc ys' y)
      have "dl_seg ?h n ys' y = dl_seg h n ys' y"
        using d assms(3) snoc Nil by (intro dl_seg_cong) (auto simp: links)
      with snoc Nil segs(2) assms(3) show ?thesis by (auto simp: links)
    qed (use Nil assms(3) in \<open>auto simp: links\<close>)
  next
    case (Cons x xs')
    have tl: "dl_seg ?h x xs' l"
    proof -
      have "dl_seg ?h x xs' l = dl_seg h x xs' l"
        using d assms(3) Cons b by (intro dl_seg_cong) (auto simp: links)
      then show ?thesis using segs Cons by simp
    qed
    show ?thesis
    proof (cases ys rule: rev_cases)
      case Nil
      with Cons tl assms(3) show ?thesis by (auto simp: links)
    next
      case (snoc ys' y)
      have "dl_seg ?h n ys' y = dl_seg h n ys' y"
        using d assms(3) snoc Cons by (intro dl_seg_cong) (auto simp: links)
      with snoc Cons tl segs(2) d assms(3) show ?thesis by (auto simp: links)
    qed
  qed
  moreover have "pstNext ?h l = n" "pstPrev ?h n = l"
    using a b assms(3) by (auto simp: links)
  ultimately show ?thesis
    using assms by (auto simp: dl_list_def)
qed

theorem list_add_list_witness:
  "dl_list (LOS_ListAddList 2 1 dl_example) 2 [1, 10, 11]"
  using list_add_list [of dl_example 2 "[]" 1 "[10, 11]"] by (simp add: dl_list_def dl_example_def)

end
