(* ===== verification/Bitmap.thy ===== *)
theory Bitmap
  imports Kernel_Prelude
begin

text \<open>
  Bit maps, \<^verbatim>\<open>kernel/base/core/los_bitmap.c\<close>: single bits of a 32 bit word (priority bit maps),
  and ranges of bits in an array of \<open>UINTPTR\<close> words, 32 bits each on this architecture. The
  count of leading and trailing zeros are the compiler built-ins behind \<open>CLZ\<close> and \<open>CTZ\<close>, defined
  for a word that is not zero. The address space identifier pool of
  \<^verbatim>\<open>arch/arm/arm/src/los_asid.c\<close> is the client of the range operations.
\<close>

section \<open>Leading and trailing zeros\<close>

fun clz_below :: "nat \<Rightarrow> u32 \<Rightarrow> nat" where
  "clz_below 0 w = 32"
| "clz_below (Suc i) w = (if bit w i then 31 - i else clz_below i w)"

definition CLZ :: "u32 \<Rightarrow> nat" where
  "CLZ w = clz_below 32 w"

fun ctz_above :: "nat \<Rightarrow> nat \<Rightarrow> u32 \<Rightarrow> nat" where
  "ctz_above 0 i w = i"
| "ctz_above (Suc n) i w = (if bit w i then i else ctz_above n (Suc i) w)"

definition CTZ :: "u32 \<Rightarrow> nat" where
  "CTZ w = ctz_above 32 0 w"

lemma word_zero_iff: "(w :: u32) = 0 \<longleftrightarrow> (\<forall>i<32. \<not> bit w i)"
  by (auto simp: bit_eq_iff dest: bit_imp_le_length)

lemma clz_below_Some:
  assumes "i < n" "n \<le> 32" "bit w i" "\<And>j. i < j \<Longrightarrow> j < n \<Longrightarrow> \<not> bit w j"
  shows "clz_below n w = 31 - i"
  using assms by (induction n) (auto simp: less_Suc_eq)

lemma clz_below_top:
  assumes "\<exists>i<n. bit w i" "n \<le> 32"
  shows "\<exists>i<n. clz_below n w = 31 - i \<and> bit w i \<and> (\<forall>j. i < j \<and> j < n \<longrightarrow> \<not> bit w j)"
  using assms
proof (induction n)
  case (Suc n)
  show ?case
  proof (cases "bit w n")
    case True
    then show ?thesis by (intro exI [of _ n]) auto
  next
    case False
    with Suc.prems have "\<exists>i<n. bit w i" by (auto simp: less_Suc_eq)
    with Suc False show ?thesis by (auto simp: less_Suc_eq)
  qed
qed simp

text \<open>The value \<open>CLZ w\<close> of a word that is not zero is the distance of its top bit from bit 31.\<close>

lemma CLZ_top:
  assumes "w \<noteq> 0"
  shows "CLZ w < 32" "bit w (31 - CLZ w)" "\<And>k. k < CLZ w \<Longrightarrow> \<not> bit w (31 - k)"
proof -
  from assms have "\<exists>i<32. bit w i" by (simp add: word_zero_iff)
  from clz_below_top [OF this] obtain i where i: "i < 32" "CLZ w = 31 - i" "bit w i"
    "\<And>j. i < j \<Longrightarrow> j < 32 \<Longrightarrow> \<not> bit w j"
    by (auto simp: CLZ_def)
  then show "CLZ w < 32" "bit w (31 - CLZ w)" by auto
  show "\<not> bit w (31 - k)" if "k < CLZ w" for k
    using i that by (intro i(4)) auto
qed

lemma CLZ_eqI:
  assumes "p < 32" "bit w (31 - p)" "\<And>k. k < p \<Longrightarrow> \<not> bit w (31 - k)"
  shows "CLZ w = p"
proof -
  have "w \<noteq> 0" using assms(1,2) by auto
  from CLZ_top [OF this] assms show ?thesis
    by (metis nat_neq_iff)
qed

lemma ctz_above_low:
  assumes "\<exists>j. i \<le> j \<and> j < i + n \<and> bit w j"
  shows "i \<le> ctz_above n i w \<and> ctz_above n i w < i + n \<and> bit w (ctz_above n i w) \<and>
    (\<forall>j. i \<le> j \<and> j < ctz_above n i w \<longrightarrow> \<not> bit w j)"
  using assms
proof (induction n arbitrary: i)
  case (Suc n)
  show ?case
  proof (cases "bit w i")
    case False
    with Suc.prems have "\<exists>j. Suc i \<le> j \<and> j < Suc i + n \<and> bit w j"
      by (metis add_Suc_right add_Suc le_eq_less_or_eq Suc_le_eq)
    note IH = Suc.IH [OF this]
    have "\<not> bit w j" if "i \<le> j" "j < ctz_above n (Suc i) w" for j
      using IH False that by (cases "j = i") auto
    with IH False show ?thesis by auto
  qed auto
qed auto

lemma CTZ_low:
  assumes "w \<noteq> 0"
  shows "CTZ w < 32" "bit w (CTZ w)" "\<And>k. k < CTZ w \<Longrightarrow> \<not> bit w k"
  using ctz_above_low [of 0 32 w] assms by (auto simp: CTZ_def word_zero_iff)

section \<open>Single bits\<close>

abbreviation (input) OS_BITMAP_MASK :: u16 where "OS_BITMAP_MASK \<equiv> 0x1F"
abbreviation (input) LOS_INVALID_BIT_INDEX :: nat where "LOS_INVALID_BIT_INDEX \<equiv> 32"

definition LOS_BitmapSet :: "u32 \<Rightarrow> u16 \<Rightarrow> u32" where
  "LOS_BitmapSet bitmap pos = bitmap OR push_bit (unat (pos AND OS_BITMAP_MASK)) 1"

definition LOS_BitmapClr :: "u32 \<Rightarrow> u16 \<Rightarrow> u32" where
  "LOS_BitmapClr bitmap pos = bitmap AND NOT (push_bit (unat (pos AND OS_BITMAP_MASK)) 1)"

definition LOS_HighBitGet :: "u32 \<Rightarrow> nat" where
  "LOS_HighBitGet bitmap = (if bitmap = 0 then LOS_INVALID_BIT_INDEX else 31 - CLZ bitmap)"

definition LOS_LowBitGet :: "u32 \<Rightarrow> nat" where
  "LOS_LowBitGet bitmap = (if bitmap = 0 then LOS_INVALID_BIT_INDEX else CTZ bitmap)"

lemma bitmap_pos: "unat pos < 32 \<Longrightarrow> unat (pos AND OS_BITMAP_MASK) = unat (pos :: u16)"
proof -
  assume "unat pos < 32"
  have "pos AND 0x1F = take_bit 5 pos"
    by (simp add: take_bit_eq_mask mask_eq_exp_minus_1)
  moreover have "take_bit 5 (unat pos) = unat pos"
    using \<open>unat pos < 32\<close> by (simp add: take_bit_nat_eq_self)
  ultimately show ?thesis by (simp add: unsigned_take_bit_eq)
qed

lemma bit_BitmapSet:
  "unat pos < 32 \<Longrightarrow> bit (LOS_BitmapSet b pos) i \<longleftrightarrow> bit b i \<or> i = unat pos"
  by (auto simp: LOS_BitmapSet_def bitmap_pos bit_simps)

lemma bit_BitmapClr:
  "unat pos < 32 \<Longrightarrow> bit (LOS_BitmapClr b pos) i \<longleftrightarrow> bit b i \<and> i \<noteq> unat pos"
  by (auto simp: LOS_BitmapClr_def bitmap_pos bit_simps dest: bit_imp_le_length)

lemma LOS_HighBitGet_eq: "w \<noteq> 0 \<Longrightarrow> LOS_HighBitGet w = Max {i. bit w i}"
proof -
  assume w: "w \<noteq> 0"
  have fin: "finite {i. bit w i}"
    by (rule finite_subset [of _ "{..<32}"]) (auto dest: bit_imp_le_length)
  have "i \<le> 31 - CLZ w" if "bit w i" for i
  proof (rule ccontr)
    assume "\<not> i \<le> 31 - CLZ w"
    moreover from that have "i < 32" by (auto dest: bit_imp_le_length)
    ultimately have "31 - i < CLZ w" by linarith
    from CLZ_top(3) [OF w this] \<open>i < 32\<close> that show False by simp
  qed
  with CLZ_top [OF w] fin have "Max {i. bit w i} = 31 - CLZ w"
    by (intro Max_eqI) auto
  with w show ?thesis by (simp add: LOS_HighBitGet_def)
qed

lemma LOS_LowBitGet_eq: "w \<noteq> 0 \<Longrightarrow> LOS_LowBitGet w = Min {i. bit w i}"
proof -
  assume w: "w \<noteq> 0"
  have fin: "finite {i. bit w i}"
    by (rule finite_subset [of _ "{..<32}"]) (auto dest: bit_imp_le_length)
  have "Min {i. bit w i} = CTZ w"
    using CTZ_low [OF w] fin by (intro Min_eqI) (auto simp: not_less [symmetric])
  with w show ?thesis by (simp add: LOS_LowBitGet_def)
qed

lemma bit_unat: "bit (unat w) i \<longleftrightarrow> bit w i" for w :: u32
  by (simp add: bit_unsigned_iff)

lemma high_order:
  assumes "0 < n" "n < 2 ^ 32"
  defines "k \<equiv> LOS_HighBitGet (of_nat n)"
  shows "2 ^ k \<le> n" "n < 2 ^ Suc k"
proof -
  let ?w = "of_nat n :: u32"
  have u: "unat ?w = n" using assms(2) by (simp add: unat_of_nat take_bit_nat_eq_self)
  then have nz: "?w \<noteq> 0" using assms(1) by (metis less_irrefl unsigned_0)
  have b: "bit ?w i \<longleftrightarrow> bit n i" for i using bit_unat [of ?w i] unfolding u by (rule sym)
  have fin: "finite {i. bit ?w i}" by (rule finite_subset [of _ "{..<32}"]) (auto dest: bit_imp_le_length)
  have ne: "{i. bit ?w i} \<noteq> {}"
  proof
    assume "{i. bit ?w i} = {}"
    then have "?w = 0" by (intro bit_eqI) auto
    then show False using nz by simp
  qed
  have k: "k = Max {i. bit ?w i}" unfolding k_def by (rule LOS_HighBitGet_eq [OF nz])
  have "bit n k" using Max_in [OF fin ne, folded k] b [of k] by blast
  then have "n div 2 ^ k \<noteq> 0" unfolding bit_iff_odd by (metis even_zero)
  then show "2 ^ k \<le> n" by (simp add: div_eq_0_iff)
  have "take_bit (Suc k) n = n"
  proof (rule bit_eqI)
    fix i
    have "i < Suc k" if "bit n i" using that b fin unfolding k by (metis Max_ge le_imp_less_Suc mem_Collect_eq)
    then show "bit (take_bit (Suc k) n) i \<longleftrightarrow> bit n i" by (auto simp: bit_take_bit_iff)
  qed
  then show "n < 2 ^ Suc k" by (metis take_bit_nat_less_exp)
qed

section \<open>Ranges of bits in an array of words\<close>

text \<open>
  The array is a map from word indices to words. The loop variables \<open>numsSet\<close> and \<open>bitsToSet\<close> are
  natural numbers: the loop condition keeps the C subtraction from wrapping.
\<close>

type_synonym bitmap_words = "nat \<Rightarrow> u32"

definition BITMAP_FIRST_WORD_MASK :: "nat \<Rightarrow> u32" where
  "BITMAP_FIRST_WORD_MASK start = push_bit (start mod 32) (NOT 0)"

definition BITMAP_LAST_WORD_MASK :: "nat \<Rightarrow> u32" where
  "BITMAP_LAST_WORD_MASK nbits =
     (if nbits mod 32 \<noteq> 0 then push_bit (nbits mod 32) 1 - 1 else NOT 0)"

function set_bits_loop :: "bitmap_words \<Rightarrow> nat \<Rightarrow> nat \<Rightarrow> nat \<Rightarrow> u32 \<Rightarrow> bitmap_words \<times> nat \<times> nat \<times> u32"
where
  "set_bits_loop bm p numsSet bitsToSet maskToSet =
     (if numsSet > bitsToSet
      then set_bits_loop (bm(p := bm p OR maskToSet)) (Suc p) (numsSet - bitsToSet) 32 (NOT 0)
      else (bm, p, numsSet, maskToSet))"
  by pat_completeness auto
termination
  by (relation "measure (\<lambda>(bm, p, n, b, m). n + (if b = 32 then 0 else 1))") auto

definition LOS_BitmapSetNBits :: "bitmap_words \<Rightarrow> u32 \<Rightarrow> u32 \<Rightarrow> bitmap_words" where
  "LOS_BitmapSetNBits bitmap start numsSet =
     (let size = start + numsSet;
          (bm, p, n, m) = set_bits_loop bitmap (unat start div 32) (unat numsSet)
            (32 - unat start mod 32) (BITMAP_FIRST_WORD_MASK (unat start))
      in if n \<noteq> 0 then bm(p := bm p OR (m AND BITMAP_LAST_WORD_MASK (unat size))) else bm)"

function clr_bits_loop :: "bitmap_words \<Rightarrow> nat \<Rightarrow> nat \<Rightarrow> nat \<Rightarrow> u32 \<Rightarrow> bitmap_words \<times> nat \<times> nat \<times> u32"
where
  "clr_bits_loop bm p numsClear bitsToClear maskToClear =
     (if numsClear \<ge> bitsToClear
      then clr_bits_loop (bm(p := bm p AND NOT maskToClear)) (Suc p) (numsClear - bitsToClear) 32
        (NOT 0)
      else (bm, p, numsClear, maskToClear))"
  by pat_completeness auto
termination
  by (relation "measure (\<lambda>(bm, p, n, b, m). n + (if b = 32 then 0 else 1))") auto

definition LOS_BitmapClrNBits :: "bitmap_words \<Rightarrow> u32 \<Rightarrow> u32 \<Rightarrow> bitmap_words" where
  "LOS_BitmapClrNBits bitmap start numsClear =
     (let size = start + numsClear;
          (bm, p, n, m) = clr_bits_loop bitmap (unat start div 32) (unat numsClear)
            (32 - unat start mod 32) (BITMAP_FIRST_WORD_MASK (unat start))
      in if n \<noteq> 0 then bm(p := bm p AND NOT (m AND BITMAP_LAST_WORD_MASK (unat size))) else bm)"

declare set_bits_loop.simps [simp del] clr_bits_loop.simps [simp del]

definition Ffz :: "u32 \<Rightarrow> nat" where
  "Ffz x = CTZ (NOT x)"

text \<open>\<open>None\<close> is the result \<open>-1\<close>.\<close>

fun ffz_loop :: "nat \<Rightarrow> nat \<Rightarrow> bitmap_words \<Rightarrow> nat \<Rightarrow> nat option" where
  "ffz_loop 0 i bitmap numBits = None"
| "ffz_loop (Suc k) i bitmap numBits =
     (if bitmap i = NOT 0 then ffz_loop k (Suc i) bitmap numBits
      else let b = i * 32 + Ffz (bitmap i) in if b < numBits then Some b else None)"

definition LOS_BitmapFfz :: "bitmap_words \<Rightarrow> u32 \<Rightarrow> nat option" where
  "LOS_BitmapFfz bitmap numBits =
     ffz_loop (unat ((numBits + 32 - 1) div 32)) 0 bitmap (unat numBits)"

text \<open>The bit at a position of the whole array.\<close>

definition bm_bit :: "bitmap_words \<Rightarrow> nat \<Rightarrow> bool" where
  "bm_bit bm k \<longleftrightarrow> bit (bm (k div 32)) (k mod 32)"

lemma bit_first_mask: "bit (BITMAP_FIRST_WORD_MASK s) i \<longleftrightarrow> i < 32 \<and> s mod 32 \<le> i"
  by (auto simp: BITMAP_FIRST_WORD_MASK_def bit_simps)

lemma bit_last_mask: "bit (BITMAP_LAST_WORD_MASK n) i \<longleftrightarrow> i < 32 \<and> (n mod 32 = 0 \<or> i < n mod 32)"
proof (cases "n mod 32 = 0")
  case False
  have "push_bit (n mod 32) 1 - 1 = (mask (n mod 32) :: u32)"
    by (simp add: mask_eq_exp_minus_1 push_bit_eq_mult)
  with False show ?thesis
    by (auto simp: BITMAP_LAST_WORD_MASK_def bit_mask_iff)
qed (simp add: BITMAP_LAST_WORD_MASK_def bit_simps)

text \<open>Changing one word of the array changes the 32 positions it holds.\<close>

lemma bm_bit_upd:
  "bm_bit (bm(p := w)) k = (if p * 32 \<le> k \<and> k < p * 32 + 32 then bit w (k - p * 32) else bm_bit bm k)"
proof (cases "k div 32 = p")
  case True
  then have "k mod 32 = k - p * 32" "p * 32 \<le> k" "k < p * 32 + 32"
    by (auto simp: modulo_nat_def)
  with True show ?thesis by (simp add: bm_bit_def)
next
  case False
  then have "\<not> (p * 32 \<le> k \<and> k < p * 32 + 32)" by auto
  with False show ?thesis by (auto simp: bm_bit_def)
qed

lemma bm_bit_word: "p * 32 \<le> k \<Longrightarrow> k < p * 32 + 32 \<Longrightarrow> bit (bm p) (k - p * 32) = bm_bit bm k"
  using bm_bit_upd [of bm p "bm p" k] by simp

lemma range_join: "l \<le> m \<Longrightarrow> m \<le> (e::nat) \<Longrightarrow> (A \<or> l \<le> k \<and> k < m) \<or> m \<le> k \<and> k < e \<longleftrightarrow> A \<or> l \<le> k \<and> k < e"
  by auto

lemma set_bits_loop_bits:
  assumes "set_bits_loop bm p n b m = (bm', p', n', m')"
    and "0 < b" "b \<le> 32" "\<And>i. bit m i \<longleftrightarrow> i < 32 \<and> 32 - b \<le> i"
  shows "\<exists>b'. 0 < b' \<and> b' \<le> 32 \<and> n' \<le> b' \<and> p * 32 + (32 - b) + n = p' * 32 + (32 - b') + n' \<and>
    p * 32 + (32 - b) \<le> p' * 32 + (32 - b') \<and>
    (\<forall>i. bit m' i \<longleftrightarrow> i < 32 \<and> 32 - b' \<le> i) \<and>
    (\<forall>k. bm_bit bm' k \<longleftrightarrow> bm_bit bm k \<or> p * 32 + (32 - b) \<le> k \<and> k < p' * 32 + (32 - b'))"
  using assms
proof (induction bm p n b m arbitrary: bm' p' n' m' rule: set_bits_loop.induct)
  case (1 bm p n b m)
  show ?case
  proof (cases "n > b")
    case True
    let ?bm = "bm(p := bm p OR m)"
    have eq: "set_bits_loop ?bm (Suc p) (n - b) 32 (NOT 0) = (bm', p', n', m')"
      using "1.prems"(1) True by (simp add: set_bits_loop.simps [of bm p n b m])
    have one: "bm_bit ?bm k \<longleftrightarrow> bm_bit bm k \<or> p * 32 + (32 - b) \<le> k \<and> k < p * 32 + 32" for k
      using "1.prems"(3) by (auto simp: bm_bit_upd bit_or_iff "1.prems"(4) bm_bit_word)
    have nm: "bit (NOT 0 :: u32) i \<longleftrightarrow> i < 32 \<and> 32 - 32 \<le> i" for i
      by (simp add: bit_not_iff)
    have e: "Suc p * 32 + (32 - 32) = p * 32 + (32::nat)" by simp
    have "0 < (32::nat)" "(32::nat) \<le> 32" by simp_all
    from "1.IH" [OF True eq this nm] obtain b' where b': "0 < b'" "b' \<le> 32" "n' \<le> b'"
      "p * 32 + 32 + (n - b) = p' * 32 + (32 - b') + n'"
      "p * 32 + 32 \<le> p' * 32 + (32 - b')"
      "\<forall>i. bit m' i \<longleftrightarrow> i < 32 \<and> 32 - b' \<le> i"
      "\<forall>k. bm_bit bm' k \<longleftrightarrow> bm_bit ?bm k \<or> p * 32 + 32 \<le> k \<and> k < p' * 32 + (32 - b')"
      unfolding e by blast
    have "bm_bit bm' k \<longleftrightarrow> bm_bit bm k \<or> p * 32 + (32 - b) \<le> k \<and> k < p' * 32 + (32 - b')" for k
    proof -
      have "p * 32 + (32 - b) \<le> p * 32 + 32" by simp
      from range_join [OF this b'(5)] show ?thesis
        unfolding b'(7) [rule_format] one .
    qed
    then have "\<forall>k. bm_bit bm' k \<longleftrightarrow> bm_bit bm k \<or> p * 32 + (32 - b) \<le> k \<and> k < p' * 32 + (32 - b')"
      by (rule allI)
    moreover have "p * 32 + (32 - b) + n = p' * 32 + (32 - b') + n'"
      using b'(4) True "1.prems"(2,3) by linarith
    moreover have "p * 32 + (32 - b) \<le> p' * 32 + (32 - b')"
      using b'(5) by linarith
    ultimately show ?thesis
      using b'(1,2,3,6) by (intro exI [of _ b'] conjI)
  next
    case False
    with "1.prems"(1) have "bm' = bm" "p' = p" "n' = n" "m' = m"
      by (simp_all add: set_bits_loop.simps [of bm p n b m])
    with "1.prems"(2-4) False show ?thesis
      by (intro exI [of _ b]) (simp, meson not_le)
  qed
qed


lemma bm_bit_set_tail:
  assumes "0 < b" "b \<le> 32" "0 < n" "n \<le> b" "\<And>i. bit m i \<longleftrightarrow> i < 32 \<and> 32 - b \<le> i"
    and "(p * 32 + (32 - b) + n) mod 32 = sz mod 32"
  shows "bit (m AND BITMAP_LAST_WORD_MASK sz) i \<longleftrightarrow> 32 - b \<le> i \<and> i < 32 - b + n"
proof -
  have le: "32 - b + n \<le> 32" using assms by simp
  have sz: "sz mod 32 = (32 - b + n) mod 32" 
    using assms(6) by (simp add: add.assoc)
  show ?thesis
  proof (cases "32 - b + n = 32")
    case True
    with sz show ?thesis by (auto simp: bit_and_iff bit_last_mask assms(5))
  next
    case False
    with le sz have "sz mod 32 = 32 - b + n" by simp
    with assms(1-4) False show ?thesis by (auto simp: bit_and_iff bit_last_mask assms(5))
  qed
qed

lemma unat_mod32: "unat (s + n :: u32) mod 32 = (unat s + unat n) mod 32"
proof -
  have "unat (s + n) = (unat s + unat n) mod (32 * 134217728)"
    by (simp add: unat_word_ariths)
  also have "\<dots> mod 32 = (unat s + unat n) mod 32"
    by (rule mod_mod_cancel) simp
  finally show ?thesis .
qed

lemma bm_bit_SetNBits:
  "bm_bit (LOS_BitmapSetNBits bm start num) k \<longleftrightarrow>
     bm_bit bm k \<or> unat start \<le> k \<and> k < unat start + unat num"
proof -
  let ?s = "unat start" and ?n = "unat num"
  obtain bm' p' n' m' where loop: "set_bits_loop bm (?s div 32) ?n (32 - ?s mod 32)
      (BITMAP_FIRST_WORD_MASK ?s) = (bm', p', n', m')"
    by (metis prod_cases4)
  have sm: "32 - (32 - ?s mod 32) = ?s mod 32" by simp
  have s: "?s div 32 * 32 + ?s mod 32 = ?s" by simp
  have "0 < 32 - ?s mod 32" "32 - ?s mod 32 \<le> 32" by simp_all
  from set_bits_loop_bits [OF loop this] obtain b where b: "0 < b" "b \<le> 32" "n' \<le> b"
    "?s + ?n = p' * 32 + (32 - b) + n'" "?s \<le> p' * 32 + (32 - b)"
    "\<forall>i. bit m' i \<longleftrightarrow> i < 32 \<and> 32 - b \<le> i"
    "\<forall>k. bm_bit bm' k \<longleftrightarrow> bm_bit bm k \<or> ?s \<le> k \<and> k < p' * 32 + (32 - b)"
    unfolding sm s bit_first_mask by blast
  show ?thesis
  proof (cases "n' = 0")
    case True
    with b show ?thesis by (simp add: LOS_BitmapSetNBits_def loop)
  next
    case False
    have tail: "bit (m' AND BITMAP_LAST_WORD_MASK (unat (start + num))) i \<longleftrightarrow>
        32 - b \<le> i \<and> i < 32 - b + n'" for i
      using b False by (intro bm_bit_set_tail [of b n' m' p']) (auto simp: unat_mod32)
    have "bm_bit (bm'(p' := bm' p' OR (m' AND BITMAP_LAST_WORD_MASK (unat (start + num))))) k \<longleftrightarrow>
      bm_bit bm' k \<or> p' * 32 + (32 - b) \<le> k \<and> k < ?s + ?n"
      using b(1-4) unfolding bm_bit_upd bit_or_iff tail by (auto simp: bm_bit_word)
    also have "\<dots> \<longleftrightarrow> bm_bit bm k \<or> ?s \<le> k \<and> k < ?s + ?n"
      unfolding b(7) [rule_format] using b(5) b(4) by (intro range_join) simp_all
    finally show ?thesis using False by (simp add: LOS_BitmapSetNBits_def loop)
  qed
qed


lemma range_cut: "l \<le> m \<Longrightarrow> m \<le> (e::nat) \<Longrightarrow>
    (A \<and> \<not> (l \<le> k \<and> k < m)) \<and> \<not> (m \<le> k \<and> k < e) \<longleftrightarrow> A \<and> \<not> (l \<le> k \<and> k < e)"
  by auto

lemma clr_bits_loop_bits:
  assumes "clr_bits_loop bm p n b m = (bm', p', n', m')"
    and "0 < b" "b \<le> 32" "\<And>i. bit m i \<longleftrightarrow> i < 32 \<and> 32 - b \<le> i"
  shows "\<exists>b'. 0 < b' \<and> b' \<le> 32 \<and> n' \<le> b' \<and> p * 32 + (32 - b) + n = p' * 32 + (32 - b') + n' \<and>
    p * 32 + (32 - b) \<le> p' * 32 + (32 - b') \<and>
    (\<forall>i. bit m' i \<longleftrightarrow> i < 32 \<and> 32 - b' \<le> i) \<and>
    (\<forall>k. bm_bit bm' k \<longleftrightarrow> bm_bit bm k \<and> \<not> (p * 32 + (32 - b) \<le> k \<and> k < p' * 32 + (32 - b')))"
  using assms
proof (induction bm p n b m arbitrary: bm' p' n' m' rule: clr_bits_loop.induct)
  case (1 bm p n b m)
  show ?case
  proof (cases "n \<ge> b")
    case True
    let ?bm = "bm(p := bm p AND NOT m)"
    have eq: "clr_bits_loop ?bm (Suc p) (n - b) 32 (NOT 0) = (bm', p', n', m')"
      using "1.prems"(1) True by (simp add: clr_bits_loop.simps [of bm p n b m])
    have one: "bm_bit ?bm k \<longleftrightarrow> bm_bit bm k \<and> \<not> (p * 32 + (32 - b) \<le> k \<and> k < p * 32 + 32)" for k
      using "1.prems"(3) by (auto simp: bm_bit_upd bit_and_iff bit_not_iff "1.prems"(4) bm_bit_word)
    have nm: "bit (NOT 0 :: u32) i \<longleftrightarrow> i < 32 \<and> 32 - 32 \<le> i" for i
      by (simp add: bit_not_iff)
    have e: "Suc p * 32 + (32 - 32) = p * 32 + (32::nat)" by simp
    have "0 < (32::nat)" "(32::nat) \<le> 32" by simp_all
    from "1.IH" [OF True eq this nm] obtain b' where b': "0 < b'" "b' \<le> 32" "n' \<le> b'"
      "p * 32 + 32 + (n - b) = p' * 32 + (32 - b') + n'" "p * 32 + 32 \<le> p' * 32 + (32 - b')"
      "\<forall>i. bit m' i \<longleftrightarrow> i < 32 \<and> 32 - b' \<le> i"
      "\<forall>k. bm_bit bm' k \<longleftrightarrow> bm_bit ?bm k \<and> \<not> (p * 32 + 32 \<le> k \<and> k < p' * 32 + (32 - b'))"
      unfolding e by blast
    have "p * 32 + (32 - b) \<le> p * 32 + 32" by simp
    from range_cut [OF this b'(5)]
    have "\<forall>k. bm_bit bm' k \<longleftrightarrow> bm_bit bm k \<and> \<not> (p * 32 + (32 - b) \<le> k \<and> k < p' * 32 + (32 - b'))"
      unfolding b'(7) [rule_format] one by (intro allI)
    moreover have "p * 32 + (32 - b) + n = p' * 32 + (32 - b') + n'"
      using b'(4) True "1.prems"(2,3) by linarith
    moreover have "p * 32 + (32 - b) \<le> p' * 32 + (32 - b')"
      using b'(5) by linarith
    ultimately show ?thesis
      using b'(1,2,3,6) by (intro exI [of _ b'] conjI)
  next
    case False
    with "1.prems"(1) have "bm' = bm" "p' = p" "n' = n" "m' = m"
      by (simp_all add: clr_bits_loop.simps [of bm p n b m])
    with "1.prems"(2-4) False show ?thesis
      by (intro exI [of _ b] conjI) auto
  qed
qed

lemma bm_bit_ClrNBits:
  "bm_bit (LOS_BitmapClrNBits bm start num) k \<longleftrightarrow>
     bm_bit bm k \<and> \<not> (unat start \<le> k \<and> k < unat start + unat num)"
proof -
  let ?s = "unat start" and ?n = "unat num"
  obtain bm' p' n' m' where loop: "clr_bits_loop bm (?s div 32) ?n (32 - ?s mod 32)
      (BITMAP_FIRST_WORD_MASK ?s) = (bm', p', n', m')"
    by (metis prod_cases4)
  have sm: "32 - (32 - ?s mod 32) = ?s mod 32" by simp
  have s: "?s div 32 * 32 + ?s mod 32 = ?s" by simp
  have "0 < 32 - ?s mod 32" "32 - ?s mod 32 \<le> 32" by simp_all
  from clr_bits_loop_bits [OF loop this] obtain b where b: "0 < b" "b \<le> 32" "n' \<le> b"
    "?s + ?n = p' * 32 + (32 - b) + n'" "?s \<le> p' * 32 + (32 - b)"
    "\<forall>i. bit m' i \<longleftrightarrow> i < 32 \<and> 32 - b \<le> i"
    "\<forall>k. bm_bit bm' k \<longleftrightarrow> bm_bit bm k \<and> \<not> (?s \<le> k \<and> k < p' * 32 + (32 - b))"
    unfolding sm s bit_first_mask by blast
  show ?thesis
  proof (cases "n' = 0")
    case True
    with b show ?thesis by (simp add: LOS_BitmapClrNBits_def loop)
  next
    case False
    have tail: "bit (m' AND BITMAP_LAST_WORD_MASK (unat (start + num))) i \<longleftrightarrow>
        32 - b \<le> i \<and> i < 32 - b + n'" for i
      using b False by (intro bm_bit_set_tail [of b n' m' p']) (auto simp: unat_mod32)
    have "bm_bit (bm'(p' := bm' p' AND NOT (m' AND BITMAP_LAST_WORD_MASK (unat (start + num))))) k \<longleftrightarrow>
      bm_bit bm' k \<and> \<not> (p' * 32 + (32 - b) \<le> k \<and> k < ?s + ?n)"
      using b(1-4) unfolding bm_bit_upd bit_and_iff [of _ "NOT _"] bit_not_iff tail
      by (auto simp: bm_bit_word)
    also have "\<dots> \<longleftrightarrow> bm_bit bm k \<and> \<not> (?s \<le> k \<and> k < ?s + ?n)"
      unfolding b(7) [rule_format] using b(5) b(4) by (intro range_cut) simp_all
    finally show ?thesis using False by (simp add: LOS_BitmapClrNBits_def loop)
  qed
qed

lemma ffz_loop_least:
  assumes "\<And>k. k < i * 32 \<Longrightarrow> bm_bit bm k" "numBits \<le> (i + w) * 32"
  shows "ffz_loop w i bm numBits =
    (if \<exists>k<numBits. \<not> bm_bit bm k then Some (LEAST k. \<not> bm_bit bm k) else None)"
  using assms
proof (induction w arbitrary: i)
  case 0
  then show ?case by auto
next
  case (Suc w)
  show ?case
  proof (cases "bm i = NOT 0")
    case True
    have "bm_bit bm k" if "k < Suc i * 32" for k
    proof (cases "k < i * 32")
      case False
      then have "k div 32 = i" using that by (simp add: div_nat_eqI)
      then show ?thesis using True by (simp add: bm_bit_def bit_not_iff)
    qed (rule Suc.prems)
    from Suc.IH [of "Suc i", OF this] Suc.prems(2) True show ?thesis by simp
  next
    case False
    then have nz: "NOT (bm i) \<noteq> 0"
      by (metis bit.double_compl)
    let ?k = "i * 32 + Ffz (bm i)"
    note low = CTZ_low [OF nz, folded Ffz_def]
    have "?k div 32 = i" "?k mod 32 = Ffz (bm i)" using low(1) by auto
    with low(2) have clear: "\<not> bm_bit bm ?k" by (simp add: bm_bit_def bit_not_iff)
    have below: "bm_bit bm k" if "k < ?k" for k
    proof (cases "k < i * 32")
      case False
      with that low(1) have d1: "k div 32 = i" by (simp add: div_nat_eqI)
      have "k = i * 32 + k mod 32" using d1 by (metis div_mult_mod_eq)
      with that have d: "k div 32 = i" "k mod 32 < Ffz (bm i)" using d1 by linarith+
      with low(3) [OF d(2)] show ?thesis by (simp add: bm_bit_def bit_not_iff)
    qed (rule Suc.prems)
    have "(LEAST k. \<not> bm_bit bm k) = ?k"
      using clear below by (intro Least_equality) (auto simp: not_le [symmetric])
    moreover have "(\<exists>k<numBits. \<not> bm_bit bm k) \<longleftrightarrow> ?k < numBits"
      using clear below by (meson le_less_trans not_le)
    ultimately show ?thesis using False by (simp add: Let_def)
  qed
qed

lemma LOS_BitmapFfz_least:
  assumes "unat numBits \<le> 2 ^ 32 - 32"
  shows "LOS_BitmapFfz bm numBits =
    (if \<exists>k<unat numBits. \<not> bm_bit bm k then Some (LEAST k. \<not> bm_bit bm k) else None)"
proof -
  have "numBits + 32 - 1 = numBits + 31" by simp
  moreover have "unat (numBits + 31) = unat numBits + 31"
    using assms by (simp add: unat_word_ariths)
  moreover have "unat (32 :: u32) = 32" by simp
  ultimately have w: "unat ((numBits + 32 - 1) div 32) = (unat numBits + 31) div 32"
    by (metis unat_div)
  show ?thesis
    unfolding LOS_BitmapFfz_def w by (rule ffz_loop_least) auto
qed


section \<open>The address space identifier pool\<close>

text \<open>
  \<open>g_asidPool\<close> has one bit for each of the \<open>1UL << MMU_ARM_ASID_BITS\<close> identifiers. An identifier is
  the first clear bit; when there is none the -1 of \<open>LOS_BitmapFfz\<close>, converted to \<open>UINT32\<close>, is the
  status that is returned.
\<close>

abbreviation (input) MMU_ARM_ASID_BITS :: nat where "MMU_ARM_ASID_BITS \<equiv> 8"

definition OsAllocAsid :: "(nat \<Rightarrow> u32) \<Rightarrow> u32 \<times> u32 option \<times> (nat \<Rightarrow> u32)" where
  "OsAllocAsid g_asidPool = (
     let firstZeroBit = (case LOS_BitmapFfz g_asidPool (push_bit MMU_ARM_ASID_BITS 1) of
           Some n \<Rightarrow> of_nat n | None \<Rightarrow> (- 1 :: u32)) in
     if firstZeroBit \<ge> 0 \<and> firstZeroBit < push_bit MMU_ARM_ASID_BITS 1
     then (0, Some firstZeroBit, LOS_BitmapSetNBits g_asidPool firstZeroBit 1)
     else (firstZeroBit, None, g_asidPool))"

definition OsFreeAsid :: "u32 \<Rightarrow> (nat \<Rightarrow> u32) \<Rightarrow> (nat \<Rightarrow> u32)" where
  "OsFreeAsid asid g_asidPool = LOS_BitmapClrNBits g_asidPool asid 1"

text \<open>The contract of a pool of identifiers: what is handed out was free, and nothing else changes.\<close>

locale id_pool =
  fixes taken :: "'s \<Rightarrow> 'i set" and range :: "'i set"
    and alloc :: "'s \<Rightarrow> ('i \<times> 's) option" and free :: "'i \<Rightarrow> 's \<Rightarrow> 's"
  assumes alloc_Some: "alloc s = Some (i, s') \<Longrightarrow> i \<in> range - taken s \<and> taken s' = insert i (taken s)"
    and alloc_None: "alloc s = None \<longleftrightarrow> range \<subseteq> taken s"
    and free_taken: "taken (free i s) = taken s - {i}"
begin

lemma alloc_twice_distinct:
  assumes "alloc s = Some (i, s')" "alloc s' = Some (j, s'')"
  shows "i \<noteq> j"
  using alloc_Some [OF assms(1)] alloc_Some [OF assms(2)] by auto

lemma alloc_free:
  assumes "alloc s = Some (i, s')"
  shows "taken (free i s') = taken s"
  using alloc_Some [OF assms] by (auto simp: free_taken)

lemma free_alloc:
  assumes "i \<in> range"
  shows "alloc (free i s) \<noteq> None"
  using assms by (auto simp: alloc_None free_taken)

end

definition asid_taken :: "(nat \<Rightarrow> u32) \<Rightarrow> u32 set" where
  "asid_taken pool = {i. bm_bit pool (unat i)}"

definition asid_range :: "u32 set" where
  "asid_range = {i. i < 256}"

definition asid_alloc :: "(nat \<Rightarrow> u32) \<Rightarrow> (u32 \<times> (nat \<Rightarrow> u32)) option" where
  "asid_alloc pool = (case OsAllocAsid pool of
     (_, Some i, pool') \<Rightarrow> Some (i, pool') | (_, None, _) \<Rightarrow> None)"

lemma OsAllocAsid_cases:
  "OsAllocAsid pool =
    (if \<exists>k<256. \<not> bm_bit pool k
     then (0, Some (of_nat (LEAST k. \<not> bm_bit pool k)),
           LOS_BitmapSetNBits pool (of_nat (LEAST k. \<not> bm_bit pool k)) 1)
     else (- 1, None, pool))"
proof -
  have n: "unat (256 :: u32) = 256" by simp
  have "unat (256 :: u32) \<le> 2 ^ 32 - 32" by simp
  note ffz = LOS_BitmapFfz_least [OF this, of pool, unfolded n]
  show ?thesis
  proof (cases "\<exists>k<256. \<not> bm_bit pool k")
    case True
    let ?k = "LEAST k. \<not> bm_bit pool k"
    from True have "?k < 256"
      by (meson LeastI_ex Least_le le_less_trans)
    then have "(of_nat ?k :: u32) < push_bit 8 1"
      by (simp add: word_less_nat_alt unat_of_nat)
    with True show ?thesis by (simp add: OsAllocAsid_def ffz Let_def)
  next
    case False
    with ffz have "LOS_BitmapFfz pool 256 = None" by auto
    with False show ?thesis by (simp add: OsAllocAsid_def)
  qed
qed

interpretation asid: id_pool asid_taken asid_range asid_alloc OsFreeAsid
proof
  fix s i s'
  assume *: "asid_alloc s = Some (i, s')"
  then have ex: "\<exists>k<256. \<not> bm_bit s k"
    by (auto simp: asid_alloc_def OsAllocAsid_cases split: if_splits)
  let ?k = "LEAST k. \<not> bm_bit s k"
  have lt: "?k < 256" using ex by (meson LeastI_ex Least_le le_less_trans)
  have clear: "\<not> bm_bit s ?k" using LeastI_ex [of "\<lambda>k. \<not> bm_bit s k"] ex by blast
  have i: "i = of_nat ?k" "s' = LOS_BitmapSetNBits s i 1" using * ex
    by (auto simp: asid_alloc_def OsAllocAsid_cases)
  have u: "unat i = ?k" unfolding i using lt by (simp add: unat_of_nat)
  have "i < 256" using lt u by (simp add: word_less_nat_alt)
  moreover have "taken = insert i (asid_taken s)" if "taken = asid_taken s'" for taken
    unfolding that asid_taken_def i(2) bm_bit_SetNBits by (auto simp: word_unat_eq_iff)
  ultimately show "i \<in> asid_range - asid_taken s \<and> asid_taken s' = insert i (asid_taken s)"
    using clear u by (simp add: asid_range_def asid_taken_def)
next
  fix s
  have "(\<exists>k<256. \<not> bm_bit s k) \<longleftrightarrow> (\<exists>i<256. \<not> bm_bit s (unat (i :: u32)))"
  proof
    assume "\<exists>k<256. \<not> bm_bit s k"
    then obtain k where "k < 256" "\<not> bm_bit s k" by blast
    then show "\<exists>i<256. \<not> bm_bit s (unat (i :: u32))"
      by (intro exI [of _ "of_nat k"]) (simp add: word_less_nat_alt unat_of_nat)
  qed (auto simp: word_less_nat_alt)
  then show "asid_alloc s = None \<longleftrightarrow> asid_range \<subseteq> asid_taken s"
    by (auto simp: asid_alloc_def OsAllocAsid_cases asid_range_def asid_taken_def)
next
  fix i s
  show "asid_taken (OsFreeAsid i s) = asid_taken s - {i}"
    by (auto simp: asid_taken_def OsFreeAsid_def bm_bit_ClrNBits word_unat_eq_iff)
qed

section \<open>Properties\<close>

text \<open>
  \<open>LOS_HighBitGet\<close> and \<open>LOS_LowBitGet\<close> return the largest and the smallest position that is set,
  and \<open>LOS_BitmapSet\<close> and \<open>LOS_BitmapClr\<close> change exactly the position they are given.
\<close>

theorem bitmap_word_ops:
  assumes "pos < 32"
  shows "(bitmap \<noteq> 0 \<longrightarrow> LOS_HighBitGet bitmap = Max {i. bit bitmap i}) \<and>
    (bitmap \<noteq> 0 \<longrightarrow> LOS_LowBitGet bitmap = Min {i. bit bitmap i}) \<and>
    (bit (LOS_BitmapSet bitmap pos) k \<longleftrightarrow> k = unat pos \<or> bit bitmap k) \<and>
    (bit (LOS_BitmapClr bitmap pos) k \<longleftrightarrow> k \<noteq> unat pos \<and> bit bitmap k)"
  using assms LOS_HighBitGet_eq LOS_LowBitGet_eq bit_BitmapSet bit_BitmapClr
  by (auto simp: word_less_nat_alt)

text \<open>
  C34. Setting or clearing a range of bits of an array of words, across word boundaries, changes
  the bits \<open>start \<dots> start + nums - 1\<close> and no other.
\<close>

theorem bitmap_ranges:
  "(bm_bit (LOS_BitmapSetNBits bm start nums) k \<longleftrightarrow>
      bm_bit bm k \<or> unat start \<le> k \<and> k < unat start + unat nums) \<and>
   (bm_bit (LOS_BitmapClrNBits bm start nums) k \<longleftrightarrow>
      bm_bit bm k \<and> \<not> (unat start \<le> k \<and> k < unat start + unat nums))"
  by (simp only: bm_bit_SetNBits bm_bit_ClrNBits simp_thms)



theorem bitmap_word_ops_witness:
  "bit (LOS_BitmapSet 0x90 3) 3 \<and> \<not> bit (LOS_BitmapClr 0x90 3) 3 \<and>
   LOS_HighBitGet 0x90 = Max {i. bit (0x90 :: u32) i}"
  using bitmap_word_ops [of 3 "0x90" 3] by simp



end
