(* ===== verification/Sort_Link.thy ===== *)
theory Sort_Link
  imports Kernel_Prelude "HOL-Library.Multiset"
begin

text \<open>
  The time ordered list of \<^verbatim>\<open>kernel/base/sched/los_sortlink.c\<close> and
  \<^verbatim>\<open>kernel/base/include/los_sortlink_pri.h\<close> that holds delayed tasks and running software timers.
  A node is named by a number; \<open>responseTime\<close> is the field of the node, \<open>sortLink\<close> the sequence of
  linked nodes, and \<open>nodeNum\<close> the counter of the header. \<open>sl_fault\<close> records that a node was
  unlinked while it was not linked: its links are \<open>NULL\<close> then, and \<open>LOS_ListDelete\<close> stores through them.
\<close>

section \<open>Operations\<close>

record sort_link =
  sortLink :: "nat list"
  nodeNum :: u32
  responseTime :: "nat \<Rightarrow> u64"
  sl_fault :: bool

definition OS_SORT_LINK_INVALID_TIME :: u64 where
  "OS_SORT_LINK_INVALID_TIME = - 1"

definition SET_SORTLIST_VALUE :: "nat \<Rightarrow> u64 \<Rightarrow> sort_link \<Rightarrow> sort_link" where
  "SET_SORTLIST_VALUE node t s = s\<lparr>responseTime := (responseTime s)(node := t)\<rparr>"

definition OsSortLinkInit :: "sort_link \<Rightarrow> sort_link" where
  "OsSortLinkInit s = s\<lparr>sortLink := [], nodeNum := 0\<rparr>"

text \<open>
  The loop of \<open>AddNode2SortLink\<close> walks from the tail towards the head and stops at the first node
  whose time is not later. The walk has no other exit: that it never runs past the head is the
  reason for the test of the first node before it, and is shown below (\<open>tail_scan_found\<close>).
\<close>

definition tail_scan :: "sort_link \<Rightarrow> u64 \<Rightarrow> nat option" where
  "tail_scan s t = find (\<lambda>prevNode. responseTime s prevNode \<le> t) (rev (sortLink s))"

definition AddNode2SortLink :: "nat \<Rightarrow> sort_link \<Rightarrow> sort_link" where
  "AddNode2SortLink node s = (case sortLink s of
     [] \<Rightarrow> s\<lparr>sortLink := [node], nodeNum := nodeNum s + 1\<rparr>
   | listSorted # rest \<Rightarrow>
       if responseTime s listSorted > responseTime s node
       then s\<lparr>sortLink := node # sortLink s, nodeNum := nodeNum s + 1\<rparr>
       else if responseTime s listSorted = responseTime s node
       then s\<lparr>sortLink := listSorted # node # rest, nodeNum := nodeNum s + 1\<rparr>
       else (case tail_scan s (responseTime s node) of
           Some prevNode \<Rightarrow>
             s\<lparr>sortLink := ins_after prevNode node (sortLink s), nodeNum := nodeNum s + 1\<rparr>
         | None \<Rightarrow> s))"

definition OsAdd2SortLink :: "nat \<Rightarrow> u64 \<Rightarrow> sort_link \<Rightarrow> sort_link" where
  "OsAdd2SortLink node t s = AddNode2SortLink node (SET_SORTLIST_VALUE node t s)"

definition OsDeleteNodeSortLink :: "nat \<Rightarrow> sort_link \<Rightarrow> sort_link" where
  "OsDeleteNodeSortLink node s = (SET_SORTLIST_VALUE node OS_SORT_LINK_INVALID_TIME
     (s\<lparr>sortLink := remove1 node (sortLink s), sl_fault := sl_fault s \<or> node \<notin> set (sortLink s)\<rparr>))
       \<lparr>nodeNum := nodeNum s - 1\<rparr>"

definition OsDeleteFromSortLink :: "nat \<Rightarrow> sort_link \<Rightarrow> sort_link" where
  "OsDeleteFromSortLink node s =
     (if responseTime s node \<noteq> OS_SORT_LINK_INVALID_TIME then OsDeleteNodeSortLink node s else s)"

definition OsSortLinkAdjustNodeResponseTime :: "nat \<Rightarrow> u64 \<Rightarrow> sort_link \<Rightarrow> u32 \<times> sort_link" where
  "OsSortLinkAdjustNodeResponseTime node t s =
     (if responseTime s node \<noteq> OS_SORT_LINK_INVALID_TIME
      then (0, AddNode2SortLink node (SET_SORTLIST_VALUE node t (OsDeleteNodeSortLink node s)))
      else (1, s))"

definition OsSortLinkGetTargetExpireTime :: "u64 \<Rightarrow> u64 \<Rightarrow> u64" where
  "OsSortLinkGetTargetExpireTime currTime target =
     (if currTime \<ge> target then 0 else ucast (ucast (target - currTime) :: u32))"

definition OsSortLinkGetNextExpireTime :: "u64 \<Rightarrow> sort_link \<Rightarrow> u64" where
  "OsSortLinkGetNextExpireTime currTime s = (case sortLink s of
     [] \<Rightarrow> OS_SORT_LINK_INVALID_TIME
   | listSorted # _ \<Rightarrow> OsSortLinkGetTargetExpireTime currTime (responseTime s listSorted))"

definition OsGetSortLinkNextExpireTime :: "sort_link \<Rightarrow> u64 \<Rightarrow> u32 \<Rightarrow> u64" where
  "OsGetSortLinkNextExpireTime s startTime tickPrecision = (case sortLink s of
     [] \<Rightarrow> OS_SORT_LINK_INVALID_TIME - ucast tickPrecision
   | listSorted # _ \<Rightarrow>
       if responseTime s listSorted \<le> startTime + ucast tickPrecision
       then startTime + ucast tickPrecision
       else responseTime s listSorted)"

definition OsGetSortLinkNodeNum :: "sort_link \<Rightarrow> u32" where
  "OsGetSortLinkNodeNum s = nodeNum s"

section \<open>The invariant\<close>

text \<open>
  A node is linked exactly when its time is valid, the linked nodes are in the order of their
  times, and the header counts them.
\<close>

definition sl_wf :: "sort_link \<Rightarrow> bool" where
  "sl_wf s \<longleftrightarrow> distinct (sortLink s) \<and> sorted (map (responseTime s) (sortLink s)) \<and>
     nodeNum s = of_nat (length (sortLink s)) \<and>
     (\<forall>n. n \<in> set (sortLink s) \<longleftrightarrow> responseTime s n \<noteq> OS_SORT_LINK_INVALID_TIME)"

lemma sl_wfD:
  assumes "sl_wf s"
  shows "distinct (sortLink s)" "sorted (map (responseTime s) (sortLink s))"
    "nodeNum s = of_nat (length (sortLink s))"
    "n \<in> set (sortLink s) \<longleftrightarrow> responseTime s n \<noteq> OS_SORT_LINK_INVALID_TIME"
  using assms by (auto simp: sl_wf_def)

lemma tail_scan_found:
  assumes "sortLink s = x # xs" "responseTime s x \<le> t"
  shows "\<exists>p. tail_scan s t = Some p"
  using assms by (auto simp: tail_scan_def find_None_iff simp flip: not_None_eq)

text \<open>In a list sorted by a key, the walk from the tail splits the nodes at the key.\<close>

lemma sorted_split_at:
  fixes f :: "'a \<Rightarrow> 'b::linorder"
  assumes "sorted (map f xs)"
  shows "xs = [x \<leftarrow> xs. f x \<le> t] @ [x \<leftarrow> xs. t < f x]"
  using assms
proof (induction xs)
  case (Cons x xs)
  show ?case
  proof (cases "f x \<le> t")
    case False
    with Cons.prems have "\<forall>y\<in>set xs. t < f y" by auto
    then have "[y \<leftarrow> xs. f y \<le> t] = []" "[y \<leftarrow> xs. t < f y] = xs"
      by (auto simp: filter_empty_conv not_le)
    with False show ?thesis by simp
  qed (use Cons in auto)
qed simp

lemma find_rev_last:
  assumes "find P (rev (us @ vs)) = Some p" "\<forall>v\<in>set vs. \<not> P v" "\<forall>u\<in>set us. P u"
  shows "us \<noteq> [] \<and> p = last us"
proof -
  have "find P (rev vs @ rev us) = find P (rev us)"
    using assms(2) by (induction vs rule: rev_induct) auto
  with assms(1,3) show ?thesis by (cases us rule: rev_cases) auto
qed

lemma ins_after_last:
  assumes "distinct (us @ vs)" "us \<noteq> []"
  shows "ins_after (last us) n (us @ vs) = us @ n # vs"
  using assms by (cases us rule: rev_cases) auto

lemma tail_scan_insert:
  assumes "distinct (sortLink s)" "sorted (map (responseTime s) (sortLink s))"
    and "tail_scan s t = Some p"
  shows "ins_after p n (sortLink s) =
    [x \<leftarrow> sortLink s. responseTime s x \<le> t] @ n # [x \<leftarrow> sortLink s. t < responseTime s x]"
proof -
  let ?us = "[x \<leftarrow> sortLink s. responseTime s x \<le> t]" and ?vs = "[x \<leftarrow> sortLink s. t < responseTime s x]"
  have split: "sortLink s = ?us @ ?vs" by (rule sorted_split_at [OF assms(2)])
  have "?us \<noteq> [] \<and> p = last ?us"
    using assms(3) split by (intro find_rev_last [where P = "\<lambda>x. responseTime s x \<le> t" and vs = ?vs])
      (auto simp: tail_scan_def)
  moreover have "distinct (?us @ ?vs)" using assms(1) split by simp
  ultimately show ?thesis using ins_after_last [of ?us ?vs n] split by metis
qed

section \<open>Where a node is inserted\<close>

lemma responseTime_add [simp]:
  "responseTime (AddNode2SortLink n s) = responseTime s"
  "responseTime (OsAdd2SortLink n t s) = (responseTime s)(n := t)"
  by (simp_all add: AddNode2SortLink_def OsAdd2SortLink_def SET_SORTLIST_VALUE_def
      split: list.splits option.splits)

text \<open>
  The reference insertion: behind every node that is not later, except that a node with the time
  of the first one goes directly behind the first one.
\<close>

definition sl_position :: "(nat \<Rightarrow> u64) \<Rightarrow> nat \<Rightarrow> u64 \<Rightarrow> nat list \<Rightarrow> nat list" where
  "sl_position f n t xs = (case xs of
     [] \<Rightarrow> [n]
   | x # ys \<Rightarrow> if f x = t then x # n # ys else [y \<leftarrow> xs. f y \<le> t] @ n # [y \<leftarrow> xs. t < f y])"

lemma AddNode_sortLink:
  assumes "distinct (sortLink s)" "sorted (map (responseTime s) (sortLink s))"
  shows "AddNode2SortLink n s =
    s\<lparr>sortLink := sl_position (responseTime s) n (responseTime s n) (sortLink s), nodeNum := nodeNum s + 1\<rparr>"
proof (cases "sortLink s")
  case (Cons x xs)
  let ?f = "responseTime s"
  consider "?f x > ?f n" | "?f x = ?f n" | "?f x < ?f n" by (meson less_linear)
  then show ?thesis
  proof cases
    case 1
    then have "\<forall>y\<in>set (sortLink s). ?f n < ?f y" using assms(2) Cons by auto
    then have "[y \<leftarrow> sortLink s. ?f y \<le> ?f n] = []" "[y \<leftarrow> sortLink s. ?f n < ?f y] = sortLink s"
      by (auto simp: filter_empty_conv not_le)
    with 1 Cons show ?thesis by (simp add: AddNode2SortLink_def sl_position_def)
  next
    case 2
    with Cons show ?thesis by (simp add: AddNode2SortLink_def sl_position_def)
  next
    case 3
    with Cons obtain p where p: "tail_scan s (?f n) = Some p"
      using tail_scan_found [of s x xs "?f n"] less_imp_le by blast
    have "AddNode2SortLink n s = s\<lparr>sortLink := ins_after p n (sortLink s), nodeNum := nodeNum s + 1\<rparr>"
      using 3 p Cons by (simp add: AddNode2SortLink_def)
    also have "ins_after p n (sortLink s) = sl_position ?f n (?f n) (sortLink s)"
      using tail_scan_insert [OF assms p, of n] Cons less_imp_neq [OF 3] by (simp add: sl_position_def)
    finally show ?thesis .
  qed
qed (simp add: AddNode2SortLink_def sl_position_def)

lemma mset_filter_split: "mset [x \<leftarrow> xs. f x \<le> t] + mset [x \<leftarrow> xs. t < (f x :: u64)] = mset xs"
  by (induction xs) (auto simp: not_le)

lemma mset_sl_position: "mset (sl_position f n t xs) = add_mset n (mset xs)"
proof (cases xs)
  case (Cons y ys)
  then show ?thesis
    using mset_filter_split [where f = f and t = t and xs = xs] by (auto simp: sl_position_def)
qed (simp add: sl_position_def)

lemmas set_sl_position = mset_sl_position [THEN arg_cong [where f = set_mset], simplified]

lemma sorted_sl_position:
  assumes "sorted (map f xs)" "f n = t"
  shows "sorted (map f (sl_position f n t xs))"
proof -
  have "sorted (map f [y \<leftarrow> xs. P y])" for P
    using assms(1) by (simp add: sorted_filter)
  then have "sorted (map f ([y \<leftarrow> xs. f y \<le> t] @ n # [y \<leftarrow> xs. t < f y]))"
    using assms(2) by (auto simp: sorted_append)
  then show ?thesis
    using assms by (auto simp: sl_position_def split: list.split)
qed

lemma sl_position_cong: "\<forall>x\<in>set xs. f x = g x \<Longrightarrow> sl_position f n t xs = sl_position g n t xs"
  by (cases xs) (simp_all add: sl_position_def cong: filter_cong)

lemma OsAdd2SortLink_eq:
  assumes "sl_wf s" "n \<notin> set (sortLink s)"
  shows "OsAdd2SortLink n t s = s\<lparr>sortLink := sl_position (responseTime s) n t (sortLink s),
    nodeNum := nodeNum s + 1, responseTime := (responseTime s)(n := t)\<rparr>"
proof -
  let ?s = "SET_SORTLIST_VALUE n t s"
  have "sl_position (responseTime ?s) n t (sortLink s) = sl_position (responseTime s) n t (sortLink s)"
    using assms(2) by (intro sl_position_cong) (auto simp: SET_SORTLIST_VALUE_def)
  then show ?thesis
    using AddNode_sortLink [of ?s n] sl_wfD(1,2) [OF assms(1)] assms(2)
    by (simp add: OsAdd2SortLink_def SET_SORTLIST_VALUE_def)
qed

lemma sl_wf_add:
  assumes "sl_wf s" "n \<notin> set (sortLink s)" "t \<noteq> OS_SORT_LINK_INVALID_TIME"
  shows "sl_wf (OsAdd2SortLink n t s)"
proof -
  let ?xs = "sl_position (responseTime s) n t (sortLink s)" and ?f = "(responseTime s)(n := t)"
  note wf = sl_wfD [OF assms(1)]
  have cong: "?xs = sl_position ?f n t (sortLink s)"
    using assms(2) by (intro sl_position_cong) auto
  have "sorted (map ?f ?xs)"
    unfolding cong using wf(2) assms(2) by (intro sorted_sl_position) simp_all
  moreover have "distinct ?xs"
    using wf(1) assms(2) mset_sl_position [of "responseTime s" n t "sortLink s"]
    by (metis distinct.simps(2) mset.simps(2) mset_eq_imp_distinct_iff)
  moreover have "length ?xs = Suc (length (sortLink s))"
    using mset_sl_position [of "responseTime s" n t "sortLink s"] by (metis mset.simps(2) size_mset length_Cons)
  ultimately show ?thesis
    using assms wf(3,4) by (auto simp: sl_wf_def OsAdd2SortLink_eq set_sl_position)
qed

lemma OsDeleteFromSortLink_eq:
  assumes "sl_wf s"
  shows "OsDeleteFromSortLink n s = (if n \<in> set (sortLink s)
    then s\<lparr>sortLink := remove1 n (sortLink s), nodeNum := nodeNum s - 1,
           responseTime := (responseTime s)(n := OS_SORT_LINK_INVALID_TIME)\<rparr> else s)"
  using sl_wfD(4) [OF assms]
  by (auto simp: OsDeleteFromSortLink_def OsDeleteNodeSortLink_def SET_SORTLIST_VALUE_def)

lemma sorted_map_remove1: "sorted (map f xs) \<Longrightarrow> sorted (map f (remove1 x xs))"
proof (induction xs)
  case (Cons y ys)
  then show ?case using set_remove1_subset [of x ys] by auto
qed simp

lemma sl_wf_delete:
  assumes "sl_wf s"
  shows "sl_wf (OsDeleteFromSortLink n s)"
proof (cases "n \<in> set (sortLink s)")
  case True
  let ?xs = "remove1 n (sortLink s)"
  note wf = sl_wfD [OF assms]
  have set: "set ?xs = set (sortLink s) - {n}" using wf(1) by simp
  then have "sorted (map ((responseTime s)(n := OS_SORT_LINK_INVALID_TIME)) ?xs)"
    using wf(2) by (simp add: sorted_map_remove1)
  moreover have "of_nat (length ?xs) = (of_nat (length (sortLink s)) - 1 :: u32)"
    using True by (cases "length (sortLink s)") (simp_all add: length_remove1)
  ultimately show ?thesis
    using assms True wf set by (auto simp: sl_wf_def OsDeleteFromSortLink_eq)
qed (use assms in \<open>simp add: OsDeleteFromSortLink_eq\<close>)

lemma sl_wf_init:
  assumes "\<forall>n. responseTime s n = OS_SORT_LINK_INVALID_TIME"
  shows "sl_wf (OsSortLinkInit s)"
  using assms by (simp add: sl_wf_def OsSortLinkInit_def)

lemma OsSortLinkAdjust_eq:
  assumes "sl_wf s"
  shows "OsSortLinkAdjustNodeResponseTime n t s = (if n \<in> set (sortLink s)
    then (0, OsAdd2SortLink n t (OsDeleteFromSortLink n s)) else (1, s))"
  using sl_wfD(4) [OF assms, of n]
  by (auto simp: OsSortLinkAdjustNodeResponseTime_def OsAdd2SortLink_def OsDeleteFromSortLink_def)

section \<open>The time queue contract\<close>

text \<open>
  What the scheduler and the software timers rely on: the first node has the earliest time, so a
  first node that is not due means that no node is due; adding and deleting keep the order.
\<close>

locale time_queue =
  fixes wf :: "'q \<Rightarrow> bool" and members :: "'q \<Rightarrow> 'n set" and due :: "'q \<Rightarrow> 'n \<Rightarrow> 't::linorder"
    and first :: "'q \<Rightarrow> 'n option" and valid :: "'t \<Rightarrow> bool"
    and add :: "'n \<Rightarrow> 't \<Rightarrow> 'q \<Rightarrow> 'q" and delete :: "'n \<Rightarrow> 'q \<Rightarrow> 'q"
  assumes first_None: "wf q \<Longrightarrow> first q = None \<longleftrightarrow> members q = {}"
    and first_member: "wf q \<Longrightarrow> first q = Some n \<Longrightarrow> n \<in> members q"
    and first_earliest: "wf q \<Longrightarrow> first q = Some n \<Longrightarrow> m \<in> members q \<Longrightarrow> due q n \<le> due q m"
    and add_wf: "wf q \<Longrightarrow> n \<notin> members q \<Longrightarrow> valid t \<Longrightarrow> wf (add n t q)"
    and add_members: "wf q \<Longrightarrow> n \<notin> members q \<Longrightarrow> valid t \<Longrightarrow> members (add n t q) = insert n (members q)"
    and add_due: "wf q \<Longrightarrow> n \<notin> members q \<Longrightarrow> valid t \<Longrightarrow> due (add n t q) = (due q)(n := t)"
    and delete_wf: "wf q \<Longrightarrow> wf (delete n q)"
    and delete_members: "wf q \<Longrightarrow> members (delete n q) = members q - {n}"
    and delete_due: "wf q \<Longrightarrow> m \<noteq> n \<Longrightarrow> due (delete n q) m = due q m"
begin

lemma none_due:
  assumes "wf q" "first q = Some n" "t < due q n" "m \<in> members q"
  shows "t < due q m"
  using first_earliest [OF assms(1,2,4)] assms(3) by order

lemma delete_absent:
  assumes "wf q" "n \<notin> members q"
  shows "members (delete n q) = members q"
  using assms by (simp add: delete_members)

lemma adjust_members:
  assumes "wf q" "n \<in> members q" "valid t"
  shows "wf (add n t (delete n q))" "members (add n t (delete n q)) = members q"
  using assms by (auto simp: add_wf add_members delete_wf delete_members)

lemma adjust_due:
  assumes "wf q" "valid t" "m \<in> members q"
  shows "due (add n t (delete n q)) m = (if m = n then t else due q m)"
  using assms by (auto simp: add_due delete_wf delete_members delete_due)

end

definition sl_first :: "sort_link \<Rightarrow> nat option" where
  "sl_first s = (case sortLink s of [] \<Rightarrow> None | n # _ \<Rightarrow> Some n)"

interpretation sl: time_queue sl_wf "\<lambda>s. set (sortLink s)" responseTime sl_first
  "\<lambda>t. t \<noteq> OS_SORT_LINK_INVALID_TIME" OsAdd2SortLink OsDeleteFromSortLink
proof
  fix s n m assume "sl_wf s" "sl_first s = Some n" "m \<in> set (sortLink s)"
  then show "responseTime s n \<le> responseTime s m"
    by (auto simp: sl_wf_def sl_first_def split: list.splits)
next
  fix s n t assume "sl_wf s" "n \<notin> set (sortLink s)" "t \<noteq> OS_SORT_LINK_INVALID_TIME"
  then show "sl_wf (OsAdd2SortLink n t s)" by (rule sl_wf_add)
next
  fix s n assume "sl_wf s"
  then show "sl_wf (OsDeleteFromSortLink n s)" by (rule sl_wf_delete)
qed (auto simp: sl_first_def OsAdd2SortLink_eq set_sl_position
      OsDeleteFromSortLink_eq sl_wfD(1) split: list.splits)

section \<open>Properties\<close>

text \<open>
  C27. Adding a node that is not linked keeps the list well formed (in time order, each node once,
  the header's count exact, linked exactly when the time is valid), and puts the node behind
  every node that is not later, or directly behind the first one when it has the time of the
  first one.
\<close>

theorem sortlink_add:
  assumes "sl_wf s" "n \<notin> set (sortLink s)" "t \<noteq> OS_SORT_LINK_INVALID_TIME"
  shows "sl_wf (OsAdd2SortLink n t s) \<and>
    sortLink (OsAdd2SortLink n t s) = (case sortLink s of
        [] \<Rightarrow> [n]
      | x # ys \<Rightarrow> if responseTime s x = t then x # n # ys
          else [y \<leftarrow> x # ys. responseTime s y \<le> t] @ n # [y \<leftarrow> x # ys. t < responseTime s y])"
  using sl_wf_add [OF assms] assms
  by (simp add: OsAdd2SortLink_eq sl_position_def split: list.split)

definition sl_example :: sort_link where
  "sl_example = \<lparr>sortLink = [4, 7], nodeNum = 2,
     responseTime = (\<lambda>_. OS_SORT_LINK_INVALID_TIME)(4 := 10, 7 := 20), sl_fault = False\<rparr>"

lemma sl_wf_example: "sl_wf sl_example"
  by (auto simp: sl_wf_def sl_example_def OS_SORT_LINK_INVALID_TIME_def)

theorem sortlink_add_witness:
  "sl_wf (OsAdd2SortLink 5 15 sl_example) \<and> sortLink (OsAdd2SortLink 5 15 sl_example) = [4, 5, 7]"
  using sortlink_add [of sl_example 5 15] sl_wf_example
  by (simp add: sl_example_def OS_SORT_LINK_INVALID_TIME_def)



text \<open>
  The time until the next expiry: an empty list has none, an overdue first node gives 0, and
  otherwise the distance to the earliest time is returned when it fits in 32 bits
  (\<open>OsSortLinkGetTargetExpireTime\<close> truncates it to \<open>UINT32\<close>).
\<close>

theorem sortlink_next_expire:
  assumes "sl_wf s" "n \<in> set (sortLink s)" "\<forall>m\<in>set (sortLink s). responseTime s n \<le> responseTime s m"
    and "uint (responseTime s n) - uint currTime < 2 ^ 32"
  shows "uint (OsSortLinkGetNextExpireTime currTime s) = max 0 (uint (responseTime s n) - uint currTime)"
proof -
  obtain x xs where x: "sortLink s = x # xs" using assms(2) by (cases "sortLink s") auto
  have "responseTime s x \<le> responseTime s n"
    using sl.first_earliest [OF assms(1), of x n] assms(2) x by (simp add: sl_first_def)
  with assms(3) x have eq: "responseTime s x = responseTime s n" by simp
  show ?thesis
  proof (cases "currTime \<ge> responseTime s n")
    case True
    then show ?thesis
      using x eq by (simp add: OsSortLinkGetNextExpireTime_def OsSortLinkGetTargetExpireTime_def word_le_def)
  next
    case False
    then have d: "uint (responseTime s n - currTime) = uint (responseTime s n) - uint currTime"
      by (simp add: uint_minus_simple_alt [symmetric])
    with assms(4) have "ucast (ucast (responseTime s n - currTime) :: u32) = responseTime s n - currTime"
      by (intro trunc32) simp
    with False x eq d show ?thesis
      by (simp add: OsSortLinkGetNextExpireTime_def OsSortLinkGetTargetExpireTime_def word_le_def)
  qed
qed

theorem sortlink_next_expire_witness: "OsSortLinkGetNextExpireTime 3 sl_example = 7"
proof -
  have "uint (OsSortLinkGetNextExpireTime 3 sl_example) = 7"
    using sortlink_next_expire [OF sl_wf_example, of 4 3] by (auto simp: sl_example_def)
  then show ?thesis by (metis word_of_int_numeral word_of_int_uint)
qed

end
