(* ===== verification/Sched_State.thy ===== *)
theory Sched_State
  imports Dl_List Bitmap Sort_Link
begin

text \<open>
  The state of the scheduler: the task control block, the policy parameters, the run queue and
  the clock (\<^verbatim>\<open>kernel/base/include/los_sched_pri.h\<close>), and the operations on them that the scheduling
  policies share. Tasks are named by numbers. A task's \<open>pendList\<close> node is on at most one list at a
  time; \<open>pend k h\<close> is the content of the list with head \<open>h\<close>, and \<open>on\<close> the head of the list the node
  is on (\<open>None\<close>: \<open>pstNext\<close> is \<open>NULL\<close>). That these lists of names behave as the linked lists do is the
  second interpretation of \<open>intrusive_lists\<close>.

  The model is of one processor (\<open>LOSCFG_KERNEL_SMP\<close> off): a critical section runs with interrupts
  off, so that the clock \<open>now\<close> is constant in it. \<open>sys_clock\<close> is the frequency the board reports
  (\<open>get_bus_clk\<close>) and \<open>tick_per_second\<close> the configured tick rate. Three flags record what the C code
  does not survive: \<open>fault\<close> is an access through \<open>NULL\<close>, \<open>asserted\<close> a \<open>LOS_ASSERT\<close> that does not hold
  (execution goes on, as it does in a release build), \<open>diverged\<close> a loop that does not end.
\<close>

section \<open>Control blocks\<close>

abbreviation (input) OS_TASK_STATUS_INIT :: u16 where "OS_TASK_STATUS_INIT \<equiv> 0x0001"
abbreviation (input) OS_TASK_STATUS_READY :: u16 where "OS_TASK_STATUS_READY \<equiv> 0x0002"
abbreviation (input) OS_TASK_STATUS_RUNNING :: u16 where "OS_TASK_STATUS_RUNNING \<equiv> 0x0004"
abbreviation (input) OS_TASK_STATUS_SUSPENDED :: u16 where "OS_TASK_STATUS_SUSPENDED \<equiv> 0x0008"
abbreviation (input) OS_TASK_STATUS_PENDING :: u16 where "OS_TASK_STATUS_PENDING \<equiv> 0x0010"
abbreviation (input) OS_TASK_STATUS_DELAY :: u16 where "OS_TASK_STATUS_DELAY \<equiv> 0x0020"
abbreviation (input) OS_TASK_STATUS_TIMEOUT :: u16 where "OS_TASK_STATUS_TIMEOUT \<equiv> 0x0040"
abbreviation (input) OS_TASK_STATUS_PEND_TIME :: u16 where "OS_TASK_STATUS_PEND_TIME \<equiv> 0x0080"
abbreviation (input) OS_TASK_STATUS_EXIT :: u16 where "OS_TASK_STATUS_EXIT \<equiv> 0x0100"
abbreviation (input) OS_TASK_STATUS_FROZEN :: u16 where "OS_TASK_STATUS_FROZEN \<equiv> 0x0200"
abbreviation (input) OS_TASK_FLAG_SYSTEM_TASK :: u16 where "OS_TASK_FLAG_SYSTEM_TASK \<equiv> 0x2000"

text \<open>\<open>OS_TASK_STATUS_BLOCKED\<close> is the union of \<open>INIT\<close>, \<open>PENDING\<close>, \<open>DELAY\<close> and \<open>PEND_TIME\<close>.\<close>

abbreviation (input) OS_TASK_STATUS_BLOCKED :: u16 where "OS_TASK_STATUS_BLOCKED \<equiv> 0x00B1"

abbreviation (input) LOS_SCHED_NORMAL :: u16 where "LOS_SCHED_NORMAL \<equiv> 0"
abbreviation (input) LOS_SCHED_FIFO :: u16 where "LOS_SCHED_FIFO \<equiv> 1"
abbreviation (input) LOS_SCHED_RR :: u16 where "LOS_SCHED_RR \<equiv> 2"
abbreviation (input) LOS_SCHED_IDLE :: u16 where "LOS_SCHED_IDLE \<equiv> 3"
abbreviation (input) LOS_SCHED_DEADLINE :: u16 where "LOS_SCHED_DEADLINE \<equiv> 6"

abbreviation (input) INT_PEND_RESCH :: u32 where "INT_PEND_RESCH \<equiv> 1"
abbreviation (input) INT_PEND_TICK :: u32 where "INT_PEND_TICK \<equiv> 2"

abbreviation (input) OS_INVALID_VALUE :: u32 where "OS_INVALID_VALUE \<equiv> 0xFFFFFFFF"
abbreviation (input) LOS_WAIT_FOREVER :: u32 where "LOS_WAIT_FOREVER \<equiv> 0xFFFFFFFF"

abbreviation (input) EDF_UNUSED :: u32 where "EDF_UNUSED \<equiv> 0"
abbreviation (input) EDF_NEXT_PERIOD :: u32 where "EDF_NEXT_PERIOD \<equiv> 1"
abbreviation (input) EDF_WAIT_FOREVER :: u32 where "EDF_WAIT_FOREVER \<equiv> 2"
abbreviation (input) EDF_INIT :: u32 where "EDF_INIT \<equiv> 3"

text \<open>The table of operations a task is scheduled with (\<open>g_priorityOps\<close>, \<open>g_deadlineOps\<close>, \<open>g_idleOps\<close>).\<close>

datatype sched_ops = PriorityOps | DeadlineOps | IdleOps

record SchedParam =
  pr_policy :: u16
  pr_basePrio :: nat
  pr_priority :: nat
  pr_timeSlice :: u32
  pr_runTimeUs :: int
  pr_deadlineUs :: u32
  pr_periodUs :: u32

text \<open>\<open>LosSchedParam\<close>: its first member is the union of \<open>priority\<close> and \<open>runTimeUs\<close>.\<close>

record LosSchedParam =
  lp_priority :: int
  lp_deadlineUs :: int
  lp_periodUs :: int

abbreviation (input) lp_runTimeUs :: "LosSchedParam \<Rightarrow> int" where "lp_runTimeUs \<equiv> lp_priority"

text \<open>
  \<open>SchedPolicy\<close> is a union; its members \<open>SchedHPF\<close> and \<open>SchedEDF\<close> are kept side by side, since a task
  is read and written through the member of its own policy.
\<close>

record SchedPolicy =
  policy :: u16
  basePrio :: nat
  priority :: nat
  initTimeSlice :: u32
  priBitmap :: u32
  flags :: u32
  runTime :: int
  deadline :: u64
  period :: u64
  finishTime :: u64

text \<open>The heads of the lists a task waits on, and the positions \<open>LOS_ListTailInsert\<close> is given.\<close>

datatype pend_head =
    HpfQue nat nat | EdfRoot | EdfWait
  | SemList nat | MuxList nat | QueueRead nat | QueueWrite nat | QueueMem nat
  | EventList nat | RwRead nat | RwWrite nat

datatype list_pos = AtHead pend_head | AtNode nat

record TCB =
  taskStatus :: u16
  startTime :: u64
  waitTime :: u64
  irqStartTime :: u64
  irqUsedTime :: u32
  timeSlice :: int
  ops :: sched_ops
  sp :: SchedPolicy
  on :: "pend_head option"
  taskID :: u32
  taskMux :: "nat option"
  taskEvent :: "nat option"
  eventMask :: u32
  eventMode :: u32
  waitID :: u32
  waitFlag :: u16
  lockList :: "nat list"
  processCB :: nat

record kstate =
  tcb :: "nat \<Rightarrow> TCB"
  pend :: "pend_head \<Rightarrow> nat list"
  readyTasks :: "nat \<Rightarrow> nat \<Rightarrow> u32"
  prioBitmap :: "nat \<Rightarrow> u32"
  queueBitmap :: u32
  timeoutQueue :: sort_link
  rq_responseTime :: u64
  responseID :: u32
  idleTask :: nat
  taskLockCnt :: u32
  schedFlag :: u32
  g_taskScheduled :: u32
  currTask :: nat
  threadSiblingList :: "nat \<Rightarrow> nat list"
  now :: u64
  timer_cval :: u64
  int_active :: bool
  pm_mode :: bool
  sys_clock :: u32
  tick_per_second :: u32
  fault :: bool
  asserted :: bool
  diverged :: bool

section \<open>Access\<close>

definition upd_tcb :: "nat \<Rightarrow> (TCB \<Rightarrow> TCB) \<Rightarrow> kstate \<Rightarrow> kstate" where
  "upd_tcb t f k = k\<lparr>tcb := (tcb k)(t := f (tcb k t))\<rparr>"

definition status :: "kstate \<Rightarrow> nat \<Rightarrow> u16" where
  "status k t = taskStatus (tcb k t)"

definition set_status :: "nat \<Rightarrow> u16 \<Rightarrow> kstate \<Rightarrow> kstate" where
  "set_status t m k = upd_tcb t (\<lambda>c. c\<lparr>taskStatus := taskStatus c OR m\<rparr>) k"

definition clr_status :: "nat \<Rightarrow> u16 \<Rightarrow> kstate \<Rightarrow> kstate" where
  "clr_status t m k = upd_tcb t (\<lambda>c. c\<lparr>taskStatus := taskStatus c AND NOT m\<rparr>) k"

definition upd_sp :: "nat \<Rightarrow> (SchedPolicy \<Rightarrow> SchedPolicy) \<Rightarrow> kstate \<Rightarrow> kstate" where
  "upd_sp t f k = upd_tcb t (\<lambda>c. c\<lparr>sp := f (sp c)\<rparr>) k"

definition set_timeSlice :: "nat \<Rightarrow> int \<Rightarrow> kstate \<Rightarrow> kstate" where
  "set_timeSlice t v k = upd_tcb t (\<lambda>c. c\<lparr>timeSlice := v\<rparr>) k"

definition LOS_ASSERT :: "bool \<Rightarrow> kstate \<Rightarrow> kstate" where
  "LOS_ASSERT judge k = k\<lparr>asserted := asserted k \<or> \<not> judge\<rparr>"

definition set_schedFlag :: "u32 \<Rightarrow> kstate \<Rightarrow> kstate" where
  "set_schedFlag m k = k\<lparr>schedFlag := schedFlag k OR m\<rparr>"

definition clr_schedFlag :: "u32 \<Rightarrow> kstate \<Rightarrow> kstate" where
  "clr_schedFlag m k = k\<lparr>schedFlag := schedFlag k AND NOT m\<rparr>"

section \<open>Task lists\<close>

text \<open>
  The list operations on the \<open>pendList\<close> node of a task. Unlinking a node that is on no list, and
  linking behind a node that is on none, follows a \<open>NULL\<close> pointer.
\<close>

definition pend_link :: "pend_head \<Rightarrow> nat \<Rightarrow> nat list \<Rightarrow> kstate \<Rightarrow> kstate" where
  "pend_link h t xs k = upd_tcb t (\<lambda>c. c\<lparr>on := Some h\<rparr>) (k\<lparr>pend := (pend k)(h := xs)\<rparr>)"

definition pend_tail_insert :: "pend_head \<Rightarrow> nat \<Rightarrow> kstate \<Rightarrow> kstate" where
  "pend_tail_insert h t k = pend_link h t (pend k h @ [t]) k"

definition pend_head_insert :: "pend_head \<Rightarrow> nat \<Rightarrow> kstate \<Rightarrow> kstate" where
  "pend_head_insert h t k = pend_link h t (t # pend k h) k"

definition pend_insert_before :: "nat \<Rightarrow> nat \<Rightarrow> kstate \<Rightarrow> kstate" where
  "pend_insert_before p t k = (case on (tcb k p) of
     Some h \<Rightarrow> pend_link h t (ins_before p t (pend k h)) k
   | None \<Rightarrow> k\<lparr>fault := True\<rparr>)"

definition pend_insert_after :: "nat \<Rightarrow> nat \<Rightarrow> kstate \<Rightarrow> kstate" where
  "pend_insert_after p t k = (case on (tcb k p) of
     Some h \<Rightarrow> pend_link h t (ins_after p t (pend k h)) k
   | None \<Rightarrow> k\<lparr>fault := True\<rparr>)"

definition pend_insert_at :: "list_pos \<Rightarrow> nat \<Rightarrow> kstate \<Rightarrow> kstate" where
  "pend_insert_at pos t k = (case pos of
     AtHead h \<Rightarrow> pend_tail_insert h t k | AtNode p \<Rightarrow> pend_insert_before p t k)"

definition pend_delete :: "nat \<Rightarrow> kstate \<Rightarrow> kstate" where
  "pend_delete t k = (case on (tcb k t) of
     Some h \<Rightarrow> upd_tcb t (\<lambda>c. c\<lparr>on := None\<rparr>) (k\<lparr>pend := (pend k)(h := remove1 t (pend k h))\<rparr>)
   | None \<Rightarrow> k\<lparr>fault := True\<rparr>)"

definition pend_empty :: "pend_head \<Rightarrow> kstate \<Rightarrow> bool" where
  "pend_empty h k \<longleftrightarrow> pend k h = []"

definition pend_first :: "pend_head \<Rightarrow> kstate \<Rightarrow> nat" where
  "pend_first h k = hd (pend k h)"

text \<open>Every list has each task once, and a task is on the list that its node points to.\<close>

definition lists_ok :: "kstate \<Rightarrow> bool" where
  "lists_ok k \<longleftrightarrow> (\<forall>h. distinct (pend k h)) \<and> (\<forall>h t. t \<in> set (pend k h) \<longleftrightarrow> on (tcb k t) = Some h)"

section \<open>Clock arithmetic\<close>

definition OS_CYCLE_PER_TICK :: "kstate \<Rightarrow> u32" where
  "OS_CYCLE_PER_TICK k = sys_clock k div tick_per_second k"

definition OS_NS_PER_CYCLE :: "kstate \<Rightarrow> u32" where
  "OS_NS_PER_CYCLE k = 1000000000 div sys_clock k"

definition OS_SCHED_MINI_PERIOD :: "kstate \<Rightarrow> u32" where
  "OS_SCHED_MINI_PERIOD k = sys_clock k div 1000"

definition OS_TICK_RESPONSE_PRECISION :: "kstate \<Rightarrow> u32" where
  "OS_TICK_RESPONSE_PRECISION k = (OS_SCHED_MINI_PERIOD k * 75) div 100"

abbreviation (input) OS_SCHED_MAX_RESPONSE_TIME :: u64 where
  "OS_SCHED_MAX_RESPONSE_TIME \<equiv> OS_SORT_LINK_INVALID_TIME"

definition OS_SCHED_TICK_TO_CYCLE :: "kstate \<Rightarrow> u32 \<Rightarrow> u64" where
  "OS_SCHED_TICK_TO_CYCLE k ticks = ucast ticks * ucast (OS_CYCLE_PER_TICK k)"

text \<open>
  \<open>OS_US_TO_CYCLE\<close> is a macro, computed in the type of its argument and of the clock frequency,
  which is 32 bits wide: in 64 bits where the code converts the argument to \<open>UINT64\<close>, and otherwise
  in 32 bits, for an unsigned and for a signed argument.
\<close>

definition OS_US_TO_CYCLE_u64 :: "u64 \<Rightarrow> u32 \<Rightarrow> u64" where
  "OS_US_TO_CYCLE_u64 us freq =
     (us div 1000000) * ucast freq + (us mod 1000000) * ucast freq div 1000000"

definition OS_US_TO_CYCLE_u32 :: "u32 \<Rightarrow> u32 \<Rightarrow> u32" where
  "OS_US_TO_CYCLE_u32 us freq = (us div 1000000) * freq + (us mod 1000000) * freq div 1000000"

definition OS_US_TO_CYCLE_i32 :: "int \<Rightarrow> u32 \<Rightarrow> u32" where
  "OS_US_TO_CYCLE_i32 us freq =
     (let q = sgn us * (\<bar>us\<bar> div 1000000); m = sgn us * (\<bar>us\<bar> mod 1000000)
      in word_of_int q * freq + word_of_int m * freq div 1000000)"

definition OS_CYCLE_TO_US_u64 :: "u64 \<Rightarrow> u32 \<Rightarrow> u64" where
  "OS_CYCLE_TO_US_u64 cycle freq =
     (cycle div ucast freq) * 1000000 + (cycle mod ucast freq) * 1000000 div ucast freq"

definition OS_TIME_SLICE_MIN :: "kstate \<Rightarrow> int" where
  "OS_TIME_SLICE_MIN k = sint ((50 * 1000) div OS_NS_PER_CYCLE k)"

definition OS_SCHED_TIME_SLICES_MIN :: "kstate \<Rightarrow> u32" where
  "OS_SCHED_TIME_SLICES_MIN k = (5000 * 1000) div OS_NS_PER_CYCLE k"

definition OS_SCHED_TIME_SLICES_MAX :: "kstate \<Rightarrow> u32" where
  "OS_SCHED_TIME_SLICES_MAX k = (20000 * 1000) div OS_NS_PER_CYCLE k"

definition OS_SCHED_TIME_SLICES_DIFF :: "kstate \<Rightarrow> u32" where
  "OS_SCHED_TIME_SLICES_DIFF k = OS_SCHED_TIME_SLICES_MAX k - OS_SCHED_TIME_SLICES_MIN k"

definition OsGetCurrSchedTimeCycle :: "kstate \<Rightarrow> u64" where
  "OsGetCurrSchedTimeCycle k = now k"

text \<open>\<open>HalClockTickTimerReload\<close> of \<^verbatim>\<open>arch/arm/arm/src/arm_generic_timer.c\<close> sets the comparator.\<close>

definition HalClockTickTimerReload :: "u64 \<Rightarrow> kstate \<Rightarrow> u64 \<times> kstate" where
  "HalClockTickTimerReload cycles k = (cycles, k\<lparr>timer_cval := now k + cycles\<rparr>)"

section \<open>Run queue locks and flags\<close>

definition OS_SCHEDULER_ACTIVE :: "kstate \<Rightarrow> bool" where
  "OS_SCHEDULER_ACTIVE k \<longleftrightarrow> has (g_taskScheduled k) 1"

definition OsSchedLockCountGet :: "kstate \<Rightarrow> u32" where
  "OsSchedLockCountGet k = taskLockCnt k"

definition OsSchedLockSet :: "u32 \<Rightarrow> kstate \<Rightarrow> kstate" where
  "OsSchedLockSet cnt k = k\<lparr>taskLockCnt := cnt\<rparr>"

definition OsSchedLock :: "kstate \<Rightarrow> kstate" where
  "OsSchedLock k = k\<lparr>taskLockCnt := taskLockCnt k + 1\<rparr>"

definition OsSchedUnlock :: "kstate \<Rightarrow> kstate" where
  "OsSchedUnlock k = k\<lparr>taskLockCnt := taskLockCnt k - 1\<rparr>"

definition OsSchedUnlockResch :: "kstate \<Rightarrow> bool \<times> kstate" where
  "OsSchedUnlockResch k =
     (if taskLockCnt k > 0
      then (let k1 = k\<lparr>taskLockCnt := taskLockCnt k - 1\<rparr>
            in (taskLockCnt k1 = 0 \<and> has (schedFlag k1) INT_PEND_RESCH \<and> OS_SCHEDULER_ACTIVE k1, k1))
      else (False, k))"

definition OsSchedIsLock :: "kstate \<Rightarrow> bool" where
  "OsSchedIsLock k \<longleftrightarrow> taskLockCnt k \<noteq> 0"

definition OsPreemptable :: "kstate \<Rightarrow> bool \<times> kstate" where
  "OsPreemptable k =
     (if taskLockCnt k = 0 then (True, k) else (False, set_schedFlag INT_PEND_RESCH k))"

definition OsPreemptableInSched :: "kstate \<Rightarrow> bool \<times> kstate" where
  "OsPreemptableInSched k =
     (if taskLockCnt k = 0 then (True, k) else (False, set_schedFlag INT_PEND_RESCH k))"

definition OsSchedRunqueuePendingSet :: "kstate \<Rightarrow> kstate" where
  "OsSchedRunqueuePendingSet k = set_schedFlag INT_PEND_RESCH k"

definition OsTaskIsRunning :: "TCB \<Rightarrow> bool" where
  "OsTaskIsRunning c \<longleftrightarrow> has (taskStatus c) OS_TASK_STATUS_RUNNING"

definition OsTaskIsReady :: "TCB \<Rightarrow> bool" where
  "OsTaskIsReady c \<longleftrightarrow> has (taskStatus c) OS_TASK_STATUS_READY"

definition OsTaskIsInactive :: "TCB \<Rightarrow> bool" where
  "OsTaskIsInactive c \<longleftrightarrow> has (taskStatus c) (OS_TASK_STATUS_INIT OR OS_TASK_STATUS_EXIT)"

definition OsTaskIsPending :: "TCB \<Rightarrow> bool" where
  "OsTaskIsPending c \<longleftrightarrow> has (taskStatus c) OS_TASK_STATUS_PENDING"

definition OsTaskIsSuspended :: "TCB \<Rightarrow> bool" where
  "OsTaskIsSuspended c \<longleftrightarrow> has (taskStatus c) OS_TASK_STATUS_SUSPENDED"

definition OsTaskIsBlocked :: "TCB \<Rightarrow> bool" where
  "OsTaskIsBlocked c \<longleftrightarrow>
     has (taskStatus c) (OS_TASK_STATUS_SUSPENDED OR OS_TASK_STATUS_PENDING OR OS_TASK_STATUS_DELAY)"

definition OsSchedPolicyIsEDF :: "TCB \<Rightarrow> bool" where
  "OsSchedPolicyIsEDF c \<longleftrightarrow> policy (sp c) = LOS_SCHED_DEADLINE"

definition OsSchedIrqUsedTimeUpdate :: "kstate \<Rightarrow> kstate" where
  "OsSchedIrqUsedTimeUpdate k = upd_tcb (currTask k)
     (\<lambda>c. c\<lparr>irqUsedTime := ucast (OsGetCurrSchedTimeCycle k - irqStartTime c)\<rparr>) k"

definition OsSchedIrqStartTime :: "kstate \<Rightarrow> kstate" where
  "OsSchedIrqStartTime k = upd_tcb (currTask k)
     (\<lambda>c. c\<lparr>irqStartTime := OsGetCurrSchedTimeCycle k\<rparr>) k"

text \<open>The reason a task waits (\<^verbatim>\<open>kernel/base/include/los_task_pri.h\<close>).\<close>

definition OsTaskWaitSetPendMask :: "u16 \<Rightarrow> u32 \<Rightarrow> kstate \<Rightarrow> kstate" where
  "OsTaskWaitSetPendMask m lockID k =
     upd_tcb (currTask k) (\<lambda>c. c\<lparr>waitID := lockID, waitFlag := m\<rparr>) k"

definition OsTaskWakeClearPendMask :: "nat \<Rightarrow> kstate \<Rightarrow> kstate" where
  "OsTaskWakeClearPendMask t k = upd_tcb t (\<lambda>c. c\<lparr>waitID := 0, waitFlag := 0\<rparr>) k"

section \<open>The timeout queue\<close>

definition OsSchedTimeoutQueueAdd :: "nat \<Rightarrow> u64 \<Rightarrow> kstate \<Rightarrow> kstate" where
  "OsSchedTimeoutQueueAdd t time k = k\<lparr>timeoutQueue := OsAdd2SortLink t time (timeoutQueue k)\<rparr>"

definition OsSchedTimeoutQueueDelete :: "nat \<Rightarrow> kstate \<Rightarrow> kstate" where
  "OsSchedTimeoutQueueDelete t k =
     (let oldResponseTime = responseTime (timeoutQueue k) t;
          k1 = k\<lparr>timeoutQueue := OsDeleteFromSortLink t (timeoutQueue k)\<rparr>
      in if oldResponseTime \<le> rq_responseTime k1
         then k1\<lparr>rq_responseTime := OS_SCHED_MAX_RESPONSE_TIME\<rparr> else k1)"

definition OsSchedTimeoutQueueAdjust :: "nat \<Rightarrow> u64 \<Rightarrow> kstate \<Rightarrow> u32 \<times> kstate" where
  "OsSchedTimeoutQueueAdjust t time k =
     (let (ret, q) = OsSortLinkAdjustNodeResponseTime t time (timeoutQueue k);
          k1 = k\<lparr>timeoutQueue := q\<rparr>
      in (ret, if ret = 0 then set_schedFlag INT_PEND_TICK k1 else k1))"

definition SchedTaskFreeze :: "nat \<Rightarrow> kstate \<Rightarrow> kstate" where
  "SchedTaskFreeze t k =
     (if \<not> pm_mode k then k
      else if \<not> has (status k t) (OS_TASK_STATUS_PEND_TIME OR OS_TASK_STATUS_DELAY) then k
      else (let time = responseTime (timeoutQueue k) t;
                k1 = OsSchedTimeoutQueueDelete t k;
                k2 = k1\<lparr>timeoutQueue := SET_SORTLIST_VALUE t time (timeoutQueue k1)\<rparr>
            in set_status t OS_TASK_STATUS_FROZEN k2))"

definition SchedTaskUnfreeze :: "nat \<Rightarrow> kstate \<Rightarrow> kstate" where
  "SchedTaskUnfreeze t k =
     (if \<not> has (status k t) OS_TASK_STATUS_FROZEN then k
      else (let k1 = clr_status t OS_TASK_STATUS_FROZEN k;
                currTime = OsGetCurrSchedTimeCycle k1;
                time = responseTime (timeoutQueue k1) t
            in if time > currTime then OsSchedTimeoutQueueAdd t time k1
               else (let k2 = k1\<lparr>timeoutQueue :=
                           SET_SORTLIST_VALUE t OS_SORT_LINK_INVALID_TIME (timeoutQueue k1)\<rparr>;
                         k3 = (if has (status k2 t) OS_TASK_STATUS_PENDING then pend_delete t k2 else k2)
                     in clr_status t OS_TASK_STATUS_BLOCKED k3)))"

section \<open>Computation rules\<close>

lemma upd_tcb_simps [simp]:
  "tcb (upd_tcb t f k) = (tcb k)(t := f (tcb k t))" "pend (upd_tcb t f k) = pend k"
  "readyTasks (upd_tcb t f k) = readyTasks k" "prioBitmap (upd_tcb t f k) = prioBitmap k"
  "queueBitmap (upd_tcb t f k) = queueBitmap k" "timeoutQueue (upd_tcb t f k) = timeoutQueue k"
  "rq_responseTime (upd_tcb t f k) = rq_responseTime k" "responseID (upd_tcb t f k) = responseID k"
  "idleTask (upd_tcb t f k) = idleTask k" "taskLockCnt (upd_tcb t f k) = taskLockCnt k"
  "schedFlag (upd_tcb t f k) = schedFlag k" "g_taskScheduled (upd_tcb t f k) = g_taskScheduled k"
  "currTask (upd_tcb t f k) = currTask k" "threadSiblingList (upd_tcb t f k) = threadSiblingList k"
  "now (upd_tcb t f k) = now k" "int_active (upd_tcb t f k) = int_active k"
  "pm_mode (upd_tcb t f k) = pm_mode k" "sys_clock (upd_tcb t f k) = sys_clock k"
  "tick_per_second (upd_tcb t f k) = tick_per_second k" "fault (upd_tcb t f k) = fault k"
  "asserted (upd_tcb t f k) = asserted k" "diverged (upd_tcb t f k) = diverged k"
  by (simp_all add: upd_tcb_def)

lemma LOS_ASSERT_simps [simp]:
  "tcb (LOS_ASSERT j k) = tcb k" "pend (LOS_ASSERT j k) = pend k" "status (LOS_ASSERT j k) = status k"
  "readyTasks (LOS_ASSERT j k) = readyTasks k" "prioBitmap (LOS_ASSERT j k) = prioBitmap k"
  "queueBitmap (LOS_ASSERT j k) = queueBitmap k" "OS_TIME_SLICE_MIN (LOS_ASSERT j k) = OS_TIME_SLICE_MIN k"
  "timeoutQueue (LOS_ASSERT j k) = timeoutQueue k" "fault (LOS_ASSERT j k) = fault k"
  "currTask (LOS_ASSERT j k) = currTask k" "taskLockCnt (LOS_ASSERT j k) = taskLockCnt k"
  "now (LOS_ASSERT j k) = now k" "idleTask (LOS_ASSERT j k) = idleTask k"
  by (auto simp: LOS_ASSERT_def status_def OS_TIME_SLICE_MIN_def OS_NS_PER_CYCLE_def)

lemmas tcb_upd_defs = set_status_def clr_status_def upd_sp_def set_timeSlice_def

text \<open>What the list operations and the timeout queue leave alone.\<close>

lemma pend_frame [simp]:
  "timeoutQueue (pend_delete t k) = timeoutQueue k"
  "currTask (pend_delete t k) = currTask k"
  "now (pend_delete t k) = now k"
  "taskLockCnt (pend_delete t k) = taskLockCnt k"
  "readyTasks (pend_delete t k) = readyTasks k"
  "prioBitmap (pend_delete t k) = prioBitmap k"
  "queueBitmap (pend_delete t k) = queueBitmap k"
  by (simp_all add: pend_delete_def split: option.splits)

lemma timeout_frame [simp]:
  "tcb (OsSchedTimeoutQueueAdd t v k) = tcb k" "pend (OsSchedTimeoutQueueAdd t v k) = pend k"
  "readyTasks (OsSchedTimeoutQueueAdd t v k) = readyTasks k"
  "prioBitmap (OsSchedTimeoutQueueAdd t v k) = prioBitmap k"
  "queueBitmap (OsSchedTimeoutQueueAdd t v k) = queueBitmap k"
  "currTask (OsSchedTimeoutQueueAdd t v k) = currTask k"
  "fault (OsSchedTimeoutQueueAdd t v k) = fault k"
  "tcb (OsSchedTimeoutQueueDelete t k) = tcb k" "pend (OsSchedTimeoutQueueDelete t k) = pend k"
  "readyTasks (OsSchedTimeoutQueueDelete t k) = readyTasks k"
  "prioBitmap (OsSchedTimeoutQueueDelete t k) = prioBitmap k"
  "queueBitmap (OsSchedTimeoutQueueDelete t k) = queueBitmap k"
  "currTask (OsSchedTimeoutQueueDelete t k) = currTask k"
  "fault (OsSchedTimeoutQueueDelete t k) = fault k"
  by (simp_all add: OsSchedTimeoutQueueAdd_def OsSchedTimeoutQueueDelete_def Let_def)

section \<open>The task lists meet the contract of intrusive lists\<close>

lemma lists_okD:
  assumes "lists_ok k"
  shows "distinct (pend k h)" "t \<in> set (pend k h) \<longleftrightarrow> on (tcb k t) = Some h"
  using assms by (simp_all add: lists_ok_def)

lemma lists_ok_link:
  assumes ok: "lists_ok k" and t: "on (tcb k t) = None"
    and xs: "distinct xs" "set xs = insert t (set (pend k h))"
  shows "lists_ok (pend_link h t xs k) \<and> pend (pend_link h t xs k) = (pend k)(h := xs)"
  using lists_okD [OF ok] t xs by (auto simp: lists_ok_def pend_link_def)

lemma pend_delete_eq:
  assumes "on (tcb k t) = Some h"
  shows "pend_delete t k =
    upd_tcb t (\<lambda>c. c\<lparr>on := None\<rparr>) (k\<lparr>pend := (pend k)(h := remove1 t (pend k h))\<rparr>)"
  using assms by (simp add: pend_delete_def)

lemma lists_ok_delete:
  assumes ok: "lists_ok k" and t: "on (tcb k t) = Some h"
  shows "lists_ok (pend_delete t k)"
  using lists_okD [OF ok] t by (auto simp: lists_ok_def pend_delete_eq)

interpretation pends: intrusive_lists lists_ok pend "\<lambda>_. True" "\<lambda>_. True"
  pend_tail_insert pend_head_insert pend_insert_before pend_delete pend_empty pend_first
proof (unfold_locales, goal_cases)
  case (1 k h)
  then show ?case by (simp add: lists_ok_def)
next
  case (2 k h g)
  then show ?case by (auto simp: lists_ok_def)
next
  case (3 k h t)
  then have "on (tcb k t) = None" by (auto simp: lists_ok_def)
  with 3 show ?case
    unfolding pend_tail_insert_def by (intro lists_ok_link) (auto simp: lists_ok_def)
next
  case (4 k h t)
  then have "on (tcb k t) = None" by (auto simp: lists_ok_def)
  with 4 show ?case
    unfolding pend_head_insert_def by (intro lists_ok_link) (auto simp: lists_ok_def)
next
  case (5 k h t p)
  then have "on (tcb k t) = None" and p: "on (tcb k p) = Some h" by (auto simp: lists_ok_def)
  then have "pend_insert_before p t k = pend_link h t (ins_before p t (pend k h)) k"
    by (simp add: pend_insert_before_def)
  moreover have "distinct (ins_before p t (pend k h))"
    using 5 by (intro distinct_ins_before) (auto simp: lists_ok_def)
  ultimately show ?case
    using 5 lists_ok_link [OF 5(1) \<open>on (tcb k t) = None\<close>] by simp
next
  case (6 k h t)
  then have "on (tcb k t) = Some h" by (simp add: lists_ok_def)
  with lists_ok_delete [OF 6(1) this] show ?case by (simp add: pend_delete_eq)
qed (auto simp: pend_empty_def pend_first_def)

section \<open>The run queue invariant\<close>

text \<open>
  What a task's control block says about the list its node is on: on the queue of its priority
  exactly when it is ready under the priority policy, on the deadline queue exactly when it is
  ready under the deadline policy.
\<close>

definition task_ok :: "TCB \<Rightarrow> bool" where
  "task_ok c \<longleftrightarrow> (case on c of
     Some (HpfQue b p) \<Rightarrow> has (taskStatus c) OS_TASK_STATUS_READY \<and> ops c = PriorityOps \<and>
       b = basePrio (sp c) \<and> p = priority (sp c) \<and> b < 32 \<and> p < 32
   | Some EdfRoot \<Rightarrow> has (taskStatus c) OS_TASK_STATUS_READY \<and> ops c = DeadlineOps
   | _ \<Rightarrow> ops c \<noteq> IdleOps \<longrightarrow> \<not> has (taskStatus c) OS_TASK_STATUS_READY)"

text \<open>The bit maps and the counters describe the priority queues.\<close>

definition maps_ok ::
    "(pend_head \<Rightarrow> nat list) \<Rightarrow> (nat \<Rightarrow> nat \<Rightarrow> u32) \<Rightarrow> (nat \<Rightarrow> u32) \<Rightarrow> u32 \<Rightarrow> bool" where
  "maps_ok q ready bm base \<longleftrightarrow>
     (\<forall>b<32. (bit base (31 - b) \<longleftrightarrow> bm b \<noteq> 0) \<and>
       (\<forall>p<32. (bit (bm b) (31 - p) \<longleftrightarrow> q (HpfQue b p) \<noteq> []) \<and>
               ready b p = of_nat (length (q (HpfQue b p)))))"

definition rq_inv :: "kstate \<Rightarrow> bool" where
  "rq_inv k \<longleftrightarrow> lists_ok k \<and> (\<forall>t. task_ok (tcb k t)) \<and>
     maps_ok (pend k) (readyTasks k) (prioBitmap k) (queueBitmap k)"

lemma rq_invI:
  assumes "lists_ok k" "\<And>t. task_ok (tcb k t)"
    "maps_ok (pend k) (readyTasks k) (prioBitmap k) (queueBitmap k)"
  shows "rq_inv k"
  using assms by (simp add: rq_inv_def)

lemma rq_invD:
  assumes "rq_inv k"
  shows "lists_ok k" "task_ok (tcb k t)" "maps_ok (pend k) (readyTasks k) (prioBitmap k) (queueBitmap k)"
  using assms by (simp_all add: rq_inv_def)

text \<open>Two states with the same blocks, lists and maps have the invariant together.\<close>

definition rq_same :: "kstate \<Rightarrow> kstate \<Rightarrow> bool" where
  "rq_same k k' \<longleftrightarrow> tcb k' = tcb k \<and> pend k' = pend k \<and> readyTasks k' = readyTasks k \<and>
     prioBitmap k' = prioBitmap k \<and> queueBitmap k' = queueBitmap k"

lemma rq_inv_same: "rq_same k k' \<Longrightarrow> rq_inv k' = rq_inv k"
  by (simp add: rq_same_def rq_inv_def lists_ok_def)

text \<open>A control block may change freely in what the invariant does not read.\<close>

definition tcb_same :: "TCB \<Rightarrow> TCB \<Rightarrow> bool" where
  "tcb_same c d \<longleftrightarrow> on d = on c \<and> ops d = ops c \<and> basePrio (sp d) = basePrio (sp c) \<and>
     priority (sp d) = priority (sp c) \<and> has (taskStatus d) OS_TASK_STATUS_READY = has (taskStatus c) OS_TASK_STATUS_READY"

lemma task_ok_same: "tcb_same c d \<Longrightarrow> task_ok d = task_ok c"
  by (simp add: tcb_same_def task_ok_def split: option.split pend_head.split)

lemma rq_inv_upd_tcb:
  assumes "rq_inv k" "tcb_same (tcb k t) (f (tcb k t))"
  shows "rq_inv (upd_tcb t f k)"
  using assms task_ok_same [OF assms(2)] by (auto simp: rq_inv_def lists_ok_def tcb_same_def)

lemma rq_inv_set_status:
  assumes "rq_inv k" "\<not> has m OS_TASK_STATUS_READY"
  shows "rq_inv (set_status t m k)"
  unfolding set_status_def using assms by (intro rq_inv_upd_tcb) (auto simp: tcb_same_def)

lemma rq_inv_clr_status:
  assumes "rq_inv k" "OS_TASK_STATUS_READY AND NOT m = OS_TASK_STATUS_READY"
  shows "rq_inv (clr_status t m k)"
  unfolding clr_status_def using assms by (intro rq_inv_upd_tcb) (auto simp: tcb_same_def)

text \<open>Lists that are not ready queues may be changed without looking at the maps.\<close>

definition wait_head :: "pend_head \<Rightarrow> bool" where
  "wait_head h \<longleftrightarrow> (case h of HpfQue _ _ \<Rightarrow> False | EdfRoot \<Rightarrow> False | _ \<Rightarrow> True)"

lemma wait_head_simps [simp]:
  "\<not> wait_head (HpfQue b p)" "\<not> wait_head EdfRoot" "wait_head EdfWait"
  "wait_head (SemList i)" "wait_head (MuxList i)" "wait_head (QueueRead i)" "wait_head (QueueWrite i)"
  "wait_head (QueueMem i)" "wait_head (EventList i)" "wait_head (RwRead i)" "wait_head (RwWrite i)"
  by (simp_all add: wait_head_def)

lemma task_ok_wait:
  assumes "on c = Some h" "wait_head h"
  shows "task_ok c \<longleftrightarrow> (ops c \<noteq> IdleOps \<longrightarrow> \<not> has (taskStatus c) OS_TASK_STATUS_READY)"
  using assms by (cases h) (simp_all add: task_ok_def)

lemma task_ok_none:
  assumes "on c = None"
  shows "task_ok c \<longleftrightarrow> (ops c \<noteq> IdleOps \<longrightarrow> \<not> has (taskStatus c) OS_TASK_STATUS_READY)"
  using assms by (simp add: task_ok_def)

lemma maps_ok_wait:
  assumes "maps_ok q ready bm base" "wait_head h \<or> h = EdfRoot"
  shows "maps_ok (q(h := xs)) ready bm base"
  using assms by (auto simp: maps_ok_def)

lemma rq_inv_link:
  assumes inv: "rq_inv k" and t: "on (tcb k t) = None" and h: "wait_head h"
    and xs: "distinct xs" "set xs = insert t (set (pend k h))"
  shows "rq_inv (pend_link h t xs k)"
proof (rule rq_invI)
  show "lists_ok (pend_link h t xs k)"
    using lists_ok_link [OF rq_invD(1) [OF inv] t xs] by simp
  show "task_ok (tcb (pend_link h t xs k) u)" for u
    using rq_invD(2) [OF inv, of u] t h by (auto simp: pend_link_def task_ok_none task_ok_wait [where h = h])
  show "maps_ok (pend (pend_link h t xs k)) (readyTasks (pend_link h t xs k))
      (prioBitmap (pend_link h t xs k)) (queueBitmap (pend_link h t xs k))"
    using maps_ok_wait [OF rq_invD(3) [OF inv]] h by (simp add: pend_link_def)
qed

lemma rq_inv_delete:
  assumes inv: "rq_inv k" and t: "on (tcb k t) = Some h" and h: "wait_head h"
  shows "rq_inv (pend_delete t k)"
proof (rule rq_invI)
  show "lists_ok (pend_delete t k)" by (rule lists_ok_delete [OF rq_invD(1) [OF inv] t])
  show "task_ok (tcb (pend_delete t k) u)" for u
    using rq_invD(2) [OF inv, of u] t h by (auto simp: pend_delete_eq task_ok_none task_ok_wait [where h = h])
  show "maps_ok (pend (pend_delete t k)) (readyTasks (pend_delete t k))
      (prioBitmap (pend_delete t k)) (queueBitmap (pend_delete t k))"
    using maps_ok_wait [OF rq_invD(3) [OF inv]] h by (simp add: pend_delete_eq [OF t])
qed

lemma rq_inv_insert_at:
  assumes inv: "rq_inv k" and t: "on (tcb k t) = None"
    and pos: "case pos of AtHead h \<Rightarrow> wait_head h | AtNode p \<Rightarrow> (\<exists>h. on (tcb k p) = Some h \<and> wait_head h)"
  shows "rq_inv (pend_insert_at pos t k)"
proof (cases pos)
  case (AtHead h)
  then show ?thesis
    using pos t lists_okD [OF rq_invD(1) [OF inv]]
    by (auto simp: pend_insert_at_def pend_tail_insert_def intro!: rq_inv_link inv)
next
  case (AtNode p)
  then obtain h where h: "on (tcb k p) = Some h" "wait_head h" using pos by auto
  have "rq_inv (pend_link h t (ins_before p t (pend k h)) k)"
    using h t lists_okD [OF rq_invD(1) [OF inv]]
    by (intro rq_inv_link inv) (auto intro: distinct_ins_before)
  with AtNode h show ?thesis by (simp add: pend_insert_at_def pend_insert_before_def)
qed

end
