(* ===== verification/Sched_Hpf.thy ===== *)
theory Sched_Hpf
  imports Sched_State
begin

text \<open>
  The highest priority first policy, \<^verbatim>\<open>kernel/base/sched/los_priority.c\<close>: the 32 by 32 priority queues
  with their two levels of bit maps, the time slice accounting, and the operations of
  \<open>g_priorityOps\<close> that do not reschedule. The run queue invariant is shown for them, and that
  \<open>HPFRunqueueTopTaskGet\<close> finds the head of the highest non-empty queue. Those operations that
  reschedule are in the theory of the scheduling operations.
\<close>

section \<open>Priority queues\<close>

abbreviation (input) OS_SCHED_FIFO_TIMEOUT :: u32 where "OS_SCHED_FIFO_TIMEOUT \<equiv> 0x7FFFFFFF"
abbreviation (input) PRIQUEUE_PRIOR0_BIT :: u32 where "PRIQUEUE_PRIOR0_BIT \<equiv> 0x80000000"
abbreviation (input) OS_SCHED_READY_MAX :: u32 where "OS_SCHED_READY_MAX \<equiv> 30"

definition TimeSliceCalculate :: "kstate \<Rightarrow> nat \<Rightarrow> nat \<Rightarrow> u32" where
  "TimeSliceCalculate k base prio =
     (let ready = readyTasks k base prio
      in if ready > OS_SCHED_READY_MAX then OS_SCHED_TIME_SLICES_MIN k
         else ((OS_SCHED_READY_MAX - ready) * OS_SCHED_TIME_SLICES_DIFF k) div OS_SCHED_READY_MAX
              + OS_SCHED_TIME_SLICES_MIN k)"

text \<open>The part that \<open>PriQueHeadInsert\<close> and \<open>PriQueTailInsert\<close> share: the assertion and the bit maps.\<close>

definition pri_que_mark :: "nat \<Rightarrow> nat \<Rightarrow> nat \<Rightarrow> kstate \<Rightarrow> kstate" where
  "pri_que_mark base t prio k =
     (let k1 = LOS_ASSERT (on (tcb k t) = None) k;
          k2 = (if prioBitmap k1 base = 0
                then k1\<lparr>queueBitmap := queueBitmap k1 OR drop_bit base PRIQUEUE_PRIOR0_BIT\<rparr> else k1)
      in if pend k2 (HpfQue base prio) = []
         then k2\<lparr>prioBitmap := (prioBitmap k2)(base := prioBitmap k2 base OR drop_bit prio PRIQUEUE_PRIOR0_BIT)\<rparr>
         else k2)"

definition add_readyTasks :: "nat \<Rightarrow> nat \<Rightarrow> u32 \<Rightarrow> kstate \<Rightarrow> kstate" where
  "add_readyTasks base prio v k =
     k\<lparr>readyTasks := (readyTasks k)(base := (readyTasks k base)(prio := readyTasks k base prio + v))\<rparr>"

definition PriQueHeadInsert :: "nat \<Rightarrow> nat \<Rightarrow> nat \<Rightarrow> kstate \<Rightarrow> kstate" where
  "PriQueHeadInsert base t prio k =
     add_readyTasks base prio 1 (pend_head_insert (HpfQue base prio) t (pri_que_mark base t prio k))"

definition PriQueTailInsert :: "nat \<Rightarrow> nat \<Rightarrow> nat \<Rightarrow> kstate \<Rightarrow> kstate" where
  "PriQueTailInsert base t prio k =
     add_readyTasks base prio 1 (pend_tail_insert (HpfQue base prio) t (pri_que_mark base t prio k))"

definition PriQueDelete :: "nat \<Rightarrow> nat \<Rightarrow> nat \<Rightarrow> kstate \<Rightarrow> kstate" where
  "PriQueDelete base t prio k =
     (let k1 = add_readyTasks base prio (- 1) (pend_delete t k);
          k2 = (if pend k1 (HpfQue base prio) = []
                then k1\<lparr>prioBitmap := (prioBitmap k1)
                       (base := prioBitmap k1 base AND NOT (drop_bit prio PRIQUEUE_PRIOR0_BIT))\<rparr>
                else k1)
      in if prioBitmap k2 base = 0
         then k2\<lparr>queueBitmap := queueBitmap k2 AND NOT (drop_bit base PRIQUEUE_PRIOR0_BIT)\<rparr>
         else k2)"

definition PriQueInsert :: "nat \<Rightarrow> kstate \<Rightarrow> kstate" where
  "PriQueInsert t k0 =
     (let k = LOS_ASSERT (\<not> has (status k0 t) OS_TASK_STATUS_READY) k0;
          base = basePrio (sp (tcb k t)); prio = priority (sp (tcb k t));
          k1 =
            (if policy (sp (tcb k t)) = LOS_SCHED_RR then
               (if timeSlice (tcb k t) > OS_TIME_SLICE_MIN k
                then PriQueHeadInsert base t prio k
                else (let slice = TimeSliceCalculate k base prio
                      in PriQueTailInsert base t prio
                           (set_timeSlice t (sint slice) (upd_sp t (\<lambda>s. s\<lparr>initTimeSlice := slice\<rparr>) k))))
             else if policy (sp (tcb k t)) = LOS_SCHED_FIFO then
               (if timeSlice (tcb k t) > OS_TIME_SLICE_MIN k \<and> has (status k t) OS_TASK_STATUS_RUNNING
                then PriQueHeadInsert base t prio k
                else PriQueTailInsert base t prio
                       (set_timeSlice t (sint OS_SCHED_FIFO_TIMEOUT)
                         (upd_sp t (\<lambda>s. s\<lparr>initTimeSlice := OS_SCHED_FIFO_TIMEOUT\<rparr>) k)))
             else LOS_ASSERT False k)
      in set_status t OS_TASK_STATUS_READY (clr_status t OS_TASK_STATUS_BLOCKED k1))"

definition HPFEnqueue :: "nat \<Rightarrow> kstate \<Rightarrow> kstate" where
  "HPFEnqueue t k = PriQueInsert t k"

definition HPFDequeue :: "nat \<Rightarrow> kstate \<Rightarrow> kstate" where
  "HPFDequeue t k =
     (if has (status k t) OS_TASK_STATUS_READY
      then clr_status t OS_TASK_STATUS_READY
             (PriQueDelete (basePrio (sp (tcb k t))) t (priority (sp (tcb k t))) k)
      else k)"

definition HPFStartToRun :: "nat \<Rightarrow> kstate \<Rightarrow> kstate" where
  "HPFStartToRun t k = HPFDequeue t k"

section \<open>Time slices\<close>

definition HPFTimeSliceUpdate :: "nat \<Rightarrow> u64 \<Rightarrow> kstate \<Rightarrow> kstate" where
  "HPFTimeSliceUpdate t currTime k0 =
     (let k = LOS_ASSERT (currTime \<ge> startTime (tcb k0 t)) k0;
          incTime = i32_of_u64 (currTime - startTime (tcb k t) - ucast (irqUsedTime (tcb k t)));
          k1 = LOS_ASSERT (incTime \<ge> 0) k;
          k2 = (if policy (sp (tcb k1 t)) = LOS_SCHED_RR
                then set_timeSlice t (i32 (timeSlice (tcb k1 t) - incTime)) k1 else k1);
          k3 = upd_tcb t (\<lambda>c. c\<lparr>irqUsedTime := 0, startTime := currTime\<rparr>) k2
      in if timeSlice (tcb k3 t) \<le> OS_TIME_SLICE_MIN k3
         then set_schedFlag INT_PEND_RESCH k3 else k3)"

definition HPFTimeSliceGet :: "kstate \<Rightarrow> nat \<Rightarrow> u64" where
  "HPFTimeSliceGet k t =
     (let slice = (if timeSlice (tcb k t) \<le> OS_TIME_SLICE_MIN k
                   then sint (initTimeSlice (sp (tcb k t))) else timeSlice (tcb k t))
      in startTime (tcb k t) + u64_of_i32 slice)"

definition HPFWaitTimeGet :: "nat \<Rightarrow> kstate \<Rightarrow> u64 \<times> kstate" where
  "HPFWaitTimeGet t k =
     (let k1 = upd_tcb t (\<lambda>c. c\<lparr>waitTime := waitTime c + startTime c\<rparr>) k
      in (waitTime (tcb k1 t), k1))"

section \<open>Leaving a list\<close>

definition HPFExit :: "nat \<Rightarrow> kstate \<Rightarrow> kstate" where
  "HPFExit t k =
     (let k1 = (if has (status k t) OS_TASK_STATUS_READY then HPFDequeue t k
                else if has (status k t) OS_TASK_STATUS_PENDING
                then clr_status t OS_TASK_STATUS_PENDING (pend_delete t k)
                else k)
      in if has (status k1 t) (OS_TASK_STATUS_DELAY OR OS_TASK_STATUS_PEND_TIME)
         then clr_status t (OS_TASK_STATUS_DELAY OR OS_TASK_STATUS_PEND_TIME)
                (OsSchedTimeoutQueueDelete t k1)
         else k1)"

definition HPFWake :: "nat \<Rightarrow> kstate \<Rightarrow> kstate" where
  "HPFWake t k =
     (let k1 = clr_status t OS_TASK_STATUS_PENDING (pend_delete t k);
          k2 = (if has (status k1 t) OS_TASK_STATUS_PEND_TIME
                then clr_status t OS_TASK_STATUS_PEND_TIME (OsSchedTimeoutQueueDelete t k1) else k1)
      in if \<not> has (status k2 t) OS_TASK_STATUS_SUSPENDED then HPFEnqueue t k2 else k2)"

section \<open>Parameters\<close>

definition HPFSchedParamGet :: "kstate \<Rightarrow> nat \<Rightarrow> SchedParam \<Rightarrow> SchedParam" where
  "HPFSchedParamGet k t param = param\<lparr>pr_policy := policy (sp (tcb k t)),
     pr_basePrio := basePrio (sp (tcb k t)), pr_priority := priority (sp (tcb k t)),
     pr_timeSlice := initTimeSlice (sp (tcb k t))\<rparr>"

definition HPFParamCompare :: "SchedPolicy \<Rightarrow> SchedPolicy \<Rightarrow> int" where
  "HPFParamCompare p1 p2 =
     (if basePrio p1 \<noteq> basePrio p2 then int (basePrio p1) - int (basePrio p2)
      else int (priority p1) - int (priority p2))"

definition HPFPriorityInheritance :: "nat \<Rightarrow> SchedParam \<Rightarrow> kstate \<Rightarrow> kstate" where
  "HPFPriorityInheritance owner param k =
     (if pr_policy param \<noteq> LOS_SCHED_RR \<and> pr_policy param \<noteq> LOS_SCHED_FIFO then k
      else if priority (sp (tcb k owner)) \<le> pr_priority param then k
      else upd_sp owner (\<lambda>s. s\<lparr>priBitmap := LOS_BitmapSet (priBitmap s) (of_nat (priority s)),
                                 priority := pr_priority param\<rparr>) k)"

text \<open>
  The loop of \<open>HPFPriorityRestore\<close> over the tasks that still wait: their priorities are struck
  from the record of the owner, except the one it is about to fall back to.
\<close>

fun strike_waiters :: "kstate \<Rightarrow> nat \<Rightarrow> nat \<Rightarrow> nat list \<Rightarrow> u32 \<Rightarrow> u32" where
  "strike_waiters k owner prio [] bm = bm"
| "strike_waiters k owner prio (pended # rest) bm =
     strike_waiters k owner prio rest
       (if ops (tcb k pended) = ops (tcb k owner) \<and> prio \<noteq> priority (sp (tcb k pended))
        then LOS_BitmapClr bm (of_nat (priority (sp (tcb k pended)))) else bm)"

definition HPFPriorityRestore :: "nat \<Rightarrow> pend_head option \<Rightarrow> SchedParam \<Rightarrow> kstate \<Rightarrow> kstate" where
  "HPFPriorityRestore owner list param k =
     (if pr_policy param \<noteq> LOS_SCHED_RR \<and> pr_policy param \<noteq> LOS_SCHED_FIFO then k
      else let s = sp (tcb k owner) in
      if priority s < pr_priority param then
        (if LOS_HighBitGet (priBitmap s) \<noteq> pr_priority param
         then upd_sp owner (\<lambda>s. s\<lparr>priBitmap := LOS_BitmapClr (priBitmap s) (of_nat (pr_priority param))\<rparr>) k
         else k)
      else if priBitmap s = 0 then k
      else let bm = (case list of
                Some h \<Rightarrow> if pend k h \<noteq> []
                  then strike_waiters k owner (LOS_HighBitGet (priBitmap s)) (pend k h) (priBitmap s)
                  else priBitmap s
              | None \<Rightarrow> priBitmap s);
            prio = LOS_LowBitGet bm
        in if prio \<noteq> LOS_INVALID_BIT_INDEX
           then upd_sp owner (\<lambda>s. s\<lparr>priBitmap := LOS_BitmapClr bm (of_nat prio), priority := prio\<rparr>) k
           else upd_sp owner (\<lambda>s. s\<lparr>priBitmap := bm\<rparr>) k)"

definition HPFTaskSchedParamInit :: "nat \<Rightarrow> u16 \<Rightarrow> SchedParam \<Rightarrow> LosSchedParam option \<Rightarrow> kstate \<Rightarrow> kstate" where
  "HPFTaskSchedParamInit t pol parentParam param k =
     upd_tcb t (\<lambda>c. c\<lparr>timeSlice := 0, ops := PriorityOps,
       sp := (sp c)\<lparr>policy := pol,
         priority := (case param of Some q \<Rightarrow> nat (lp_priority q mod 65536) | None \<Rightarrow> pr_priority parentParam),
         basePrio := pr_basePrio parentParam, initTimeSlice := 0\<rparr>\<rparr>) k"

definition HPFProcessDefaultSchedParamGet :: "SchedParam \<Rightarrow> SchedParam" where
  "HPFProcessDefaultSchedParamGet param = param\<lparr>pr_basePrio := 10\<rparr>"

definition HPFSchedPolicyInit :: "kstate \<Rightarrow> kstate" where
  "HPFSchedPolicyInit k = k\<lparr>pend := (\<lambda>h. case h of HpfQue b p \<Rightarrow> [] | _ \<Rightarrow> pend k h)\<rparr>"

text \<open>
  \<open>HPFRunqueueTopTaskGet\<close>: the two nested loops over the set bits of the maps, highest first.
  Each turn clears the bit it looked at, so that 32 turns are enough.
\<close>

fun top_in_base :: "nat \<Rightarrow> u32 \<Rightarrow> nat \<Rightarrow> kstate \<Rightarrow> nat option" where
  "top_in_base 0 bitmap base k = None"
| "top_in_base (Suc n) bitmap base k =
     (if bitmap = 0 then None
      else let prio = CLZ bitmap in
        (case pend k (HpfQue base prio) of
           newTask # _ \<Rightarrow> Some newTask
         | [] \<Rightarrow> top_in_base n (bitmap AND NOT (push_bit (32 - prio - 1) 1)) base k))"

fun top_in_rq :: "nat \<Rightarrow> u32 \<Rightarrow> kstate \<Rightarrow> nat option" where
  "top_in_rq 0 baseBitmap k = None"
| "top_in_rq (Suc n) baseBitmap k =
     (if baseBitmap = 0 then None
      else let base = CLZ baseBitmap in
        (case top_in_base 32 (prioBitmap k base) base k of
           Some newTask \<Rightarrow> Some newTask
         | None \<Rightarrow> top_in_rq n (baseBitmap AND NOT (push_bit (32 - base - 1) 1)) k))"

definition HPFRunqueueTopTaskGet :: "kstate \<Rightarrow> nat option" where
  "HPFRunqueueTopTaskGet k = top_in_rq 32 (queueBitmap k) k"

lemma TimeSliceCalculate_assert [simp]: "TimeSliceCalculate (LOS_ASSERT j k) = TimeSliceCalculate k"
  by (simp add: LOS_ASSERT_def OS_NS_PER_CYCLE_def TimeSliceCalculate_def OS_SCHED_TIME_SLICES_MIN_def
      OS_SCHED_TIME_SLICES_DIFF_def OS_SCHED_TIME_SLICES_MAX_def fun_eq_iff Let_def)

section \<open>The bit maps\<close>

lemma bit_prior0:
  assumes "p < 32"
  shows "bit (drop_bit p PRIQUEUE_PRIOR0_BIT) i \<longleftrightarrow> i = 31 - p"
proof -
  have "(0x80000000 :: u32) = push_bit 31 1" by simp
  then have "bit (drop_bit p (0x80000000 :: u32)) i \<longleftrightarrow> p + i = 31"
    by (simp only: bit_drop_bit_eq comp_def bit_push_bit_iff bit_1_iff) auto
  with assms show ?thesis by auto
qed

lemma prior0_nonzero: "p < 32 \<Longrightarrow> drop_bit p PRIQUEUE_PRIOR0_BIT \<noteq> 0"
  using bit_prior0 [of p "31 - p"] by auto

lemma or_nonzero: "(b :: u32) \<noteq> 0 \<Longrightarrow> a OR b \<noteq> 0"
  by (auto simp: bit_eq_iff bit_simps)

lemma maps_ok_insert:
  assumes ok: "maps_ok q r bm base" and lt: "b < 32" "p < 32"
    and xs: "length xs = Suc (length (q (HpfQue b p)))"
  shows "maps_ok (q(HpfQue b p := xs)) (r(b := (r b)(p := r b p + 1)))
    (if q (HpfQue b p) = [] then bm(b := bm b OR drop_bit p PRIQUEUE_PRIOR0_BIT) else bm)
    (if bm b = 0 then base OR drop_bit b PRIQUEUE_PRIOR0_BIT else base)"
    (is "maps_ok ?q ?r ?bm ?base")
  unfolding maps_ok_def
proof (intro allI impI conjI)
  fix b' assume b': "b' < (32::nat)"
  have ne: "xs \<noteq> []" using xs by auto
  have b1: "q (HpfQue b p) \<noteq> [] \<Longrightarrow> bm b \<noteq> 0"
    using ok lt unfolding maps_ok_def by (metis bit_0_eq bot_apply bot_bool_def)
  have inj: "31 - b' = 31 - b \<longleftrightarrow> b' = b" using b' lt by arith
  show "bit ?base (31 - b') \<longleftrightarrow> ?bm b' \<noteq> 0"
    using ok b' lt b1 or_nonzero [OF prior0_nonzero [OF lt(2)], of "bm b"]
    by (auto simp: maps_ok_def bit_or_iff bit_prior0 inj)
  fix p' assume p': "p' < (32::nat)"
  have injp: "31 - p' = 31 - p \<longleftrightarrow> p' = p" using p' lt by arith
  show "bit (?bm b') (31 - p') \<longleftrightarrow> ?q (HpfQue b' p') \<noteq> []"
    using ok b' p' lt ne by (auto simp: maps_ok_def bit_or_iff bit_prior0 injp)
  show "?r b' p' = of_nat (length (?q (HpfQue b' p')))"
    using ok b' p' lt xs by (auto simp: maps_ok_def)
qed

lemma maps_ok_remove:
  assumes ok: "maps_ok q r bm base" and lt: "b < 32" "p < 32"
    and xs: "length (q (HpfQue b p)) = Suc (length xs)"
  defines "bm' \<equiv> if xs = [] then bm(b := bm b AND NOT (drop_bit p PRIQUEUE_PRIOR0_BIT)) else bm"
  shows "maps_ok (q(HpfQue b p := xs)) (r(b := (r b)(p := r b p + - 1))) bm'
    (if bm' b = 0 then base AND NOT (drop_bit b PRIQUEUE_PRIOR0_BIT) else base)"
    (is "maps_ok ?q ?r bm' ?base")
  unfolding maps_ok_def
proof (intro allI impI conjI)
  fix b' assume b': "b' < (32::nat)"
  have qne: "q (HpfQue b p) \<noteq> []" using xs by auto
  have b0: "bm b \<noteq> 0"
    using ok lt qne unfolding maps_ok_def by (metis bit_0_eq bot_apply bot_bool_def)
  have inj: "31 - b' = 31 - b \<longleftrightarrow> b' = b" using b' lt by arith
  show "bit ?base (31 - b') \<longleftrightarrow> bm' b' \<noteq> 0"
    using ok b' lt b0 by (auto simp: maps_ok_def bit_and_iff bit_not_iff bit_prior0 inj bm'_def)
  fix p' assume p': "p' < (32::nat)"
  have injp: "31 - p' = 31 - p \<longleftrightarrow> p' = p" using p' lt by arith
  show "bit (bm' b') (31 - p') \<longleftrightarrow> ?q (HpfQue b' p') \<noteq> []"
    using ok b' p' lt qne by (auto simp: maps_ok_def bit_and_iff bit_not_iff bit_prior0 injp bm'_def)
  show "?r b' p' = of_nat (length (?q (HpfQue b' p')))"
    using ok b' p' lt xs by (auto simp: maps_ok_def)
qed

section \<open>Entering and leaving the ready queues\<close>

lemma rq_inv_pri_insert:
  assumes inv: "rq_inv k" and t: "on (tcb k t) = None" "ops (tcb k t) = PriorityOps"
    and prio: "basePrio (sp (tcb k t)) = b" "priority (sp (tcb k t)) = p" "b < 32" "p < 32"
    and xs: "xs = t # pend k (HpfQue b p) \<or> xs = pend k (HpfQue b p) @ [t]"
  shows "rq_inv (set_status t OS_TASK_STATUS_READY (clr_status t OS_TASK_STATUS_BLOCKED
    (add_readyTasks b p 1 (pend_link (HpfQue b p) t xs (pri_que_mark b t p k)))))" (is "rq_inv ?k")
proof (rule rq_invI)
  have nt: "t \<notin> set (pend k (HpfQue b p))" using t lists_okD(2) [OF rq_invD(1) [OF inv]] by auto
  have tcb': "tcb ?k u = (if u = t then (tcb k t)\<lparr>on := Some (HpfQue b p),
      taskStatus := taskStatus (tcb k t) AND NOT OS_TASK_STATUS_BLOCKED OR OS_TASK_STATUS_READY\<rparr> else tcb k u)" for u
    by (simp add: set_status_def clr_status_def add_readyTasks_def pend_link_def pri_que_mark_def LOS_ASSERT_def Let_def)
  have pend': "pend ?k = (pend k)(HpfQue b p := xs)"
    by (simp add: set_status_def clr_status_def add_readyTasks_def pend_link_def pri_que_mark_def LOS_ASSERT_def Let_def)
  show "lists_ok ?k"
    using lists_okD [OF rq_invD(1) [OF inv]] t(1) xs nt unfolding lists_ok_def tcb' pend' by auto
  show "task_ok (tcb ?k u)" for u
    using rq_invD(2) [OF inv, of u] t prio unfolding tcb' by (simp add: task_ok_def)
  have "maps_ok ((pend k)(HpfQue b p := xs)) ((readyTasks k)(b := (readyTasks k b)(p := readyTasks k b p + 1)))
    (if pend k (HpfQue b p) = [] then (prioBitmap k)(b := prioBitmap k b OR drop_bit p PRIQUEUE_PRIOR0_BIT) else prioBitmap k)
    (if prioBitmap k b = 0 then queueBitmap k OR drop_bit b PRIQUEUE_PRIOR0_BIT else queueBitmap k)"
    using xs by (intro maps_ok_insert rq_invD(3) [OF inv] prio) auto
  then show "maps_ok (pend ?k) (readyTasks ?k) (prioBitmap ?k) (queueBitmap ?k)"
    unfolding pend'
    by (auto simp: set_status_def clr_status_def add_readyTasks_def pend_link_def pri_que_mark_def LOS_ASSERT_def Let_def
        split: if_splits)
qed

text \<open>A control block under the priority policy with parameters in range.\<close>

definition hpf_task :: "TCB \<Rightarrow> bool" where
  "hpf_task c \<longleftrightarrow> ops c = PriorityOps \<and> basePrio (sp c) < 32 \<and> priority (sp c) < 32 \<and>
     (policy (sp c) = LOS_SCHED_RR \<or> policy (sp c) = LOS_SCHED_FIFO)"

abbreviation hpf_que :: "kstate \<Rightarrow> nat \<Rightarrow> pend_head" where
  "hpf_que k t \<equiv> HpfQue (basePrio (sp (tcb k t))) (priority (sp (tcb k t)))"

text \<open>
  A task goes to the front of its queue when it has time left, under the FIFO policy only if it
  was running; otherwise it gets a new time slice and goes to the back.
\<close>

definition hpf_front :: "kstate \<Rightarrow> nat \<Rightarrow> bool" where
  "hpf_front k t \<longleftrightarrow> timeSlice (tcb k t) > OS_TIME_SLICE_MIN k \<and>
     (policy (sp (tcb k t)) = LOS_SCHED_RR \<or> has (status k t) OS_TASK_STATUS_RUNNING)"

definition hpf_slice :: "kstate \<Rightarrow> nat \<Rightarrow> u32" where
  "hpf_slice k t = (if policy (sp (tcb k t)) = LOS_SCHED_RR
     then TimeSliceCalculate k (basePrio (sp (tcb k t))) (priority (sp (tcb k t))) else OS_SCHED_FIFO_TIMEOUT)"

definition hpf_prepare :: "nat \<Rightarrow> kstate \<Rightarrow> kstate" where
  "hpf_prepare t k = (let k1 = LOS_ASSERT (\<not> has (status k t) OS_TASK_STATUS_READY) k in
     if hpf_front k t then k1
     else set_timeSlice t (sint (hpf_slice k t)) (upd_sp t (\<lambda>s. s\<lparr>initTimeSlice := hpf_slice k t\<rparr>) k1))"

lemma hpf_prepare_simps:
  "pend (hpf_prepare t k) = pend k" "readyTasks (hpf_prepare t k) = readyTasks k"
  "prioBitmap (hpf_prepare t k) = prioBitmap k" "queueBitmap (hpf_prepare t k) = queueBitmap k"
  "tcb_same (tcb k u) (tcb (hpf_prepare t k) u)"
  by (simp_all add: hpf_prepare_def Let_def set_timeSlice_def upd_sp_def tcb_same_def)

lemma HPFEnqueue_eq:
  assumes "hpf_task (tcb k t)"
  shows "HPFEnqueue t k =
    (let b = basePrio (sp (tcb k t)); p = priority (sp (tcb k t)); q = pend k (HpfQue b p)
     in set_status t OS_TASK_STATUS_READY (clr_status t OS_TASK_STATUS_BLOCKED
       (add_readyTasks b p 1 (pend_link (HpfQue b p) t (if hpf_front k t then t # q else q @ [t])
         (pri_que_mark b t p (hpf_prepare t k))))))"
proof -
  have q: "pend (pri_que_mark b t p j) = pend j" for b p j
    by (simp add: pri_que_mark_def Let_def LOS_ASSERT_def)
  have "policy (sp (tcb k t)) \<noteq> LOS_SCHED_RR \<Longrightarrow> policy (sp (tcb k t)) = LOS_SCHED_FIFO"
    using assms by (auto simp: hpf_task_def)
  then show ?thesis
    by (cases "policy (sp (tcb k t)) = LOS_SCHED_RR")
      (simp_all add: HPFEnqueue_def PriQueInsert_def Let_def hpf_front_def hpf_prepare_def hpf_slice_def
        PriQueHeadInsert_def PriQueTailInsert_def pend_head_insert_def pend_tail_insert_def q
        set_timeSlice_def upd_sp_def)
qed

lemma hpf_task_same: "tcb_same c d \<Longrightarrow> policy (sp d) = policy (sp c) \<Longrightarrow> hpf_task d = hpf_task c"
  by (simp add: hpf_task_def tcb_same_def)

lemma rq_inv_HPFEnqueue:
  assumes inv: "rq_inv k" and t: "on (tcb k t) = None" "hpf_task (tcb k t)"
  shows "rq_inv (HPFEnqueue t k)"
proof -
  let ?k = "hpf_prepare t k"
  note same = hpf_prepare_simps(5) [of k _ t]
  have "rq_inv ?k"
  proof (rule rq_invI)
    show "lists_ok ?k" using rq_invD(1) [OF inv] same
      by (simp add: lists_ok_def tcb_same_def hpf_prepare_simps)
    show "task_ok (tcb ?k u)" for u using rq_invD(2) [OF inv, of u] task_ok_same [OF same] by simp
    show "maps_ok (pend ?k) (readyTasks ?k) (prioBitmap ?k) (queueBitmap ?k)"
      using rq_invD(3) [OF inv] by (simp add: hpf_prepare_simps)
  qed
  moreover have "on (tcb ?k t) = None" "ops (tcb ?k t) = PriorityOps"
    "basePrio (sp (tcb ?k t)) = basePrio (sp (tcb k t))" "priority (sp (tcb ?k t)) = priority (sp (tcb k t))"
    using same [of t] t by (auto simp: tcb_same_def hpf_task_def)
  ultimately show ?thesis
    unfolding HPFEnqueue_eq [OF t(2)] Let_def
    using t(2) by (intro rq_inv_pri_insert) (auto simp: hpf_task_def hpf_prepare_simps)
qed

text \<open>What enqueueing does to the lists and to the control blocks.\<close>

lemma HPFEnqueue_effect:
  assumes "hpf_task (tcb k t)"
  shows "pend (HPFEnqueue t k) = (pend k)(hpf_que k t :=
      (if hpf_front k t then t # pend k (hpf_que k t) else pend k (hpf_que k t) @ [t]))"
    and "u \<noteq> t \<Longrightarrow> tcb (HPFEnqueue t k) u = tcb k u"
    and "taskStatus (tcb (HPFEnqueue t k) t) =
      taskStatus (tcb k t) AND NOT OS_TASK_STATUS_BLOCKED OR OS_TASK_STATUS_READY"
    and "on (tcb (HPFEnqueue t k) t) = Some (hpf_que k t)"
    and "policy (sp (tcb (HPFEnqueue t k) u)) = policy (sp (tcb k u))"
    and "basePrio (sp (tcb (HPFEnqueue t k) u)) = basePrio (sp (tcb k u))"
    and "priority (sp (tcb (HPFEnqueue t k) u)) = priority (sp (tcb k u))"
    and "ops (tcb (HPFEnqueue t k) u) = ops (tcb k u)"
  using assms
  by (simp_all add: HPFEnqueue_eq Let_def set_status_def clr_status_def add_readyTasks_def pend_link_def
      pri_que_mark_def hpf_prepare_def set_timeSlice_def upd_sp_def)

lemma HPFEnqueue_frame [simp]:
  "timeoutQueue (HPFEnqueue t k) = timeoutQueue k" "currTask (HPFEnqueue t k) = currTask k"
  "taskLockCnt (HPFEnqueue t k) = taskLockCnt k" "now (HPFEnqueue t k) = now k"
  "fault (HPFEnqueue t k) = fault k" "idleTask (HPFEnqueue t k) = idleTask k"
  by (simp_all add: HPFEnqueue_def PriQueInsert_def PriQueHeadInsert_def PriQueTailInsert_def Let_def
      set_status_def clr_status_def add_readyTasks_def pend_link_def pri_que_mark_def set_timeSlice_def upd_sp_def
      pend_head_insert_def pend_tail_insert_def)

lemma HPFDequeue_eq:
  assumes inv: "rq_inv k" and t: "on (tcb k t) = Some (HpfQue b p)"
  shows "HPFDequeue t k = clr_status t OS_TASK_STATUS_READY (PriQueDelete b t p k)"
  using rq_invD(2) [OF inv, of t] t by (simp add: HPFDequeue_def task_ok_def status_def)

lemma PriQueDelete_fields:
  assumes "on (tcb k t) = Some (HpfQue b p)"
  shows "tcb (PriQueDelete b t p k) = (tcb k)(t := (tcb k t)\<lparr>on := None\<rparr>)"
    and "pend (PriQueDelete b t p k) = (pend k)(HpfQue b p := remove1 t (pend k (HpfQue b p)))"
    and "readyTasks (PriQueDelete b t p k) =
      (readyTasks k)(b := (readyTasks k b)(p := readyTasks k b p + - 1))"
    and "prioBitmap (PriQueDelete b t p k) = (if remove1 t (pend k (HpfQue b p)) = []
      then (prioBitmap k)(b := prioBitmap k b AND NOT (drop_bit p PRIQUEUE_PRIOR0_BIT)) else prioBitmap k)"
    and "queueBitmap (PriQueDelete b t p k) = (if prioBitmap (PriQueDelete b t p k) b = 0
      then queueBitmap k AND NOT (drop_bit b PRIQUEUE_PRIOR0_BIT) else queueBitmap k)"
  using assms by (simp_all add: PriQueDelete_def add_readyTasks_def pend_delete_eq [OF assms] Let_def)

lemma rq_inv_HPFDequeue:
  assumes inv: "rq_inv k" and t: "on (tcb k t) = Some (HpfQue b p)"
  shows "rq_inv (HPFDequeue t k)"
    and "tcb (HPFDequeue t k) = (tcb k)(t := (tcb k t)\<lparr>on := None,
      taskStatus := taskStatus (tcb k t) AND NOT OS_TASK_STATUS_READY\<rparr>)"
    and "pend (HPFDequeue t k) = (pend k)(HpfQue b p := remove1 t (pend k (HpfQue b p)))"
proof -
  have k: "HPFDequeue t k = clr_status t OS_TASK_STATUS_READY (PriQueDelete b t p k)"
    by (rule HPFDequeue_eq [OF inv t])
  note f = PriQueDelete_fields [OF t]
  show tcb': "tcb (HPFDequeue t k) = (tcb k)(t := (tcb k t)\<lparr>on := None,
      taskStatus := taskStatus (tcb k t) AND NOT OS_TASK_STATUS_READY\<rparr>)"
    by (simp add: k clr_status_def f)
  show pend': "pend (HPFDequeue t k) = (pend k)(HpfQue b p := remove1 t (pend k (HpfQue b p)))"
    by (simp add: k clr_status_def f)
  have lt: "b < 32" "p < 32" using rq_invD(2) [OF inv, of t] t by (simp_all add: task_ok_def)
  have tin: "t \<in> set (pend k (HpfQue b p))" using lists_okD(2) [OF rq_invD(1) [OF inv]] t by simp
  show "rq_inv (HPFDequeue t k)"
  proof (rule rq_invI)
    show "lists_ok (HPFDequeue t k)"
      using lists_okD [OF rq_invD(1) [OF inv]] t unfolding lists_ok_def tcb' pend' by auto
    show "task_ok (tcb (HPFDequeue t k) u)" for u
      using rq_invD(2) [OF inv, of u] unfolding tcb' by (auto simp: task_ok_none)
    have "length (pend k (HpfQue b p)) = Suc (length (remove1 t (pend k (HpfQue b p))))"
      using tin by (metis One_nat_def Suc_pred length_pos_if_in_set length_remove1)
    from maps_ok_remove [OF rq_invD(3) [OF inv] lt this]
    show "maps_ok (pend (HPFDequeue t k)) (readyTasks (HPFDequeue t k)) (prioBitmap (HPFDequeue t k))
        (queueBitmap (HPFDequeue t k))"
      unfolding pend' by (simp add: k clr_status_def f cong: if_cong)
  qed
qed

lemma HPFDequeue_frame [simp]:
  "timeoutQueue (HPFDequeue t k) = timeoutQueue k" "currTask (HPFDequeue t k) = currTask k"
  "taskLockCnt (HPFDequeue t k) = taskLockCnt k" "now (HPFDequeue t k) = now k"
  "idleTask (HPFDequeue t k) = idleTask k"
  by (simp_all add: HPFDequeue_def PriQueDelete_def Let_def clr_status_def add_readyTasks_def pend_delete_def split: option.split)

section \<open>The highest ready task\<close>

lemma maps_ok_prio:
  assumes "maps_ok q r bm base" "b < 32" "p < 32"
  shows "bit (bm b) (31 - p) \<longleftrightarrow> q (HpfQue b p) \<noteq> []" "bit base (31 - b) \<longleftrightarrow> bm b \<noteq> 0"
  using assms by (auto simp: maps_ok_def)

lemma maps_ok_base:
  assumes "maps_ok q r bm base" "b < 32"
  shows "bm b = 0 \<longleftrightarrow> (\<forall>p<32. q (HpfQue b p) = [])"
proof -
  have "bm b = 0 \<longleftrightarrow> (\<forall>p<32. \<not> bit (bm b) (31 - p))"
  proof
    assume none: "\<forall>p<32. \<not> bit (bm b) (31 - p)"
    show "bm b = 0"
    proof (rule ccontr)
      assume "bm b \<noteq> 0"
      from CLZ_top(1,2) [OF this] none show False by blast
    qed
  qed simp
  then show ?thesis using maps_ok_prio(1) [OF assms(1,2)] by auto
qed

lemma top_in_base_first:
  assumes ok: "maps_ok (pend k) r bm base" and b: "b < 32" and ne: "bm b \<noteq> 0"
  shows "\<exists>p<32. pend k (HpfQue b p) \<noteq> [] \<and> (\<forall>p'<p. pend k (HpfQue b p') = []) \<and>
    top_in_base (Suc n) (bm b) b k = Some (hd (pend k (HpfQue b p)))"
proof (intro exI conjI)
  let ?p = "CLZ (bm b)"
  show lt: "?p < 32" by (rule CLZ_top(1) [OF ne])
  show q: "pend k (HpfQue b ?p) \<noteq> []"
    using CLZ_top(2) [OF ne] maps_ok_prio(1) [OF ok b lt] by simp
  show "\<forall>p'<?p. pend k (HpfQue b p') = []"
    using CLZ_top(3) [OF ne] maps_ok_prio(1) [OF ok b] lt by (auto dest: less_trans)
  show "top_in_base (Suc n) (bm b) b k = Some (hd (pend k (HpfQue b ?p)))"
    using ne q by (auto simp: neq_Nil_conv)
qed

lemma top_in_rq_32:
  "top_in_rq 32 bm k = (if bm = 0 then None
    else case top_in_base 32 (prioBitmap k (CLZ bm)) (CLZ bm) k of
        Some newTask \<Rightarrow> Some newTask
      | None \<Rightarrow> top_in_rq 31 (bm AND NOT (push_bit (32 - CLZ bm - 1) 1)) k)"
proof -
  have n: "Suc 31 = 32" by simp
  show ?thesis by (rule top_in_rq.simps(2) [of 31 bm k, unfolded n Let_def])
qed

definition hpf_first_queue :: "kstate \<Rightarrow> nat \<Rightarrow> nat \<Rightarrow> bool" where
  "hpf_first_queue k b p \<longleftrightarrow> b < 32 \<and> p < 32 \<and> pend k (HpfQue b p) \<noteq> [] \<and>
     (\<forall>b'<b. \<forall>p'<32. pend k (HpfQue b' p') = []) \<and> (\<forall>p'<p. pend k (HpfQue b p') = [])"

lemma hpf_first_queue_unique:
  assumes "hpf_first_queue k b p" "hpf_first_queue k c q"
  shows "b = c \<and> p = q"
proof -
  have "b = c" using assms unfolding hpf_first_queue_def by (metis linorder_neqE_nat)
  moreover from this have "p = q" using assms unfolding hpf_first_queue_def by (metis linorder_neqE_nat)
  ultimately show ?thesis by simp
qed

lemma HPFRunqueueTopTaskGet_cases:
  assumes "rq_inv k"
  shows "(HPFRunqueueTopTaskGet k = None \<and> (\<forall>b<32. \<forall>p<32. pend k (HpfQue b p) = [])) \<or>
    (\<exists>b p. hpf_first_queue k b p \<and> HPFRunqueueTopTaskGet k = Some (hd (pend k (HpfQue b p))))"
proof -
  note ok = rq_invD(3) [OF assms]
  have n: "Suc 31 = 32" by simp
  show ?thesis
  proof (cases "queueBitmap k = 0")
    case True
    then have "prioBitmap k b = 0" if "b < 32" for b
      using maps_ok_prio(2) [OF ok that, of 0] by simp
    with True show ?thesis
      using maps_ok_base [OF ok] by (simp add: HPFRunqueueTopTaskGet_def top_in_rq_32)
  next
    case False
    let ?b = "CLZ (queueBitmap k)"
    note b = CLZ_top [OF False]
    have ne: "prioBitmap k ?b \<noteq> 0" using maps_ok_prio(2) [OF ok b(1), of 0] b(2) by simp
    from top_in_base_first [OF ok b(1) ne, of 31] obtain p where p: "p < 32"
      "pend k (HpfQue ?b p) \<noteq> []" "\<forall>p'<p. pend k (HpfQue ?b p') = []"
      "top_in_base 32 (prioBitmap k ?b) ?b k = Some (hd (pend k (HpfQue ?b p)))"
      unfolding n by blast
    have "prioBitmap k b' = 0" if "b' < ?b" for b'
      using b(1,3) that maps_ok_prio(2) [OF ok, of b' 0] by auto
    then have "\<forall>b'<?b. \<forall>p'<32. pend k (HpfQue b' p') = []"
      using maps_ok_base [OF ok] less_trans [OF _ b(1)] by blast
    with p b(1) have "hpf_first_queue k ?b p" by (simp add: hpf_first_queue_def)
    moreover have "HPFRunqueueTopTaskGet k = Some (hd (pend k (HpfQue ?b p)))"
      using False by (simp add: HPFRunqueueTopTaskGet_def top_in_rq_32 p(4))
    ultimately show ?thesis by blast
  qed
qed

lemma HPFRunqueueTopTaskGet_Some:
  assumes "rq_inv k" "HPFRunqueueTopTaskGet k = Some t"
  obtains b p rest where "hpf_first_queue k b p" "pend k (HpfQue b p) = t # rest" "on (tcb k t) = Some (HpfQue b p)"
proof -
  from HPFRunqueueTopTaskGet_cases [OF assms(1)] assms(2) obtain b p where
    *: "hpf_first_queue k b p" "t = hd (pend k (HpfQue b p))" by auto
  then obtain rest where r: "pend k (HpfQue b p) = t # rest"
    by (cases "pend k (HpfQue b p)") (auto simp: hpf_first_queue_def)
  then have "on (tcb k t) = Some (HpfQue b p)"
    using lists_okD(2) [OF rq_invD(1) [OF assms(1)], of t "HpfQue b p"] by simp
  with * r show thesis by (intro that)
qed

end
