(* ===== verification/Sched_Edf.thy ===== *)
theory Sched_Edf
  imports Sched_State
begin

text \<open>
  The earliest deadline first policy (\<^verbatim>\<open>kernel/base/sched/los_deadline.c\<close>) and the policy of the idle
  task (\<^verbatim>\<open>kernel/base/sched/los_idle.c\<close>), with those operations of \<open>g_deadlineOps\<close> and \<open>g_idleOps\<close> that do
  not reschedule. The search of \<open>EDFEnqueue\<close> for the next period has no bound in the source; it
  is a partial function here, shown to return when the run time fits in the deadline and the
  deadline in the period.
\<close>

section \<open>The deadline queue\<close>

definition EDFParamCompare :: "SchedPolicy \<Rightarrow> SchedPolicy \<Rightarrow> int" where
  "EDFParamCompare p1 p2 = i32_of_u64 (finishTime p1 - finishTime p2)"

text \<open>
  The loop of \<open>DeadlineQueueInsert\<close>: the new task is linked with \<open>LOS_ListHeadInsert\<close>, that is behind the
  first ready task with a later finish time, and behind \<open>root\<close>, at the front of the queue, when
  there is none.
\<close>

fun deadline_insert :: "kstate \<Rightarrow> nat \<Rightarrow> nat list \<Rightarrow> nat list option" where
  "deadline_insert k t [] = None"
| "deadline_insert k t (ready # rest) =
     (if EDFParamCompare (sp (tcb k ready)) (sp (tcb k t)) > 0 then Some (ready # t # rest)
      else map_option ((#) ready) (deadline_insert k t rest))"

definition DeadlineQueueInsert :: "nat \<Rightarrow> kstate \<Rightarrow> kstate" where
  "DeadlineQueueInsert t k =
     (if pend k EdfRoot = [] then pend_tail_insert EdfRoot t k
      else (case deadline_insert k t (pend k EdfRoot) of
          Some xs \<Rightarrow> pend_link EdfRoot t xs k
        | None \<Rightarrow> pend_head_insert EdfRoot t k))"

text \<open>
  The loop \<open>while (1)\<close> of \<open>EDFEnqueue\<close> that moves the start of the period forward until its deadline
  lies ahead and the run time fits before it.
\<close>

partial_function (option) edf_next_period :: "u64 \<Rightarrow> u64 \<Rightarrow> u64 \<Rightarrow> int \<Rightarrow> u64 \<Rightarrow> u64 option" where
  "edf_next_period currTime dl per run f =
     (if f + dl \<le> currTime \<or> f + u64_of_i32 run > f + dl
      then edf_next_period currTime dl per run (f + per)
      else Some f)"

text \<open>The three ways \<open>EDFEnqueue\<close> goes on: a new period is needed, it is waited for, or the task is ready.\<close>

definition edf_period_start :: "u64 \<Rightarrow> SchedPolicy \<Rightarrow> u64" where
  "edf_period_start currTime s =
     (if flags s = EDF_INIT then currTime
      else if flags s \<noteq> EDF_NEXT_PERIOD then (finishTime s - deadline s) + period s
      else finishTime s)"

definition edf_wait_period :: "nat \<Rightarrow> u64 \<Rightarrow> kstate \<Rightarrow> kstate" where
  "edf_wait_period t fin k =
     (let k1 = upd_tcb t (\<lambda>c. c\<lparr>waitTime := OS_SCHED_MAX_RESPONSE_TIME\<rparr>) (pend_tail_insert EdfWait t k);
          k2 = (if \<not> OsTaskIsRunning (tcb k1 t) then OsSchedTimeoutQueueAdd t fin k1 else k1)
      in upd_sp t (\<lambda>s. s\<lparr>flags := EDF_NEXT_PERIOD\<rparr>) (set_status t OS_TASK_STATUS_PEND_TIME k2))"

definition edf_make_ready :: "nat \<Rightarrow> kstate \<Rightarrow> kstate" where
  "edf_make_ready t k = set_status t OS_TASK_STATUS_READY
     (clr_status t (OS_TASK_STATUS_BLOCKED OR OS_TASK_STATUS_TIMEOUT) (DeadlineQueueInsert t k))"

definition EDFEnqueue :: "nat \<Rightarrow> kstate \<Rightarrow> kstate" where
  "EDFEnqueue t k0 =
     (let k = LOS_ASSERT (\<not> has (status k0 t) OS_TASK_STATUS_READY) k0;
          currTime = OsGetCurrSchedTimeCycle k;
          s = sp (tcb k t)
      in if timeSlice (tcb k t) \<le> 0 then
           (case edf_next_period currTime (deadline s) (period s) (runTime s) (edf_period_start currTime s) of
              None \<Rightarrow> k\<lparr>diverged := True\<rparr>
            | Some fin \<Rightarrow>
                if fin > currTime then edf_wait_period t fin (upd_sp t (\<lambda>s. s\<lparr>finishTime := fin\<rparr>) k)
                else edf_make_ready t (set_timeSlice t (runTime s)
                       (upd_sp t (\<lambda>s. s\<lparr>finishTime := fin + deadline s, flags := EDF_UNUSED\<rparr>) k)))
         else edf_make_ready t k)"

definition EDFDequeue :: "nat \<Rightarrow> kstate \<Rightarrow> kstate" where
  "EDFDequeue t k = clr_status t OS_TASK_STATUS_READY (pend_delete t k)"

definition EDFRunqueueTopTaskGet :: "kstate \<Rightarrow> nat option" where
  "EDFRunqueueTopTaskGet k = (case pend k EdfRoot of [] \<Rightarrow> None | t # _ \<Rightarrow> Some t)"

section \<open>Time slices and leaving a list\<close>

definition EDFTimeSliceUpdate :: "nat \<Rightarrow> u64 \<Rightarrow> kstate \<Rightarrow> kstate" where
  "EDFTimeSliceUpdate t currTime k0 =
     (let k = LOS_ASSERT (currTime \<ge> startTime (tcb k0 t)) k0
      in if timeSlice (tcb k t) \<le> 0 then upd_tcb t (\<lambda>c. c\<lparr>irqUsedTime := 0\<rparr>) k
         else let incTime = i32_of_u64 (currTime - startTime (tcb k t) - ucast (irqUsedTime (tcb k t)));
                  k1 = LOS_ASSERT (incTime \<ge> 0) k;
                  k2 = upd_tcb t (\<lambda>c. c\<lparr>timeSlice := i32 (timeSlice c - incTime),
                                         irqUsedTime := 0, startTime := currTime\<rparr>) k1
              in if finishTime (sp (tcb k2 t)) > currTime \<and> timeSlice (tcb k2 t) > 0 then k2
                 else let k3 = set_schedFlag INT_PEND_RESCH k2
                      in if finishTime (sp (tcb k3 t)) \<le> currTime then set_timeSlice t 0 k3 else k3)"

definition EDFTimeSliceGet :: "kstate \<Rightarrow> nat \<Rightarrow> u64" where
  "EDFTimeSliceGet k t =
     (let endTime = startTime (tcb k t) + u64_of_i32 (timeSlice (tcb k t))
      in if endTime > finishTime (sp (tcb k t)) then finishTime (sp (tcb k t)) else endTime)"

definition EDFWaitTimeGet :: "nat \<Rightarrow> kstate \<Rightarrow> u64 \<times> kstate" where
  "EDFWaitTimeGet t k =
     (let k1 = (if flags (sp (tcb k t)) \<noteq> EDF_WAIT_FOREVER
                then upd_tcb t (\<lambda>c. c\<lparr>waitTime := waitTime c + startTime c\<rparr>) k else k)
      in (if waitTime (tcb k1 t) \<ge> finishTime (sp (tcb k1 t)) then finishTime (sp (tcb k1 t))
          else waitTime (tcb k1 t), k1))"

definition EDFExit :: "nat \<Rightarrow> kstate \<Rightarrow> kstate" where
  "EDFExit t k =
     (let k1 = (if has (status k t) OS_TASK_STATUS_READY then EDFDequeue t k
                else if has (status k t) OS_TASK_STATUS_PENDING
                then clr_status t OS_TASK_STATUS_PENDING (pend_delete t k)
                else k)
      in if has (status k1 t) (OS_TASK_STATUS_DELAY OR OS_TASK_STATUS_PEND_TIME)
         then clr_status t (OS_TASK_STATUS_DELAY OR OS_TASK_STATUS_PEND_TIME)
                (OsSchedTimeoutQueueDelete t k1)
         else k1)"

definition EDFWake :: "nat \<Rightarrow> kstate \<Rightarrow> kstate" where
  "EDFWake t k =
     (let k1 = clr_status t OS_TASK_STATUS_PENDING (pend_delete t k);
          k2 = (if has (status k1 t) OS_TASK_STATUS_PEND_TIME
                then clr_status t OS_TASK_STATUS_PEND_TIME (OsSchedTimeoutQueueDelete t k1) else k1)
      in if \<not> has (status k2 t) OS_TASK_STATUS_SUSPENDED then EDFEnqueue t k2 else k2)"

section \<open>Parameters\<close>

definition EDFSchedParamGet :: "kstate \<Rightarrow> nat \<Rightarrow> SchedParam \<Rightarrow> SchedParam" where
  "EDFSchedParamGet k t param = (let s = sp (tcb k t) in
     param\<lparr>pr_policy := policy s,
       pr_runTimeUs := i32_of_u64 (OS_CYCLE_TO_US_u64 (u64_of_i32 (runTime s)) (sys_clock k)),
       pr_deadlineUs := ucast (OS_CYCLE_TO_US_u64 (deadline s) (sys_clock k)),
       pr_periodUs := ucast (OS_CYCLE_TO_US_u64 (period s) (sys_clock k))\<rparr>)"

definition EDFSchedParamModify :: "nat \<Rightarrow> SchedParam \<Rightarrow> kstate \<Rightarrow> bool \<times> kstate" where
  "EDFSchedParamModify t param k =
     (let freq = sys_clock k;
          k1 = set_timeSlice t 0 (upd_sp t (\<lambda>s. s\<lparr>
                 runTime := sint (OS_US_TO_CYCLE_i32 (pr_runTimeUs param) freq),
                 period := ucast (OS_US_TO_CYCLE_u32 (pr_periodUs param) freq)\<rparr>) k);
          dl = (\<lambda>k. upd_sp t (\<lambda>s. s\<lparr>deadline := ucast (OS_US_TO_CYCLE_u32 (pr_deadlineUs param) freq)\<rparr>) k)
      in if has (status k1 t) OS_TASK_STATUS_READY
         then (True, EDFEnqueue t (dl (EDFDequeue t k1)))
         else let k2 = dl k1
              in if has (status k2 t) OS_TASK_STATUS_INIT then (True, EDFEnqueue t k2)
                 else (has (status k2 t) OS_TASK_STATUS_RUNNING, k2))"

definition EDFTaskSchedParamInit :: "nat \<Rightarrow> u16 \<Rightarrow> LosSchedParam \<Rightarrow> kstate \<Rightarrow> u32 \<times> kstate" where
  "EDFTaskSchedParamInit t pol param k =
     (0, upd_tcb t (\<lambda>c. c\<lparr>timeSlice := 0, ops := DeadlineOps,
       sp := (sp c)\<lparr>flags := EDF_INIT, policy := pol,
         runTime := i32_of_u64 (OS_US_TO_CYCLE_u64 (u64_of_i32 (lp_runTimeUs param)) (sys_clock k)),
         deadline := ucast (OS_US_TO_CYCLE_i32 (lp_deadlineUs param) (sys_clock k)),
         period := ucast (OS_US_TO_CYCLE_i32 (lp_periodUs param) (sys_clock k)),
         finishTime := 0\<rparr>\<rparr>) k)"

definition EDFProcessDefaultSchedParamGet :: "SchedParam \<Rightarrow> SchedParam" where
  "EDFProcessDefaultSchedParamGet param =
     param\<lparr>pr_runTimeUs := 100, pr_deadlineUs := 5000000, pr_periodUs := 5000000\<rparr>"

definition EDFSchedPolicyInit :: "kstate \<Rightarrow> kstate" where
  "EDFSchedPolicyInit k = k\<lparr>pend := (pend k)(EdfRoot := [], EdfWait := [])\<rparr>"

definition LOS_EOPNOTSUPP :: u32 where
  "LOS_EOPNOTSUPP = 95"

definition EDFSuspend :: "nat \<Rightarrow> kstate \<Rightarrow> u32 \<times> kstate" where
  "EDFSuspend t k = (LOS_EOPNOTSUPP, k)"

definition EDFResume :: "nat \<Rightarrow> bool \<Rightarrow> kstate \<Rightarrow> u32 \<times> bool \<times> kstate" where
  "EDFResume t needSched k = (LOS_EOPNOTSUPP, needSched, k)"

definition EDFPriorityInheritance :: "nat \<Rightarrow> SchedParam \<Rightarrow> kstate \<Rightarrow> kstate" where
  "EDFPriorityInheritance owner param k = k"

definition EDFPriorityRestore :: "nat \<Rightarrow> pend_head option \<Rightarrow> SchedParam \<Rightarrow> kstate \<Rightarrow> kstate" where
  "EDFPriorityRestore owner list param k = k"

section \<open>The idle task\<close>

definition IdleTimeSliceUpdate :: "nat \<Rightarrow> u64 \<Rightarrow> kstate \<Rightarrow> kstate" where
  "IdleTimeSliceUpdate t currTime k = upd_tcb t (\<lambda>c. c\<lparr>startTime := currTime\<rparr>) k"

definition IdleTimeSliceGet :: "kstate \<Rightarrow> nat \<Rightarrow> u64" where
  "IdleTimeSliceGet k t = OS_SCHED_MAX_RESPONSE_TIME - ucast (OS_TICK_RESPONSE_PRECISION k)"

definition IdleEnqueue :: "nat \<Rightarrow> kstate \<Rightarrow> kstate" where
  "IdleEnqueue t k = set_status t OS_TASK_STATUS_READY (clr_status t OS_TASK_STATUS_BLOCKED k)"

definition IdleDequeue :: "nat \<Rightarrow> kstate \<Rightarrow> kstate" where
  "IdleDequeue t k = clr_status t OS_TASK_STATUS_READY k"

definition IdleStartToRun :: "nat \<Rightarrow> kstate \<Rightarrow> kstate" where
  "IdleStartToRun t k = IdleDequeue t k"

definition IdleYield :: "nat \<Rightarrow> kstate \<Rightarrow> kstate" where
  "IdleYield t k = k"

definition IdleWait :: "nat \<Rightarrow> list_pos \<Rightarrow> u32 \<Rightarrow> kstate \<Rightarrow> u32 \<times> kstate" where
  "IdleWait t pos ticks k = (1, k)"

definition IdleSchedParamGet :: "kstate \<Rightarrow> nat \<Rightarrow> SchedParam \<Rightarrow> SchedParam" where
  "IdleSchedParamGet k t param = param\<lparr>pr_policy := policy (sp (tcb k t)),
     pr_basePrio := basePrio (sp (tcb k t)), pr_priority := priority (sp (tcb k t)), pr_timeSlice := 0\<rparr>"

definition IdleParamCompare :: "SchedPolicy \<Rightarrow> SchedPolicy \<Rightarrow> int" where
  "IdleParamCompare p1 p2 = 0"

definition IdlePriorityInheritance :: "nat \<Rightarrow> SchedParam \<Rightarrow> kstate \<Rightarrow> kstate" where
  "IdlePriorityInheritance owner param k = k"

definition IdlePriorityRestore :: "nat \<Rightarrow> pend_head option \<Rightarrow> SchedParam \<Rightarrow> kstate \<Rightarrow> kstate" where
  "IdlePriorityRestore owner list param k = k"

definition IdleTaskSchedParamInit :: "nat \<Rightarrow> kstate \<Rightarrow> kstate" where
  "IdleTaskSchedParamInit t k = upd_tcb t (\<lambda>c. c\<lparr>timeSlice := 0, ops := IdleOps,
     taskStatus := OS_TASK_STATUS_SUSPENDED,
     sp := (sp c)\<lparr>policy := LOS_SCHED_IDLE, basePrio := 31, priority := 31, initTimeSlice := 0\<rparr>\<rparr>) k"

section \<open>The next period\<close>

lemma edf_fits:
  assumes "0 \<le> run" "run \<le> uint dl" "uint f + uint dl < 2 ^ 64"
  shows "f + u64_of_i32 run \<le> f + dl"
proof -
  have "run < 2 ^ 64" using assms uint_ge_0 [of f] by linarith
  then have r: "uint (u64_of_i32 run) = run"
    using assms(1) by (simp add: u64_of_i32_def uint_word_of_int)
  have "uint (f + u64_of_i32 run) = uint f + run" "uint (f + dl) = uint f + uint dl"
    using assms by (simp_all add: uint_add_nowrap r)
  then show ?thesis using assms by (simp add: word_le_def)
qed

lemma edf_next_period_returns:
  assumes "0 \<le> run" "run \<le> uint dl" "0 < uint per" "uint currTime + uint per + uint dl < 2 ^ 64"
    and "uint f + uint dl < 2 ^ 64"
  shows "\<exists>f' n. edf_next_period currTime dl per run f = Some f' \<and> uint f' = uint f + int n * uint per \<and>
    currTime < f' + dl \<and> uint f' + uint dl < 2 ^ 64 \<and>
    (n = 0 \<or> uint f' + uint dl \<le> uint currTime + uint per)"
  using assms(5)
proof (induction "nat (uint currTime + 1 - uint f)" arbitrary: f rule: less_induct)
  case less
  have sum: "uint (f + dl) = uint f + uint dl"
    using less.prems by (simp add: uint_add_nowrap)
  show ?case
  proof (cases "f + dl \<le> currTime")
    case False
    then have "edf_next_period currTime dl per run f = Some f"
      using leD [OF edf_fits [OF assms(1,2) less.prems]] by (simp add: edf_next_period.simps [of _ _ _ _ f])
    with False less.prems show ?thesis by (intro exI [of _ f] exI [of _ 0]) (simp add: not_le)
  next
    case True
    then have le: "uint f + uint dl \<le> uint currTime" using sum by (simp add: word_le_def)
    have "uint f + uint per < 2 ^ 64" using le assms(4) uint_ge_0 [of dl] by linarith
    then have fp: "uint (f + per) = uint f + uint per" by (intro uint_add_nowrap) simp
    have "nat (uint currTime + 1 - uint (f + per)) < nat (uint currTime + 1 - uint f)"
      using fp le assms(3) uint_ge_0 [of dl] uint_ge_0 [of f] by linarith
    moreover have "uint (f + per) + uint dl < 2 ^ 64" using fp le assms(4) uint_ge_0 [of dl] by linarith
    ultimately obtain f' n where *: "edf_next_period currTime dl per run (f + per) = Some f'"
      "uint f' = uint (f + per) + int n * uint per" "currTime < f' + dl" "uint f' + uint dl < 2 ^ 64"
      "n = 0 \<or> uint f' + uint dl \<le> uint currTime + uint per"
      using less.hyps by blast
    have "edf_next_period currTime dl per run f = Some f'"
      using True *(1) by (simp add: edf_next_period.simps [of _ _ _ _ f])
    moreover have "uint f' = uint f + int (Suc n) * uint per" using *(2) fp by (simp add: algebra_simps)
    moreover have "uint f' + uint dl \<le> uint currTime + uint per"
      using *(5) *(2) fp le by auto
    ultimately show ?thesis using *(3,4) by blast
  qed
qed

section \<open>The run queue invariant\<close>

lemma deadline_insert_set:
  "deadline_insert k t xs = Some ys \<Longrightarrow> set ys = insert t (set xs) \<and> (t \<notin> set xs \<longrightarrow> distinct xs \<longrightarrow> distinct ys)"
  by (induction xs arbitrary: ys) (auto split: if_splits)

lemma DeadlineQueueInsert_link:
  assumes "lists_ok k" "on (tcb k t) = None"
  obtains xs where "DeadlineQueueInsert t k = pend_link EdfRoot t xs k" "distinct xs"
    "set xs = insert t (set (pend k EdfRoot))"
proof -
  have nt: "t \<notin> set (pend k EdfRoot)" and d: "distinct (pend k EdfRoot)"
    using lists_okD [OF assms(1)] assms(2) by auto
  show thesis
  proof (cases "pend k EdfRoot = []")
    case True
    then show ?thesis by (intro that [of "[t]"]) (simp_all add: DeadlineQueueInsert_def pend_tail_insert_def)
  next
    case False
    show ?thesis
    proof (cases "deadline_insert k t (pend k EdfRoot)")
      case None
      with False nt d show ?thesis
        by (intro that [of "t # pend k EdfRoot"]) (simp_all add: DeadlineQueueInsert_def pend_head_insert_def)
    next
      case (Some ys)
      with False nt d deadline_insert_set [OF Some] show ?thesis
        by (intro that [of ys]) (simp_all add: DeadlineQueueInsert_def)
    qed
  qed
qed

lemma rq_inv_edf_ready:
  assumes inv: "rq_inv k" and t: "on (tcb k t) = None" "ops (tcb k t) = DeadlineOps"
    and m: "OS_TASK_STATUS_READY AND NOT m = OS_TASK_STATUS_READY"
  shows "rq_inv (set_status t OS_TASK_STATUS_READY (clr_status t m (DeadlineQueueInsert t k)))" (is "rq_inv ?k")
proof -
  obtain xs where xs: "DeadlineQueueInsert t k = pend_link EdfRoot t xs k" "distinct xs"
    "set xs = insert t (set (pend k EdfRoot))"
    using DeadlineQueueInsert_link [OF rq_invD(1) [OF inv] t(1)] .
  have tcb': "tcb ?k u = (if u = t then (tcb k t)\<lparr>on := Some EdfRoot,
      taskStatus := taskStatus (tcb k t) AND NOT m OR OS_TASK_STATUS_READY\<rparr> else tcb k u)" for u
    by (simp add: xs(1) pend_link_def set_status_def clr_status_def)
  have pend': "pend ?k = (pend k)(EdfRoot := xs)"
    by (simp add: xs(1) pend_link_def set_status_def clr_status_def)
  show ?thesis
  proof (rule rq_invI)
    show "lists_ok ?k"
      using lists_okD [OF rq_invD(1) [OF inv]] t(1) xs(2,3) unfolding lists_ok_def tcb' pend' by auto
    show "task_ok (tcb ?k u)" for u
      using rq_invD(2) [OF inv, of u] t unfolding tcb' by (simp add: task_ok_def)
    show "maps_ok (pend ?k) (readyTasks ?k) (prioBitmap ?k) (queueBitmap ?k)"
      using maps_ok_wait [OF rq_invD(3) [OF inv], of EdfRoot xs] unfolding pend'
      by (simp add: xs(1) pend_link_def set_status_def clr_status_def)
  qed
qed

lemma rq_inv_EDFDequeue:
  assumes inv: "rq_inv k" and t: "on (tcb k t) = Some EdfRoot"
  shows "rq_inv (EDFDequeue t k)"
proof (rule rq_invI)
  have tcb': "tcb (EDFDequeue t k) u = (if u = t then (tcb k t)\<lparr>on := None,
      taskStatus := taskStatus (tcb k t) AND NOT OS_TASK_STATUS_READY\<rparr> else tcb k u)" for u
    using t by (simp add: EDFDequeue_def clr_status_def pend_delete_eq)
  have pend': "pend (EDFDequeue t k) = (pend k)(EdfRoot := remove1 t (pend k EdfRoot))"
    using t by (simp add: EDFDequeue_def clr_status_def pend_delete_eq)
  show "lists_ok (EDFDequeue t k)"
    using lists_okD [OF rq_invD(1) [OF inv]] t unfolding lists_ok_def tcb' pend' by auto
  show "task_ok (tcb (EDFDequeue t k) u)" for u
    using rq_invD(2) [OF inv, of u] unfolding tcb' by (simp add: task_ok_none)
  show "maps_ok (pend (EDFDequeue t k)) (readyTasks (EDFDequeue t k)) (prioBitmap (EDFDequeue t k)) (queueBitmap (EDFDequeue t k))"
    using maps_ok_wait [OF rq_invD(3) [OF inv], of EdfRoot] unfolding pend'
    by (simp add: EDFDequeue_def clr_status_def)
qed

lemma rq_inv_LOS_ASSERT [simp]: "rq_inv (LOS_ASSERT a k) = rq_inv k"
  by (rule rq_inv_same) (simp add: rq_same_def LOS_ASSERT_def)

lemma rq_inv_edf_wait_period:
  assumes inv: "rq_inv k" and t: "on (tcb k t) = None"
  shows "rq_inv (edf_wait_period t fin k)"
proof -
  let ?k1 = "upd_tcb t (\<lambda>c. c\<lparr>waitTime := OS_SCHED_MAX_RESPONSE_TIME\<rparr>) (pend_tail_insert EdfWait t k)"
  have "rq_inv (pend_tail_insert EdfWait t k)"
    using rq_inv_insert_at [OF inv t, of "AtHead EdfWait"] by (simp add: pend_insert_at_def)
  then have k1: "rq_inv ?k1" by (rule rq_inv_upd_tcb) (simp add: tcb_same_def)
  have "rq_inv (OsSchedTimeoutQueueAdd t fin ?k1) = rq_inv ?k1"
    by (rule rq_inv_same) (simp add: rq_same_def OsSchedTimeoutQueueAdd_def)
  with k1 have "rq_inv (if \<not> OsTaskIsRunning (tcb ?k1 t) then OsSchedTimeoutQueueAdd t fin ?k1 else ?k1)" by simp
  then show ?thesis
    unfolding edf_wait_period_def Let_def upd_sp_def
    by (intro rq_inv_upd_tcb rq_inv_set_status) (simp_all add: tcb_same_def)
qed

lemma rq_inv_EDFEnqueue:
  assumes inv: "rq_inv k" and t: "on (tcb k t) = None" "ops (tcb k t) = DeadlineOps"
  shows "rq_inv (EDFEnqueue t k)"
proof -
  have ready: "rq_inv (edf_make_ready t (upd_tcb t f (LOS_ASSERT a k)))"
    if "tcb_same (tcb k t) (f (tcb k t))" for f a
    unfolding edf_make_ready_def using that inv t
    by (intro rq_inv_edf_ready rq_inv_upd_tcb) (simp_all add: tcb_same_def)
  have wait: "rq_inv (edf_wait_period t fin (upd_sp t (\<lambda>s. s\<lparr>finishTime := fin\<rparr>) (LOS_ASSERT a k)))" for fin a
    unfolding upd_sp_def using inv t
    by (intro rq_inv_edf_wait_period rq_inv_upd_tcb) (simp_all add: tcb_same_def)
  have div: "rq_inv ((LOS_ASSERT a k)\<lparr>diverged := True\<rparr>)" for a
    using inv rq_inv_same [of k "(LOS_ASSERT a k)\<lparr>diverged := True\<rparr>"] by (simp add: rq_same_def)
  have ready0: "rq_inv (edf_make_ready t (LOS_ASSERT a k))" for a
    unfolding edf_make_ready_def using inv t by (intro rq_inv_edf_ready) simp_all
  have comp: "set_timeSlice t v (upd_sp t f j) = upd_tcb t (\<lambda>c. c\<lparr>sp := f (sp c), timeSlice := v\<rparr>) j" for v f j
    by (simp add: set_timeSlice_def upd_sp_def upd_tcb_def)
  show ?thesis
    unfolding EDFEnqueue_def Let_def comp
    by (auto intro!: ready ready0 wait div simp: tcb_same_def split: option.split)
qed

end
