(* ===== verification/Sched_Core.thy ===== *)
theory Sched_Core
  imports Sched_Hpf Sched_Edf
begin

text \<open>
  The scheduler proper, \<^verbatim>\<open>kernel/base/sched/los_sched.c\<close>: the choice of the next task over the three
  policies, the task switch, the tick, and the timeout scan. An operation that is reached
  through the table \<open>ops\<close> of a task is the dispatch over the policies here; an entry that is \<open>NULL\<close>
  in \<open>g_idleOps\<close> is a fault. \<open>OsTaskSchedule\<close>, the exchange of the register contexts, is the change of
  \<open>currTask\<close>.
\<close>

section \<open>Dispatch\<close>

definition ops_enqueue :: "nat \<Rightarrow> kstate \<Rightarrow> kstate" where
  "ops_enqueue t k = (case ops (tcb k t) of
     PriorityOps \<Rightarrow> HPFEnqueue t k | DeadlineOps \<Rightarrow> EDFEnqueue t k | IdleOps \<Rightarrow> IdleEnqueue t k)"

definition ops_dequeue :: "nat \<Rightarrow> kstate \<Rightarrow> kstate" where
  "ops_dequeue t k = (case ops (tcb k t) of
     PriorityOps \<Rightarrow> HPFDequeue t k | DeadlineOps \<Rightarrow> EDFDequeue t k | IdleOps \<Rightarrow> IdleDequeue t k)"

definition ops_start :: "nat \<Rightarrow> kstate \<Rightarrow> kstate" where
  "ops_start t k = (case ops (tcb k t) of
     PriorityOps \<Rightarrow> HPFStartToRun t k | DeadlineOps \<Rightarrow> EDFDequeue t k | IdleOps \<Rightarrow> IdleStartToRun t k)"

definition ops_timeSliceUpdate :: "nat \<Rightarrow> u64 \<Rightarrow> kstate \<Rightarrow> kstate" where
  "ops_timeSliceUpdate t currTime k = (case ops (tcb k t) of
     PriorityOps \<Rightarrow> HPFTimeSliceUpdate t currTime k
   | DeadlineOps \<Rightarrow> EDFTimeSliceUpdate t currTime k
   | IdleOps \<Rightarrow> IdleTimeSliceUpdate t currTime k)"

definition ops_deadlineGet :: "kstate \<Rightarrow> nat \<Rightarrow> u64" where
  "ops_deadlineGet k t = (case ops (tcb k t) of
     PriorityOps \<Rightarrow> HPFTimeSliceGet k t | DeadlineOps \<Rightarrow> EDFTimeSliceGet k t | IdleOps \<Rightarrow> IdleTimeSliceGet k t)"

definition ops_waitTimeGet :: "nat \<Rightarrow> kstate \<Rightarrow> u64 \<times> kstate" where
  "ops_waitTimeGet t k = (case ops (tcb k t) of
     PriorityOps \<Rightarrow> HPFWaitTimeGet t k | DeadlineOps \<Rightarrow> EDFWaitTimeGet t k
   | IdleOps \<Rightarrow> (0, k\<lparr>fault := True\<rparr>))"

definition ops_schedParamCompare :: "sched_ops \<Rightarrow> SchedPolicy \<Rightarrow> SchedPolicy \<Rightarrow> int" where
  "ops_schedParamCompare table p1 p2 = (case table of
     PriorityOps \<Rightarrow> HPFParamCompare p1 p2 | DeadlineOps \<Rightarrow> EDFParamCompare p1 p2
   | IdleOps \<Rightarrow> IdleParamCompare p1 p2)"

definition ops_schedParamGet :: "kstate \<Rightarrow> nat \<Rightarrow> SchedParam \<Rightarrow> SchedParam" where
  "ops_schedParamGet k t param = (case ops (tcb k t) of
     PriorityOps \<Rightarrow> HPFSchedParamGet k t param | DeadlineOps \<Rightarrow> EDFSchedParamGet k t param
   | IdleOps \<Rightarrow> IdleSchedParamGet k t param)"

section \<open>The next task\<close>

definition TopTask :: "kstate \<Rightarrow> nat" where
  "TopTask k = (case EDFRunqueueTopTaskGet k of
     Some t \<Rightarrow> t
   | None \<Rightarrow> (case HPFRunqueueTopTaskGet k of Some t \<Rightarrow> t | None \<Rightarrow> idleTask k))"

definition TopTaskGet :: "kstate \<Rightarrow> nat \<times> kstate" where
  "TopTaskGet k = (let newTask = TopTask k in (newTask, ops_start newTask k))"

definition SchedNextExpireTimeSet :: "u32 \<Rightarrow> u64 \<Rightarrow> u32 \<Rightarrow> kstate \<Rightarrow> kstate" where
  "SchedNextExpireTimeSet rspID taskEndTime oldResponseID k =
     (let currTime = OsGetCurrSchedTimeCycle k;
          precision = OS_TICK_RESPONSE_PRECISION k;
          next0 = OsGetSortLinkNextExpireTime (timeoutQueue k) currTime precision;
          k1 = clr_schedFlag INT_PEND_TICK k;
          k2 = (if responseID k1 = oldResponseID
                then k1\<lparr>rq_responseTime := OS_SCHED_MAX_RESPONSE_TIME\<rparr> else k1);
          isTimeSlice = (next0 > taskEndTime \<and> next0 - taskEndTime > ucast (OS_SCHED_MINI_PERIOD k));
          nextExpireTime = (if isTimeSlice then taskEndTime else next0)
      in if rq_responseTime k2 \<le> nextExpireTime \<or> rq_responseTime k2 - nextExpireTime < ucast precision then k2
         else let k3 = k2\<lparr>responseID := (if isTimeSlice then rspID else OS_INVALID_VALUE)\<rparr>;
                  (cycles, k4) = HalClockTickTimerReload (nextExpireTime - currTime) k3
              in k4\<lparr>rq_responseTime := currTime + cycles\<rparr>)"

definition OsSchedExpireTimeUpdate :: "kstate \<Rightarrow> kstate" where
  "OsSchedExpireTimeUpdate k =
     (if \<not> OS_SCHEDULER_ACTIVE k \<or> int_active k then OsSchedRunqueuePendingSet k
      else let runTask = currTask k; dl = ops_deadlineGet k runTask
           in SchedNextExpireTimeSet (taskID (tcb k runTask)) dl (taskID (tcb k runTask)) k)"

section \<open>The task switch\<close>

definition SchedTaskSwitch :: "nat \<Rightarrow> nat \<Rightarrow> kstate \<Rightarrow> kstate" where
  "SchedTaskSwitch runTask newTask k =
     (let k1 = set_status newTask OS_TASK_STATUS_RUNNING (clr_status runTask OS_TASK_STATUS_RUNNING k);
          k2 = k1\<lparr>currTask := newTask\<rparr>;
          k3 = (if has (status k2 runTask) OS_TASK_STATUS_READY
                then upd_tcb newTask (\<lambda>c. c\<lparr>startTime := startTime (tcb k2 runTask)\<rparr>) k2
                else let a = upd_tcb newTask (\<lambda>c. c\<lparr>startTime := OsGetCurrSchedTimeCycle k2\<rparr>) k2;
                         b = ops_timeSliceUpdate runTask (startTime (tcb a newTask)) a
                     in if has (status b runTask) (OS_TASK_STATUS_PEND_TIME OR OS_TASK_STATUS_DELAY)
                        then let (time, c) = ops_waitTimeGet runTask b
                             in OsSchedTimeoutQueueAdd runTask time c
                        else b);
          dl = ops_deadlineGet k3 newTask
      in SchedNextExpireTimeSet (taskID (tcb k3 newTask)) dl (taskID (tcb k3 runTask)) k3)"

definition OsSchedResched :: "kstate \<Rightarrow> kstate" where
  "OsSchedResched k0 =
     (let k = clr_schedFlag INT_PEND_RESCH (LOS_ASSERT (taskLockCnt k0 = 0) k0);
          runTask = currTask k;
          (newTask, k1) = TopTaskGet k
      in if runTask = newTask then k1 else SchedTaskSwitch runTask newTask k1)"

definition OsSchedIrqEndCheckNeedSched :: "kstate \<Rightarrow> kstate" where
  "OsSchedIrqEndCheckNeedSched k0 =
     (let runTask = currTask k0;
          k = ops_timeSliceUpdate runTask (OsGetCurrSchedTimeCycle k0) k0;
          (preemptable, k1) = OsPreemptable k;
          tick = (\<lambda>k. if has (schedFlag k) INT_PEND_TICK then OsSchedExpireTimeUpdate k else k)
      in if preemptable \<and> has (schedFlag k1) INT_PEND_RESCH
         then let k2 = ops_enqueue runTask (clr_schedFlag INT_PEND_RESCH k1);
                  (newTask, k3) = TopTaskGet k2
              in if runTask \<noteq> newTask then SchedTaskSwitch runTask newTask k3 else tick k3
         else tick k1)"

definition LOS_Schedule :: "kstate \<Rightarrow> kstate" where
  "LOS_Schedule k =
     (let runTask = currTask k
      in if int_active k then OsSchedRunqueuePendingSet k
         else let (preemptable, k1) = OsPreemptable k
              in if \<not> preemptable then k1
                 else OsSchedResched (ops_enqueue runTask
                        (ops_timeSliceUpdate runTask (OsGetCurrSchedTimeCycle k1) k1)))"

section \<open>Timeouts\<close>

definition SchedTimeoutTaskWake :: "u64 \<Rightarrow> nat \<Rightarrow> bool \<Rightarrow> kstate \<Rightarrow> bool \<times> kstate" where
  "SchedTimeoutTaskWake currTime t needSched k =
     (let k1 = (if OsSchedPolicyIsEDF (tcb k t)
                then let a = (if finishTime (sp (tcb k t)) \<le> currTime then set_timeSlice t 0 k else k)
                     in if flags (sp (tcb a t)) = EDF_WAIT_FOREVER
                        then upd_sp t (\<lambda>s. s\<lparr>flags := EDF_UNUSED\<rparr>) (clr_status t OS_TASK_STATUS_PEND_TIME a)
                        else a
                else k);
          tempStatus = status k1 t
      in if has tempStatus (OS_TASK_STATUS_PEND_TIME OR OS_TASK_STATUS_DELAY)
         then let k2 = clr_status t (OS_TASK_STATUS_PENDING OR OS_TASK_STATUS_PEND_TIME OR OS_TASK_STATUS_DELAY) k1;
                  k3 = (if has tempStatus OS_TASK_STATUS_PEND_TIME
                        then OsTaskWakeClearPendMask t (upd_tcb t (\<lambda>c. c\<lparr>taskMux := None\<rparr>)
                               (pend_delete t (set_status t OS_TASK_STATUS_TIMEOUT k2)))
                        else k2)
              in if \<not> has tempStatus OS_TASK_STATUS_SUSPENDED then (True, ops_enqueue t k3)
                 else (needSched, k3)
         else (needSched, k1))"

text \<open>
  The loop of \<open>SchedTimeoutQueueScan\<close>. Waking a deadline task may put it back on the queue with a
  later time, so the loop is not bounded by the length of the queue; it is given a number of
  turns, and \<open>None\<close> is a scan that has not ended by then.
\<close>

fun timeout_scan :: "nat \<Rightarrow> u64 \<Rightarrow> bool \<Rightarrow> kstate \<Rightarrow> (bool \<times> kstate) option" where
  "timeout_scan 0 currTime needSched k = None"
| "timeout_scan (Suc n) currTime needSched k = (case sortLink (timeoutQueue k) of
     [] \<Rightarrow> Some (needSched, k)
   | t # _ \<Rightarrow>
       if responseTime (timeoutQueue k) t \<le> currTime
       then let k1 = k\<lparr>timeoutQueue := OsDeleteNodeSortLink t (timeoutQueue k)\<rparr>;
                (needSched1, k2) = SchedTimeoutTaskWake currTime t needSched k1
            in timeout_scan n currTime needSched1 k2
       else Some (needSched, k))"

definition SchedTimeoutQueueScan :: "nat \<Rightarrow> kstate \<Rightarrow> (bool \<times> kstate) option" where
  "SchedTimeoutQueueScan fuel k = timeout_scan fuel (OsGetCurrSchedTimeCycle k) False k"

definition OsSchedTick :: "nat \<Rightarrow> kstate \<Rightarrow> kstate option" where
  "OsSchedTick fuel k =
     (let fin = (\<lambda>k. (set_schedFlag INT_PEND_TICK k)\<lparr>rq_responseTime := OS_SCHED_MAX_RESPONSE_TIME\<rparr>)
      in if responseID k = OS_INVALID_VALUE
         then (case SchedTimeoutQueueScan fuel k of
                 None \<Rightarrow> None
               | Some (needSched, k1) \<Rightarrow> Some (fin (if needSched then set_schedFlag INT_PEND_RESCH k1 else k1)))
         else Some (fin k))"

definition OsSchedResponseTimeReset :: "u64 \<Rightarrow> kstate \<Rightarrow> kstate" where
  "OsSchedResponseTimeReset time k = k\<lparr>rq_responseTime := time\<rparr>"

section \<open>Initialisation and comparison\<close>

definition OsSchedRunqueueInit :: "kstate \<Rightarrow> kstate" where
  "OsSchedRunqueueInit k = k\<lparr>timeoutQueue := OsSortLinkInit (timeoutQueue k),
     rq_responseTime := OS_SCHED_MAX_RESPONSE_TIME\<rparr>"

definition OsSchedRunqueueIdleInit :: "nat \<Rightarrow> kstate \<Rightarrow> kstate" where
  "OsSchedRunqueueIdleInit t k = k\<lparr>idleTask := t\<rparr>"

definition OsSchedInit :: "kstate \<Rightarrow> u32 \<times> kstate" where
  "OsSchedInit k = (0, HPFSchedPolicyInit (EDFSchedPolicyInit k))"

definition OsSchedParamCompare :: "TCB \<Rightarrow> TCB \<Rightarrow> int" where
  "OsSchedParamCompare task1 task2 =
     (if policy (sp task1) = policy (sp task2) then ops_schedParamCompare (ops task1) (sp task1) (sp task2)
      else if policy (sp task1) = LOS_SCHED_IDLE then 1
      else if policy (sp task2) = LOS_SCHED_IDLE then - 1
      else 0)"

definition OsSchedParamInit :: "nat \<Rightarrow> u16 \<Rightarrow> SchedParam \<Rightarrow> LosSchedParam option \<Rightarrow> kstate \<Rightarrow> u32 \<times> kstate" where
  "OsSchedParamInit t pol parentParam param k =
     (if pol = LOS_SCHED_FIFO \<or> pol = LOS_SCHED_RR then (0, HPFTaskSchedParamInit t pol parentParam param k)
      else if pol = LOS_SCHED_DEADLINE then
        (case param of
           Some q \<Rightarrow> EDFTaskSchedParamInit t pol q k
         | None \<Rightarrow> (0, k\<lparr>fault := True\<rparr>))
      else if pol = LOS_SCHED_IDLE then (0, IdleTaskSchedParamInit t k)
      else (1, k))"

definition OsSchedProcessDefaultSchedParamGet :: "u16 \<Rightarrow> SchedParam \<Rightarrow> SchedParam" where
  "OsSchedProcessDefaultSchedParamGet pol param =
     (if pol = LOS_SCHED_FIFO \<or> pol = LOS_SCHED_RR then HPFProcessDefaultSchedParamGet param
      else if pol = LOS_SCHED_DEADLINE then EDFProcessDefaultSchedParamGet param
      else param)"

definition OsSchedStart :: "kstate \<Rightarrow> kstate" where
  "OsSchedStart k =
     (let (newTask, k1) = TopTaskGet k;
          k2 = (set_status newTask OS_TASK_STATUS_RUNNING k1)\<lparr>currTask := newTask\<rparr>;
          k3 = upd_tcb newTask (\<lambda>c. c\<lparr>startTime := OsGetCurrSchedTimeCycle k2\<rparr>) k2;
          k4 = k3\<lparr>g_taskScheduled := g_taskScheduled k3 OR 1, responseID := OS_INVALID_VALUE\<rparr>
      in SchedNextExpireTimeSet (taskID (tcb k4 newTask)) (ops_deadlineGet k4 newTask) OS_INVALID_VALUE k4)"

text \<open>
  The start of the hardware timer (\<open>OsTickStart\<close>) and of the software timers is left out.
\<close>

section \<open>Where a task waits in a list ordered by priority\<close>

fun lock_pend_pos_sub :: "kstate \<Rightarrow> nat \<Rightarrow> pend_head \<Rightarrow> nat list \<Rightarrow> list_pos option" where
  "lock_pend_pos_sub k runTask h [] = None"
| "lock_pend_pos_sub k runTask h (pended # rest) =
     (let ret = OsSchedParamCompare (tcb k pended) (tcb k runTask)
      in if ret < 0 then lock_pend_pos_sub k runTask h rest
         else if ret > 0 then Some (AtNode pended)
         else Some (case rest of [] \<Rightarrow> AtHead h | n # _ \<Rightarrow> AtNode n))"

definition SchedLockPendFindPosSub :: "kstate \<Rightarrow> nat \<Rightarrow> pend_head \<Rightarrow> list_pos option" where
  "SchedLockPendFindPosSub k runTask h = lock_pend_pos_sub k runTask h (pend k h)"

definition OsSchedLockPendFindPos :: "kstate \<Rightarrow> nat \<Rightarrow> pend_head \<Rightarrow> list_pos option" where
  "OsSchedLockPendFindPos k runTask h = (case pend k h of
     [] \<Rightarrow> Some (AtHead h)
   | pended1 # _ \<Rightarrow>
       if OsSchedParamCompare (tcb k pended1) (tcb k runTask) > 0 then Some (AtNode pended1)
       else if OsSchedParamCompare (tcb k (last (pend k h))) (tcb k runTask) \<le> 0 then Some (AtHead h)
       else SchedLockPendFindPosSub k runTask h)"

section \<open>What the parts of a switch leave alone\<close>

text \<open>
  Accounting changes times and scheduler flags only: the lists, the maps, and of a control block
  everything the invariant reads.
\<close>

definition tcb_acct :: "TCB \<Rightarrow> TCB \<Rightarrow> bool" where
  "tcb_acct c d \<longleftrightarrow> taskStatus d = taskStatus c \<and> on d = on c \<and> ops d = ops c \<and>
     policy (sp d) = policy (sp c) \<and> basePrio (sp d) = basePrio (sp c) \<and> priority (sp d) = priority (sp c) \<and>
     taskMux d = taskMux c \<and> lockList d = lockList c \<and> waitFlag d = waitFlag c \<and> waitID d = waitID c \<and>
     eventMask d = eventMask c \<and> eventMode d = eventMode c \<and> taskEvent d = taskEvent c \<and> priBitmap (sp d) = priBitmap (sp c)"

definition k_acct :: "kstate \<Rightarrow> kstate \<Rightarrow> bool" where
  "k_acct k j \<longleftrightarrow> pend j = pend k \<and> readyTasks j = readyTasks k \<and> prioBitmap j = prioBitmap k \<and>
     queueBitmap j = queueBitmap k \<and> currTask j = currTask k \<and> idleTask j = idleTask k \<and>
     taskLockCnt j = taskLockCnt k \<and> now j = now k \<and> (\<forall>t. tcb_acct (tcb k t) (tcb j t))"

lemma tcb_acct_refl [simp]: "tcb_acct c c" and k_acct_refl [simp]: "k_acct k k"
  by (simp_all add: tcb_acct_def k_acct_def)

lemma k_acct_trans [trans]: "k_acct k j \<Longrightarrow> k_acct j i \<Longrightarrow> k_acct k i"
  by (simp add: k_acct_def tcb_acct_def)

lemma k_acctD:
  assumes "k_acct k j"
  shows "pend j = pend k" "currTask j = currTask k" "idleTask j = idleTask k" "status j t = status k t"
    "on (tcb j t) = on (tcb k t)" "ops (tcb j t) = ops (tcb k t)" "taskLockCnt j = taskLockCnt k" "now j = now k"
  using assms by (simp_all add: k_acct_def tcb_acct_def status_def)

lemma k_acct_upd: "tcb_acct (tcb k t) (f (tcb k t)) \<Longrightarrow> k_acct k (upd_tcb t f k)"
  by (simp add: k_acct_def tcb_acct_def)

lemma k_acct_flag [simp]:
  "k_acct k (set_schedFlag m k)" "k_acct k (clr_schedFlag m k)" "k_acct k (LOS_ASSERT a k)"
  by (simp_all add: k_acct_def set_schedFlag_def clr_schedFlag_def LOS_ASSERT_def)

lemma rq_inv_acct:
  assumes "k_acct k j" "rq_inv k"
  shows "rq_inv j"
proof -
  have "task_ok (tcb j t) = task_ok (tcb k t)" for t
    by (rule task_ok_same) (use assms in \<open>simp add: k_acct_def tcb_acct_def tcb_same_def\<close>)
  with assms show ?thesis
    by (simp add: rq_inv_def lists_ok_def k_acct_def tcb_acct_def)
qed

lemma k_acct_timeslice: "k_acct k (ops_timeSliceUpdate t time k)"
proof -
  have hpf: "k_acct k (HPFTimeSliceUpdate t time k)"
    by (simp add: HPFTimeSliceUpdate_def Let_def k_acct_def tcb_acct_def set_timeSlice_def set_schedFlag_def)
  have edf: "k_acct k (EDFTimeSliceUpdate t time k)"
    by (simp add: EDFTimeSliceUpdate_def Let_def k_acct_def tcb_acct_def set_timeSlice_def set_schedFlag_def)
  have "k_acct k (IdleTimeSliceUpdate t time k)"
    by (simp add: IdleTimeSliceUpdate_def k_acct_def tcb_acct_def)
  with hpf edf show ?thesis by (simp add: ops_timeSliceUpdate_def split: sched_ops.split)
qed

lemma k_acct_waittime: "k_acct k (snd (ops_waitTimeGet t k))"
  by (simp add: ops_waitTimeGet_def HPFWaitTimeGet_def EDFWaitTimeGet_def Let_def k_acct_def tcb_acct_def
      split: sched_ops.split)

lemma k_acct_expire: "k_acct k (SchedNextExpireTimeSet a b c k)"
  by (simp add: SchedNextExpireTimeSet_def Let_def HalClockTickTimerReload_def k_acct_def clr_schedFlag_def)

lemma k_acct_timeout_add: "k_acct k (OsSchedTimeoutQueueAdd t v k)"
  by (simp add: k_acct_def OsSchedTimeoutQueueAdd_def)

lemmas k_acct_intros = k_acct_timeslice k_acct_waittime k_acct_expire k_acct_timeout_add

section \<open>Choosing the next task\<close>

text \<open>
  The scheduler's invariant between two operations: the run queue is consistent, the idle task
  and no other has the idle policy, tasks under the priority policy have parameters in range, exactly the current
  task is marked running, and it is on no list. \<open>sched_core\<close> is the part that also holds after the
  current task was put on a list and before the next one is chosen.
\<close>

definition sched_core :: "kstate \<Rightarrow> bool" where
  "sched_core k \<longleftrightarrow> rq_inv k \<and> (\<forall>t. ops (tcb k t) = IdleOps \<longleftrightarrow> t = idleTask k) \<and>
     on (tcb k (idleTask k)) = None \<and>
     (\<forall>t. ops (tcb k t) = PriorityOps \<longrightarrow> hpf_task (tcb k t)) \<and>
     (\<forall>t. has (taskStatus (tcb k t)) OS_TASK_STATUS_RUNNING \<longleftrightarrow> t = currTask k)"

definition sched_inv :: "kstate \<Rightarrow> bool" where
  "sched_inv k \<longleftrightarrow> sched_core k \<and> on (tcb k (currTask k)) = None"

lemma sched_coreD:
  assumes "sched_core k"
  shows "rq_inv k" "ops (tcb k (idleTask k)) = IdleOps" "on (tcb k (idleTask k)) = None"
    "ops (tcb k t) = PriorityOps \<Longrightarrow> hpf_task (tcb k t)"
    "has (taskStatus (tcb k t)) OS_TASK_STATUS_RUNNING \<longleftrightarrow> t = currTask k"
    "ops (tcb k t) = IdleOps \<longleftrightarrow> t = idleTask k"
  using assms by (simp_all add: sched_core_def)

lemma sched_core_acct: "k_acct k j \<Longrightarrow> sched_core k \<Longrightarrow> sched_core j"
  using rq_inv_acct [of k j] by (simp add: sched_core_def k_acct_def tcb_acct_def hpf_task_def)

lemma TopTask_acct:
  assumes "k_acct k j"
  shows "TopTask j = TopTask k"
proof -
  note same = assms [unfolded k_acct_def]
  have "top_in_base n bm b j = top_in_base n bm b k" for n bm b
    by (induction n arbitrary: bm) (use same in \<open>auto simp: Let_def split: list.split\<close>)
  then have "top_in_rq n bm j = top_in_rq n bm k" for n bm
    by (induction n arbitrary: bm) (use same in \<open>auto simp: Let_def split: option.split\<close>)
  then have "HPFRunqueueTopTaskGet j = HPFRunqueueTopTaskGet k"
    using same by (simp add: HPFRunqueueTopTaskGet_def)
  moreover have "EDFRunqueueTopTaskGet j = EDFRunqueueTopTaskGet k" "idleTask j = idleTask k"
    using same by (simp_all add: EDFRunqueueTopTaskGet_def)
  ultimately show ?thesis by (simp only: TopTask_def)
qed

lemma TopTask_cases:
  assumes "rq_inv k"
  obtains (edf) rest where "pend k EdfRoot = TopTask k # rest" "on (tcb k (TopTask k)) = Some EdfRoot"
      "ops (tcb k (TopTask k)) = DeadlineOps"
  | (hpf) b p rest where "pend k EdfRoot = []" "hpf_first_queue k b p" "pend k (HpfQue b p) = TopTask k # rest"
      "on (tcb k (TopTask k)) = Some (HpfQue b p)" "ops (tcb k (TopTask k)) = PriorityOps"
  | (idle) "pend k EdfRoot = []" "\<forall>b<32. \<forall>p<32. pend k (HpfQue b p) = []" "TopTask k = idleTask k"
proof (cases "pend k EdfRoot")
  case (Cons t rest)
  then have top: "TopTask k = t" by (simp add: TopTask_def EDFRunqueueTopTaskGet_def)
  have on: "on (tcb k t) = Some EdfRoot"
    using lists_okD(2) [OF rq_invD(1) [OF assms], of t EdfRoot] Cons by simp
  with rq_invD(2) [OF assms, of t] have "ops (tcb k t) = DeadlineOps" by (simp add: task_ok_def)
  with on top Cons show ?thesis by (intro edf) auto
next
  case Nil
  show ?thesis
  proof (cases "HPFRunqueueTopTaskGet k")
    case None
    with Nil HPFRunqueueTopTaskGet_cases [OF assms] show ?thesis
      by (intro idle) (auto simp: TopTask_def EDFRunqueueTopTaskGet_def)
  next
    case (Some t)
    then have top: "TopTask k = t" using Nil by (simp add: TopTask_def EDFRunqueueTopTaskGet_def)
    from HPFRunqueueTopTaskGet_Some [OF assms Some] obtain b p rest where
      *: "hpf_first_queue k b p" "pend k (HpfQue b p) = t # rest" "on (tcb k t) = Some (HpfQue b p)" .
    with rq_invD(2) [OF assms, of t] have "ops (tcb k t) = PriorityOps" by (simp add: task_ok_def)
    with * top Nil show ?thesis by (intro hpf) auto
  qed
qed

text \<open>Starting the chosen task takes it off its queue and changes nothing else.\<close>

lemma ops_start_top:
  assumes "sched_core k"
  defines "t \<equiv> TopTask k"
  shows "rq_inv (ops_start t k)" "on (tcb (ops_start t k) t) = None"
    and "tcb (ops_start t k) = (tcb k)(t := (tcb k t)\<lparr>on := None, taskStatus := taskStatus (tcb k t) AND NOT OS_TASK_STATUS_READY\<rparr>)"
    and "wait_head h \<Longrightarrow> pend (ops_start t k) h = pend k h"
    and "currTask (ops_start t k) = currTask k" "idleTask (ops_start t k) = idleTask k" "now (ops_start t k) = now k"
    "taskLockCnt (ops_start t k) = taskLockCnt k"
proof -
  note inv = sched_coreD(1) [OF assms(1)]
  have "rq_inv (ops_start t k) \<and> on (tcb (ops_start t k) t) = None \<and>
    tcb (ops_start t k) = (tcb k)(t := (tcb k t)\<lparr>on := None, taskStatus := taskStatus (tcb k t) AND NOT OS_TASK_STATUS_READY\<rparr>) \<and>
    (wait_head h \<longrightarrow> pend (ops_start t k) h = pend k h) \<and> currTask (ops_start t k) = currTask k \<and>
    idleTask (ops_start t k) = idleTask k \<and> now (ops_start t k) = now k \<and> taskLockCnt (ops_start t k) = taskLockCnt k"
    using inv
  proof (cases rule: TopTask_cases)
    case (edf rest)
    then have "ops_start t k = EDFDequeue t k" by (simp add: ops_start_def t_def)
    moreover have "rq_inv (EDFDequeue t k)" using rq_inv_EDFDequeue [OF inv] edf t_def by simp
    ultimately show ?thesis
      using edf by (auto simp: EDFDequeue_def clr_status_def pend_delete_eq t_def)
  next
    case (hpf b p rest)
    then have "ops_start t k = HPFDequeue t k" by (simp add: ops_start_def HPFStartToRun_def t_def)
    with hpf rq_inv_HPFDequeue [OF inv, of t b p] show ?thesis by (auto simp: t_def)
  next
    case idle
    have on: "on (tcb k t) = None" "ops (tcb k t) = IdleOps"
      using sched_coreD(2,3) [OF assms(1)] idle t_def by simp_all
    then have eq: "ops_start t k = clr_status t OS_TASK_STATUS_READY k"
      by (simp add: ops_start_def IdleStartToRun_def IdleDequeue_def)
    have upd: "(tcb k t)\<lparr>on := None, taskStatus := v\<rparr> = (tcb k t)\<lparr>taskStatus := v\<rparr>" for v
      using on by simp
    have "rq_inv (clr_status t OS_TASK_STATUS_READY k)"
    proof (rule rq_invI)
      show "lists_ok (clr_status t OS_TASK_STATUS_READY k)"
        using rq_invD(1) [OF inv] by (simp add: lists_ok_def clr_status_def)
      show "task_ok (tcb (clr_status t OS_TASK_STATUS_READY k) u)" for u
        using rq_invD(2) [OF inv, of u] on by (simp add: clr_status_def task_ok_none)
      show "maps_ok (pend (clr_status t OS_TASK_STATUS_READY k)) (readyTasks (clr_status t OS_TASK_STATUS_READY k))
          (prioBitmap (clr_status t OS_TASK_STATUS_READY k)) (queueBitmap (clr_status t OS_TASK_STATUS_READY k))"
        using rq_invD(3) [OF inv] by (simp add: clr_status_def)
    qed
    then show ?thesis unfolding eq upd using on by (simp add: clr_status_def)
  qed
  then show "rq_inv (ops_start t k)" "on (tcb (ops_start t k) t) = None"
    "tcb (ops_start t k) = (tcb k)(t := (tcb k t)\<lparr>on := None, taskStatus := taskStatus (tcb k t) AND NOT OS_TASK_STATUS_READY\<rparr>)"
    "wait_head h \<Longrightarrow> pend (ops_start t k) h = pend k h"
    "currTask (ops_start t k) = currTask k" "idleTask (ops_start t k) = idleTask k" "now (ops_start t k) = now k"
    "taskLockCnt (ops_start t k) = taskLockCnt k"
    by blast+
qed


section \<open>The switch\<close>

text \<open>
  \<open>ready_move k j\<close>: from \<open>k\<close> to \<open>j\<close> tasks only moved on and off the ready queues and were accounted for.
  Lists that tasks wait on are as they were.
\<close>

definition tcb_sched :: "TCB \<Rightarrow> TCB \<Rightarrow> bool" where
  "tcb_sched c d \<longleftrightarrow> ops d = ops c \<and>
     policy (sp d) = policy (sp c) \<and> basePrio (sp d) = basePrio (sp c) \<and> priority (sp d) = priority (sp c) \<and>
     taskMux d = taskMux c \<and> lockList d = lockList c \<and>
     eventMask d = eventMask c \<and> eventMode d = eventMode c \<and> taskEvent d = taskEvent c \<and> priBitmap (sp d) = priBitmap (sp c)"

definition ready_move :: "kstate \<Rightarrow> kstate \<Rightarrow> bool" where
  "ready_move k j \<longleftrightarrow> (\<forall>h. wait_head h \<longrightarrow> pend j h = pend k h) \<and> idleTask j = idleTask k \<and>
     taskLockCnt j = taskLockCnt k \<and> now j = now k \<and> (\<forall>t. tcb_sched (tcb k t) (tcb j t)) \<and>
     (\<forall>t m. m AND OS_TASK_STATUS_READY = 0 \<longrightarrow> m AND OS_TASK_STATUS_RUNNING = 0 \<longrightarrow>
        has (status j t) m = has (status k t) m)"

lemma ready_move_trans [trans]: "ready_move k j \<Longrightarrow> ready_move j i \<Longrightarrow> ready_move k i"
  by (simp add: ready_move_def tcb_sched_def)

lemma ready_move_acct: "k_acct k j \<Longrightarrow> ready_move k j"
  by (simp add: ready_move_def k_acct_def tcb_acct_def tcb_sched_def status_def)

lemma and_clear: "m AND r = (0 :: u16) \<Longrightarrow> m AND NOT r = m"
  by (metis and.right_neutral bit.conj_disj_distrib bit.disj_cancel_right or.left_neutral)

lemma has_disjoint: "m AND r = (0 :: u16) \<Longrightarrow> \<not> has r m"
  by (simp add: has_def and.commute)

lemma clear_mask:
  "m AND 2 = 0 \<Longrightarrow> - 3 AND m = (m :: u16)" "m AND 4 = 0 \<Longrightarrow> - 5 AND m = (m :: u16)"
  by (drule and_clear, simp add: and.commute)+

lemma SchedTaskSwitch_acct:
  "\<exists>j. j = (set_status new OS_TASK_STATUS_RUNNING (clr_status run OS_TASK_STATUS_RUNNING k))\<lparr>currTask := new\<rparr> \<and>
     k_acct j (SchedTaskSwitch run new k)"
proof -
  let ?j = "(set_status new OS_TASK_STATUS_RUNNING (clr_status run OS_TASK_STATUS_RUNNING k))\<lparr>currTask := new\<rparr>"
  have upd: "k_acct i (upd_tcb new (\<lambda>c. c\<lparr>startTime := v\<rparr>) i)" for v i
    by (rule k_acct_upd) (simp add: tcb_acct_def)
  let ?b = "\<lambda>v w. ops_timeSliceUpdate run w (upd_tcb new (\<lambda>c. c\<lparr>startTime := v\<rparr>) ?j)"
  have b: "k_acct ?j (?b v w)" for v w
    using upd k_acct_timeslice by (rule k_acct_trans)
  have c: "k_acct ?j (OsSchedTimeoutQueueAdd run x (snd (ops_waitTimeGet run (?b v w))))" for v w x
    using b k_acct_waittime k_acct_timeout_add by (blast intro: k_acct_trans)
  show ?thesis
    unfolding SchedTaskSwitch_def Let_def case_prod_beta
    by (intro exI [of _ ?j] conjI refl k_acct_trans [OF _ k_acct_expire]) (simp add: upd b c split: if_split)
qed

lemma sched_core_start:
  assumes core: "sched_core k"
  shows "sched_core (ops_start (TopTask k) k)"
  using ops_start_top [OF core] core unfolding sched_core_def
  by (auto simp: hpf_task_def)

lemma sched_inv_switch:
  assumes core: "sched_core k" and run: "run = currTask k" and new: "on (tcb k new) = None"
  shows "sched_inv (SchedTaskSwitch run new k)" "currTask (SchedTaskSwitch run new k) = new"
    "ready_move k (SchedTaskSwitch run new k)"
proof -
  obtain j where j: "j = (set_status new OS_TASK_STATUS_RUNNING (clr_status run OS_TASK_STATUS_RUNNING k))\<lparr>currTask := new\<rparr>"
    and acct: "k_acct j (SchedTaskSwitch run new k)"
    using SchedTaskSwitch_acct by blast
  have "rq_inv (set_status new OS_TASK_STATUS_RUNNING (clr_status run OS_TASK_STATUS_RUNNING k))"
    using sched_coreD(1) [OF core] by (intro rq_inv_set_status rq_inv_clr_status) simp_all
  then have "rq_inv j"
    using rq_inv_same [of "set_status new OS_TASK_STATUS_RUNNING (clr_status run OS_TASK_STATUS_RUNNING k)" j] j
    by (simp add: rq_same_def)
  moreover have tcb: "tcb j t = (tcb k t)\<lparr>taskStatus := (let s = taskStatus (tcb k t);
      s1 = (if t = run then s AND NOT OS_TASK_STATUS_RUNNING else s)
      in if t = new then s1 OR OS_TASK_STATUS_RUNNING else s1)\<rparr>" for t
    by (simp add: j set_status_def clr_status_def)
  ultimately have core': "sched_core j" and "on (tcb j new) = None"
    using core run new unfolding sched_core_def
    by (auto simp: j Let_def hpf_task_def tcb set_status_def clr_status_def)
  with sched_core_acct [OF acct] k_acctD [OF acct] show "sched_inv (SchedTaskSwitch run new k)"
    by (simp add: sched_inv_def j)
  show "currTask (SchedTaskSwitch run new k) = new" using k_acctD(2) [OF acct] by (simp add: j)
  have "ready_move k j"
    unfolding ready_move_def status_def tcb
    by (auto simp: j set_status_def clr_status_def Let_def tcb_sched_def has_disjoint clear_mask)
  then show "ready_move k (SchedTaskSwitch run new k)"
    using ready_move_acct [OF acct] by (rule ready_move_trans)
qed

lemma ready_move_start:
  assumes "sched_core k"
  shows "ready_move k (ops_start (TopTask k) k)"
  using ops_start_top [OF assms] unfolding ready_move_def status_def
  by (auto simp: tcb_sched_def clear_mask)

text \<open>Rescheduling from a consistent state leads to a consistent state in which the chosen task runs.\<close>

lemma OsSchedResched_inv:
  assumes core: "sched_core k"
  shows "sched_inv (OsSchedResched k)" "currTask (OsSchedResched k) = TopTask k" "ready_move k (OsSchedResched k)"
proof -
  let ?k = "clr_schedFlag INT_PEND_RESCH (LOS_ASSERT (taskLockCnt k = 0) k)"
  let ?s = "ops_start (TopTask ?k) ?k"
  have acct: "k_acct k ?k" using k_acct_flag(2,3) by (rule k_acct_trans [rotated])
  have core': "sched_core ?k" by (rule sched_core_acct [OF acct core])
  have top: "TopTask ?k = TopTask k" by (rule TopTask_acct [OF acct])
  have s: "sched_core ?s" "on (tcb ?s (TopTask ?k)) = None" "currTask ?s = currTask ?k" "ready_move k ?s"
    using sched_core_start [OF core'] ops_start_top [OF core'] ready_move_start [OF core'] ready_move_acct [OF acct]
    by (auto intro: ready_move_trans)
  have eq: "OsSchedResched k = (if currTask ?k = TopTask ?k then ?s else SchedTaskSwitch (currTask ?k) (TopTask ?k) ?s)"
    by (simp add: OsSchedResched_def Let_def TopTaskGet_def)
  show "sched_inv (OsSchedResched k)" "currTask (OsSchedResched k) = TopTask k" "ready_move k (OsSchedResched k)"
    using s sched_inv_switch [OF s(1) s(3) [symmetric] s(2)] unfolding eq top
    by (auto simp: sched_inv_def intro: ready_move_trans)
qed

section \<open>Enqueueing\<close>

text \<open>\<open>only_task t k j\<close>: from \<open>k\<close> to \<open>j\<close> only task \<open>t\<close> changed, in its place on the lists and its times.\<close>

definition only_task :: "nat \<Rightarrow> kstate \<Rightarrow> kstate \<Rightarrow> bool" where
  "only_task t k j \<longleftrightarrow> (\<forall>u. u \<noteq> t \<longrightarrow> tcb j u = tcb k u) \<and> tcb_sched (tcb k t) (tcb j t) \<and>
     has (taskStatus (tcb j t)) OS_TASK_STATUS_RUNNING = has (taskStatus (tcb k t)) OS_TASK_STATUS_RUNNING \<and>
     currTask j = currTask k \<and> idleTask j = idleTask k \<and> now j = now k \<and> taskLockCnt j = taskLockCnt k"

lemma only_task_trans [trans]: "only_task t k j \<Longrightarrow> only_task t j i \<Longrightarrow> only_task t k i"
  by (simp add: only_task_def tcb_sched_def)

lemma only_task_upd:
  assumes "tcb_sched (tcb k t) (f (tcb k t))"
    "has (taskStatus (f (tcb k t))) OS_TASK_STATUS_RUNNING = has (taskStatus (tcb k t)) OS_TASK_STATUS_RUNNING"
  shows "only_task t k (upd_tcb t f k)"
  using assms by (simp add: only_task_def)

lemma only_task_prim:
  "only_task t k (LOS_ASSERT a k)" "only_task t k (pend_link h t xs k)"
  "only_task t k (OsSchedTimeoutQueueAdd t v k)" "only_task t k (k\<lparr>diverged := True\<rparr>)"
  "\<not> has m OS_TASK_STATUS_RUNNING \<Longrightarrow> only_task t k (set_status t m k)"
  "OS_TASK_STATUS_RUNNING AND NOT m = OS_TASK_STATUS_RUNNING \<Longrightarrow> only_task t k (clr_status t m k)"
  "only_task t k (set_timeSlice t x k)"
  by (auto simp: only_task_def tcb_sched_def LOS_ASSERT_def pend_link_def OsSchedTimeoutQueueAdd_def
      set_status_def clr_status_def set_timeSlice_def)

lemma only_task_sp:
  assumes "\<And>s. policy (f s) = policy s \<and> basePrio (f s) = basePrio s \<and> priority (f s) = priority s \<and> priBitmap (f s) = priBitmap s"
  shows "only_task t k (upd_sp t f k)"
  unfolding upd_sp_def using assms by (intro only_task_upd) (simp_all add: tcb_sched_def)

lemma only_task_edf_ready: "only_task t k (edf_make_ready t k)"
proof -
  have "only_task t k (DeadlineQueueInsert t k)"
    by (simp add: DeadlineQueueInsert_def pend_tail_insert_def pend_head_insert_def only_task_prim(2) split: option.split)
  also have "only_task t (DeadlineQueueInsert t k)
      (clr_status t (OS_TASK_STATUS_BLOCKED OR OS_TASK_STATUS_TIMEOUT) (DeadlineQueueInsert t k))"
    by (rule only_task_prim) simp
  also have "only_task t \<dots> (set_status t OS_TASK_STATUS_READY \<dots>)" by (rule only_task_prim) simp
  finally show ?thesis by (simp only: edf_make_ready_def)
qed

lemma only_task_edf_wait: "only_task t k (edf_wait_period t fin k)"
proof -
  let ?k1 = "upd_tcb t (\<lambda>c. c\<lparr>waitTime := OS_SCHED_MAX_RESPONSE_TIME\<rparr>) (pend_tail_insert EdfWait t k)"
  let ?k2 = "if \<not> OsTaskIsRunning (tcb ?k1 t) then OsSchedTimeoutQueueAdd t fin ?k1 else ?k1"
  have "only_task t k (pend_tail_insert EdfWait t k)" unfolding pend_tail_insert_def by (rule only_task_prim)
  also have "only_task t \<dots> ?k1" by (rule only_task_upd) (simp_all add: tcb_sched_def)
  also have "only_task t ?k1 ?k2" using only_task_prim(3) by (auto simp: only_task_def tcb_sched_def)
  also have "only_task t ?k2 (set_status t OS_TASK_STATUS_PEND_TIME ?k2)" by (rule only_task_prim) simp
  also have "only_task t \<dots> (upd_sp t (\<lambda>s. s\<lparr>flags := EDF_NEXT_PERIOD\<rparr>) \<dots>)" by (rule only_task_sp) simp
  finally show ?thesis by (simp only: edf_wait_period_def Let_def)
qed

lemma only_task_EDFEnqueue: "only_task t k (EDFEnqueue t k)"
proof -
  have wait: "only_task t k (edf_wait_period t fin (upd_sp t (\<lambda>s. s\<lparr>finishTime := fin\<rparr>) (LOS_ASSERT a k)))" for fin a
    by (rule only_task_trans [OF only_task_trans [OF only_task_prim(1) only_task_sp] only_task_edf_wait]) simp
  have ready: "only_task t k (edf_make_ready t (set_timeSlice t v
      (upd_sp t (\<lambda>s. s\<lparr>finishTime := fin + deadline s, flags := EDF_UNUSED\<rparr>) (LOS_ASSERT a k))))" for v fin a
    by (rule only_task_trans [OF only_task_trans [OF only_task_trans [OF only_task_prim(1) only_task_sp] only_task_prim(7)] only_task_edf_ready]) simp
  have ready0: "only_task t k (edf_make_ready t (LOS_ASSERT a k))" for a
    by (rule only_task_trans [OF only_task_prim(1) only_task_edf_ready])
  have div: "only_task t k ((LOS_ASSERT a k)\<lparr>diverged := True\<rparr>)" for a
    by (rule only_task_trans [OF only_task_prim(1) only_task_prim(4)])
  show ?thesis
    unfolding EDFEnqueue_def Let_def by (auto intro: wait ready ready0 div split: option.split)
qed

lemma only_task_HPFEnqueue:
  assumes "hpf_task (tcb k t)"
  shows "only_task t k (HPFEnqueue t k)"
  using HPFEnqueue_effect(3) [OF assms] unfolding only_task_def
  by (auto simp: HPFEnqueue_eq [OF assms] Let_def tcb_sched_def set_status_def clr_status_def add_readyTasks_def
      pend_link_def pri_que_mark_def hpf_prepare_def set_timeSlice_def upd_sp_def)

lemma only_task_IdleEnqueue: "only_task t k (IdleEnqueue t k)"
  unfolding IdleEnqueue_def by (rule only_task_trans [OF only_task_prim(6) only_task_prim(5)]) simp_all

lemma only_task_enqueue:
  assumes "ops (tcb k t) = PriorityOps \<Longrightarrow> hpf_task (tcb k t)"
  shows "only_task t k (ops_enqueue t k)"
  using assms by (simp add: ops_enqueue_def only_task_HPFEnqueue only_task_EDFEnqueue only_task_IdleEnqueue split: sched_ops.split)

lemma sched_core_only:
  assumes core: "sched_core k" and rq: "rq_inv j" and only: "only_task t k j"
    and idle: "on (tcb j (idleTask k)) = None"
  shows "sched_core j"
proof -
  have "ops (tcb j u) = ops (tcb k u)" "hpf_task (tcb j u) = hpf_task (tcb k u)"
    "has (taskStatus (tcb j u)) OS_TASK_STATUS_RUNNING = has (taskStatus (tcb k u)) OS_TASK_STATUS_RUNNING" for u
    using only by (cases "u = t"; simp add: only_task_def tcb_sched_def hpf_task_def)+
  with core rq idle only show ?thesis by (simp add: sched_core_def only_task_def)
qed

lemma rq_inv_IdleEnqueue:
  assumes inv: "rq_inv k" and t: "on (tcb k t) = None" "ops (tcb k t) = IdleOps"
  shows "rq_inv (IdleEnqueue t k)"
proof (rule rq_invI)
  show "lists_ok (IdleEnqueue t k)"
    using rq_invD(1) [OF inv] by (simp add: lists_ok_def IdleEnqueue_def clr_status_def set_status_def)
  show "task_ok (tcb (IdleEnqueue t k) u)" for u
    using rq_invD(2) [OF inv, of u] t
    by (simp add: IdleEnqueue_def clr_status_def set_status_def task_ok_none)
  show "maps_ok (pend (IdleEnqueue t k)) (readyTasks (IdleEnqueue t k)) (prioBitmap (IdleEnqueue t k)) (queueBitmap (IdleEnqueue t k))"
    using rq_invD(3) [OF inv] by (simp add: IdleEnqueue_def clr_status_def set_status_def)
qed

lemma sched_core_enqueue:
  assumes core: "sched_core k" and t: "on (tcb k t) = None"
  shows "sched_core (ops_enqueue t k)"
proof (rule sched_core_only [OF core])
  note inv = sched_coreD(1) [OF core]
  show only: "only_task t k (ops_enqueue t k)" using sched_coreD(4) [OF core] by (rule only_task_enqueue)
  show "rq_inv (ops_enqueue t k)"
    using rq_inv_HPFEnqueue [OF inv t] rq_inv_EDFEnqueue [OF inv t] rq_inv_IdleEnqueue [OF inv t] sched_coreD(4) [OF core]
    by (simp add: ops_enqueue_def split: sched_ops.split)
  show "on (tcb (ops_enqueue t k) (idleTask k)) = None"
  proof (cases "t = idleTask k")
    case True
    then have "ops (tcb k t) = IdleOps" using sched_coreD(2) [OF core] by simp
    then show ?thesis
      using sched_coreD(3) [OF core] True by (simp add: ops_enqueue_def IdleEnqueue_def set_status_def clr_status_def)
  next
    case False
    then show ?thesis using only sched_coreD(3) [OF core] by (simp add: only_task_def)
  qed
qed

text \<open>The scheduling operations of the kernel keep the invariant.\<close>

lemma sched_core_timeslice: "sched_core k \<Longrightarrow> sched_core (ops_timeSliceUpdate t v k)"
  by (rule sched_core_acct [OF k_acct_timeslice])

lemma LOS_Schedule_inv:
  assumes "sched_inv k"
  shows "sched_inv (LOS_Schedule k)"
proof -
  have core: "sched_core k" and on: "on (tcb k (currTask k)) = None" using assms by (auto simp: sched_inv_def)
  have flag: "sched_inv (set_schedFlag m k)" for m
    using assms sched_core_acct [OF k_acct_flag(1) core] by (simp add: sched_inv_def set_schedFlag_def)
  let ?k = "ops_timeSliceUpdate (currTask k) (OsGetCurrSchedTimeCycle k) k"
  have "on (tcb ?k (currTask k)) = None" using k_acctD(5) [OF k_acct_timeslice] on by simp
  then have "sched_core (ops_enqueue (currTask k) ?k)"
    by (rule sched_core_enqueue [OF sched_core_timeslice [OF core]])
  then have "sched_inv (OsSchedResched (ops_enqueue (currTask k) ?k))" by (rule OsSchedResched_inv)
  with flag assms show ?thesis
    by (simp add: LOS_Schedule_def Let_def OsSchedRunqueuePendingSet_def OsPreemptable_def)
qed

lemma OsSchedExpireTimeUpdate_acct: "k_acct k (OsSchedExpireTimeUpdate k)"
  by (simp add: OsSchedExpireTimeUpdate_def OsSchedRunqueuePendingSet_def Let_def k_acct_expire)

lemma sched_inv_acct: "k_acct k j \<Longrightarrow> sched_inv k \<Longrightarrow> sched_inv j"
  using sched_core_acct [of k j] k_acctD [of k j] by (simp add: sched_inv_def)

lemma OsSchedIrqEnd_inv:
  assumes "sched_inv k"
  shows "sched_inv (OsSchedIrqEndCheckNeedSched k)"
proof -
  let ?run = "currTask k"
  let ?k = "ops_timeSliceUpdate ?run (OsGetCurrSchedTimeCycle k) k"
  have inv: "sched_inv ?k" by (rule sched_inv_acct [OF k_acct_timeslice assms])
  have run: "currTask ?k = ?run" by (rule k_acctD(2) [OF k_acct_timeslice])
  have tick: "sched_inv (if has (schedFlag j) INT_PEND_TICK then OsSchedExpireTimeUpdate j else j)" if "sched_inv j" for j
    using that sched_inv_acct [OF OsSchedExpireTimeUpdate_acct] by simp
  have flag: "sched_inv (set_schedFlag INT_PEND_RESCH ?k)" by (rule sched_inv_acct [OF k_acct_flag(1) inv])
  let ?c = "clr_schedFlag INT_PEND_RESCH ?k" and ?q = "ops_enqueue ?run (clr_schedFlag INT_PEND_RESCH ?k)"
  have "sched_inv ?c" by (rule sched_inv_acct [OF k_acct_flag(2) inv])
  moreover have crun: "currTask ?c = ?run" using run by (simp add: clr_schedFlag_def)
  ultimately have c: "sched_core ?c" "on (tcb ?c ?run) = None" by (auto simp: sched_inv_def)
  have q: "sched_core ?q" by (rule sched_core_enqueue [OF c])
  have qrun: "currTask ?q = ?run"
    using only_task_enqueue [OF sched_coreD(4) [OF c(1)], of ?run] crun by (simp add: only_task_def)
  let ?s = "ops_start (TopTask ?q) ?q"
  have s: "sched_core ?s" "on (tcb ?s (TopTask ?q)) = None" "currTask ?s = ?run"
    using sched_core_start [OF q] ops_start_top [OF q] qrun by auto
  have same: "sched_inv (if has (schedFlag ?s) INT_PEND_TICK then OsSchedExpireTimeUpdate ?s else ?s)"
    if "?run = TopTask ?q" using s that by (intro tick) (simp add: sched_inv_def)
  have switch: "sched_inv (SchedTaskSwitch ?run (TopTask ?q) ?s)"
    using sched_inv_switch(1) [OF s(1) s(3) [symmetric] s(2)] .
  have "sched_inv (if ?run \<noteq> TopTask ?q then SchedTaskSwitch ?run (TopTask ?q) ?s
    else if has (schedFlag ?s) INT_PEND_TICK then OsSchedExpireTimeUpdate ?s else ?s)"
    using same switch by (cases "?run = TopTask ?q") (simp_all only: if_True if_False simp_thms)
  then show ?thesis
    using tick [OF inv] tick [OF flag]
    unfolding OsSchedIrqEndCheckNeedSched_def Let_def OsPreemptable_def TopTaskGet_def by simp
qed

section \<open>The timeout scan\<close>

lemma sched_core_transfer:
  assumes core: "sched_core k" and rq: "rq_inv j"
    and same: "\<And>u. ops (tcb j u) = ops (tcb k u)" "\<And>u. hpf_task (tcb j u) = hpf_task (tcb k u)"
      "\<And>u. has (taskStatus (tcb j u)) OS_TASK_STATUS_RUNNING = has (taskStatus (tcb k u)) OS_TASK_STATUS_RUNNING"
    and k: "currTask j = currTask k" "idleTask j = idleTask k" "on (tcb j (idleTask k)) = None"
  shows "sched_core j"
  using assms by (simp add: sched_core_def)

text \<open>A priority task that waits with a timeout: delayed, or pending on the list of some object.\<close>

definition timed_wait :: "kstate \<Rightarrow> nat \<Rightarrow> bool" where
  "timed_wait k t \<longleftrightarrow> hpf_task (tcb k t) \<and> t \<noteq> currTask k \<and>
     (if has (status k t) OS_TASK_STATUS_PEND_TIME then (\<exists>h. on (tcb k t) = Some h \<and> wait_head h)
      else has (status k t) OS_TASK_STATUS_DELAY \<and> on (tcb k t) = None)"

text \<open>The state in which \<open>SchedTimeoutTaskWake\<close> has taken the task off the list it waited on.\<close>

definition timed_out :: "nat \<Rightarrow> kstate \<Rightarrow> kstate" where
  "timed_out t k =
     (let k2 = clr_status t (OS_TASK_STATUS_PENDING OR OS_TASK_STATUS_PEND_TIME OR OS_TASK_STATUS_DELAY) k
      in if has (status k t) OS_TASK_STATUS_PEND_TIME
         then OsTaskWakeClearPendMask t (upd_tcb t (\<lambda>c. c\<lparr>taskMux := None\<rparr>)
                (pend_delete t (set_status t OS_TASK_STATUS_TIMEOUT k2)))
         else k2)"

lemma SchedTimeoutTaskWake_hpf:
  assumes "timed_wait k t"
  shows "SchedTimeoutTaskWake time t need k =
    (if has (status k t) OS_TASK_STATUS_SUSPENDED then (need, timed_out t k) else (True, HPFEnqueue t (timed_out t k)))"
proof -
  have h: "hpf_task (tcb k t)" using assms by (simp add: timed_wait_def)
  then have "\<not> OsSchedPolicyIsEDF (tcb k t)" by (auto simp: hpf_task_def OsSchedPolicyIsEDF_def)
  moreover have "has (status k t) (OS_TASK_STATUS_PEND_TIME OR OS_TASK_STATUS_DELAY)"
    using assms unfolding timed_wait_def has_mask_or by (auto split: if_splits)
  moreover have "ops (tcb (timed_out t k) t) = PriorityOps"
    using h by (simp add: timed_out_def Let_def tcb_upd_defs pend_delete_def OsTaskWakeClearPendMask_def hpf_task_def split: option.split)
  ultimately show ?thesis
    unfolding SchedTimeoutTaskWake_def Let_def timed_out_def [unfolded Let_def, symmetric]
    by (simp add: ops_enqueue_def timed_out_def [unfolded Let_def, symmetric])
qed

lemma timed_out_facts:
  assumes inv: "sched_inv k" and t: "timed_wait k t"
  shows "sched_inv (timed_out t k)" "on (tcb (timed_out t k) t) = None" "hpf_task (tcb (timed_out t k) t)"
    "timeoutQueue (timed_out t k) = timeoutQueue k" "u \<noteq> t \<Longrightarrow> tcb (timed_out t k) u = tcb k u"
    "currTask (timed_out t k) = currTask k"
    "taskStatus (tcb (timed_out t k) t) = (if has (status k t) OS_TASK_STATUS_PEND_TIME
       then taskStatus (tcb k t) AND NOT 0xB0 OR OS_TASK_STATUS_TIMEOUT else taskStatus (tcb k t) AND NOT 0xB0)"
proof -
  have h: "hpf_task (tcb k t)" and nc: "t \<noteq> currTask k" using t by (auto simp: timed_wait_def)
  have core: "sched_core k" using inv by (simp add: sched_inv_def)
  note rq = sched_coreD(1) [OF core]
  let ?c = "clr_status t (OS_TASK_STATUS_PENDING OR OS_TASK_STATUS_PEND_TIME OR OS_TASK_STATUS_DELAY) k"
  have c: "rq_inv ?c" by (rule rq_inv_clr_status [OF rq]) simp
  consider (pend) h where "has (status k t) OS_TASK_STATUS_PEND_TIME" "on (tcb k t) = Some h" "wait_head h"
    | (delay) "\<not> has (status k t) OS_TASK_STATUS_PEND_TIME" "on (tcb k t) = None"
    using t unfolding timed_wait_def by (auto split: if_splits)
  then have "rq_inv (timed_out t k) \<and> (\<forall>u. u \<noteq> t \<longrightarrow> tcb (timed_out t k) u = tcb k u) \<and>
      on (tcb (timed_out t k) t) = None \<and> tcb_sched ((tcb k t)\<lparr>taskMux := taskMux (tcb (timed_out t k) t)\<rparr>) (tcb (timed_out t k) t) \<and>
      timeoutQueue (timed_out t k) = timeoutQueue k \<and> currTask (timed_out t k) = currTask k \<and>
      idleTask (timed_out t k) = idleTask k \<and>
      taskStatus (tcb (timed_out t k) t) = (if has (status k t) OS_TASK_STATUS_PEND_TIME
       then taskStatus (tcb k t) AND NOT 0xB0 OR OS_TASK_STATUS_TIMEOUT else taskStatus (tcb k t) AND NOT 0xB0)"
  proof cases
    case (pend h)
    let ?s = "set_status t OS_TASK_STATUS_TIMEOUT ?c"
    have "rq_inv ?s" by (rule rq_inv_set_status [OF c]) simp
    moreover have on: "on (tcb ?s t) = Some h" using pend by (simp add: tcb_upd_defs)
    ultimately have "rq_inv (pend_delete t ?s)" using rq_inv_delete pend(3) by blast
    then have "rq_inv (timed_out t k)"
      unfolding timed_out_def Let_def OsTaskWakeClearPendMask_def using pend(1)
      by (simp, intro rq_inv_upd_tcb) (simp_all add: tcb_same_def)
    moreover have "timed_out t k = OsTaskWakeClearPendMask t (upd_tcb t (\<lambda>c. c\<lparr>taskMux := None\<rparr>)
        (upd_tcb t (\<lambda>c. c\<lparr>on := None\<rparr>) (?s\<lparr>pend := (pend ?s)(h := remove1 t (pend ?s h))\<rparr>)))"
      using pend(1) by (simp only: timed_out_def Let_def pend_delete_eq [OF on] if_True)
    ultimately show ?thesis
      using pend by (simp add: tcb_upd_defs OsTaskWakeClearPendMask_def tcb_sched_def)
  next
    case delay
    then have "timed_out t k = ?c" by (simp add: timed_out_def)
    with c delay show ?thesis by (simp add: tcb_upd_defs tcb_sched_def)
  qed
  then have rq': "rq_inv (timed_out t k)" and tcb: "\<And>u. u \<noteq> t \<Longrightarrow> tcb (timed_out t k) u = tcb k u"
    and on: "on (tcb (timed_out t k) t) = None"
    and same: "ops (tcb (timed_out t k) t) = ops (tcb k t)" "hpf_task (tcb (timed_out t k) t)"
    and q: "timeoutQueue (timed_out t k) = timeoutQueue k" and cur: "currTask (timed_out t k) = currTask k"
    "idleTask (timed_out t k) = idleTask k"
    and st: "taskStatus (tcb (timed_out t k) t) = (if has (status k t) OS_TASK_STATUS_PEND_TIME
       then taskStatus (tcb k t) AND NOT 0xB0 OR OS_TASK_STATUS_TIMEOUT else taskStatus (tcb k t) AND NOT 0xB0)"
    using h by (simp_all add: tcb_sched_def hpf_task_def)
  have "sched_core (timed_out t k)"
  proof (rule sched_core_transfer [OF core rq'])
    fix u
    show "ops (tcb (timed_out t k) u) = ops (tcb k u)" using tcb same by (cases "u = t") auto
    show "hpf_task (tcb (timed_out t k) u) = hpf_task (tcb k u)" using tcb same h by (cases "u = t") auto
    show "has (taskStatus (tcb (timed_out t k) u)) OS_TASK_STATUS_RUNNING = has (taskStatus (tcb k u)) OS_TASK_STATUS_RUNNING"
      using tcb st by (cases "u = t") auto
    show "on (tcb (timed_out t k) (idleTask k)) = None"
      using tcb on sched_coreD(3) [OF core] by (cases "idleTask k = t") auto
  qed (use cur in auto)
  then show "sched_inv (timed_out t k)" using inv tcb nc cur by (simp add: sched_inv_def)
  show "on (tcb (timed_out t k) t) = None" "hpf_task (tcb (timed_out t k) t)"
    "timeoutQueue (timed_out t k) = timeoutQueue k" "u \<noteq> t \<Longrightarrow> tcb (timed_out t k) u = tcb k u"
    "currTask (timed_out t k) = currTask k"
    "taskStatus (tcb (timed_out t k) t) = (if has (status k t) OS_TASK_STATUS_PEND_TIME
       then taskStatus (tcb k t) AND NOT 0xB0 OR OS_TASK_STATUS_TIMEOUT else taskStatus (tcb k t) AND NOT 0xB0)"
    using on same q cur st tcb by blast+
qed


text \<open>The timeout queue is well formed and holds tasks that wait with a timeout.\<close>

definition tq_inv :: "kstate \<Rightarrow> bool" where
  "tq_inv k \<longleftrightarrow> sl_wf (timeoutQueue k) \<and> \<not> sl_fault (timeoutQueue k) \<and>
     (\<forall>t\<in>set (sortLink (timeoutQueue k)). timed_wait k t)"

text \<open>What a timeout does to a task: it no longer waits, knows that its time ran out, and is ready.\<close>

definition woken :: "kstate \<Rightarrow> kstate \<Rightarrow> nat \<Rightarrow> bool" where
  "woken k j t \<longleftrightarrow> \<not> has (status j t) (OS_TASK_STATUS_PENDING OR OS_TASK_STATUS_PEND_TIME OR OS_TASK_STATUS_DELAY) \<and>
     (has (status k t) OS_TASK_STATUS_PEND_TIME \<longrightarrow> has (status j t) OS_TASK_STATUS_TIMEOUT) \<and>
     (if has (status k t) OS_TASK_STATUS_SUSPENDED then on (tcb j t) = None
      else has (status j t) OS_TASK_STATUS_READY \<and> on (tcb j t) = Some (hpf_que k t))"

lemma OsDeleteNodeSortLink_wf:
  assumes "sl_wf s" "n \<in> set (sortLink s)"
  shows "OsDeleteNodeSortLink n s = OsDeleteFromSortLink n s"
  using sl_wfD(4) [OF assms(1), of n] assms(2) by (simp add: OsDeleteFromSortLink_def)

lemma timeout_step:
  assumes inv: "sched_inv k" and tq: "tq_inv k" and t: "t \<in> set (sortLink (timeoutQueue k))"
    and eq: "SchedTimeoutTaskWake time t need (k\<lparr>timeoutQueue := OsDeleteNodeSortLink t (timeoutQueue k)\<rparr>) = (need', j)"
  shows "sched_inv j \<and> tq_inv j \<and> timeoutQueue j = OsDeleteFromSortLink t (timeoutQueue k) \<and>
    (\<forall>u. u \<noteq> t \<longrightarrow> tcb j u = tcb k u) \<and> woken k j t \<and> currTask j = currTask k"
proof -
  let ?q = "OsDeleteFromSortLink t (timeoutQueue k)" and ?k = "k\<lparr>timeoutQueue := OsDeleteNodeSortLink t (timeoutQueue k)\<rparr>"
  have wf: "sl_wf (timeoutQueue k)" and tw: "timed_wait k t" using tq t by (auto simp: tq_inv_def)
  have q: "timeoutQueue ?k = ?q" using OsDeleteNodeSortLink_wf [OF wf t] by simp
  have "k_acct k ?k" by (simp add: k_acct_def)
  then have inv': "sched_inv ?k" using inv by (rule sched_inv_acct)
  have tw': "timed_wait ?k t" using tw unfolding timed_wait_def status_def by simp
  note f = timed_out_facts [OF inv' tw']
  have st: "status ?k = status k" by (simp add: status_def fun_eq_iff)
  have j: "j = (if has (status k t) OS_TASK_STATUS_SUSPENDED then timed_out t ?k else HPFEnqueue t (timed_out t ?k))"
    using eq SchedTimeoutTaskWake_hpf [OF tw', of time need] by (simp add: st split: if_splits)
  have core: "sched_core (timed_out t ?k)" using f(1) by (simp add: sched_inv_def)
  have eff: "pend (HPFEnqueue t (timed_out t ?k)) = pend (HPFEnqueue t (timed_out t ?k))"
    and oth: "\<And>u. u \<noteq> t \<Longrightarrow> tcb (HPFEnqueue t (timed_out t ?k)) u = tcb k u"
    using HPFEnqueue_effect(2) [OF f(3)] f(5) by auto
  have nc: "t \<noteq> currTask k" using tw by (simp add: timed_wait_def)
  have "sched_core (ops_enqueue t (timed_out t ?k))" by (rule sched_core_enqueue [OF core f(2)])
  moreover have "ops_enqueue t (timed_out t ?k) = HPFEnqueue t (timed_out t ?k)"
    using f(3) by (simp add: ops_enqueue_def hpf_task_def)
  ultimately have "sched_inv (HPFEnqueue t (timed_out t ?k))"
    using oth nc inv f(6) by (simp add: sched_inv_def)
  then have sj: "sched_inv j" using f(1) j by simp
  have qj: "timeoutQueue j = ?q" using f(4) q j by simp
  have oj: "tcb j u = tcb k u" if "u \<noteq> t" for u using oth f(5) that j by simp
  have cj: "currTask j = currTask k" using f(6) j by simp
  have prio: "hpf_que (timed_out t ?k) t = hpf_que k t"
    by (simp add: timed_out_def Let_def tcb_upd_defs pend_delete_def OsTaskWakeClearPendMask_def split: option.split)
  have "woken k j t"
    using f(2,7) HPFEnqueue_effect(3,4) [OF f(3)] unfolding j prio
    by (auto simp: woken_def status_def split: if_splits)
  moreover have "tq_inv j"
    unfolding tq_inv_def qj
  proof (intro conjI ballI)
    show "sl_wf ?q" by (rule sl.delete_wf [OF wf])
    show "\<not> sl_fault ?q" using tq by (simp add: tq_inv_def OsDeleteFromSortLink_eq [OF wf])
    fix u assume "u \<in> set (sortLink ?q)"
    then have u: "u \<in> set (sortLink (timeoutQueue k))" "u \<noteq> t" using sl.delete_members [OF wf, of t] by auto
    with tq have "timed_wait k u" by (simp add: tq_inv_def)
    then show "timed_wait j u" using oj [OF u(2)] cj unfolding timed_wait_def status_def by simp
  qed
  ultimately show ?thesis using sj qj oj cj by blast
qed

lemma timeout_scan_result:
  assumes "sched_inv k" "tq_inv k" "length (sortLink (timeoutQueue k)) < n"
  shows "\<exists>need' j. timeout_scan n time need k = Some (need', j) \<and> sched_inv j \<and> tq_inv j \<and> currTask j = currTask k \<and>
    set (sortLink (timeoutQueue j)) \<subseteq> set (sortLink (timeoutQueue k)) \<and>
    (\<forall>t\<in>set (sortLink (timeoutQueue k)).
       if responseTime (timeoutQueue k) t \<le> time then t \<notin> set (sortLink (timeoutQueue j)) \<and> woken k j t
       else t \<in> set (sortLink (timeoutQueue j)) \<and> responseTime (timeoutQueue j) t = responseTime (timeoutQueue k) t) \<and>
    (\<forall>t. \<not> (t \<in> set (sortLink (timeoutQueue k)) \<and> responseTime (timeoutQueue k) t \<le> time) \<longrightarrow> tcb j t = tcb k t)"
  using assms
proof (induction n arbitrary: k need)
  case (Suc n)
  note wf = Suc.prems(2) [unfolded tq_inv_def, THEN conjunct1]
  show ?case
  proof (cases "sortLink (timeoutQueue k)")
    case Nil
    with Suc.prems show ?thesis by simp
  next
    case (Cons t rest)
    have first: "sl_first (timeoutQueue k) = Some t" using Cons by (simp add: sl_first_def)
    show ?thesis
    proof (cases "responseTime (timeoutQueue k) t \<le> time")
      case False
      then have "\<forall>u\<in>set (sortLink (timeoutQueue k)). \<not> responseTime (timeoutQueue k) u \<le> time"
        using sl.none_due [OF wf first, of time] by (auto simp: not_le)
      with False Cons Suc.prems show ?thesis by auto
    next
      case True
      let ?k = "k\<lparr>timeoutQueue := OsDeleteNodeSortLink t (timeoutQueue k)\<rparr>"
      obtain need1 k1 where w: "SchedTimeoutTaskWake time t need ?k = (need1, k1)" by force
      have tin: "t \<in> set (sortLink (timeoutQueue k))" using Cons by simp
      from timeout_step [OF Suc.prems(1,2) tin w] have s: "sched_inv k1" "tq_inv k1"
        "timeoutQueue k1 = OsDeleteFromSortLink t (timeoutQueue k)" "\<forall>u. u \<noteq> t \<longrightarrow> tcb k1 u = tcb k u"
        "woken k k1 t" "currTask k1 = currTask k" by blast+
      have links: "set (sortLink (timeoutQueue k1)) = set (sortLink (timeoutQueue k)) - {t}"
        and due: "\<And>u. u \<noteq> t \<Longrightarrow> responseTime (timeoutQueue k1) u = responseTime (timeoutQueue k) u"
        unfolding s(3) by (rule sl.delete_members [OF wf], rule sl.delete_due [OF wf])
      have "length (sortLink (timeoutQueue k1)) < n"
        unfolding s(3) OsDeleteFromSortLink_eq [OF wf] using Suc.prems(3) Cons by simp
      from Suc.IH [OF s(1,2) this, of need1] obtain need' j where j:
        "timeout_scan n time need1 k1 = Some (need', j)" "sched_inv j" "tq_inv j" "currTask j = currTask k1"
        "set (sortLink (timeoutQueue j)) \<subseteq> set (sortLink (timeoutQueue k1))"
        "\<forall>t\<in>set (sortLink (timeoutQueue k1)).
           if responseTime (timeoutQueue k1) t \<le> time then t \<notin> set (sortLink (timeoutQueue j)) \<and> woken k1 j t
           else t \<in> set (sortLink (timeoutQueue j)) \<and> responseTime (timeoutQueue j) t = responseTime (timeoutQueue k1) t"
        "\<forall>t. \<not> (t \<in> set (sortLink (timeoutQueue k1)) \<and> responseTime (timeoutQueue k1) t \<le> time) \<longrightarrow> tcb j t = tcb k1 t"
        by blast
      have tj: "tcb j t = tcb k1 t" using j(7) links by blast
      have eq: "timeout_scan (Suc n) time need k = Some (need', j)" using True Cons w j(1) by simp
      have sub: "set (sortLink (timeoutQueue j)) \<subseteq> set (sortLink (timeoutQueue k)) - {t}"
        using j(5) links by blast
      have all: "if responseTime (timeoutQueue k) u \<le> time
          then u \<notin> set (sortLink (timeoutQueue j)) \<and> woken k j u
          else u \<in> set (sortLink (timeoutQueue j)) \<and> responseTime (timeoutQueue j) u = responseTime (timeoutQueue k) u"
        if u: "u \<in> set (sortLink (timeoutQueue k))" for u
      proof (cases "u = t")
        case True
        with \<open>responseTime (timeoutQueue k) t \<le> time\<close> sub s(5) tj show ?thesis
          by (auto simp: woken_def status_def)
      next
        case False
        have w1: "woken k1 j u = woken k j u" using s(4) False by (simp add: woken_def status_def)
        have "u \<in> set (sortLink (timeoutQueue k1))" using u False links by blast
        from bspec [OF j(6) this] show ?thesis unfolding due [OF False] w1 .
      qed
      have rest: "tcb j u = tcb k u"
        if "\<not> (u \<in> set (sortLink (timeoutQueue k)) \<and> responseTime (timeoutQueue k) u \<le> time)" for u
      proof -
        have "u \<noteq> t" using that True tin by blast
        with that links due have "tcb j u = tcb k1 u" using j(7) by simp
        with \<open>u \<noteq> t\<close> s(4) show ?thesis by simp
      qed
      show ?thesis
        by (intro exI conjI ballI allI impI) (rule eq, rule j(2), rule j(3), simp add: j(4) s(6), use sub in blast, rule all, assumption, rule rest, assumption)
    qed
  qed
qed simp

section \<open>A running system\<close>

text \<open>
  A state just after the start of the scheduler: task 0 is the idle task, task 1 runs, tasks 2
  and 3 are ready at the same priority, and the rest are not created yet. It shows that the
  invariants can hold, and is the input of the examples.
\<close>

definition tcb_blank :: TCB where
  "tcb_blank = \<lparr>taskStatus = OS_TASK_STATUS_INIT, startTime = 0, waitTime = 0, irqStartTime = 0, irqUsedTime = 0,
     timeSlice = 0, ops = PriorityOps,
     sp = \<lparr>policy = LOS_SCHED_RR, basePrio = 0, priority = 10, initTimeSlice = 0, priBitmap = 0, flags = 0,
            runTime = 0, deadline = 0, period = 0, finishTime = 0\<rparr>,
     on = None, taskID = 0, taskMux = None, taskEvent = None, eventMask = 0, eventMode = 0, waitID = 0, waitFlag = 0,
     lockList = [], processCB = 0\<rparr>"

definition tcb_boot :: "nat \<Rightarrow> TCB" where
  "tcb_boot = (\<lambda>t. tcb_blank\<lparr>taskID := of_nat t\<rparr>)
     (0 := tcb_blank\<lparr>taskStatus := OS_TASK_STATUS_SUSPENDED, ops := IdleOps,
            sp := (sp tcb_blank)\<lparr>policy := LOS_SCHED_IDLE, basePrio := 31, priority := 31\<rparr>\<rparr>,
      1 := tcb_blank\<lparr>taskID := 1, taskStatus := OS_TASK_STATUS_RUNNING\<rparr>,
      2 := tcb_blank\<lparr>taskID := 2, taskStatus := OS_TASK_STATUS_READY, on := Some (HpfQue 0 10)\<rparr>,
      3 := tcb_blank\<lparr>taskID := 3, taskStatus := OS_TASK_STATUS_READY, on := Some (HpfQue 0 10)\<rparr>)"

definition k_boot :: kstate where
  "k_boot = \<lparr>tcb = tcb_boot, pend = (\<lambda>_. [])(HpfQue 0 10 := [2, 3]),
     readyTasks = (\<lambda>_ _. 0)(0 := (\<lambda>_. 0)(10 := 2)), prioBitmap = (\<lambda>_. 0)(0 := 0x00200000), queueBitmap = 0x80000000,
     timeoutQueue = \<lparr>sortLink = [], nodeNum = 0, responseTime = (\<lambda>_. OS_SORT_LINK_INVALID_TIME), sl_fault = False\<rparr>,
     rq_responseTime = OS_SCHED_MAX_RESPONSE_TIME, responseID = 0xFFFFFFFF, idleTask = 0, taskLockCnt = 0, schedFlag = 0,
     g_taskScheduled = 1, currTask = 1, threadSiblingList = (\<lambda>_. []), now = 1000, timer_cval = 0, int_active = False,
     pm_mode = False, sys_clock = 24000000, tick_per_second = 100, fault = False, asserted = False, diverged = False\<rparr>"

lemma maps_ok_boot: "maps_ok (pend k_boot) (readyTasks k_boot) (prioBitmap k_boot) (queueBitmap k_boot)"
  unfolding maps_ok_def
proof (intro allI impI conjI)
  fix b assume b: "b < (32::nat)"
  have "bit (0x80000000 :: u32) (31 - b) \<longleftrightarrow> b = 0" using bit_prior0 [of 0 "31 - b"] b by auto
  then show "bit (queueBitmap k_boot) (31 - b) \<longleftrightarrow> prioBitmap k_boot b \<noteq> 0"
    by (auto simp: k_boot_def)
  fix p assume p: "p < (32::nat)"
  have "drop_bit 10 (0x80000000 :: u32) = 0x00200000" by simp
  with bit_prior0 [of 10 "31 - p"] p have "bit (0x00200000 :: u32) (31 - p) \<longleftrightarrow> p = 10" by auto
  then show "bit (prioBitmap k_boot b) (31 - p) \<longleftrightarrow> pend k_boot (HpfQue b p) \<noteq> []"
    by (auto simp: k_boot_def)
  show "readyTasks k_boot b p = of_nat (length (pend k_boot (HpfQue b p)))"
    by (simp add: k_boot_def)
qed

lemma sched_inv_boot: "sched_inv k_boot"
proof -
  have "rq_inv k_boot"
  proof (rule rq_invI)
    show "lists_ok k_boot" by (auto simp: lists_ok_def k_boot_def tcb_boot_def tcb_blank_def)
    show "task_ok (tcb k_boot t)" for t by (simp add: task_ok_def k_boot_def tcb_boot_def tcb_blank_def)
    show "maps_ok (pend k_boot) (readyTasks k_boot) (prioBitmap k_boot) (queueBitmap k_boot)" by (rule maps_ok_boot)
  qed
  then show ?thesis
    by (simp add: sched_inv_def sched_core_def k_boot_def tcb_boot_def tcb_blank_def hpf_task_def)
qed

end
