(* ===== verification/Sched_Ops.thy ===== *)
theory Sched_Ops
  imports Sched_Core
begin

text \<open>
  The operations of the policy tables that reschedule or that are built on the others (\<open>yield\<close>,
  \<open>delay\<close>, \<open>wait\<close>, \<open>wake\<close>, \<open>suspend\<close>, \<open>resume\<close>, \<open>schedParamModify\<close>, \<open>exit\<close>, priority inheritance), for the
  three policies, and their dispatch. The locale \<open>wait_policy\<close> is the contract that the objects a
  task can wait on use: \<open>wait\<close> puts the running task on the object's list and leaves the processor,
  \<open>wake\<close> takes a waiting task off it and makes it ready. It is interpreted on the priority and on
  the deadline policy.

  An operation that gives up the processor ends, for the model, when another task runs: its
  result is \<open>None\<close> then, and \<open>wait_resume\<close> is what the task does when it runs again.
\<close>

section \<open>The priority policy\<close>

definition LOS_ERRNO_TSK_TIMEOUT :: u32 where
  "LOS_ERRNO_TSK_TIMEOUT = 0x03000227"

definition HPFYield :: "nat \<Rightarrow> kstate \<Rightarrow> kstate" where
  "HPFYield t k =
     OsSchedResched (HPFEnqueue t
       (upd_tcb t (\<lambda>c. c\<lparr>timeSlice := 0, startTime := OsGetCurrSchedTimeCycle k\<rparr>) k))"

definition HPFDelay :: "nat \<Rightarrow> u64 \<Rightarrow> kstate \<Rightarrow> u32 \<times> kstate" where
  "HPFDelay t time k =
     (0, OsSchedResched (upd_tcb t (\<lambda>c. c\<lparr>waitTime := time\<rparr>) (set_status t OS_TASK_STATUS_DELAY k)))"

definition wait_resume :: "nat \<Rightarrow> kstate \<Rightarrow> u32 \<times> kstate" where
  "wait_resume t k =
     (if has (status k t) OS_TASK_STATUS_TIMEOUT
      then (LOS_ERRNO_TSK_TIMEOUT, clr_status t OS_TASK_STATUS_TIMEOUT k)
      else (0, k))"

definition wait_switch :: "nat \<Rightarrow> kstate \<Rightarrow> u32 option \<times> kstate" where
  "wait_switch t k =
     (let (preemptable, k1) = OsPreemptableInSched k
      in if preemptable
         then let k2 = OsSchedResched k1
              in if currTask k2 = t then apfst Some (wait_resume t k2) else (None, k2)
         else (Some 0, k1))"

definition HPFWait_block :: "nat \<Rightarrow> list_pos \<Rightarrow> u32 \<Rightarrow> kstate \<Rightarrow> kstate" where
  "HPFWait_block t pos ticks k =
     (let k1 = pend_insert_at pos t (set_status t OS_TASK_STATUS_PENDING k)
      in if ticks \<noteq> LOS_WAIT_FOREVER
         then upd_tcb t (\<lambda>c. c\<lparr>waitTime := OS_SCHED_TICK_TO_CYCLE k1 ticks\<rparr>)
                (set_status t OS_TASK_STATUS_PEND_TIME k1)
         else k1)"

definition HPFWait :: "nat \<Rightarrow> list_pos \<Rightarrow> u32 \<Rightarrow> kstate \<Rightarrow> u32 option \<times> kstate" where
  "HPFWait t pos ticks k = wait_switch t (HPFWait_block t pos ticks k)"

definition HPFSuspend :: "nat \<Rightarrow> kstate \<Rightarrow> u32 \<times> kstate" where
  "HPFSuspend t k =
     (let k1 = (if has (status k t) OS_TASK_STATUS_READY then HPFDequeue t k else k);
          k2 = set_status t OS_TASK_STATUS_SUSPENDED (SchedTaskFreeze t k1)
      in (0, if t = currTask k2 then OsSchedResched k2 else k2))"

definition HPFResume :: "nat \<Rightarrow> kstate \<Rightarrow> u32 \<times> bool \<times> kstate" where
  "HPFResume t k =
     (let k1 = clr_status t OS_TASK_STATUS_SUSPENDED (SchedTaskUnfreeze t k)
      in if \<not> OsTaskIsBlocked (tcb k1 t) then (0, True, HPFEnqueue t k1) else (0, False, k1))"

text \<open>
  \<open>BasePriorityModify\<close> changes all threads of the process. A ready thread leaves the queue of its
  old priority before the change and enters the queue of the new one after it.
\<close>

fun base_priority_loop :: "nat list \<Rightarrow> nat \<Rightarrow> bool \<Rightarrow> kstate \<Rightarrow> bool \<times> kstate" where
  "base_priority_loop [] prio needSched k = (needSched, k)"
| "base_priority_loop (t # ts) prio needSched k =
     (let set_base = upd_sp t (\<lambda>s. s\<lparr>basePrio := prio\<rparr>);
          k1 = (if has (status k t) OS_TASK_STATUS_READY
                then ops_enqueue t (set_base (ops_dequeue t k)) else set_base k)
      in base_priority_loop ts prio
           (needSched \<or> has (status k1 t) (OS_TASK_STATUS_READY OR OS_TASK_STATUS_RUNNING)) k1)"

definition BasePriorityModify :: "nat \<Rightarrow> nat \<Rightarrow> kstate \<Rightarrow> bool \<times> kstate" where
  "BasePriorityModify t prio k =
     base_priority_loop (threadSiblingList k (processCB (tcb k t))) prio False k"

definition HPFSchedParamModify :: "nat \<Rightarrow> SchedParam \<Rightarrow> kstate \<Rightarrow> bool \<times> kstate" where
  "HPFSchedParamModify t param k =
     (let k1 = (if policy (sp (tcb k t)) \<noteq> pr_policy param
                then set_timeSlice t 0 (upd_sp t (\<lambda>s. s\<lparr>policy := pr_policy param\<rparr>) k) else k);
          (needSched, k2) = (if basePrio (sp (tcb k1 t)) \<noteq> pr_basePrio param
                             then BasePriorityModify t (pr_basePrio param) k1 else (False, k1));
          set_prio = upd_sp t (\<lambda>s. s\<lparr>priority := pr_priority param\<rparr>)
      in if has (status k2 t) OS_TASK_STATUS_READY
         then (True, HPFEnqueue t (set_prio (HPFDequeue t k2)))
         else let k3 = set_prio k2
              in if has (status k3 t) OS_TASK_STATUS_INIT then (True, HPFEnqueue t k3)
                 else if has (status k3 t) OS_TASK_STATUS_RUNNING then (True, k3)
                 else (needSched, k3))"

section \<open>The deadline policy\<close>

definition EDFYield :: "nat \<Rightarrow> kstate \<Rightarrow> kstate" where
  "EDFYield t k =
     OsSchedResched (EDFEnqueue t
       (upd_tcb t (\<lambda>c. c\<lparr>timeSlice := 0, startTime := OsGetCurrSchedTimeCycle k\<rparr>) k))"

definition EDFDelay :: "nat \<Rightarrow> u64 \<Rightarrow> kstate \<Rightarrow> u32 \<times> kstate" where
  "EDFDelay t time k =
     (0, OsSchedResched (upd_tcb t (\<lambda>c. c\<lparr>waitTime := time\<rparr>) (set_status t OS_TASK_STATUS_DELAY k)))"

definition EDFWait_block :: "nat \<Rightarrow> list_pos \<Rightarrow> u32 \<Rightarrow> kstate \<Rightarrow> kstate" where
  "EDFWait_block t pos ticks k =
     (let k1 = pend_insert_at pos t
                 (set_status t (OS_TASK_STATUS_PENDING OR OS_TASK_STATUS_PEND_TIME) k)
      in if ticks \<noteq> LOS_WAIT_FOREVER
         then upd_tcb t (\<lambda>c. c\<lparr>waitTime := OS_SCHED_TICK_TO_CYCLE k1 ticks\<rparr>) k1
         else upd_tcb t (\<lambda>c. c\<lparr>waitTime := OS_SCHED_MAX_RESPONSE_TIME\<rparr>)
                (upd_sp t (\<lambda>s. s\<lparr>flags := EDF_WAIT_FOREVER\<rparr>) k1))"

definition EDFWait :: "nat \<Rightarrow> list_pos \<Rightarrow> u32 \<Rightarrow> kstate \<Rightarrow> u32 option \<times> kstate" where
  "EDFWait t pos ticks k = wait_switch t (EDFWait_block t pos ticks k)"

section \<open>The idle task\<close>

definition IdleWake :: "nat \<Rightarrow> kstate \<Rightarrow> kstate" where
  "IdleWake t k =
     (let k1 = clr_status t OS_TASK_STATUS_PENDING (pend_delete t k);
          k2 = (if has (status k1 t) OS_TASK_STATUS_PEND_TIME
                then clr_status t OS_TASK_STATUS_PEND_TIME (OsSchedTimeoutQueueDelete t k1) else k1)
      in if \<not> has (status k2 t) OS_TASK_STATUS_SUSPENDED then ops_enqueue t k2 else k2)"

definition IdleResume :: "nat \<Rightarrow> kstate \<Rightarrow> u32 \<times> bool \<times> kstate" where
  "IdleResume t k =
     (let k1 = clr_status t OS_TASK_STATUS_SUSPENDED k
      in if \<not> OsTaskIsBlocked (tcb k1 t) then (0, True, ops_enqueue t k1) else (0, False, k1))"

section \<open>Dispatch\<close>

definition ops_wait :: "nat \<Rightarrow> list_pos \<Rightarrow> u32 \<Rightarrow> kstate \<Rightarrow> u32 option \<times> kstate" where
  "ops_wait t pos ticks k = (case ops (tcb k t) of
     PriorityOps \<Rightarrow> HPFWait t pos ticks k | DeadlineOps \<Rightarrow> EDFWait t pos ticks k
   | IdleOps \<Rightarrow> apfst Some (IdleWait t pos ticks k))"

definition ops_wake :: "nat \<Rightarrow> kstate \<Rightarrow> kstate" where
  "ops_wake t k = (case ops (tcb k t) of
     PriorityOps \<Rightarrow> HPFWake t k | DeadlineOps \<Rightarrow> EDFWake t k | IdleOps \<Rightarrow> IdleWake t k)"

definition ops_yield :: "nat \<Rightarrow> kstate \<Rightarrow> kstate" where
  "ops_yield t k = (case ops (tcb k t) of
     PriorityOps \<Rightarrow> HPFYield t k | DeadlineOps \<Rightarrow> EDFYield t k | IdleOps \<Rightarrow> IdleYield t k)"

definition ops_delay :: "nat \<Rightarrow> u64 \<Rightarrow> kstate \<Rightarrow> u32 \<times> kstate" where
  "ops_delay t time k = (case ops (tcb k t) of
     PriorityOps \<Rightarrow> HPFDelay t time k | DeadlineOps \<Rightarrow> EDFDelay t time k
   | IdleOps \<Rightarrow> (0, k\<lparr>fault := True\<rparr>))"

definition ops_exit :: "nat \<Rightarrow> kstate \<Rightarrow> kstate" where
  "ops_exit t k = (case ops (tcb k t) of
     PriorityOps \<Rightarrow> HPFExit t k | DeadlineOps \<Rightarrow> EDFExit t k | IdleOps \<Rightarrow> k\<lparr>fault := True\<rparr>)"

definition ops_suspend :: "nat \<Rightarrow> kstate \<Rightarrow> u32 \<times> kstate" where
  "ops_suspend t k = (case ops (tcb k t) of
     PriorityOps \<Rightarrow> HPFSuspend t k | DeadlineOps \<Rightarrow> EDFSuspend t k | IdleOps \<Rightarrow> (0, k\<lparr>fault := True\<rparr>))"

definition ops_resume :: "nat \<Rightarrow> bool \<Rightarrow> kstate \<Rightarrow> u32 \<times> bool \<times> kstate" where
  "ops_resume t needSched k = (case ops (tcb k t) of
     PriorityOps \<Rightarrow> HPFResume t k | DeadlineOps \<Rightarrow> EDFResume t needSched k | IdleOps \<Rightarrow> IdleResume t k)"

definition ops_schedParamModify :: "nat \<Rightarrow> SchedParam \<Rightarrow> kstate \<Rightarrow> bool \<times> kstate" where
  "ops_schedParamModify t param k = (case ops (tcb k t) of
     PriorityOps \<Rightarrow> HPFSchedParamModify t param k | DeadlineOps \<Rightarrow> EDFSchedParamModify t param k
   | IdleOps \<Rightarrow> (False, k\<lparr>fault := True\<rparr>))"

definition ops_priorityInheritance :: "nat \<Rightarrow> SchedParam \<Rightarrow> kstate \<Rightarrow> kstate" where
  "ops_priorityInheritance owner param k = (case ops (tcb k owner) of
     PriorityOps \<Rightarrow> HPFPriorityInheritance owner param k
   | DeadlineOps \<Rightarrow> EDFPriorityInheritance owner param k
   | IdleOps \<Rightarrow> IdlePriorityInheritance owner param k)"

definition ops_priorityRestore :: "nat \<Rightarrow> pend_head option \<Rightarrow> SchedParam \<Rightarrow> kstate \<Rightarrow> kstate" where
  "ops_priorityRestore owner list param k = (case ops (tcb k owner) of
     PriorityOps \<Rightarrow> HPFPriorityRestore owner list param k
   | DeadlineOps \<Rightarrow> EDFPriorityRestore owner list param k
   | IdleOps \<Rightarrow> IdlePriorityRestore owner list param k)"

section \<open>Waiting\<close>

text \<open>The lists of the objects that tasks wait on.\<close>

definition ipc_head :: "pend_head \<Rightarrow> bool" where
  "ipc_head h \<longleftrightarrow> wait_head h \<and> h \<noteq> EdfWait"

lemma ipc_head_simps [simp]:
  "\<not> ipc_head (HpfQue b p)" "\<not> ipc_head EdfRoot" "\<not> ipc_head EdfWait"
  "ipc_head (SemList i)" "ipc_head (MuxList i)" "ipc_head (QueueRead i)" "ipc_head (QueueWrite i)"
  "ipc_head (QueueMem i)" "ipc_head (EventList i)" "ipc_head (RwRead i)" "ipc_head (RwWrite i)"
  by (simp_all add: ipc_head_def)

lemma ipc_head_wait: "ipc_head h \<Longrightarrow> wait_head h"
  by (simp add: ipc_head_def)

text \<open>A position on the list \<open>h\<close>: its end, or in front of a task that waits there.\<close>

definition pos_on :: "kstate \<Rightarrow> list_pos \<Rightarrow> pend_head \<Rightarrow> bool" where
  "pos_on k pos h \<longleftrightarrow> (case pos of AtHead g \<Rightarrow> g = h | AtNode p \<Rightarrow> on (tcb k p) = Some h)"

definition pos_insert :: "list_pos \<Rightarrow> nat \<Rightarrow> nat list \<Rightarrow> nat list" where
  "pos_insert pos t xs = (case pos of AtHead _ \<Rightarrow> xs @ [t] | AtNode p \<Rightarrow> ins_before p t xs)"

lemma pend_insert_at_eq:
  assumes "pos_on k pos h"
  shows "pend_insert_at pos t k = pend_link h t (pos_insert pos t (pend k h)) k"
  using assms by (cases pos) (auto simp: pend_insert_at_def pos_on_def pos_insert_def pend_tail_insert_def pend_insert_before_def)

lemma pos_insert_list:
  assumes "lists_ok k" "pos_on k pos h" "on (tcb k t) = None"
  shows "distinct (pos_insert pos t (pend k h))" "set (pos_insert pos t (pend k h)) = insert t (set (pend k h))"
proof -
  have nt: "t \<notin> set (pend k h)" and d: "distinct (pend k h)" using lists_okD [OF assms(1)] assms(3) by auto
  have p: "p \<in> set (pend k h)" if "pos = AtNode p" for p
    using that assms(2) lists_okD(2) [OF assms(1)] by (simp add: pos_on_def)
  show "distinct (pos_insert pos t (pend k h))"
    using nt d by (cases pos) (auto simp: pos_insert_def intro: distinct_ins_before)
  show "set (pos_insert pos t (pend k h)) = insert t (set (pend k h))"
    using p by (cases pos) (auto simp: pos_insert_def)
qed

text \<open>\<open>blocked t h xs k j\<close>: task \<open>t\<close> was put on the list \<open>h\<close>, which is \<open>xs\<close> now, and nothing else changed.\<close>

definition blocked :: "nat \<Rightarrow> pend_head \<Rightarrow> nat list \<Rightarrow> kstate \<Rightarrow> kstate \<Rightarrow> bool" where
  "blocked t h xs k j \<longleftrightarrow> rq_inv j \<and> only_task t k j \<and> pend j = (pend k)(h := xs) \<and>
     on (tcb j t) = Some h \<and> has (status j t) OS_TASK_STATUS_PENDING"

lemma blocked_upd:
  assumes "blocked t h xs k j" "tcb_same (tcb j t) (f (tcb j t))" "tcb_sched (tcb j t) (f (tcb j t))"
    "has (taskStatus (f (tcb j t))) OS_TASK_STATUS_RUNNING = has (taskStatus (tcb j t)) OS_TASK_STATUS_RUNNING"
    "has (taskStatus (f (tcb j t))) OS_TASK_STATUS_PENDING"
  shows "blocked t h xs k (upd_tcb t f j)"
  using assms rq_inv_upd_tcb [of j t f] only_task_trans [OF _ only_task_upd, of t k j f]
  by (auto simp: blocked_def tcb_same_def status_def)

lemma blocked_insert:
  assumes core: "sched_core k" and t: "on (tcb k t) = None" and h: "wait_head h" "pos_on k pos h"
    and m: "\<not> has m OS_TASK_STATUS_READY" "\<not> has m OS_TASK_STATUS_RUNNING" "has m OS_TASK_STATUS_PENDING"
  shows "blocked t h (pos_insert pos t (pend k h)) k (pend_insert_at pos t (set_status t m k))"
proof -
  let ?k = "set_status t m k"
  have inv: "rq_inv ?k" using sched_coreD(1) [OF core] m(1) by (rule rq_inv_set_status)
  have t': "on (tcb ?k t) = None" and p: "pos_on ?k pos h" and pk: "pend ?k = pend k"
    using t h(2) by (auto simp: set_status_def pos_on_def split: list_pos.splits)
  note xs = pos_insert_list [OF rq_invD(1) [OF inv] p t']
  have eq: "pend_insert_at pos t ?k = pend_link h t (pos_insert pos t (pend k h)) ?k"
    using pend_insert_at_eq [OF p] by (simp add: pk)
  have "rq_inv (pend_link h t (pos_insert pos t (pend k h)) ?k)"
    using rq_inv_link [OF inv t' h(1)] xs by (simp add: pk)
  moreover have "only_task t k (pend_link h t (pos_insert pos t (pend k h)) ?k)"
    using only_task_trans [OF only_task_prim(5) [OF m(2)] only_task_prim(2)] .
  ultimately show ?thesis
    unfolding blocked_def eq using m(3) by (simp add: pend_link_def set_status_def status_def pk)
qed

lemma HPFWait_blocked:
  assumes core: "sched_core k" and t: "on (tcb k t) = None" and h: "wait_head h" "pos_on k pos h"
  shows "blocked t h (pos_insert pos t (pend k h)) k (HPFWait_block t pos ticks k)"
proof -
  let ?k = "pend_insert_at pos t (set_status t OS_TASK_STATUS_PENDING k)"
  have b: "blocked t h (pos_insert pos t (pend k h)) k ?k" by (rule blocked_insert [OF core t h]) simp_all
  have "has (taskStatus (tcb ?k t)) OS_TASK_STATUS_PENDING" using b by (simp add: blocked_def status_def)
  then show ?thesis
    unfolding HPFWait_block_def Let_def set_status_def [of t OS_TASK_STATUS_PEND_TIME]
    using b by (auto intro!: blocked_upd simp: tcb_same_def tcb_sched_def)
qed

lemma EDFWait_blocked:
  assumes core: "sched_core k" and t: "on (tcb k t) = None" and h: "wait_head h" "pos_on k pos h"
  shows "blocked t h (pos_insert pos t (pend k h)) k (EDFWait_block t pos ticks k)"
proof -
  let ?k = "pend_insert_at pos t (set_status t (OS_TASK_STATUS_PENDING OR OS_TASK_STATUS_PEND_TIME) k)"
  have b: "blocked t h (pos_insert pos t (pend k h)) k ?k" by (rule blocked_insert [OF core t h]) simp_all
  have "has (taskStatus (tcb ?k t)) OS_TASK_STATUS_PENDING" using b by (simp add: blocked_def status_def)
  then show ?thesis
    unfolding EDFWait_block_def Let_def upd_sp_def
    using b by (auto intro!: blocked_upd simp: tcb_same_def tcb_sched_def)
qed

text \<open>
  Once the running task is on a list of waiting tasks, rescheduling leads to another task, and
  the lists of waiting tasks stay as they are.
\<close>

lemma wait_switch_blocked:
  assumes core: "sched_core k" and b: "blocked t h xs k j" and h: "ipc_head h" and t: "t \<noteq> idleTask k"
    and lock: "taskLockCnt k = 0"
  shows "\<exists>i. wait_switch t j = (None, i) \<and> sched_inv i \<and> currTask i \<noteq> t \<and> ready_move j i"
proof -
  have idle: "on (tcb j (idleTask k)) = None"
    using b t sched_coreD(3) [OF core] by (simp add: blocked_def only_task_def)
  have core': "sched_core j" using b sched_core_only [OF core _ _ idle] unfolding blocked_def by blast
  have same: "idleTask j = idleTask k" "taskLockCnt j = 0" using b lock by (simp_all add: blocked_def only_task_def)
  have on: "on (tcb j t) = Some h" using b by (simp add: blocked_def)
  have "TopTask j \<noteq> t"
    using sched_coreD(1) [OF core']
  proof (cases rule: TopTask_cases)
    case idle
    then show ?thesis using t same by simp
  qed (use on h in auto)
  then have "currTask (OsSchedResched j) \<noteq> t" using OsSchedResched_inv(2) [OF core'] by simp
  then show ?thesis
    using OsSchedResched_inv(1,3) [OF core'] same by (simp add: wait_switch_def OsPreemptableInSched_def Let_def)
qed

section \<open>Waking\<close>

definition unblock :: "nat \<Rightarrow> kstate \<Rightarrow> kstate" where
  "unblock t k =
     (let k1 = clr_status t OS_TASK_STATUS_PENDING (pend_delete t k)
      in if has (status k1 t) OS_TASK_STATUS_PEND_TIME
         then clr_status t OS_TASK_STATUS_PEND_TIME (OsSchedTimeoutQueueDelete t k1) else k1)"

lemma wake_unblock:
  "HPFWake t k = (if has (status (unblock t k) t) OS_TASK_STATUS_SUSPENDED then unblock t k else HPFEnqueue t (unblock t k))"
  "EDFWake t k = (if has (status (unblock t k) t) OS_TASK_STATUS_SUSPENDED then unblock t k else EDFEnqueue t (unblock t k))"
  by (simp_all only: HPFWake_def EDFWake_def unblock_def Let_def if_not_P if_P split: if_split) auto

lemma unblock_eq:
  assumes "on (tcb k t) = Some h"
  shows "tcb (unblock t k) = (tcb k)(t := (tcb k t)\<lparr>on := None, taskStatus := taskStatus (tcb k t) AND NOT
      (if has (status k t) OS_TASK_STATUS_PEND_TIME then 0x90 else OS_TASK_STATUS_PENDING)\<rparr>)"
    and "pend (unblock t k) = (pend k)(h := remove1 t (pend k h))"
    and "timeoutQueue (unblock t k) = (if has (status k t) OS_TASK_STATUS_PEND_TIME
      then OsDeleteFromSortLink t (timeoutQueue k) else timeoutQueue k)"
    and "currTask (unblock t k) = currTask k" "idleTask (unblock t k) = idleTask k" "now (unblock t k) = now k"
    "taskLockCnt (unblock t k) = taskLockCnt k" "fault (unblock t k) = fault k"
    "readyTasks (unblock t k) = readyTasks k" "prioBitmap (unblock t k) = prioBitmap k" "queueBitmap (unblock t k) = queueBitmap k"
proof -
  have and2: "a AND NOT 0x10 AND NOT 0x80 = (a AND NOT 0x90 :: u16)" for a
    by (simp add: and.assoc)
  show "tcb (unblock t k) = (tcb k)(t := (tcb k t)\<lparr>on := None, taskStatus := taskStatus (tcb k t) AND NOT
      (if has (status k t) OS_TASK_STATUS_PEND_TIME then 0x90 else OS_TASK_STATUS_PENDING)\<rparr>)"
    using assms by (auto simp: unblock_def Let_def pend_delete_eq clr_status_def status_def and2 and.assoc)
qed (use assms in \<open>simp_all add: unblock_def Let_def pend_delete_eq clr_status_def status_def OsSchedTimeoutQueueDelete_def\<close>)

lemma unblock_facts:
  assumes core: "sched_core k" and t: "on (tcb k t) = Some h" "wait_head h"
  shows "sched_core (unblock t k)" "only_task t k (unblock t k)" "on (tcb (unblock t k) t) = None"
proof -
  note eq = unblock_eq [OF t(1)]
  have "rq_inv (pend_delete t k)" by (rule rq_inv_delete [OF sched_coreD(1) [OF core] t])
  then have k1: "rq_inv (clr_status t OS_TASK_STATUS_PENDING (pend_delete t k))" by (rule rq_inv_clr_status) simp
  then have "rq_inv (OsSchedTimeoutQueueDelete t (clr_status t OS_TASK_STATUS_PENDING (pend_delete t k)))"
    using rq_inv_same [of _ "OsSchedTimeoutQueueDelete t (clr_status t OS_TASK_STATUS_PENDING (pend_delete t k))"]
    by (simp add: rq_same_def)
  then have rq: "rq_inv (unblock t k)"
    using k1 unfolding unblock_def Let_def by (auto intro: rq_inv_clr_status)
  show only: "only_task t k (unblock t k)" unfolding only_task_def eq by (simp add: tcb_sched_def)
  show "on (tcb (unblock t k) t) = None" by (simp add: eq)
  have "on (tcb (unblock t k) (idleTask k)) = None" using sched_coreD(3) [OF core] by (simp add: eq)
  then show "sched_core (unblock t k)" by (rule sched_core_only [OF core rq only])
qed

lemma EDFEnqueue_pend: "ipc_head g \<Longrightarrow> pend (EDFEnqueue t k) g = pend k g"
  by (auto simp: EDFEnqueue_def Let_def edf_wait_period_def edf_make_ready_def DeadlineQueueInsert_def
      pend_tail_insert_def pend_head_insert_def pend_link_def set_timeSlice_def upd_sp_def set_status_def clr_status_def
      OsSchedTimeoutQueueAdd_def split: option.split)

lemma HPFEnqueue_pend: "hpf_task (tcb k t) \<Longrightarrow> ipc_head g \<Longrightarrow> pend (HPFEnqueue t k) g = pend k g"
  by (auto simp: HPFEnqueue_effect)

text \<open>\<open>released t h k j\<close>: task \<open>t\<close> was taken off the list \<open>h\<close>; the other lists of waiting tasks are as before.\<close>

definition released :: "nat \<Rightarrow> pend_head \<Rightarrow> kstate \<Rightarrow> kstate \<Rightarrow> bool" where
  "released t h k j \<longleftrightarrow> sched_core j \<and> only_task t k j \<and>
     (\<forall>g. ipc_head g \<longrightarrow> pend j g = (if g = h then remove1 t (pend k h) else pend k g)) \<and>
     \<not> has (status j t) OS_TASK_STATUS_PENDING"

text \<open>
  The contract of \<open>wait\<close> and \<open>wake\<close>. \<open>mine\<close> are the control blocks under the policy.
\<close>

locale wait_policy =
  fixes mine :: "TCB \<Rightarrow> bool" and wait :: "nat \<Rightarrow> list_pos \<Rightarrow> u32 \<Rightarrow> kstate \<Rightarrow> u32 option \<times> kstate"
    and wake :: "nat \<Rightarrow> kstate \<Rightarrow> kstate"
  assumes wait_blocks: "sched_inv k \<Longrightarrow> t = currTask k \<Longrightarrow> mine (tcb k t) \<Longrightarrow> taskLockCnt k = 0 \<Longrightarrow>
      ipc_head h \<Longrightarrow> pos_on k pos h \<Longrightarrow>
      \<exists>j i. blocked t h (pos_insert pos t (pend k h)) k j \<and> wait t pos ticks k = (None, i) \<and>
        sched_inv i \<and> currTask i \<noteq> t \<and> ready_move j i"
    and wake_releases: "sched_core k \<Longrightarrow> mine (tcb k t) \<Longrightarrow> on (tcb k t) = Some h \<Longrightarrow> ipc_head h \<Longrightarrow>
      released t h k (wake t k)"
begin

text \<open>What an object sees of a wait: its list has the task at the position, no other list changed.\<close>

lemma wait_lists:
  assumes "sched_inv k" "mine (tcb k (currTask k))" "taskLockCnt k = 0" "ipc_head h" "pos_on k pos h"
  shows "\<exists>i. wait (currTask k) pos ticks k = (None, i) \<and> sched_inv i \<and> currTask i \<noteq> currTask k \<and>
    (\<forall>g. ipc_head g \<longrightarrow> pend i g = (if g = h then pos_insert pos (currTask k) (pend k h) else pend k g)) \<and>
    (\<forall>u. tcb_sched (tcb k u) (tcb i u)) \<and> has (status i (currTask k)) OS_TASK_STATUS_PENDING"
proof -
  obtain j i where b: "blocked (currTask k) h (pos_insert pos (currTask k) (pend k h)) k j"
    and w: "wait (currTask k) pos ticks k = (None, i)" "sched_inv i" "currTask i \<noteq> currTask k" "ready_move j i"
    using wait_blocks [OF assms(1) refl assms(2-5)] by blast
  have "tcb_sched (tcb k u) (tcb i u)" for u
  proof -
    have "tcb_sched (tcb k u) (tcb j u)"
      using b by (cases "u = currTask k") (auto simp: blocked_def only_task_def tcb_sched_def)
    then show ?thesis using w(4) by (simp add: ready_move_def tcb_sched_def)
  qed
  moreover have "has (status i (currTask k)) OS_TASK_STATUS_PENDING"
    using b w(4) by (simp add: blocked_def ready_move_def)
  ultimately show ?thesis
    using w b by (auto simp: blocked_def ready_move_def ipc_head_wait)
qed

text \<open>A task that is woken again leaves the list it waited on as it was.\<close>

lemma wake_undoes_wait:
  assumes k: "sched_inv k" "mine (tcb k (currTask k))" "taskLockCnt k = 0" "ipc_head h"
    and w: "wait (currTask k) (AtHead h) ticks k = (None, i)" and m: "mine (tcb i (currTask k))"
  shows "pend (wake (currTask k) i) h = pend k h"
proof -
  have "pos_on k (AtHead h) h" by (simp add: pos_on_def)
  from wait_lists [OF k this, of ticks] w have i: "sched_inv i" "pend i h = pend k h @ [currTask k]"
    using k(4) by (auto simp: pos_insert_def)
  then have core: "sched_core i" by (simp add: sched_inv_def)
  have "on (tcb i (currTask k)) = Some h"
    using lists_okD(2) [OF rq_invD(1) [OF sched_coreD(1) [OF core]], of "currTask k" h] i(2) by simp
  from wake_releases [OF core m this k(4)] have "pend (wake (currTask k) i) h = remove1 (currTask k) (pend i h)"
    using k(4) by (simp add: released_def)
  moreover have "currTask k \<notin> set (pend k h)"
    using k(1) lists_okD(2) [OF rq_invD(1), of k "currTask k" h] by (auto simp: sched_inv_def sched_core_def)
  ultimately show ?thesis by (simp add: i(2))
qed

end

lemma not_idle: "sched_core k \<Longrightarrow> ops (tcb k t) \<noteq> IdleOps \<Longrightarrow> t \<noteq> idleTask k"
  using sched_coreD(2) by auto

lemma released_unblock:
  assumes core: "sched_core k" and t: "on (tcb k t) = Some h" "ipc_head h"
  shows "released t h k (unblock t k)"
  using unblock_facts [OF core t(1) ipc_head_wait [OF t(2)]] unblock_eq [OF t(1)]
  by (auto simp: released_def status_def)

lemma released_enqueue:
  assumes rel: "released t h k u" and on: "on (tcb u t) = None"
    and pend: "\<And>g. ipc_head g \<Longrightarrow> pend (ops_enqueue t u) g = pend u g"
    and st: "\<not> has (status (ops_enqueue t u) t) OS_TASK_STATUS_PENDING"
  shows "released t h k (ops_enqueue t u)"
  using rel sched_core_enqueue [OF _ on] only_task_trans [OF _ only_task_enqueue] sched_coreD(4) pend st
  unfolding released_def by (metis (no_types, lifting))

interpretation hpf: wait_policy "\<lambda>c. ops c = PriorityOps" HPFWait HPFWake
proof
  fix k t h pos ticks
  assume k: "sched_inv k" "t = currTask k" "ops (tcb k t) = PriorityOps" "taskLockCnt k = 0" "ipc_head h" "pos_on k pos h"
  then have core: "sched_core k" "on (tcb k t) = None" by (auto simp: sched_inv_def)
  note b = HPFWait_blocked [OF core ipc_head_wait [OF k(5)] k(6), of ticks]
  from wait_switch_blocked [OF core(1) b k(5) not_idle [OF core(1)] k(4)] k(3) b
  show "\<exists>j i. blocked t h (pos_insert pos t (pend k h)) k j \<and> HPFWait t pos ticks k = (None, i) \<and>
      sched_inv i \<and> currTask i \<noteq> t \<and> ready_move j i"
    unfolding HPFWait_def by auto
next
  fix k t h
  assume k: "sched_core k" "ops (tcb k t) = PriorityOps" "on (tcb k t) = Some h" "ipc_head h"
  let ?u = "unblock t k"
  note rel = released_unblock [OF k(1,3,4)] and f = unblock_facts [OF k(1,3) ipc_head_wait [OF k(4)]]
  have o: "ops (tcb ?u t) = PriorityOps" using k(2) f(2) by (simp add: only_task_def tcb_sched_def)
  have h: "hpf_task (tcb ?u t)" by (rule sched_coreD(4) [OF f(1) o])
  have "released t h k (ops_enqueue t ?u)"
  proof (rule released_enqueue [OF rel f(3)])
    show "pend (ops_enqueue t ?u) g = pend ?u g" if "ipc_head g" for g
      using o HPFEnqueue_pend [OF h that] by (simp add: ops_enqueue_def)
    show "\<not> has (status (ops_enqueue t ?u) t) OS_TASK_STATUS_PENDING"
      using o HPFEnqueue_effect(3) [OF h] by (simp add: ops_enqueue_def status_def)
  qed
  with rel o show "released t h k (HPFWake t k)" by (simp add: wake_unblock ops_enqueue_def)
qed

lemma EDFEnqueue_not_pending:
  assumes "\<not> has (status k t) OS_TASK_STATUS_PENDING"
  shows "\<not> has (status (EDFEnqueue t k) t) OS_TASK_STATUS_PENDING"
  using assms by (auto simp: EDFEnqueue_def Let_def edf_wait_period_def edf_make_ready_def DeadlineQueueInsert_def status_def
      pend_tail_insert_def pend_head_insert_def pend_link_def set_timeSlice_def upd_sp_def set_status_def clr_status_def
      OsSchedTimeoutQueueAdd_def split: option.split)

interpretation edf: wait_policy "\<lambda>c. ops c = DeadlineOps" EDFWait EDFWake
proof
  fix k t h pos ticks
  assume k: "sched_inv k" "t = currTask k" "ops (tcb k t) = DeadlineOps" "taskLockCnt k = 0" "ipc_head h" "pos_on k pos h"
  then have core: "sched_core k" "on (tcb k t) = None" by (auto simp: sched_inv_def)
  note b = EDFWait_blocked [OF core ipc_head_wait [OF k(5)] k(6), of ticks]
  from wait_switch_blocked [OF core(1) b k(5) not_idle [OF core(1)] k(4)] k(3) b
  show "\<exists>j i. blocked t h (pos_insert pos t (pend k h)) k j \<and> EDFWait t pos ticks k = (None, i) \<and>
      sched_inv i \<and> currTask i \<noteq> t \<and> ready_move j i"
    unfolding EDFWait_def by auto
next
  fix k t h
  assume k: "sched_core k" "ops (tcb k t) = DeadlineOps" "on (tcb k t) = Some h" "ipc_head h"
  let ?u = "unblock t k"
  note rel = released_unblock [OF k(1,3,4)] and f = unblock_facts [OF k(1,3) ipc_head_wait [OF k(4)]]
  have o: "ops (tcb ?u t) = DeadlineOps" using k(2) f(2) by (simp add: only_task_def tcb_sched_def)
  have "released t h k (ops_enqueue t ?u)"
  proof (rule released_enqueue [OF rel f(3)])
    show "pend (ops_enqueue t ?u) g = pend ?u g" if "ipc_head g" for g
      using o EDFEnqueue_pend [OF that] by (simp add: ops_enqueue_def)
    show "\<not> has (status (ops_enqueue t ?u) t) OS_TASK_STATUS_PENDING"
      using o rel EDFEnqueue_not_pending by (simp add: ops_enqueue_def released_def)
  qed
  with rel o show "released t h k (EDFWake t k)" by (simp add: wake_unblock ops_enqueue_def)
qed

text \<open>The dispatch meets the contract for every task that may wait: all but the idle task.\<close>

interpretation task: wait_policy "\<lambda>c. ops c \<noteq> IdleOps" ops_wait ops_wake
proof
  fix k t h pos ticks
  assume k: "sched_inv k" "t = currTask k" "ops (tcb k t) \<noteq> IdleOps" "taskLockCnt k = 0" "ipc_head h" "pos_on k pos h"
  show "\<exists>j i. blocked t h (pos_insert pos t (pend k h)) k j \<and> ops_wait t pos ticks k = (None, i) \<and>
      sched_inv i \<and> currTask i \<noteq> t \<and> ready_move j i"
    using hpf.wait_blocks [OF k(1,2) _ k(4-6), of ticks] edf.wait_blocks [OF k(1,2) _ k(4-6), of ticks] k(3)
    by (cases "ops (tcb k t)") (simp_all add: ops_wait_def)
next
  fix k t h
  assume k: "sched_core k" "ops (tcb k t) \<noteq> IdleOps" "on (tcb k t) = Some h" "ipc_head h"
  show "released t h k (ops_wake t k)"
    using hpf.wake_releases [OF k(1) _ k(3,4)] edf.wake_releases [OF k(1) _ k(3,4)] k(2)
    by (cases "ops (tcb k t)") (simp_all add: ops_wake_def)
qed

section \<open>Rescheduling and the lists of waiting tasks\<close>

lemma ready_move_ipc: "ready_move k j \<Longrightarrow> ipc_head h \<Longrightarrow> pend j h = pend k h"
  by (simp add: ready_move_def ipc_head_wait)

lemma ops_enqueue_pend:
  assumes "sched_core k" "ipc_head h"
  shows "pend (ops_enqueue t k) h = pend k h"
  using HPFEnqueue_pend [OF _ assms(2)] EDFEnqueue_pend [OF assms(2)] sched_coreD(4) [OF assms(1)]
  by (simp add: ops_enqueue_def IdleEnqueue_def set_status_def clr_status_def split: sched_ops.split)

lemma LOS_Schedule_ipc:
  assumes inv: "sched_inv k"
  shows "ipc_head h \<Longrightarrow> pend (LOS_Schedule k) h = pend k h" "tcb_sched (tcb k u) (tcb (LOS_Schedule k) u)"
    "taskLockCnt (LOS_Schedule k) = taskLockCnt k" "idleTask (LOS_Schedule k) = idleTask k"
proof -
  have core: "sched_core k" "on (tcb k (currTask k)) = None" using inv by (auto simp: sched_inv_def)
  let ?k = "ops_timeSliceUpdate (currTask k) (OsGetCurrSchedTimeCycle k) k" and ?e = "ops_enqueue (currTask k) (ops_timeSliceUpdate (currTask k) (OsGetCurrSchedTimeCycle k) k)"
  have a: "k_acct k ?k" by (rule k_acct_timeslice)
  have c: "sched_core ?k" by (rule sched_core_acct [OF a core(1)])
  have on: "on (tcb ?k (currTask k)) = None" using k_acctD(5) [OF a] core(2) by simp
  have e: "sched_core ?e" by (rule sched_core_enqueue [OF c on])
  have only: "only_task (currTask k) ?k ?e" using sched_coreD(4) [OF c] by (rule only_task_enqueue)
  note r = OsSchedResched_inv(3) [OF e]
  have "pend (OsSchedResched ?e) h = pend k h" if "ipc_head h" for h
    using ready_move_ipc [OF r that] ops_enqueue_pend [OF c that] k_acctD(1) [OF a] by simp
  moreover have "tcb_sched (tcb k u) (tcb (OsSchedResched ?e) u)" for u
  proof -
    have "tcb_sched (tcb k u) (tcb ?k u)" using a by (simp add: k_acct_def tcb_acct_def tcb_sched_def)
    moreover have "tcb_sched (tcb ?k u) (tcb ?e u)"
      using only by (cases "u = currTask k") (auto simp: only_task_def tcb_sched_def)
    ultimately show ?thesis using r by (simp add: ready_move_def tcb_sched_def)
  qed
  moreover have "taskLockCnt (OsSchedResched ?e) = taskLockCnt k" "idleTask (OsSchedResched ?e) = idleTask k"
    using r only a by (simp_all add: ready_move_def only_task_def k_acct_def)
  ultimately show "ipc_head h \<Longrightarrow> pend (LOS_Schedule k) h = pend k h" "tcb_sched (tcb k u) (tcb (LOS_Schedule k) u)"
    "taskLockCnt (LOS_Schedule k) = taskLockCnt k" "idleTask (LOS_Schedule k) = idleTask k"
    by (auto simp: LOS_Schedule_def Let_def OsSchedRunqueuePendingSet_def OsPreemptable_def set_schedFlag_def tcb_sched_def)
qed

section \<open>Waiting on and waking from an object\<close>

lemma sched_inv_upd_tcb:
  assumes inv: "sched_inv k" and same: "tcb_same (tcb k t) (f (tcb k t))"
    and st: "has (taskStatus (f (tcb k t))) OS_TASK_STATUS_RUNNING = has (taskStatus (tcb k t)) OS_TASK_STATUS_RUNNING"
    and pol: "policy (sp (f (tcb k t))) = policy (sp (tcb k t))"
  shows "sched_inv (upd_tcb t f k)"
proof -
  have core: "sched_core k" using inv by (simp add: sched_inv_def)
  have "sched_core (upd_tcb t f k)"
  proof (rule sched_core_transfer [OF core rq_inv_upd_tcb [where t = t and f = f, OF sched_coreD(1) [OF core] same]])
    fix u
    show "ops (tcb (upd_tcb t f k) u) = ops (tcb k u)" using same by (simp add: tcb_same_def)
    show "hpf_task (tcb (upd_tcb t f k) u) = hpf_task (tcb k u)" using same pol by (simp add: tcb_same_def hpf_task_def)
    show "has (taskStatus (tcb (upd_tcb t f k) u)) OS_TASK_STATUS_RUNNING = has (taskStatus (tcb k u)) OS_TASK_STATUS_RUNNING"
      using st by simp
    show "on (tcb (upd_tcb t f k) (idleTask k)) = None"
      using same sched_coreD(3) [OF core] by (auto simp: tcb_same_def)
  qed simp_all
  then show ?thesis using inv same by (auto simp: sched_inv_def tcb_same_def)
qed

lemma sched_inv_masks:
  assumes "sched_inv k"
  shows "sched_inv (OsTaskWakeClearPendMask t k)" "sched_inv (OsTaskWaitSetPendMask m v k)"
  unfolding OsTaskWakeClearPendMask_def OsTaskWaitSetPendMask_def
  using assms by (intro sched_inv_upd_tcb; simp add: tcb_same_def)+

text \<open>
  What an object does to give the processor away to its first waiting task: it is off the list,
  it is ready unless suspended, and no other list of waiting tasks changed.
\<close>

lemma wake_bare:
  assumes inv: "sched_inv k" and h: "ipc_head h" and q: "t \<in> set (pend k h)"
  defines "j \<equiv> ops_wake t k"
  shows "sched_inv j" "pend j h = remove1 t (pend k h)" "ipc_head g \<Longrightarrow> g \<noteq> h \<Longrightarrow> pend j g = pend k g"
    "tcb_sched (tcb k u) (tcb j u)" "currTask j = currTask k" "taskLockCnt j = taskLockCnt k"
    "\<not> has (status j t) OS_TASK_STATUS_PENDING" "idleTask j = idleTask k" "u \<noteq> t \<Longrightarrow> tcb j u = tcb k u"
proof -
  have core: "sched_core k" using inv by (simp add: sched_inv_def)
  have on: "on (tcb k t) = Some h"
    using lists_okD(2) [OF rq_invD(1) [OF sched_coreD(1) [OF core]], of t h] q by simp
  have "t \<noteq> idleTask k" using sched_coreD(3) [OF core] on by auto
  then have "ops (tcb k t) \<noteq> IdleOps" using sched_coreD(6) [OF core] by simp
  from task.wake_releases [OF core this on h] have rel: "released t h k j" unfolding j_def .
  have nc: "t \<noteq> currTask k" using inv on by (auto simp: sched_inv_def)
  show "sched_inv j" using rel inv nc unfolding released_def only_task_def sched_inv_def by auto
  show "pend j h = remove1 t (pend k h)" "ipc_head g \<Longrightarrow> g \<noteq> h \<Longrightarrow> pend j g = pend k g"
    using rel h q by (simp_all add: released_def)
  show "tcb_sched (tcb k u) (tcb j u)"
    using rel by (cases "u = t") (auto simp: released_def only_task_def tcb_sched_def)
  show "currTask j = currTask k" "taskLockCnt j = taskLockCnt k" "idleTask j = idleTask k"
    using rel by (simp_all add: released_def only_task_def)
  show "\<not> has (status j t) OS_TASK_STATUS_PENDING" using rel by (simp add: released_def)
  show "u \<noteq> t \<Longrightarrow> tcb j u = tcb k u" using rel by (simp add: released_def only_task_def)
qed

text \<open>Most objects first clear what the task was waiting for.\<close>

lemma wake_any:
  assumes inv: "sched_inv k" and h: "ipc_head h" and q: "t \<in> set (pend k h)"
  defines "j \<equiv> ops_wake t (OsTaskWakeClearPendMask t k)"
  shows "sched_inv j" "pend j h = remove1 t (pend k h)" "ipc_head g \<Longrightarrow> g \<noteq> h \<Longrightarrow> pend j g = pend k g"
    "tcb_sched (tcb k u) (tcb j u)" "currTask j = currTask k" "taskLockCnt j = taskLockCnt k"
    "\<not> has (status j t) OS_TASK_STATUS_PENDING" "idleTask j = idleTask k" "u \<noteq> t \<Longrightarrow> tcb j u = tcb k u"
proof -
  let ?k = "OsTaskWakeClearPendMask t k"
  have q': "t \<in> set (pend ?k h)" using q by (simp add: OsTaskWakeClearPendMask_def)
  note w = wake_bare [OF sched_inv_masks(1) [OF inv, of t] h q', folded j_def]
  show "sched_inv j" "\<not> has (status j t) OS_TASK_STATUS_PENDING" by (rule w(1), rule w(7))
  show "pend j h = remove1 t (pend k h)" "ipc_head g \<Longrightarrow> g \<noteq> h \<Longrightarrow> pend j g = pend k g"
    "currTask j = currTask k" "taskLockCnt j = taskLockCnt k" "idleTask j = idleTask k" "u \<noteq> t \<Longrightarrow> tcb j u = tcb k u"
    using w(2,3,5,6,8,9) by (simp_all add: OsTaskWakeClearPendMask_def)
  show "tcb_sched (tcb k u) (tcb j u)"
    using w(4) [of u] by (simp add: OsTaskWakeClearPendMask_def tcb_sched_def split: if_splits)
qed

lemma wake_first:
  assumes inv: "sched_inv k" and h: "ipc_head h" and q: "pend k h = t # rest"
  defines "j \<equiv> ops_wake t (OsTaskWakeClearPendMask t k)"
  shows "sched_inv j" "pend j h = rest" "ipc_head g \<Longrightarrow> g \<noteq> h \<Longrightarrow> pend j g = pend k g"
    "tcb_sched (tcb k u) (tcb j u)" "currTask j = currTask k" "taskLockCnt j = taskLockCnt k"
    "\<not> has (status j t) OS_TASK_STATUS_PENDING" "idleTask j = idleTask k" "u \<noteq> t \<Longrightarrow> tcb j u = tcb k u"
  unfolding j_def using wake_any [OF inv h, of t] q by auto

text \<open>What an object does to make the running task wait at a position of its list.\<close>

lemma wait_bare:
  assumes inv: "sched_inv k" and h: "ipc_head h" "pos_on k pos h" and lock: "taskLockCnt k = 0"
    and busy: "currTask k \<noteq> idleTask k"
  shows "\<exists>j. ops_wait (currTask k) pos ticks k = (None, j) \<and> sched_inv j \<and>
    currTask j \<noteq> currTask k \<and> pend j h = pos_insert pos (currTask k) (pend k h) \<and>
    (\<forall>g. ipc_head g \<longrightarrow> g \<noteq> h \<longrightarrow> pend j g = pend k g) \<and> (\<forall>u. tcb_sched (tcb k u) (tcb j u)) \<and>
    has (status j (currTask k)) OS_TASK_STATUS_PENDING"
proof -
  have "ops (tcb k (currTask k)) \<noteq> IdleOps"
    using inv busy sched_coreD(6) [of k "currTask k"] by (simp add: sched_inv_def)
  from task.wait_lists [OF inv this lock h, of ticks] h(1) show ?thesis by auto
qed

lemma wait_on:
  assumes inv: "sched_inv k" and h: "ipc_head h" "pos_on k pos h" and lock: "taskLockCnt k = 0"
    and busy: "currTask k \<noteq> idleTask k"
  shows "\<exists>j. ops_wait (currTask k) pos ticks (OsTaskWaitSetPendMask m v k) = (None, j) \<and> sched_inv j \<and>
    currTask j \<noteq> currTask k \<and> pend j h = pos_insert pos (currTask k) (pend k h) \<and>
    (\<forall>g. ipc_head g \<longrightarrow> g \<noteq> h \<longrightarrow> pend j g = pend k g) \<and> (\<forall>u. tcb_sched (tcb k u) (tcb j u)) \<and>
    has (status j (currTask k)) OS_TASK_STATUS_PENDING"
proof -
  let ?k = "OsTaskWaitSetPendMask m v k"
  have same: "pend ?k = pend k" "currTask ?k = currTask k" "taskLockCnt ?k = 0" "idleTask ?k = idleTask k"
    "\<And>u. tcb_sched (tcb k u) (tcb ?k u)" "pos_on ?k pos h"
    using lock h(2) by (auto simp: OsTaskWaitSetPendMask_def tcb_sched_def pos_on_def split: list_pos.splits)
  from wait_bare [OF sched_inv_masks(2) [OF inv] h(1) same(6,3), of ticks] busy obtain j where
    j: "ops_wait (currTask k) pos ticks ?k = (None, j)" "sched_inv j" "currTask j \<noteq> currTask k"
    "pend j h = pos_insert pos (currTask k) (pend k h)" "\<forall>g. ipc_head g \<longrightarrow> g \<noteq> h \<longrightarrow> pend j g = pend k g"
    "\<forall>u. tcb_sched (tcb ?k u) (tcb j u)" "has (status j (currTask k)) OS_TASK_STATUS_PENDING"
    unfolding same(1,2,4) by blast
  have "tcb_sched (tcb k u) (tcb j u)" for u
    using same(5) [of u] j(6) unfolding tcb_sched_def by metis
  with j show ?thesis by auto
qed

lemma idle_wait: "ops (tcb k t) = IdleOps \<Longrightarrow> ops_wait t pos ticks k = (Some 1, k)"
  by (simp add: ops_wait_def IdleWait_def)

lemma OsSchedIrqEnd_ipc:
  assumes inv: "sched_inv k" and h: "ipc_head h"
  shows "pend (OsSchedIrqEndCheckNeedSched k) h = pend k h"
proof -
  let ?run = "currTask k"
  let ?k = "ops_timeSliceUpdate ?run (OsGetCurrSchedTimeCycle k) k"
  have inv': "sched_inv ?k" by (rule sched_inv_acct [OF k_acct_timeslice inv])
  have run: "currTask ?k = ?run" and pk: "pend ?k = pend k" using k_acctD [OF k_acct_timeslice] by auto
  have tick: "pend (if has (schedFlag j) INT_PEND_TICK then OsSchedExpireTimeUpdate j else j) h = pend j h" for j
    using k_acctD(1) [OF OsSchedExpireTimeUpdate_acct] by simp
  let ?c = "clr_schedFlag INT_PEND_RESCH ?k" and ?q = "ops_enqueue ?run (clr_schedFlag INT_PEND_RESCH ?k)"
  have "sched_inv ?c" by (rule sched_inv_acct [OF k_acct_flag(2) inv'])
  then have c: "sched_core ?c" "on (tcb ?c ?run) = None" using run by (auto simp: sched_inv_def clr_schedFlag_def)
  have q: "sched_core ?q" by (rule sched_core_enqueue [OF c])
  have pq: "pend ?q h = pend k h" using ops_enqueue_pend [OF c(1) h] pk by (simp add: clr_schedFlag_def)
  have qrun: "currTask ?q = ?run"
    using only_task_enqueue [OF sched_coreD(4) [OF c(1)], of ?run] run by (simp add: only_task_def clr_schedFlag_def)
  let ?s = "ops_start (TopTask ?q) ?q"
  have s: "sched_core ?s" "on (tcb ?s (TopTask ?q)) = None" "currTask ?s = ?run"
    using sched_core_start [OF q] ops_start_top [OF q] qrun by auto
  have ps: "pend ?s h = pend k h" using ready_move_ipc [OF ready_move_start [OF q] h] pq by simp
  have switch: "pend (SchedTaskSwitch ?run (TopTask ?q) ?s) h = pend k h"
    using ready_move_ipc [OF sched_inv_switch(3) [OF s(1) s(3) [symmetric] s(2)] h] ps by simp
  have "pend (if ?run \<noteq> TopTask ?q then SchedTaskSwitch ?run (TopTask ?q) ?s
    else if has (schedFlag ?s) INT_PEND_TICK then OsSchedExpireTimeUpdate ?s else ?s) h = pend k h"
    using switch ps tick [of ?s] by (cases "?run = TopTask ?q") (simp_all only: if_True if_False simp_thms)
  moreover have "pend (set_schedFlag INT_PEND_RESCH ?k) = pend k" using pk by (simp add: set_schedFlag_def)
  ultimately show ?thesis
    using tick [of ?k] tick [of "set_schedFlag INT_PEND_RESCH ?k"] pk
    unfolding OsSchedIrqEndCheckNeedSched_def Let_def OsPreemptable_def TopTaskGet_def by simp
qed

lemma sched_inv_clr_timeout: "sched_inv k \<Longrightarrow> sched_inv (clr_status t OS_TASK_STATUS_TIMEOUT k)"
  unfolding clr_status_def by (rule sched_inv_upd_tcb) (simp_all add: tcb_same_def)

lemma wait_resume_frame:
  assumes "sched_inv k"
  shows "sched_inv (snd (wait_resume t k))" "pend (snd (wait_resume t k)) = pend k"
  using assms sched_inv_clr_timeout by (auto simp: wait_resume_def clr_status_def)

end
