(* ===== verification/Sched_Props.thy ===== *)
theory Sched_Props
  imports Sched_Ops
begin

text \<open>
  The properties of the scheduler: which task runs next, what the scheduling points keep, the queues
  of the priority policy, timeouts, time slices, waiting and waking, the order of a lock's waiting
  list; and, at the end, the places where the code does not do what it means to do.
\<close>

section \<open>Properties\<close>

text \<open>
  C5. Whenever the kernel reschedules from a consistent state, it ends in a consistent state in
  which the right task runs: the first task of the deadline queue; if there is none, the first
  task of the highest priority queue that is not empty; and the idle task only if no task is
  ready.
\<close>

theorem sched_choice:
  assumes "sched_core k"
  shows "sched_inv (OsSchedResched k) \<and>
    (case pend k EdfRoot of
       t # _ \<Rightarrow> currTask (OsSchedResched k) = t
     | [] \<Rightarrow> if \<forall>b<32. \<forall>p<32. pend k (HpfQue b p) = [] then currTask (OsSchedResched k) = idleTask k
        else \<exists>b<32. \<exists>p<32. \<exists>rest. pend k (HpfQue b p) = currTask (OsSchedResched k) # rest \<and>
          (\<forall>c<32. \<forall>q<32. pend k (HpfQue c q) \<noteq> [] \<longrightarrow> b < c \<or> b = c \<and> p \<le> q))"
  using sched_coreD(1) [OF assms]
proof (cases rule: TopTask_cases)
  case (edf rest)
  then show ?thesis using OsSchedResched_inv [OF assms] by simp
next
  case (hpf b p rest)
  have "b < c \<or> b = c \<and> p \<le> q" if "c < 32" "q < 32" "pend k (HpfQue c q) \<noteq> []" for c q
    using hpf(2) that unfolding hpf_first_queue_def by (metis linorder_neqE_nat not_le)
  moreover have "b < 32" "p < 32" using hpf(2) by (simp_all add: hpf_first_queue_def)
  ultimately show ?thesis
    using hpf OsSchedResched_inv [OF assms] by auto
next
  case idle
  then show ?thesis using OsSchedResched_inv [OF assms] by simp
qed

lemma sched_core_boot: "sched_core k_boot"
  using sched_inv_boot by (simp add: sched_inv_def)

lemma boot_queue: "pend k_boot (HpfQue b p) \<noteq> [] \<longleftrightarrow> b = 0 \<and> p = 10" "pend k_boot (HpfQue 0 10) = [2, 3]"
  "pend k_boot EdfRoot = []"
  by (auto simp: k_boot_def)

theorem sched_choice_witness: "currTask (OsSchedResched k_boot) = 2 \<and> sched_inv (OsSchedResched k_boot)"
proof -
  have ne: "\<not> (\<forall>b<32. \<forall>p<32. pend k_boot (HpfQue b p) = [])" using boot_queue(1) by auto
  from sched_choice [OF sched_core_boot] ne obtain b p rest where
    bp: "pend k_boot (HpfQue b p) = currTask (OsSchedResched k_boot) # rest" and i: "sched_inv (OsSchedResched k_boot)"
    by (auto simp: boot_queue(3))
  then have "b = 0 \<and> p = 10" using boot_queue(1) [of b p] by simp
  with bp i boot_queue(2) show ?thesis by simp
qed

text \<open>
  C6. The scheduling points of the kernel, \<open>LOS_Schedule\<close> and the end of an interrupt, keep the
  scheduler's invariant: the run queue lists, the two levels of bit maps and the counters agree,
  a task is on the queue of its priority exactly when it is ready, and exactly the current task,
  which is on no list, is marked running.
\<close>

theorem sched_points_invariant:
  assumes "sched_inv k"
  shows "sched_inv (LOS_Schedule k) \<and> sched_inv (OsSchedIrqEndCheckNeedSched k)"
  using LOS_Schedule_inv [OF assms] OsSchedIrqEnd_inv [OF assms] by blast

theorem sched_points_invariant_witness: "sched_inv (LOS_Schedule k_boot)"
  using sched_points_invariant [OF sched_inv_boot] by blast

lemma maps_ok_unique:
  assumes "maps_ok q r bm base" "maps_ok q r' bm' base'"
  shows "base = base'"
proof (rule bit_word_eqI)
  fix n assume "n < LENGTH(32)"
  then have n: "31 - n < 32" "31 - (31 - n) = n" by simp_all
  show "bit base n \<longleftrightarrow> bit base' n"
    using maps_ok_prio(2) [OF assms(1) n(1), of 0] maps_ok_prio(2) [OF assms(2) n(1), of 0]
      maps_ok_base [OF assms(1) n(1)] maps_ok_base [OF assms(2) n(1)] n(2) by simp
qed

text \<open>
  C25. Entering the priority queues: the task becomes ready, at the front of the queue of its
  priority if it still has time (and, under FIFO, was running) and at the back otherwise; the
  queues, bit maps and counters stay consistent, and leaving them again restores every list and
  the summary bit map.
\<close>

theorem hpf_enqueue_dequeue:
  assumes "rq_inv k" "on (tcb k t) = None" "hpf_task (tcb k t)"
  shows "rq_inv (HPFEnqueue t k) \<and> has (status (HPFEnqueue t k) t) OS_TASK_STATUS_READY \<and>
    pend (HPFEnqueue t k) = (pend k)(hpf_que k t :=
      (if hpf_front k t then t # pend k (hpf_que k t) else pend k (hpf_que k t) @ [t])) \<and>
    rq_inv (HPFDequeue t (HPFEnqueue t k)) \<and> pend (HPFDequeue t (HPFEnqueue t k)) = pend k \<and>
    queueBitmap (HPFDequeue t (HPFEnqueue t k)) = queueBitmap k"
proof -
  note e = rq_inv_HPFEnqueue [OF assms] and f = HPFEnqueue_effect [OF assms(3)]
  have nt: "t \<notin> set (pend k (hpf_que k t))"
    using lists_okD(2) [OF rq_invD(1) [OF assms(1)]] assms(2) by auto
  note d = rq_inv_HPFDequeue [OF e f(4)]
  have p: "pend (HPFDequeue t (HPFEnqueue t k)) = pend k"
    unfolding d(3) f(1) using nt by (auto simp: fun_eq_iff remove1_append)
  have "queueBitmap (HPFDequeue t (HPFEnqueue t k)) = queueBitmap k"
    using maps_ok_unique rq_invD(3) [OF d(1)] rq_invD(3) [OF assms(1)] unfolding p by blast
  with e f d(1) p show ?thesis by (auto simp: status_def)
qed

theorem hpf_enqueue_dequeue_witness:
  "pend (HPFEnqueue 1 k_boot) (HpfQue 0 10) = [2, 3, 1] \<and> queueBitmap (HPFDequeue 1 (HPFEnqueue 1 k_boot)) = 0x80000000"
proof -
  have "rq_inv k_boot" "on (tcb k_boot 1) = None" "hpf_task (tcb k_boot 1)"
    using sched_coreD(1) [OF sched_core_boot] by (simp_all add: k_boot_def tcb_boot_def tcb_blank_def hpf_task_def)
  from hpf_enqueue_dequeue [OF this] show ?thesis
    by (simp add: k_boot_def tcb_boot_def tcb_blank_def hpf_front_def OS_TIME_SLICE_MIN_def OS_NS_PER_CYCLE_def)
qed

section \<open>A system with waiting tasks\<close>

text \<open>
  Besides the tasks of \<open>k_boot\<close>, task 4 sleeps until time 500, task 5 waits for semaphore 0
  until time 900 and task 6 sleeps until time 2000; it is time 1000.
\<close>

definition k_timed :: kstate where
  "k_timed = k_boot\<lparr>
     tcb := (tcb_boot)
       (4 := tcb_blank\<lparr>taskID := 4, taskStatus := OS_TASK_STATUS_DELAY\<rparr>,
        5 := tcb_blank\<lparr>taskID := 5, taskStatus := OS_TASK_STATUS_PENDING OR OS_TASK_STATUS_PEND_TIME, on := Some (SemList 0)\<rparr>,
        6 := tcb_blank\<lparr>taskID := 6, taskStatus := OS_TASK_STATUS_DELAY\<rparr>),
     pend := (pend k_boot)(SemList 0 := [5]),
     timeoutQueue := \<lparr>sortLink = [4, 5, 6], nodeNum = 3,
       responseTime = (\<lambda>_. OS_SORT_LINK_INVALID_TIME)(4 := 500, 5 := 900, 6 := 2000), sl_fault = False\<rparr>\<rparr>"

lemma sched_inv_timed: "sched_inv k_timed"
proof -
  have "rq_inv k_timed"
  proof (rule rq_invI)
    show "lists_ok k_timed" by (auto simp: lists_ok_def k_timed_def k_boot_def tcb_boot_def tcb_blank_def)
    show "task_ok (tcb k_timed t)" for t by (simp add: task_ok_def k_timed_def tcb_boot_def tcb_blank_def)
    show "maps_ok (pend k_timed) (readyTasks k_timed) (prioBitmap k_timed) (queueBitmap k_timed)"
      using maps_ok_boot by (simp add: maps_ok_def k_timed_def)
  qed
  then show ?thesis
    by (simp add: sched_inv_def sched_core_def k_timed_def k_boot_def tcb_boot_def tcb_blank_def hpf_task_def)
qed

lemma tq_inv_timed: "tq_inv k_timed"
  unfolding tq_inv_def sl_wf_def timed_wait_def status_def
  by (simp add: k_timed_def k_boot_def tcb_boot_def tcb_blank_def hpf_task_def OS_SORT_LINK_INVALID_TIME_def)

section \<open>Timeouts\<close>



text \<open>
  C23. The loop of \<open>EDFEnqueue\<close> that looks for the period of a deadline task ends, provided its run
  time fits before its deadline and no time wraps: it returns a start that is a whole number of
  periods after the one it began with, whose deadline lies ahead of the current time, and it does
  not skip a period it could have used.
\<close>

theorem edf_period_found:
  assumes "0 \<le> run" "run \<le> uint dl" "0 < uint per" "uint currTime + uint per + uint dl < 2 ^ 64"
    and "uint f + uint dl < 2 ^ 64"
  shows "\<exists>f' n. edf_next_period currTime dl per run f = Some f' \<and> uint f' = uint f + int n * uint per \<and>
    currTime < f' + dl \<and> (n = 0 \<or> uint f' + uint dl \<le> uint currTime + uint per)"
  using edf_next_period_returns [OF assms] by blast

theorem edf_period_found_witness:
  "\<exists>f' n. edf_next_period 1000 100 300 50 0 = Some f' \<and> uint f' = int n * 300 \<and> 1000 < f' + 100 \<and>
    uint f' + 100 \<le> 1300"
proof -
  obtain f' n where f: "edf_next_period 1000 100 300 50 0 = Some f'" "uint f' = int n * 300" "1000 < f' + 100"
    "n = 0 \<or> uint f' + 100 \<le> 1300"
    using edf_period_found [of 50 100 300 1000 0] by auto
  have "n \<noteq> 0"
  proof
    assume "n = 0"
    then have "f' = 0" using f(2) by (simp add: uint_0_iff)
    then show False using f(3) by simp
  qed
  with f show ?thesis by blast
qed

section \<open>Time slices\<close>

lemma time_slice_nat:
  assumes "0 < sys_clock k" "sys_clock k \<le> 1000000000"
  shows "unat (TimeSliceCalculate k b p) =
    (let n = unat (OS_NS_PER_CYCLE k); r = min 30 (unat (readyTasks k b p))
     in (30 - r) * (20000000 div n - 5000000 div n) div 30 + 5000000 div n)"
    and "0 < unat (OS_NS_PER_CYCLE k)"
    and "unat (OS_SCHED_TIME_SLICES_MIN k) = 5000000 div unat (OS_NS_PER_CYCLE k)"
    and "unat (OS_SCHED_TIME_SLICES_MAX k) = 20000000 div unat (OS_NS_PER_CYCLE k)"
proof -
  define n where "n = unat (OS_NS_PER_CYCLE k)"
  have "unat (sys_clock k) \<le> 1000000000" "0 < unat (sys_clock k)"
    using assms by (simp_all add: word_le_nat_alt word_less_nat_alt)
  then show pos: "0 < unat (OS_NS_PER_CYCLE k)"
    unfolding OS_NS_PER_CYCLE_def unat_div by (simp add: div_greater_zero_iff)
  show mi: "unat (OS_SCHED_TIME_SLICES_MIN k) = 5000000 div unat (OS_NS_PER_CYCLE k)"
    and ma: "unat (OS_SCHED_TIME_SLICES_MAX k) = 20000000 div unat (OS_NS_PER_CYCLE k)"
    unfolding OS_SCHED_TIME_SLICES_MIN_def OS_SCHED_TIME_SLICES_MAX_def unat_div by simp_all
  have le: "5000000 div n \<le> 20000000 div n" "20000000 div n \<le> 20000000" by (simp_all add: div_le_mono)
  then have di: "unat (OS_SCHED_TIME_SLICES_DIFF k) = 20000000 div n - 5000000 div n"
    unfolding OS_SCHED_TIME_SLICES_DIFF_def using mi ma by (simp add: unat_sub word_le_nat_alt n_def)
  let ?D = "20000000 div n - 5000000 div n" and ?r = "unat (readyTasks k b p)"
  show "unat (TimeSliceCalculate k b p) = (let n = unat (OS_NS_PER_CYCLE k); r = min 30 (unat (readyTasks k b p))
     in (30 - r) * (20000000 div n - 5000000 div n) div 30 + 5000000 div n)"
  proof (cases "readyTasks k b p > 30")
    case True
    then have "min 30 ?r = 30" by (simp add: word_less_nat_alt)
    with True show ?thesis by (simp add: TimeSliceCalculate_def Let_def mi)
  next
    case False
    then have r: "?r \<le> 30" "readyTasks k b p \<le> 30" by (simp_all add: word_less_nat_alt word_le_nat_alt)
    have sub: "unat (30 - readyTasks k b p) = 30 - ?r" using r(2) by (simp add: unat_sub)
    have le30: "(30 - ?r) * ?D \<le> 30 * 20000000" using le(2) diff_le_self [of "20000000 div n" "5000000 div n"] by (intro mult_le_mono) linarith+
    have prod: "unat ((30 - readyTasks k b p) * OS_SCHED_TIME_SLICES_DIFF k) = (30 - ?r) * ?D"
      unfolding unat_word_ariths sub di using le30 by simp
    have "(30 - ?r) * ?D div 30 \<le> 20000000" using le30 by simp
    then have "(30 - ?r) * ?D div 30 + 5000000 div n < 4294967296" using le by linarith
    then have "unat (((30 - readyTasks k b p) * OS_SCHED_TIME_SLICES_DIFF k) div 30 + OS_SCHED_TIME_SLICES_MIN k) =
        (30 - ?r) * ?D div 30 + 5000000 div n"
      unfolding unat_word_ariths(1) unat_div prod mi n_def [symmetric] by simp
    with False r show ?thesis by (simp add: TimeSliceCalculate_def Let_def n_def min_def)
  qed
qed

text \<open>
  C24. The time slice computed for a round robin task lies between the configured minimum and
  maximum, whatever the load of its queue and for every clock of at most 1 GHz, and a longer
  queue never gives a longer slice.
\<close>

theorem time_slice_bounds:
  assumes "0 < sys_clock k" "sys_clock k \<le> 1000000000"
  shows "OS_SCHED_TIME_SLICES_MIN k \<le> TimeSliceCalculate k b p \<and> TimeSliceCalculate k b p \<le> OS_SCHED_TIME_SLICES_MAX k \<and>
    (readyTasks k b p \<le> readyTasks k c q \<longrightarrow> TimeSliceCalculate k c q \<le> TimeSliceCalculate k b p)"
proof -
  define n where "n = unat (OS_NS_PER_CYCLE k)"
  note t = time_slice_nat [OF assms, folded n_def, unfolded Let_def]
  let ?D = "20000000 div n - 5000000 div n"
  have mono: "(30 - r) * ?D div 30 \<le> (30 - s) * ?D div 30" if "s \<le> r" for r s :: nat
    by (intro div_le_mono mult_le_mono1) (use that in simp)
  have "(30 - min 30 (unat (readyTasks k b p))) * ?D div 30 \<le> ?D"
    using mono [of 0 "min 30 (unat (readyTasks k b p))"] by simp
  moreover have "5000000 div n \<le> 20000000 div n" by (simp add: div_le_mono)
  ultimately show ?thesis
    using t mono [of "min 30 (unat (readyTasks k b p))" "min 30 (unat (readyTasks k c q))"]
    by (auto simp: word_le_nat_alt)
qed

theorem time_slice_bounds_witness:
  "OS_SCHED_TIME_SLICES_MIN k_boot \<le> TimeSliceCalculate k_boot 0 10 \<and>
   TimeSliceCalculate k_boot 0 10 \<le> TimeSliceCalculate k_boot 0 11"
proof -
  have "0 < sys_clock k_boot" "sys_clock k_boot \<le> 1000000000" "readyTasks k_boot 0 11 \<le> readyTasks k_boot 0 10"
    by (simp_all add: k_boot_def)
  then show ?thesis
    using time_slice_bounds [of k_boot 0 10 0 10] time_slice_bounds [of k_boot 0 11 0 10] by blast
qed

section \<open>Waiting and giving way\<close>

lemma remove1_pos_insert: "t \<notin> set xs \<Longrightarrow> remove1 t (pos_insert pos t xs) = xs"
proof -
  have "t \<notin> set xs \<Longrightarrow> remove1 t (ins_before p t xs) = xs" for p by (induction xs) auto
  then show "t \<notin> set xs \<Longrightarrow> ?thesis" by (simp add: pos_insert_def remove1_append split: list_pos.split)
qed

text \<open>
  C26. A blocking operation of the current task, whatever its policy: the task is put at the given
  place of the object's waiting list, marked pending, and another task runs; waking it later takes
  it off the list again, and neither touches any other object's list.
\<close>

theorem wait_then_wake:
  assumes "sched_inv k" "ops (tcb k (currTask k)) \<noteq> IdleOps" "taskLockCnt k = 0" "ipc_head h" "pos_on k pos h"
  shows "\<exists>i. ops_wait (currTask k) pos ticks k = (None, i) \<and> sched_inv i \<and> currTask i \<noteq> currTask k \<and>
    has (status i (currTask k)) OS_TASK_STATUS_PENDING \<and>
    (\<forall>g. ipc_head g \<longrightarrow> pend i g = (if g = h then pos_insert pos (currTask k) (pend k h) else pend k g)) \<and>
    (\<forall>g. ipc_head g \<longrightarrow> pend (ops_wake (currTask k) i) g = pend k g)"
proof -
  let ?t = "currTask k"
  obtain i where i: "ops_wait ?t pos ticks k = (None, i)" "sched_inv i" "currTask i \<noteq> ?t"
      "\<forall>g. ipc_head g \<longrightarrow> pend i g = (if g = h then pos_insert pos ?t (pend k h) else pend k g)"
      "\<forall>u. tcb_sched (tcb k u) (tcb i u)" "has (status i ?t) OS_TASK_STATUS_PENDING"
    using task.wait_lists [OF assms] by blast
  have lk: "lists_ok k" and core: "sched_core i" and off: "on (tcb k ?t) = None"
    using assms(1) i(2) by (auto simp: sched_inv_def sched_core_def rq_invD)
  have nt: "?t \<notin> set (pend k h)" using lists_okD(2) [OF lk, of ?t h] off by simp
  have ins: "?t \<in> set (pos_insert pos ?t (pend k h))" "remove1 ?t (pos_insert pos ?t (pend k h)) = pend k h"
    using pos_insert_list [OF lk assms(5) off] remove1_pos_insert [OF nt] by auto
  then have on: "on (tcb i ?t) = Some h"
    using lists_okD(2) [OF rq_invD(1) [OF sched_coreD(1) [OF core]], of ?t h] i(4) assms(4) by simp
  have "ops (tcb i ?t) \<noteq> IdleOps" using assms(2) i(5) by (simp add: tcb_sched_def)
  from task.wake_releases [OF core this on assms(4)]
  have "pend (ops_wake ?t i) g = pend k g" if "ipc_head g" for g
    using that ins(2) i(4) assms(4) by (cases "g = h") (auto simp: released_def)
  with i show ?thesis by blast
qed

theorem wait_then_wake_witness:
  "\<exists>i. ops_wait 1 (AtHead (SemList 0)) 0xFFFFFFFF k_boot = (None, i) \<and> pend i (SemList 0) = [1] \<and>
    pend (ops_wake 1 i) (SemList 0) = []"
proof -
  have "currTask k_boot = 1" "pend k_boot (SemList 0) = []" by (simp_all add: k_boot_def)
  moreover have "ops (tcb k_boot (currTask k_boot)) \<noteq> IdleOps" "taskLockCnt k_boot = 0" "ipc_head (SemList 0)"
    "pos_on k_boot (AtHead (SemList 0)) (SemList 0)"
    by (simp_all add: k_boot_def tcb_boot_def tcb_blank_def pos_on_def)
  ultimately show ?thesis
    using wait_then_wake [OF sched_inv_boot, of "SemList 0" "AtHead (SemList 0)" "0xFFFFFFFF"]
    by (fastforce simp: pos_insert_def)
qed

lemma OS_TIME_SLICE_MIN_nonneg: "0 \<le> OS_TIME_SLICE_MIN k"
proof -
  have "uint (50000 div OS_NS_PER_CYCLE k) \<le> 50000"
    unfolding uint_div using zdiv_mono2 [of 50000 1 "uint (OS_NS_PER_CYCLE k)"] uint_ge_0 [of "OS_NS_PER_CYCLE k"]
    by (cases "uint (OS_NS_PER_CYCLE k) = 0") auto
  then have "sint (50000 div OS_NS_PER_CYCLE k) = uint (50000 div OS_NS_PER_CYCLE k)"
    by (simp add: sint_uint signed_take_bit_int_eq_self uint_ge_0 order_trans [OF _ uint_ge_0])
  then show ?thesis by (simp add: OS_TIME_SLICE_MIN_def)
qed

text \<open>
  Yielding is fair within a priority: when a task of the highest ready priority yields, the task
  that has waited longest in the queue of that priority runs next, and the scheduler's invariant
  is kept.
\<close>

theorem yield_next:
  assumes inv: "sched_inv k" and t: "t = currTask k" "ops (tcb k t) = PriorityOps"
    and top: "pend k EdfRoot = []" "hpf_first_queue k (basePrio (sp (tcb k t))) (priority (sp (tcb k t)))"
  shows "sched_inv (HPFYield t k) \<and> currTask (HPFYield t k) = hd (pend k (hpf_que k t))"
proof -
  let ?k = "upd_tcb t (\<lambda>c. c\<lparr>timeSlice := 0, startTime := OsGetCurrSchedTimeCycle k\<rparr>) k"
  let ?e = "HPFEnqueue t ?k" and ?b = "basePrio (sp (tcb k t))" and ?p = "priority (sp (tcb k t))"
  have core: "sched_core k" and on: "on (tcb k t) = None" using inv t(1) by (auto simp: sched_inv_def)
  have a: "k_acct k ?k" by (simp add: k_acct_def tcb_acct_def)
  note c = sched_core_acct [OF a core]
  have on': "on (tcb ?k t) = None" and h: "hpf_task (tcb ?k t)" and ops: "ops (tcb ?k t) = PriorityOps"
    using on t(2) sched_coreD(4) [OF c, of t] by simp_all
  have e: "sched_core ?e" using sched_core_enqueue [OF c on'] ops by (simp add: ops_enqueue_def)
  have q: "hpf_que ?k t = HpfQue ?b ?p" "hpf_que k t = HpfQue ?b ?p" by simp_all
  have ne: "pend k (HpfQue ?b ?p) \<noteq> []" using top(2) by (simp add: hpf_first_queue_def)
  have "\<not> hpf_front ?k t" using OS_TIME_SLICE_MIN_nonneg [of ?k] by (simp add: hpf_front_def)
  then have p: "pend ?e = (pend k)(HpfQue ?b ?p := pend k (HpfQue ?b ?p) @ [t])"
    using HPFEnqueue_effect(1) [OF h] q by simp
  have first: "hpf_first_queue ?e ?b ?p" using top(2) p by (simp add: hpf_first_queue_def)
  have "TopTask ?e = hd (pend k (HpfQue ?b ?p))"
    using sched_coreD(1) [OF e]
  proof (cases rule: TopTask_cases)
    case (hpf b p' rest)
    with hpf_first_queue_unique [OF hpf(2) first] p ne show ?thesis by (metis fun_upd_same hd_append2 list.sel(1))
  next
    case idle
    with first have False unfolding hpf_first_queue_def by blast
    then show ?thesis ..
  qed (use p top in simp)
  then show ?thesis using OsSchedResched_inv(1,2) [OF e] q by (simp add: HPFYield_def)
qed

theorem yield_next_witness: "currTask (HPFYield 1 k_boot) = 2 \<and> sched_inv (HPFYield 1 k_boot)"
proof -
  have "1 = currTask k_boot" "ops (tcb k_boot 1) = PriorityOps" "pend k_boot EdfRoot = []"
    "hpf_first_queue k_boot (basePrio (sp (tcb k_boot 1))) (priority (sp (tcb k_boot 1)))"
    "hd (pend k_boot (hpf_que k_boot 1)) = 2"
    by (simp_all add: k_boot_def tcb_boot_def tcb_blank_def hpf_first_queue_def)
  with yield_next [OF sched_inv_boot, of 1] show ?thesis by simp
qed

section \<open>The order of a lock's waiting list\<close>

definition lock_le :: "kstate \<Rightarrow> nat \<Rightarrow> nat \<Rightarrow> bool" where
  "lock_le k a b \<longleftrightarrow> OsSchedParamCompare (tcb k a) (tcb k b) \<le> 0"

definition same_policy :: "kstate \<Rightarrow> nat \<Rightarrow> nat \<Rightarrow> bool" where
  "same_policy k t u \<longleftrightarrow> ops (tcb k u) = PriorityOps \<and> policy (sp (tcb k u)) = policy (sp (tcb k t))"

lemma lock_cmp:
  assumes "same_policy k t a" "same_policy k t b"
  shows "OsSchedParamCompare (tcb k a) (tcb k b) = HPFParamCompare (sp (tcb k a)) (sp (tcb k b))"
  using assms by (simp add: same_policy_def OsSchedParamCompare_def ops_schedParamCompare_def)

lemma HPFParamCompare_order:
  "HPFParamCompare q p = - HPFParamCompare p q"
  "HPFParamCompare p q \<le> 0 \<Longrightarrow> HPFParamCompare q r \<le> 0 \<Longrightarrow> HPFParamCompare p r \<le> 0"
  by (auto simp: HPFParamCompare_def split: if_splits)

lemma lock_le_order:
  assumes "same_policy k t a" "same_policy k t b"
  shows "\<not> lock_le k a b \<Longrightarrow> lock_le k b a"
    and "same_policy k t c \<Longrightarrow> lock_le k a b \<Longrightarrow> lock_le k b c \<Longrightarrow> lock_le k a c"
proof -
  show "\<not> lock_le k a b \<Longrightarrow> lock_le k b a"
    unfolding lock_le_def lock_cmp [OF assms] lock_cmp [OF assms(2,1)]
    using HPFParamCompare_order(1) [of "sp (tcb k b)" "sp (tcb k a)"] by simp
  show "lock_le k a c" if "same_policy k t c" "lock_le k a b" "lock_le k b c"
    using that(2,3) unfolding lock_le_def lock_cmp [OF assms] lock_cmp [OF assms(2) that(1)] lock_cmp [OF assms(1) that(1)]
    by (rule HPFParamCompare_order(2))
qed

lemma split_insert:
  assumes "distinct (pre @ n # post)"
  shows "pos_insert (AtNode n) t (pre @ n # post) = pre @ t # n # post"
  using assms by (simp add: pos_insert_def)

text \<open>Where a position cuts the list: the tasks before it may not come later than the new one, nor those after it earlier.\<close>

definition cuts :: "kstate \<Rightarrow> nat \<Rightarrow> pend_head \<Rightarrow> list_pos \<Rightarrow> bool" where
  "cuts k t h pos \<longleftrightarrow> (\<exists>pre post. pend k h = pre @ post \<and> pos_insert pos t (pend k h) = pre @ t # post \<and>
     (\<forall>a\<in>set pre. lock_le k a t) \<and> (\<forall>b\<in>set post. lock_le k t b))"

lemma lock_pend_pos_sub_cuts:
  assumes "lists_ok k" "pend k h = pre @ xs" "sorted_wrt (lock_le k) (pend k h)"
    "same_policy k t t" "\<forall>u\<in>set (pend k h). same_policy k t u"
    "\<forall>a\<in>set pre. lock_le k a t" "xs \<noteq> []" "\<not> lock_le k (last xs) t"
  shows "\<exists>pos. lock_pend_pos_sub k t h xs = Some pos \<and> pos_on k pos h \<and> cuts k t h pos"
  using assms
proof (induction xs arbitrary: pre)
  case (Cons u rest)
  let ?c = "OsSchedParamCompare (tcb k u) (tcb k t)"
  have on: "on (tcb k v) = Some h" if "v \<in> set (u # rest)" for v
    using lists_okD(2) [OF Cons.prems(1), of v h] that Cons.prems(2) by auto
  have d: "distinct (pre @ u # rest)" using lists_okD(1) [OF Cons.prems(1), of h] Cons.prems(2) by simp
  have sp: "same_policy k t v" if "v \<in> set (pre @ u # rest)" for v using Cons.prems(2,5) that by auto
  have after: "lock_le k u v" if "v \<in> set rest" for v
    using Cons.prems(3) that unfolding Cons.prems(2) by (auto simp: sorted_wrt_append)
  consider "?c < 0" | "?c = 0" | "?c > 0" by linarith
  then show ?case
  proof cases
    case 1
    then have le: "lock_le k u t" by (simp add: lock_le_def)
    with Cons.prems(8) have ne: "rest \<noteq> []" by auto
    have "\<exists>pos. lock_pend_pos_sub k t h rest = Some pos \<and> pos_on k pos h \<and> cuts k t h pos"
      using Cons.prems ne le by (intro Cons.IH [of "pre @ [u]"]) auto
    with 1 show ?thesis by (simp add: Let_def)
  next
    case 3
    then have "lock_le k t u" using lock_le_order(1) [OF sp Cons.prems(4), of u] by (simp add: lock_le_def)
    then have "lock_le k t v" if "v \<in> set (u # rest)" for v
      using that after lock_le_order(2) [OF Cons.prems(4) sp sp, of u v] by auto
    moreover have "pos_insert (AtNode u) t (pend k h) = pre @ t # u # rest"
      unfolding Cons.prems(2) by (rule split_insert [OF d])
    ultimately have "cuts k t h (AtNode u)"
      unfolding cuts_def using Cons.prems(2,6) by blast
    with 3 on show ?thesis by (simp add: Let_def pos_on_def)
  next
    case 2
    then have le: "lock_le k u t" "lock_le k t u"
      using lock_cmp [OF sp Cons.prems(4), of u] lock_cmp [OF Cons.prems(4) sp, of u]
        HPFParamCompare_order(1) [of "sp (tcb k t)" "sp (tcb k u)"]
      by (auto simp: lock_le_def)
    with Cons.prems(8) obtain n post where rest: "rest = n # post" by (cases rest) auto
    have "lock_le k t v" if "v \<in> set rest" for v
      using that after le lock_le_order(2) [OF Cons.prems(4) sp sp, of u v] by auto
    moreover have "pos_insert (AtNode n) t (pend k h) = (pre @ [u]) @ t # rest"
      using split_insert [of "pre @ [u]" n post] d unfolding Cons.prems(2) rest by simp
    ultimately have "cuts k t h (AtNode n)"
      unfolding cuts_def using Cons.prems(2,6) le(1)
      by (intro exI [of _ "pre @ [u]"] exI [of _ rest]) auto
    with 2 on rest show ?thesis by (simp add: Let_def pos_on_def)
  qed
qed simp

lemma sorted_lock_last:
  assumes "sorted_wrt (lock_le k) xs" "xs \<noteq> []" "\<forall>u\<in>set xs. same_policy k t u" "same_policy k t t" "lock_le k (last xs) t"
  shows "\<forall>u\<in>set xs. lock_le k u t"
  using assms(2,1,3,5)
proof (induction xs rule: list_nonempty_induct)
  case (cons u xs)
  have l: "last xs \<in> set xs" using cons.hyps by simp
  have "lock_le k u (last xs)" "lock_le k (last xs) t" using cons.prems cons.hyps l by auto
  then have "lock_le k u t" using lock_le_order(2) [of k t u "last xs" t] cons.prems(2) assms(4) l by auto
  with cons show ?case by auto
qed simp

lemma lock_pos_cuts:
  assumes "lists_ok k" "sorted_wrt (lock_le k) (pend k h)" "same_policy k t t" "\<forall>u\<in>set (pend k h). same_policy k t u"
  shows "\<exists>pos. OsSchedLockPendFindPos k t h = Some pos \<and> pos_on k pos h \<and> cuts k t h pos"
proof (cases "pend k h")
  case Nil
  then show ?thesis by (simp add: OsSchedLockPendFindPos_def pos_on_def cuts_def pos_insert_def)
next
  case (Cons u rest)
  have sp: "same_policy k t v" if "v \<in> set (u # rest)" for v using assms(4) that Cons by auto
  consider "\<not> lock_le k u t" | "lock_le k u t" "lock_le k (last (u # rest)) t"
    | "lock_le k u t" "\<not> lock_le k (last (u # rest)) t" by blast
  then show ?thesis
  proof cases
    case 1
    have s: "lock_le k u v" if "v \<in> set rest" for v using assms(2) Cons that by simp
    have d: "distinct ([] @ u # rest)" using lists_okD(1) [OF assms(1), of h] Cons by simp
    have tu: "lock_le k t u" using 1 lock_le_order(1) [OF sp assms(3), of u] by simp
    then have "lock_le k t v" if "v \<in> set (u # rest)" for v
      using that s lock_le_order(2) [OF assms(3) sp sp, of u v] by auto
    then have "cuts k t h (AtNode u)"
      unfolding cuts_def using split_insert [OF d, of t] Cons
      by (intro exI [of _ "[]"] exI [of _ "u # rest"]) auto
    moreover have "on (tcb k u) = Some h" using lists_okD(2) [OF assms(1), of u h] Cons by simp
    ultimately show ?thesis using 1 Cons by (simp add: OsSchedLockPendFindPos_def lock_le_def pos_on_def)
  next
    case 2
    have "\<forall>v\<in>set (u # rest). lock_le k v t" by (rule sorted_lock_last [OF assms(2) [unfolded Cons] _ assms(4) [unfolded Cons] assms(3) 2(2)]) simp
    then have "cuts k t h (AtHead h)"
      unfolding cuts_def using Cons by (intro exI [of _ "u # rest"] exI [of _ "[]"]) (simp add: pos_insert_def)
    with 2 Cons show ?thesis by (simp add: OsSchedLockPendFindPos_def lock_le_def pos_on_def)
  next
    case 3
    then show ?thesis
      using lock_pend_pos_sub_cuts [OF assms(1), of h "[]" "u # rest" t] assms Cons
      by (auto simp: OsSchedLockPendFindPos_def SchedLockPendFindPosSub_def lock_le_def)
  qed
qed

lemma lock_sub_pos_on:
  assumes "lists_ok k" "set xs \<subseteq> set (pend k h)" "lock_pend_pos_sub k t h xs = Some pos"
  shows "pos_on k pos h"
  using assms(2,3)
proof (induction xs)
  case (Cons u xs)
  have "on (tcb k v) = Some h" if "v \<in> set (u # xs)" for v
    using lists_okD(2) [OF assms(1), of v h] Cons.prems(1) that by blast
  then have on: "on (tcb k u) = Some h" "\<And>n ns. xs = n # ns \<Longrightarrow> on (tcb k n) = Some h" by auto
  let ?ret = "OsSchedParamCompare (tcb k u) (tcb k t)"
  consider "?ret < 0" | "?ret > 0" | "?ret = 0" by linarith
  then show ?case
  proof cases
    case 1
    then show ?thesis using Cons.IH Cons.prems by simp
  next
    case 2
    then show ?thesis using on(1) Cons.prems(2) by (auto simp: pos_on_def)
  next
    case 3
    then show ?thesis using on(2) Cons.prems(2) by (cases xs) (auto simp: pos_on_def)
  qed
qed simp

lemma lock_pos_on:
  assumes "lists_ok k" "OsSchedLockPendFindPos k t h = Some pos"
  shows "pos_on k pos h"
  using assms lock_sub_pos_on [of k "pend k h" h t pos] lists_okD(2) [OF assms(1), of _ h]
  by (auto simp: OsSchedLockPendFindPos_def SchedLockPendFindPosSub_def pos_on_def split: list.splits if_splits)


text \<open>A lock on whose list tasks 4 and 5 of priority 10 and task 6 of priority 12 wait, in this order.\<close>

definition k_lock :: kstate where
  "k_lock = k_boot\<lparr>
     tcb := tcb_boot
       (4 := tcb_blank\<lparr>taskStatus := OS_TASK_STATUS_PENDING, on := Some (MuxList 0)\<rparr>,
        5 := tcb_blank\<lparr>taskStatus := OS_TASK_STATUS_PENDING, on := Some (MuxList 0)\<rparr>,
        6 := tcb_blank\<lparr>taskStatus := OS_TASK_STATUS_PENDING, on := Some (MuxList 0),
               sp := (sp tcb_blank)\<lparr>priority := 12\<rparr>\<rparr>),
     pend := (pend k_boot)(MuxList 0 := [4, 5, 6])\<rparr>"

lemmas k_lock_defs = k_lock_def k_boot_def tcb_boot_def tcb_blank_def


text \<open>
  The order among equal priorities is not the order of arrival: the new waiter is put directly behind
  the first task of its priority, ahead of task 5 that has waited longer.
\<close>

lemma lock_list_not_fifo:
  "OsSchedLockPendFindPos k_lock 1 (MuxList 0) = Some (AtNode 5) \<and>
   pos_insert (AtNode 5) 1 (pend k_lock (MuxList 0)) = [4, 1, 5, 6] \<and>
   OsSchedParamCompare (tcb k_lock 5) (tcb k_lock 1) = 0"
  by (simp add: OsSchedLockPendFindPos_def SchedLockPendFindPosSub_def k_lock_defs OsSchedParamCompare_def
      ops_schedParamCompare_def HPFParamCompare_def pos_insert_def)

section \<open>Where the code departs from its intent\<close>

text \<open>
  The deadline queue is not ordered by deadline: of two ready tasks, the one with the later finish time
  is always in front, whichever became ready first.
\<close>

lemma deadline_order_inverted:
  assumes "uint (finishTime (sp (tcb k a))) < uint (finishTime (sp (tcb k b)))"
    "uint (finishTime (sp (tcb k b))) < 2147483648" "a \<noteq> b"
  shows "pend k EdfRoot = [a] \<Longrightarrow> pend (DeadlineQueueInsert b k) EdfRoot = [b, a]"
    and "pend k EdfRoot = [b] \<Longrightarrow> pend (DeadlineQueueInsert a k) EdfRoot = [b, a]"
proof -
  let ?fa = "finishTime (sp (tcb k a))" and ?fb = "finishTime (sp (tcb k b))"
  have le: "?fa \<le> ?fb" using assms(1) by (simp add: word_le_def)
  have ba: "EDFParamCompare (sp (tcb k b)) (sp (tcb k a)) = uint ?fb - uint ?fa"
  proof -
    have "uint (?fb - ?fa) = uint ?fb - uint ?fa" using le uint_minus_simple_alt by blast
    moreover from this have "uint (?fb - ?fa) < 2147483648" using assms(2) uint_ge_0 [of ?fa] by linarith
    ultimately show ?thesis unfolding EDFParamCompare_def by (simp add: i32_of_u64_small)
  qed
  have "EDFParamCompare (sp (tcb k a)) (sp (tcb k b)) = - (uint ?fb - uint ?fa)"
  proof -
    have "sint (ucast (?fa - ?fb) :: u32) = signed_take_bit 31 (uint ?fa - uint ?fb)"
      unfolding sint_uint len_num1 len_bit0
      by (simp add: signed_take_bit_eq_iff_take_bit_eq unsigned_ucast_eq uint_word_ariths take_bit_eq_mod mod_mod_cancel)
    then show ?thesis
      unfolding EDFParamCompare_def i32_of_u64_def using assms(1,2) uint_ge_0 [of ?fa]
      by (simp add: signed_take_bit_int_eq_self)
  qed
  with ba assms show "pend k EdfRoot = [a] \<Longrightarrow> pend (DeadlineQueueInsert b k) EdfRoot = [b, a]"
    "pend k EdfRoot = [b] \<Longrightarrow> pend (DeadlineQueueInsert a k) EdfRoot = [b, a]"
    by (simp_all add: DeadlineQueueInsert_def pend_link_def pend_head_insert_def)
qed

text \<open>
  Priority inheritance changes the priority of a task that is ready without moving it to the queue of
  its new priority, so the run queues no longer agree with the tasks.
\<close>

lemma inheritance_breaks_queues:
  "rq_inv k_boot \<and> \<not> rq_inv (HPFPriorityInheritance 2
     \<lparr>pr_policy = LOS_SCHED_RR, pr_basePrio = 0, pr_priority = 5, pr_timeSlice = 0, pr_runTimeUs = 0, pr_deadlineUs = 0, pr_periodUs = 0\<rparr> k_boot)"
  (is "_ \<and> \<not> rq_inv ?k")
proof
  show "rq_inv k_boot" using sched_inv_boot by (simp add: sched_inv_def sched_core_def)
  have "\<not> task_ok (tcb ?k 2)"
    by (simp add: HPFPriorityInheritance_def upd_sp_def k_boot_def tcb_boot_def tcb_blank_def task_ok_def)
  then show "\<not> rq_inv ?k" using rq_invD(2) by blast
qed

text \<open>
  A task that is frozen while it waits with a timeout is off the timeout queue but keeps its response
  time; when it is woken, its node is deleted a second time.
\<close>

lemma frozen_wake_faults:
  assumes "pm_mode k" "has (status k t) OS_TASK_STATUS_PEND_TIME" "sl_wf (timeoutQueue k)"
    "t \<in> set (sortLink (timeoutQueue k))"
  shows "sl_fault (timeoutQueue (HPFWake t (SchedTaskFreeze t k)))"
proof -
  let ?f = "SchedTaskFreeze t k"
  have r: "responseTime (timeoutQueue k) t \<noteq> OS_SORT_LINK_INVALID_TIME" "distinct (sortLink (timeoutQueue k))"
    using sl_wfD [OF assms(3)] assms(4) by auto
  have "has (status k t) (OS_TASK_STATUS_PEND_TIME OR OS_TASK_STATUS_DELAY)"
    unfolding has_mask_or using assms(2) by simp
  then have f: "timeoutQueue ?f = SET_SORTLIST_VALUE t (responseTime (timeoutQueue k) t) (OsDeleteNodeSortLink t (timeoutQueue k))"
    "has (status ?f t) OS_TASK_STATUS_PEND_TIME"
    using assms(1,2) r(1)
    by (auto simp: SchedTaskFreeze_def Let_def OsSchedTimeoutQueueDelete_def OsDeleteFromSortLink_def set_status_def status_def)
  have "sl_fault (timeoutQueue (OsSchedTimeoutQueueDelete t (clr_status t OS_TASK_STATUS_PENDING (pend_delete t ?f))))"
    using f(1) r by (simp add: OsSchedTimeoutQueueDelete_def Let_def clr_status_def pend_delete_def
        OsDeleteFromSortLink_def OsDeleteNodeSortLink_def SET_SORTLIST_VALUE_def split: option.split)
  moreover have "has (status (clr_status t OS_TASK_STATUS_PENDING (pend_delete t ?f)) t) OS_TASK_STATUS_PEND_TIME"
    using f(2) by (simp add: clr_status_def status_def pend_delete_def split: option.split)
  moreover have "timeoutQueue (clr_status t m j) = timeoutQueue j" for m j by (simp add: clr_status_def)
  ultimately show ?thesis by (simp add: HPFWake_def Let_def)
qed

text \<open>
  The conversion of a deadline to cycles is done in 32 bits: with a clock of 24 MHz, a deadline of 1000
  microseconds becomes 2525 cycles, while the run time of 500 microseconds becomes 12000. No period
  of such a task can be used, which the loop of \<open>EDFEnqueue\<close> requires.
\<close>

lemma deadline_overflow:
  "let s = sp (tcb (snd (EDFTaskSchedParamInit 1 LOS_SCHED_DEADLINE
        \<lparr>lp_priority = 500, lp_deadlineUs = 1000, lp_periodUs = 1000\<rparr> k_boot)) 1)
   in deadline s = 2525 \<and> runTime s = 12000"
  by (simp add: EDFTaskSchedParamInit_def Let_def k_boot_def tcb_boot_def tcb_blank_def OS_US_TO_CYCLE_u64_def
      OS_US_TO_CYCLE_i32_def i32_of_u64_def u64_of_i32_def)

text \<open>Tasks of the policies FIFO and RR are compared as equal, whatever their priorities.\<close>

lemma mixed_policies_equal:
  assumes "policy (sp c) = LOS_SCHED_FIFO" "policy (sp d) = LOS_SCHED_RR"
  shows "OsSchedParamCompare c d = 0"
  using assms by (simp add: OsSchedParamCompare_def)

end
