(* ===== verification/Ipc_Sem.thy ===== *)
theory Ipc_Sem
  imports Sched_Ops
begin

text \<open>
  Semaphores, \<^verbatim>\<open>kernel/base/ipc/los_sem.c\<close> and \<^verbatim>\<open>kernel/base/include/los_sem_pri.h\<close>: creation and deletion on
  the free list, pending and posting, with the handles that carry a generation count. The
  invariant says that tasks wait only on a semaphore whose count is zero; posting and pending
  refine a counter with a queue. Output parameters are results here (\<open>Inl\<close> an error, \<open>Inr\<close> the handle),
  so that the checks of their addresses are left out.
\<close>

section \<open>Control blocks and handles\<close>

abbreviation (input) LOS_ERRNO_SEM_INVALID :: u32 where "LOS_ERRNO_SEM_INVALID \<equiv> 0x02000701"
abbreviation (input) LOS_ERRNO_SEM_PTR_NULL :: u32 where "LOS_ERRNO_SEM_PTR_NULL \<equiv> 0x02000702"
abbreviation (input) LOS_ERRNO_SEM_ALL_BUSY :: u32 where "LOS_ERRNO_SEM_ALL_BUSY \<equiv> 0x02000703"
abbreviation (input) LOS_ERRNO_SEM_UNAVAILABLE :: u32 where "LOS_ERRNO_SEM_UNAVAILABLE \<equiv> 0x02000704"
abbreviation (input) LOS_ERRNO_SEM_PEND_INTERR :: u32 where "LOS_ERRNO_SEM_PEND_INTERR \<equiv> 0x02000705"
abbreviation (input) LOS_ERRNO_SEM_PEND_IN_LOCK :: u32 where "LOS_ERRNO_SEM_PEND_IN_LOCK \<equiv> 0x02000706"
abbreviation (input) LOS_ERRNO_SEM_TIMEOUT :: u32 where "LOS_ERRNO_SEM_TIMEOUT \<equiv> 0x02000707"
abbreviation (input) LOS_ERRNO_SEM_OVERFLOW :: u32 where "LOS_ERRNO_SEM_OVERFLOW \<equiv> 0x02000708"
abbreviation (input) LOS_ERRNO_SEM_PENDED :: u32 where "LOS_ERRNO_SEM_PENDED \<equiv> 0x02000709"
abbreviation (input) LOS_ERRNO_SEM_PEND_IN_SYSTEM_TASK :: u32 where "LOS_ERRNO_SEM_PEND_IN_SYSTEM_TASK \<equiv> 0x0200070A"

abbreviation (input) OS_SEM_UNUSED :: u8 where "OS_SEM_UNUSED \<equiv> 0"
abbreviation (input) OS_SEM_USED :: u8 where "OS_SEM_USED \<equiv> 1"
abbreviation (input) OS_SEM_COUNT_MAX :: u16 where "OS_SEM_COUNT_MAX \<equiv> 0xFFFE"
abbreviation (input) OS_SEM_BINARY_COUNT_MAX :: u16 where "OS_SEM_BINARY_COUNT_MAX \<equiv> 1"
abbreviation (input) OS_TASK_WAIT_SEM :: u16 where "OS_TASK_WAIT_SEM \<equiv> 5"

record LosSemCB =
  semStat :: u8
  semCount :: u16
  maxSemCount :: u16
  semID :: u32

text \<open>
  The semaphores with the kernel below them. \<open>sem_limit\<close> is \<open>LOSCFG_BASE_IPC_SEM_LIMIT\<close>; the list head
  \<open>semList\<close> of a semaphore in use is \<open>SemList i\<close>, and its node on the free list is its index in
  \<open>g_unusedSemList\<close>.
\<close>

record sem_sys =
  sem_k :: kstate
  g_allSem :: "nat \<Rightarrow> LosSemCB"
  g_unusedSemList :: "nat list"
  sem_limit :: nat

definition SET_SEM_ID :: "u32 \<Rightarrow> u32 \<Rightarrow> u32" where
  "SET_SEM_ID cnt sid = push_bit 16 cnt OR sid"

definition GET_SEM_INDEX :: "u32 \<Rightarrow> u32" where
  "GET_SEM_INDEX sid = sid AND 0xFFFF"

definition GET_SEM_COUNT :: "u32 \<Rightarrow> u32" where
  "GET_SEM_COUNT sid = drop_bit 16 sid"

definition GET_SEM :: "sem_sys \<Rightarrow> u32 \<Rightarrow> LosSemCB" where
  "GET_SEM S sid = g_allSem S (unat (GET_SEM_INDEX sid))"

definition upd_sem :: "nat \<Rightarrow> (LosSemCB \<Rightarrow> LosSemCB) \<Rightarrow> sem_sys \<Rightarrow> sem_sys" where
  "upd_sem i f S = S\<lparr>g_allSem := (g_allSem S)(i := f (g_allSem S i))\<rparr>"

section \<open>Operations\<close>

text \<open>
  \<open>OsSemInit\<close> with the memory for the control blocks given; the loop puts the blocks on the free
  list in the order of their indices.
\<close>

fun sem_init_loop :: "nat \<Rightarrow> nat \<Rightarrow> sem_sys \<Rightarrow> sem_sys" where
  "sem_init_loop 0 index S = S"
| "sem_init_loop (Suc n) index S =
     (let S1 = upd_sem index (\<lambda>s. s\<lparr>semID := SET_SEM_ID 0 (of_nat index), semStat := OS_SEM_UNUSED\<rparr>) S
      in sem_init_loop n (Suc index) (S1\<lparr>g_unusedSemList := g_unusedSemList S1 @ [index]\<rparr>))"

definition OsSemInit :: "sem_sys \<Rightarrow> u32 \<times> sem_sys" where
  "OsSemInit S = (0, sem_init_loop (sem_limit S) 0 (S\<lparr>g_unusedSemList := []\<rparr>))"

definition OsSemCreate :: "u16 \<Rightarrow> u16 \<Rightarrow> sem_sys \<Rightarrow> (u32 + u32) \<times> sem_sys" where
  "OsSemCreate cnt maxCount S =
     (if cnt > maxCount then (Inl LOS_ERRNO_SEM_OVERFLOW, S)
      else (case g_unusedSemList S of
          [] \<Rightarrow> (Inl LOS_ERRNO_SEM_ALL_BUSY, S)
        | unusedSem # rest \<Rightarrow>
            (let S1 = upd_sem unusedSem (\<lambda>s. s\<lparr>semCount := cnt, semStat := OS_SEM_USED, maxSemCount := maxCount\<rparr>)
                        (S\<lparr>g_unusedSemList := rest,
                           sem_k := (sem_k S)\<lparr>pend := (pend (sem_k S))(SemList unusedSem := [])\<rparr>\<rparr>)
             in (Inr (semID (g_allSem S1 unusedSem)), S1))))"

definition LOS_SemCreate :: "u16 \<Rightarrow> sem_sys \<Rightarrow> (u32 + u32) \<times> sem_sys" where
  "LOS_SemCreate cnt S = OsSemCreate cnt OS_SEM_COUNT_MAX S"

definition LOS_BinarySemCreate :: "u16 \<Rightarrow> sem_sys \<Rightarrow> (u32 + u32) \<times> sem_sys" where
  "LOS_BinarySemCreate cnt S = OsSemCreate cnt OS_SEM_BINARY_COUNT_MAX S"

definition LOS_SemDelete :: "u32 \<Rightarrow> sem_sys \<Rightarrow> u32 \<times> sem_sys" where
  "LOS_SemDelete semHandle S =
     (let i = unat (GET_SEM_INDEX semHandle); sem = GET_SEM S semHandle
      in if i \<ge> sem_limit S then (LOS_ERRNO_SEM_INVALID, S)
         else if semStat sem = OS_SEM_UNUSED \<or> semID sem \<noteq> semHandle then (LOS_ERRNO_SEM_INVALID, S)
         else if pend (sem_k S) (SemList i) \<noteq> [] then (LOS_ERRNO_SEM_PENDED, S)
         else (0, upd_sem i (\<lambda>s. s\<lparr>semStat := OS_SEM_UNUSED,
                     semID := SET_SEM_ID (GET_SEM_COUNT (semID s) + 1) (GET_SEM_INDEX (semID s))\<rparr>)
                   (S\<lparr>g_unusedSemList := g_unusedSemList S @ [i]\<rparr>)))"

definition LOS_SemPend :: "u32 \<Rightarrow> u32 \<Rightarrow> sem_sys \<Rightarrow> u32 option \<times> sem_sys" where
  "LOS_SemPend semHandle timeout S =
     (let i = unat (GET_SEM_INDEX semHandle); sem = GET_SEM S semHandle;
          k = sem_k S; runTask = currTask k
      in if i \<ge> sem_limit S then (Some LOS_ERRNO_SEM_INVALID, S)
         else if int_active k then (Some LOS_ERRNO_SEM_PEND_INTERR, S)
         else if has (status k runTask) OS_TASK_FLAG_SYSTEM_TASK then (Some LOS_ERRNO_SEM_PEND_IN_SYSTEM_TASK, S)
         else if semStat sem = OS_SEM_UNUSED \<or> semID sem \<noteq> semHandle then (Some LOS_ERRNO_SEM_INVALID, S)
         else if semCount sem > 0 then (Some 0, upd_sem i (\<lambda>s. s\<lparr>semCount := semCount s - 1\<rparr>) S)
         else if timeout = 0 then (Some LOS_ERRNO_SEM_UNAVAILABLE, S)
         else let (preemptable, k1) = OsPreemptableInSched k
              in if \<not> preemptable then (Some LOS_ERRNO_SEM_PEND_IN_LOCK, S\<lparr>sem_k := k1\<rparr>)
                 else let (retErr, k2) = ops_wait runTask (AtHead (SemList i)) timeout
                                           (OsTaskWaitSetPendMask OS_TASK_WAIT_SEM (semID sem) k1)
                      in (map_option (\<lambda>r. if r = LOS_ERRNO_TSK_TIMEOUT then LOS_ERRNO_SEM_TIMEOUT else r) retErr,
                          S\<lparr>sem_k := k2\<rparr>))"

text \<open>What the pending task returns when it runs again.\<close>

definition LOS_SemPend_resume :: "nat \<Rightarrow> sem_sys \<Rightarrow> u32 \<times> sem_sys" where
  "LOS_SemPend_resume t S =
     (let (retErr, k) = wait_resume t (sem_k S)
      in (if retErr = LOS_ERRNO_TSK_TIMEOUT then LOS_ERRNO_SEM_TIMEOUT else retErr, S\<lparr>sem_k := k\<rparr>))"

definition OsSemPostUnsafe :: "u32 \<Rightarrow> bool \<Rightarrow> sem_sys \<Rightarrow> u32 \<times> bool \<times> sem_sys" where
  "OsSemPostUnsafe semHandle needSched S =
     (let i = unat (GET_SEM_INDEX semHandle); sem = GET_SEM S semHandle
      in if semID sem \<noteq> semHandle \<or> semStat sem = OS_SEM_UNUSED then (LOS_ERRNO_SEM_INVALID, needSched, S)
         else if semCount sem = maxSemCount sem then (LOS_ERRNO_SEM_OVERFLOW, needSched, S)
         else (case pend (sem_k S) (SemList i) of
             resumedTask # _ \<Rightarrow>
               (0, True, S\<lparr>sem_k := ops_wake resumedTask (OsTaskWakeClearPendMask resumedTask (sem_k S))\<rparr>)
           | [] \<Rightarrow> (0, needSched, upd_sem i (\<lambda>s. s\<lparr>semCount := semCount s + 1\<rparr>) S)))"

definition LOS_SemPost :: "u32 \<Rightarrow> sem_sys \<Rightarrow> u32 \<times> sem_sys" where
  "LOS_SemPost semHandle S =
     (if unat (GET_SEM_INDEX semHandle) \<ge> sem_limit S then (LOS_ERRNO_SEM_INVALID, S)
      else let (ret, needSched, S1) = OsSemPostUnsafe semHandle False S
           in (ret, if needSched then S1\<lparr>sem_k := LOS_Schedule (sem_k S1)\<rparr> else S1))"

section \<open>Handles\<close>

lemma SEM_handle: "GET_SEM_INDEX = handle_index" "SET_SEM_ID = handle_make"
  by (simp_all add: fun_eq_iff GET_SEM_INDEX_def SET_SEM_ID_def handle_index_def handle_make_def)

lemma SEM_INDEX_of_ID: "GET_SEM_INDEX (SET_SEM_ID c sid) = GET_SEM_INDEX sid"
  unfolding SEM_handle by (rule handle_index_make)

lemma SEM_INDEX_small: "i < 65536 \<Longrightarrow> GET_SEM_INDEX (of_nat i) = of_nat i"
  unfolding SEM_handle by (rule handle_index_small)

text \<open>Deleting a semaphore changes the generation in its handle.\<close>

lemma SEM_ID_next: "SET_SEM_ID (GET_SEM_COUNT sid + 1) (GET_SEM_INDEX sid) \<noteq> sid"
  unfolding SEM_handle GET_SEM_COUNT_def by (rule handle_next)

section \<open>The invariant\<close>

definition sem_ok :: "LosSemCB \<Rightarrow> nat list \<Rightarrow> bool" where
  "sem_ok s q \<longleftrightarrow> (if semStat s = OS_SEM_UNUSED then q = []
     else semCount s \<le> maxSemCount s \<and> 0 < maxSemCount s \<and> (q \<noteq> [] \<longrightarrow> semCount s = 0))"

definition sem_inv :: "sem_sys \<Rightarrow> bool" where
  "sem_inv S \<longleftrightarrow> sched_inv (sem_k S) \<and> sem_limit S \<le> 65536 \<and>
     (\<forall>i < sem_limit S. GET_SEM_INDEX (semID (g_allSem S i)) = of_nat i \<and>
        (i \<in> set (g_unusedSemList S) \<longleftrightarrow> semStat (g_allSem S i) = OS_SEM_UNUSED) \<and>
        sem_ok (g_allSem S i) (pend (sem_k S) (SemList i))) \<and>
     distinct (g_unusedSemList S) \<and> set (g_unusedSemList S) \<subseteq> {..< sem_limit S}"

lemma sem_invD:
  assumes "sem_inv S"
  shows "sched_inv (sem_k S)" "sem_limit S \<le> 65536" "distinct (g_unusedSemList S)" "set (g_unusedSemList S) \<subseteq> {..< sem_limit S}"
    "i < sem_limit S \<Longrightarrow> GET_SEM_INDEX (semID (g_allSem S i)) = of_nat i"
    "i < sem_limit S \<Longrightarrow> i \<in> set (g_unusedSemList S) \<longleftrightarrow> semStat (g_allSem S i) = OS_SEM_UNUSED"
    "i < sem_limit S \<Longrightarrow> sem_ok (g_allSem S i) (pend (sem_k S) (SemList i))"
  using assms by (auto simp: sem_inv_def)

lemma upd_sem_simps [simp]:
  "sem_k (upd_sem i f S) = sem_k S" "g_allSem (upd_sem i f S) = (g_allSem S)(i := f (g_allSem S i))"
  "g_unusedSemList (upd_sem i f S) = g_unusedSemList S" "sem_limit (upd_sem i f S) = sem_limit S"
  by (simp_all add: upd_sem_def)

text \<open>A change of the kernel below that keeps the lists of the semaphores keeps the invariant.\<close>

lemma sem_inv_kernel:
  assumes "sem_inv S" "sched_inv k" "\<And>i. i < sem_limit S \<Longrightarrow> sem_ok (g_allSem S i) (pend k (SemList i))"
  shows "sem_inv (S\<lparr>sem_k := k\<rparr>)"
  using assms by (simp add: sem_inv_def)

lemma sem_inv_upd:
  assumes "sem_inv S" "i < sem_limit S" "semID (f (g_allSem S i)) = semID (g_allSem S i)"
    "semStat (f (g_allSem S i)) = semStat (g_allSem S i)" "sem_ok (f (g_allSem S i)) (pend (sem_k S) (SemList i))"
  shows "sem_inv (upd_sem i f S)"
  using assms by (auto simp: sem_inv_def)

section \<open>Pending and posting\<close>

text \<open>A valid handle names a semaphore in use.\<close>

definition sem_valid :: "sem_sys \<Rightarrow> u32 \<Rightarrow> bool" where
  "sem_valid S sid \<longleftrightarrow> unat (GET_SEM_INDEX sid) < sem_limit S \<and>
     semStat (GET_SEM S sid) \<noteq> OS_SEM_UNUSED \<and> semID (GET_SEM S sid) = sid"

abbreviation sem_queue :: "sem_sys \<Rightarrow> u32 \<Rightarrow> nat list" where
  "sem_queue S sid \<equiv> pend (sem_k S) (SemList (unat (GET_SEM_INDEX sid)))"

lemma sem_valid_ok: "sem_inv S \<Longrightarrow> sem_valid S sid \<Longrightarrow> sem_ok (GET_SEM S sid) (sem_queue S sid)"
  using sem_invD(7) by (simp add: sem_valid_def GET_SEM_def)

lemma LOS_SemPend_take:
  assumes "sem_valid S sid" "\<not> int_active (sem_k S)"
    "\<not> has (status (sem_k S) (currTask (sem_k S))) OS_TASK_FLAG_SYSTEM_TASK" "semCount (GET_SEM S sid) > 0"
  shows "LOS_SemPend sid timeout S =
    (Some 0, upd_sem (unat (GET_SEM_INDEX sid)) (\<lambda>s. s\<lparr>semCount := semCount s - 1\<rparr>) S)"
  using assms by (simp add: LOS_SemPend_def Let_def sem_valid_def)

lemma LOS_SemPend_block:
  assumes inv: "sem_inv S" and v: "sem_valid S sid" and i: "\<not> int_active (sem_k S)"
    "\<not> has (status (sem_k S) (currTask (sem_k S))) OS_TASK_FLAG_SYSTEM_TASK"
    and c: "semCount (GET_SEM S sid) = 0" "timeout \<noteq> 0" "taskLockCnt (sem_k S) = 0"
    and busy: "currTask (sem_k S) \<noteq> idleTask (sem_k S)"
  shows "\<exists>k. LOS_SemPend sid timeout S = (None, S\<lparr>sem_k := k\<rparr>) \<and> sem_inv (S\<lparr>sem_k := k\<rparr>) \<and>
    pend k (SemList (unat (GET_SEM_INDEX sid))) = sem_queue S sid @ [currTask (sem_k S)] \<and>
    currTask k \<noteq> currTask (sem_k S)"
proof -
  let ?i = "unat (GET_SEM_INDEX sid)"
  obtain j where j: "ops_wait (currTask (sem_k S)) (AtHead (SemList ?i)) timeout
      (OsTaskWaitSetPendMask OS_TASK_WAIT_SEM (semID (GET_SEM S sid)) (sem_k S)) = (None, j)" "sched_inv j"
    "currTask j \<noteq> currTask (sem_k S)" "pend j (SemList ?i) = pos_insert (AtHead (SemList ?i)) (currTask (sem_k S)) (sem_queue S sid)"
    "\<forall>g. ipc_head g \<longrightarrow> g \<noteq> SemList ?i \<longrightarrow> pend j g = pend (sem_k S) g"
    using wait_on [OF sem_invD(1) [OF inv], of "SemList ?i" "AtHead (SemList ?i)" timeout OS_TASK_WAIT_SEM "semID (GET_SEM S sid)"]
      c(3) busy by (auto simp: pos_on_def)
  have "sem_inv (S\<lparr>sem_k := j\<rparr>)"
  proof (rule sem_inv_kernel [OF inv j(2)])
    fix n assume n: "n < sem_limit S"
    show "sem_ok (g_allSem S n) (pend j (SemList n))"
    proof (cases "n = ?i")
      case True
      with sem_invD(7) [OF inv n] c(1) v show ?thesis
        by (simp add: sem_ok_def sem_valid_def GET_SEM_def)
    next
      case False
      with j(5) sem_invD(7) [OF inv n] show ?thesis by simp
    qed
  qed
  moreover have "LOS_SemPend sid timeout S = (None, S\<lparr>sem_k := j\<rparr>)"
    using v i c j(1) by (simp add: LOS_SemPend_def Let_def sem_valid_def OsPreemptableInSched_def)
  ultimately show ?thesis using j(3,4) by (auto simp: pos_insert_def)
qed

lemma OsSemPost_wake:
  assumes inv: "sem_inv S" and v: "sem_valid S sid" and q: "sem_queue S sid = t # rest"
  shows "\<exists>k. OsSemPostUnsafe sid need S = (0, True, S\<lparr>sem_k := k\<rparr>) \<and> sem_inv (S\<lparr>sem_k := k\<rparr>) \<and>
    pend k (SemList (unat (GET_SEM_INDEX sid))) = rest \<and> \<not> has (status k t) OS_TASK_STATUS_PENDING"
proof -
  let ?i = "unat (GET_SEM_INDEX sid)" and ?j = "ops_wake t (OsTaskWakeClearPendMask t (sem_k S))"
  have h: "ipc_head (SemList ?i)" by simp
  note w = wake_first [OF sem_invD(1) [OF inv] h q]
  have ok: "semCount (GET_SEM S sid) = 0" "0 < maxSemCount (GET_SEM S sid)"
    using sem_valid_ok [OF inv v] v q by (auto simp: sem_ok_def sem_valid_def)
  have "sem_inv (S\<lparr>sem_k := ?j\<rparr>)"
  proof (rule sem_inv_kernel [OF inv w(1)])
    fix n assume n: "n < sem_limit S"
    show "sem_ok (g_allSem S n) (pend ?j (SemList n))"
    proof (cases "n = ?i")
      case True
      with sem_invD(7) [OF inv n] w(2) q v show ?thesis
        by (auto simp: sem_ok_def sem_valid_def GET_SEM_def)
    next
      case False
      with w(3) [of "SemList n"] sem_invD(7) [OF inv n] show ?thesis by simp
    qed
  qed
  moreover have "OsSemPostUnsafe sid need S = (0, True, S\<lparr>sem_k := ?j\<rparr>)"
    using v q ok by (auto simp: OsSemPostUnsafe_def Let_def sem_valid_def)
  ultimately show ?thesis using w(2,7) by auto
qed

lemma sem_inv_schedule: "sem_inv S \<Longrightarrow> sem_inv (S\<lparr>sem_k := LOS_Schedule (sem_k S)\<rparr>)"
  using LOS_Schedule_inv [OF sem_invD(1)] LOS_Schedule_ipc(1) [OF sem_invD(1)] sem_invD(7)
  by (intro sem_inv_kernel) auto

section \<open>Every operation keeps the invariant\<close>

lemma sem_init_loop_frame:
  "sem_k (sem_init_loop n i S) = sem_k S" "sem_limit (sem_init_loop n i S) = sem_limit S"
  "g_unusedSemList (sem_init_loop n i S) = g_unusedSemList S @ [i..<i + n]"
  by (induction n arbitrary: i S) (simp_all add: Let_def upt_conv_Cons)

lemma sem_init_loop_below: "m < i \<Longrightarrow> g_allSem (sem_init_loop n i S) m = g_allSem S m"
  by (induction n arbitrary: i S) (simp_all add: Let_def)

lemma sem_init_loop_blocks:
  "i \<le> m \<Longrightarrow> m < i + n \<Longrightarrow> semStat (g_allSem (sem_init_loop n i S) m) = OS_SEM_UNUSED \<and>
     semID (g_allSem (sem_init_loop n i S) m) = SET_SEM_ID 0 (of_nat m)"
proof (induction n arbitrary: i S)
  case (Suc n)
  then show ?case by (cases "i = m") (simp_all add: Let_def sem_init_loop_below)
qed simp

lemma sem_inv_init:
  assumes "sched_inv (sem_k S)" "sem_limit S \<le> 65536" "\<And>i. i < sem_limit S \<Longrightarrow> pend (sem_k S) (SemList i) = []"
  shows "sem_inv (snd (OsSemInit S))"
  unfolding OsSemInit_def sem_inv_def snd_conv sem_init_loop_frame
  using assms sem_init_loop_blocks [of 0 _ "sem_limit S" "S\<lparr>g_unusedSemList := []\<rparr>"]
  by (auto simp: sem_init_loop_frame sem_ok_def SEM_INDEX_of_ID SEM_INDEX_small)

lemma sem_inv_create:
  assumes inv: "sem_inv S" and m: "0 < maxCount"
  shows "sem_inv (snd (OsSemCreate cnt maxCount S))"
proof (cases "cnt > maxCount \<or> g_unusedSemList S = []")
  case False
  then obtain i rest where u: "g_unusedSemList S = i # rest" by (cases "g_unusedSemList S") auto
  note D = sem_invD [OF inv]
  have i: "i < sem_limit S" "semStat (g_allSem S i) = OS_SEM_UNUSED" using D(4) D(6) [of i] u by auto
  have q: "pend (sem_k S) (SemList i) = []" using D(7) [OF i(1)] i(2) by (simp add: sem_ok_def)
  then have "sem_k S\<lparr>pend := (pend (sem_k S))(SemList i := [])\<rparr> = sem_k S" by (simp add: fun_upd_idem)
  moreover have "cnt \<le> maxCount" using False by (simp add: not_less)
  ultimately have "snd (OsSemCreate cnt maxCount S) =
      upd_sem i (\<lambda>s. s\<lparr>semCount := cnt, semStat := OS_SEM_USED, maxSemCount := maxCount\<rparr>) (S\<lparr>g_unusedSemList := rest\<rparr>)"
    using False u by (simp add: OsSemCreate_def Let_def)
  then show ?thesis
    using D u m i(1) q \<open>cnt \<le> maxCount\<close> by (auto simp: sem_inv_def sem_ok_def)
qed (use inv in \<open>auto simp: OsSemCreate_def\<close>)

lemma sem_inv_delete:
  assumes inv: "sem_inv S"
  shows "sem_inv (snd (LOS_SemDelete sid S))"
proof (cases "sem_valid S sid \<and> sem_queue S sid = []")
  case True
  let ?i = "unat (GET_SEM_INDEX sid)"
  note D = sem_invD [OF inv]
  have "?i \<notin> set (g_unusedSemList S)" using D(6) [of ?i] True by (simp add: sem_valid_def GET_SEM_def)
  moreover have "GET_SEM_INDEX (GET_SEM_INDEX w) = GET_SEM_INDEX w" for w
    unfolding SEM_handle by (rule handle_index_idem)
  ultimately show ?thesis
    using D True by (auto simp: LOS_SemDelete_def Let_def sem_valid_def sem_inv_def sem_ok_def SEM_INDEX_of_ID)
qed (use inv in \<open>auto simp: LOS_SemDelete_def Let_def sem_valid_def\<close>)

lemma sem_inv_pend:
  assumes inv: "sem_inv S"
  shows "sem_inv (snd (LOS_SemPend sid timeout S))"
proof -
  let ?k = "sem_k S" and ?i = "unat (GET_SEM_INDEX sid)"
  note D = sem_invD [OF inv]
  consider (early) "\<not> sem_valid S sid \<or> int_active ?k \<or> has (status ?k (currTask ?k)) OS_TASK_FLAG_SYSTEM_TASK"
    | (take) "sem_valid S sid" "\<not> int_active ?k" "\<not> has (status ?k (currTask ?k)) OS_TASK_FLAG_SYSTEM_TASK" "semCount (GET_SEM S sid) > 0"
    | (none) "sem_valid S sid" "\<not> int_active ?k" "\<not> has (status ?k (currTask ?k)) OS_TASK_FLAG_SYSTEM_TASK" "semCount (GET_SEM S sid) = 0"
    by (auto simp: word_gt_0)
  then show ?thesis
  proof cases
    case early
    then show ?thesis using inv by (auto simp: LOS_SemPend_def Let_def sem_valid_def)
  next
    case take
    have "semCount (GET_SEM S sid) - 1 \<le> maxSemCount (GET_SEM S sid)"
      using sem_valid_ok [OF inv take(1)] take(1,4) by (intro word_dec_le) (auto simp: sem_ok_def sem_valid_def)
    then show ?thesis
      unfolding LOS_SemPend_take [OF take] using take(1) sem_valid_ok [OF inv take(1)] take(4) inv
      by (simp, intro sem_inv_upd) (auto simp: sem_valid_def sem_ok_def GET_SEM_def)
  next
    case none
    show ?thesis
    proof (cases "timeout = 0")
      case True
      with none inv show ?thesis by (simp add: LOS_SemPend_def Let_def sem_valid_def)
    next
      case False
      have flag: "sem_inv (S\<lparr>sem_k := set_schedFlag m ?k\<rparr>)" for m
        using sem_inv_kernel [OF inv sched_inv_acct [OF k_acct_flag(1) D(1)]] D(7) by (simp add: set_schedFlag_def)
      show ?thesis
      proof (cases "taskLockCnt ?k = 0 \<and> currTask ?k \<noteq> idleTask ?k")
        case True
        with LOS_SemPend_block [OF inv none False] show ?thesis by auto
      next
        case lock: False
        let ?m = "OsTaskWaitSetPendMask OS_TASK_WAIT_SEM (semID (GET_SEM S sid)) ?k"
        have "ops (tcb ?m (currTask ?k)) = IdleOps" if "currTask ?k = idleTask ?k"
          using that D(1) sched_coreD(2) [of ?k] by (simp add: OsTaskWaitSetPendMask_def sched_inv_def)
        from idle_wait [OF this] have "snd (LOS_SemPend sid timeout S) = S\<lparr>sem_k := set_schedFlag INT_PEND_RESCH ?k\<rparr> \<or>
            snd (LOS_SemPend sid timeout S) = S\<lparr>sem_k := ?m\<rparr>"
          using none False lock by (auto simp: LOS_SemPend_def Let_def sem_valid_def OsPreemptableInSched_def)
        moreover have "sem_inv (S\<lparr>sem_k := ?m\<rparr>)"
          using sem_inv_kernel [OF inv sched_inv_masks(2) [OF D(1)]] D(7) by (simp add: OsTaskWaitSetPendMask_def)
        ultimately show ?thesis using flag by auto
      qed
    qed
  qed
qed

lemma OsSemPost_cases:
  assumes inv: "sem_inv S" and i: "unat (GET_SEM_INDEX sid) < sem_limit S"
  shows "sem_inv (snd (snd (OsSemPostUnsafe sid need S)))"
proof (cases "sem_valid S sid \<and> semCount (GET_SEM S sid) \<noteq> maxSemCount (GET_SEM S sid)")
  case False
  with i inv show ?thesis by (auto simp: OsSemPostUnsafe_def Let_def sem_valid_def)
next
  case True
  show ?thesis
  proof (cases "sem_queue S sid")
    case (Cons t rest)
    with OsSemPost_wake [OF inv, of sid t rest need] True show ?thesis by auto
  next
    case Nil
    have "semCount (GET_SEM S sid) + 1 \<le> maxSemCount (GET_SEM S sid)"
      using sem_valid_ok [OF inv, of sid] True by (intro word_inc_le) (auto simp: sem_ok_def sem_valid_def)
    then show ?thesis
      using True Nil inv sem_valid_ok [OF inv, of sid]
      by (simp add: OsSemPostUnsafe_def Let_def sem_valid_def, intro sem_inv_upd) (auto simp: sem_ok_def GET_SEM_def)
  qed
qed


text \<open>
  The system as a state machine: the calls of the running task, the task that goes on after a
  wait, and the two places where the kernel reschedules on its own.
\<close>

inductive sem_step :: "sem_sys \<Rightarrow> sem_sys \<Rightarrow> bool" where
  create: "sem_step S (snd (LOS_SemCreate cnt S))"
| create_binary: "sem_step S (snd (LOS_BinarySemCreate cnt S))"
| delete: "sem_step S (snd (LOS_SemDelete sid S))"
| pend: "sem_step S (snd (LOS_SemPend sid timeout S))"
| resume: "t = currTask (sem_k S) \<Longrightarrow> sem_step S (snd (LOS_SemPend_resume t S))"
| post: "sem_step S (snd (LOS_SemPost sid S))"
| schedule: "sem_step S (S\<lparr>sem_k := LOS_Schedule (sem_k S)\<rparr>)"
| irq_end: "sem_step S (S\<lparr>sem_k := OsSchedIrqEndCheckNeedSched (sem_k S)\<rparr>)"

lemma sem_inv_step:
  assumes "sem_step S S'" "sem_inv S"
  shows "sem_inv S'"
  using assms
proof (induction rule: sem_step.induct)
  case (create S cnt)
  then show ?case unfolding LOS_SemCreate_def by (intro sem_inv_create) simp_all
next
  case (create_binary S cnt)
  then show ?case unfolding LOS_BinarySemCreate_def by (intro sem_inv_create) simp_all
next
  case (resume t S)
  then have "sched_inv (sem_k S)" by (simp add: sem_invD)
  from wait_resume_frame [OF this] sem_inv_kernel [OF resume(2)] sem_invD(7) [OF resume(2)] show ?case
    by (simp add: LOS_SemPend_resume_def case_prod_beta Let_def)
next
  case (post S sid)
  have "sem_inv (snd (snd (OsSemPostUnsafe sid False S)))" if "unat (GET_SEM_INDEX sid) < sem_limit S"
    by (rule OsSemPost_cases [OF post that])
  with post sem_inv_schedule show ?case by (auto simp: LOS_SemPost_def Let_def case_prod_beta not_le)
next
  case (irq_end S)
  then have "sched_inv (sem_k S)" by (simp add: sem_invD)
  with OsSchedIrqEnd_inv OsSchedIrqEnd_ipc sem_invD(7) [OF irq_end] show ?case
    by (intro sem_inv_kernel [OF irq_end]) auto
qed (auto intro: sem_inv_delete sem_inv_pend sem_inv_schedule)

section \<open>The abstract semaphore\<close>

text \<open>A counter with a queue: what one semaphore promises.\<close>

type_synonym sem_spec = "nat \<times> nat list"

definition spec_post :: "nat \<Rightarrow> sem_spec \<Rightarrow> sem_spec option" where
  "spec_post mx = (\<lambda>(n, q). if n = mx then None else case q of [] \<Rightarrow> Some (n + 1, []) | t # r \<Rightarrow> Some (n, r))"

definition spec_pend :: "nat \<Rightarrow> sem_spec \<Rightarrow> sem_spec" where
  "spec_pend t = (\<lambda>(n, q). if n > 0 then (n - 1, q) else (n, q @ [t]))"

definition sem_abs :: "sem_sys \<Rightarrow> u32 \<Rightarrow> sem_spec" where
  "sem_abs S sid = (unat (semCount (GET_SEM S sid)), sem_queue S sid)"

lemma OsSemPost_abs:
  assumes inv: "sem_inv S" and v: "sem_valid S sid" and sp: "spec_post (unat (maxSemCount (GET_SEM S sid))) (sem_abs S sid) = Some a"
  shows "fst (OsSemPostUnsafe sid need S) = 0 \<and> sem_abs (snd (snd (OsSemPostUnsafe sid need S))) sid = a"
proof (cases "sem_queue S sid")
  case (Cons t rest)
  then show ?thesis
    using OsSemPost_wake [OF inv v Cons, of need] sp
    by (auto simp: spec_post_def sem_abs_def GET_SEM_def split: if_splits)
next
  case Nil
  have ne: "semCount (GET_SEM S sid) \<noteq> maxSemCount (GET_SEM S sid)"
    using sp by (auto simp: spec_post_def sem_abs_def)
  then have "semCount (GET_SEM S sid) < maxSemCount (GET_SEM S sid)"
    using sem_valid_ok [OF inv v] v by (auto simp: sem_ok_def sem_valid_def less_le)
  from unat_inc [OF this] show ?thesis
    using Nil v ne sp by (auto simp: OsSemPostUnsafe_def Let_def sem_valid_def spec_post_def sem_abs_def GET_SEM_def
        split: if_splits)
qed

section \<open>Properties\<close>

text \<open>Two semaphores over the tasks of \<open>k_boot\<close>.\<close>

definition sem_boot :: sem_sys where
  "sem_boot = \<lparr>sem_k = k_boot, g_allSem = (\<lambda>_. \<lparr>semStat = OS_SEM_UNUSED, semCount = 0, maxSemCount = 0, semID = 0\<rparr>),
     g_unusedSemList = [], sem_limit = 2\<rparr>"

lemma sem_boot_init: "sched_inv (sem_k sem_boot)" "sem_limit sem_boot \<le> 65536" "pend (sem_k sem_boot) (SemList i) = []"
  using sched_inv_boot by (simp_all add: sem_boot_def k_boot_def)


lemma sem_boot_create:
  "g_allSem (snd (LOS_SemCreate 1 (snd (OsSemInit sem_boot)))) 0 =
    \<lparr>semStat = OS_SEM_USED, semCount = 1, maxSemCount = OS_SEM_COUNT_MAX, semID = 0\<rparr>"
  "sem_limit (snd (LOS_SemCreate 1 (snd (OsSemInit sem_boot)))) = 2"
proof -
  have two: "sem_init_loop 2 i S = sem_init_loop (Suc (Suc 0)) i S" for i S by (simp only: numeral_2_eq_2)
  show "g_allSem (snd (LOS_SemCreate 1 (snd (OsSemInit sem_boot)))) 0 =
      \<lparr>semStat = OS_SEM_USED, semCount = 1, maxSemCount = OS_SEM_COUNT_MAX, semID = 0\<rparr>"
    "sem_limit (snd (LOS_SemCreate 1 (snd (OsSemInit sem_boot)))) = 2"
    by (simp_all add: LOS_SemCreate_def OsSemCreate_def OsSemInit_def sem_boot_def upd_sem_def SET_SEM_ID_def two)
qed


lemma OsSemPost_refines:
  assumes "sem_inv S" "sem_valid S sid"
  shows "case spec_post (unat (maxSemCount (GET_SEM S sid))) (sem_abs S sid) of
      None \<Rightarrow> OsSemPostUnsafe sid need S = (LOS_ERRNO_SEM_OVERFLOW, need, S)
    | Some a \<Rightarrow> fst (OsSemPostUnsafe sid need S) = 0 \<and> sem_abs (snd (snd (OsSemPostUnsafe sid need S))) sid = a"
proof (cases "spec_post (unat (maxSemCount (GET_SEM S sid))) (sem_abs S sid)")
  case None
  then have "semCount (GET_SEM S sid) = maxSemCount (GET_SEM S sid)"
    by (auto simp: spec_post_def sem_abs_def word_unat_eq_iff split: if_splits list.splits)
  with None assms(2) show ?thesis by (simp add: OsSemPostUnsafe_def Let_def sem_valid_def)
next
  case (Some a)
  with OsSemPost_abs [OF assms Some, of need] show ?thesis by simp
qed

lemma LOS_SemPend_refines:
  assumes "sem_inv S" "sem_valid S sid"
    and "\<not> int_active (sem_k S) \<and> \<not> has (status (sem_k S) (currTask (sem_k S))) OS_TASK_FLAG_SYSTEM_TASK \<and>
      timeout \<noteq> 0 \<and> taskLockCnt (sem_k S) = 0 \<and> currTask (sem_k S) \<noteq> idleTask (sem_k S)"
  shows "fst (LOS_SemPend sid timeout S) = (if semCount (GET_SEM S sid) > 0 then Some 0 else None) \<and>
    sem_abs (snd (LOS_SemPend sid timeout S)) sid = spec_pend (currTask (sem_k S)) (sem_abs S sid)"
proof (cases "semCount (GET_SEM S sid) > 0")
  case True
  then have "0 < unat (semCount (GET_SEM S sid))" "semCount (GET_SEM S sid) \<noteq> 0" by (simp_all add: word_gt_0 unat_gt_0)
  then show ?thesis
    using LOS_SemPend_take [OF assms(2) _ _ True, of timeout] assms(3)
    by (simp add: sem_abs_def spec_pend_def GET_SEM_def unat_minus_one word_gt_0)
next
  case False
  then have z: "semCount (GET_SEM S sid) = 0" by (simp add: word_gt_0)
  from assms(3) obtain k where "LOS_SemPend sid timeout S = (None, S\<lparr>sem_k := k\<rparr>)"
    "pend k (SemList (unat (GET_SEM_INDEX sid))) = sem_queue S sid @ [currTask (sem_k S)]"
    using LOS_SemPend_block [OF assms(1,2) _ _ z] by blast
  with z show ?thesis by (simp add: sem_abs_def spec_pend_def GET_SEM_def)
qed

text \<open>
  C7. On a valid handle a semaphore is a bounded counter with a first-in first-out queue: posting gives
  the unit to the longest waiting task, which stops waiting, or counts it, and fails with the overflow
  error exactly when the abstract post fails; pending takes a unit when there is one and otherwise puts
  the caller at the end of the queue and gives the processor away.
\<close>

theorem sem_refines_counter:
  assumes "sem_inv S" "sem_valid S sid"
  shows "(case spec_post (unat (maxSemCount (GET_SEM S sid))) (sem_abs S sid) of
      None \<Rightarrow> OsSemPostUnsafe sid need S = (LOS_ERRNO_SEM_OVERFLOW, need, S)
    | Some a \<Rightarrow> fst (OsSemPostUnsafe sid need S) = 0 \<and> sem_abs (snd (snd (OsSemPostUnsafe sid need S))) sid = a) \<and>
    (\<not> int_active (sem_k S) \<and> \<not> has (status (sem_k S) (currTask (sem_k S))) OS_TASK_FLAG_SYSTEM_TASK \<and>
       timeout \<noteq> 0 \<and> taskLockCnt (sem_k S) = 0 \<and> currTask (sem_k S) \<noteq> idleTask (sem_k S) \<longrightarrow>
     fst (LOS_SemPend sid timeout S) = (if semCount (GET_SEM S sid) > 0 then Some 0 else None) \<and>
     sem_abs (snd (LOS_SemPend sid timeout S)) sid = spec_pend (currTask (sem_k S)) (sem_abs S sid))"
  using OsSemPost_refines [OF assms] LOS_SemPend_refines [OF assms] by blast

text \<open>A state in which task 1 runs and semaphore 0, with count 1 of 3, is in use.\<close>

definition sem_used :: sem_sys where
  "sem_used = sem_boot\<lparr>g_allSem := (\<lambda>i. \<lparr>semStat = OS_SEM_UNUSED, semCount = 0, maxSemCount = 0, semID = of_nat i\<rparr>)
     (0 := \<lparr>semStat = OS_SEM_USED, semCount = 1, maxSemCount = 3, semID = 0\<rparr>), g_unusedSemList := [1]\<rparr>"

lemma sem_used_inv: "sem_inv sem_used" "sem_valid sem_used 0"
  using sem_boot_init by (auto simp: sem_inv_def sem_ok_def sem_used_def sem_valid_def GET_SEM_def GET_SEM_INDEX_def
    sem_boot_def k_boot_def less_2_cases_iff)

theorem sem_refines_counter_witness:
  "sem_abs (snd (snd (OsSemPostUnsafe 0 False sem_used))) 0 = (2, []) \<and>
   sem_abs (snd (LOS_SemPend 0 7 sem_used)) 0 = (0, [])"
proof -
  have a: "sem_abs sem_used 0 = (1, [])" "maxSemCount (GET_SEM sem_used 0) = 3"
    by (simp_all add: sem_abs_def sem_used_def sem_boot_def GET_SEM_def GET_SEM_INDEX_def k_boot_def)
  have "\<not> int_active (sem_k sem_used)" "\<not> has (status (sem_k sem_used) (currTask (sem_k sem_used))) OS_TASK_FLAG_SYSTEM_TASK"
    "taskLockCnt (sem_k sem_used) = 0" "currTask (sem_k sem_used) \<noteq> idleTask (sem_k sem_used)"
    by (simp_all add: sem_used_def sem_boot_def k_boot_def tcb_boot_def tcb_blank_def status_def)
  then show ?thesis
    using sem_refines_counter [OF sem_used_inv, of False 7]
    by (simp add: a spec_post_def spec_pend_def)
qed

text \<open>
  A deleted semaphore cannot be used through its old handle: deleting, posting and pending with it fail
  with the error for an invalid handle and change nothing, until the 16 bit generation count of the
  control block comes round.
\<close>

theorem sem_stale_handle:
  assumes "LOS_SemDelete sid S = (0, S')"
  shows "LOS_SemDelete sid S' = (LOS_ERRNO_SEM_INVALID, S') \<and> LOS_SemPost sid S' = (LOS_ERRNO_SEM_INVALID, S') \<and>
    (\<not> int_active (sem_k S') \<longrightarrow> \<not> has (status (sem_k S') (currTask (sem_k S'))) OS_TASK_FLAG_SYSTEM_TASK \<longrightarrow>
      LOS_SemPend sid timeout S' = (Some LOS_ERRNO_SEM_INVALID, S')) \<and>
    (semID (GET_SEM S' sid) \<noteq> sid)"
proof -
  have v: "unat (GET_SEM_INDEX sid) < sem_limit S" "semID (GET_SEM S sid) = sid"
    and eq: "S' = snd (LOS_SemDelete sid S)"
    using assms by (auto simp: LOS_SemDelete_def Let_def split: if_splits)
  have "g_allSem S' (unat (GET_SEM_INDEX sid)) = (GET_SEM S sid)\<lparr>semStat := OS_SEM_UNUSED,
      semID := SET_SEM_ID (GET_SEM_COUNT sid + 1) (GET_SEM_INDEX sid)\<rparr>" and lim: "sem_limit S' = sem_limit S"
    using assms v(2) by (auto simp: LOS_SemDelete_def Let_def GET_SEM_def split: if_splits)
  then have "semStat (GET_SEM S' sid) = OS_SEM_UNUSED" "semID (GET_SEM S' sid) \<noteq> sid"
    using SEM_ID_next [of sid] by (simp_all add: GET_SEM_def)
  with v(1) lim show ?thesis
    by (simp add: LOS_SemDelete_def LOS_SemPost_def OsSemPostUnsafe_def LOS_SemPend_def Let_def)
qed

theorem sem_stale_handle_witness:
  "fst (LOS_SemPost 0 (snd (LOS_SemDelete 0 sem_used))) = LOS_ERRNO_SEM_INVALID"
proof -
  have "fst (LOS_SemDelete 0 sem_used) = 0"
    by (simp add: LOS_SemDelete_def sem_used_def sem_boot_def GET_SEM_def GET_SEM_INDEX_def k_boot_def)
  then have "LOS_SemDelete 0 sem_used = (0, snd (LOS_SemDelete 0 sem_used))" by (metis prod.collapse)
  from sem_stale_handle [OF this] show ?thesis by simp
qed

end
