(* ===== verification/Ipc_Queue.thy ===== *)
theory Ipc_Queue
  imports Sched_Ops
begin

text \<open>
  Message queues, \<^verbatim>\<open>kernel/base/ipc/los_queue.c\<close> and \<^verbatim>\<open>kernel/base/include/los_queue_pri.h\<close>: a ring of
  message slots in a byte array, with the length of a message stored in the last four bytes of
  its slot, and the waiting lists of readers and writers. The ring refines a list of messages that
  is read at the front and written at either end. \<open>memcpy_s\<close> is the function of the C
  library (Annex K): it copies if the count is at most the size of the destination. The buffer
  of the caller is a list of bytes, changed by a read in place.
\<close>

section \<open>Control blocks\<close>

abbreviation (input) LOS_ERRNO_QUEUE_NO_MEMORY :: u32 where "LOS_ERRNO_QUEUE_NO_MEMORY \<equiv> 0x02000601"
abbreviation (input) LOS_ERRNO_QUEUE_CREATE_NO_MEMORY :: u32 where "LOS_ERRNO_QUEUE_CREATE_NO_MEMORY \<equiv> 0x02000602"
abbreviation (input) LOS_ERRNO_QUEUE_SIZE_TOO_BIG :: u32 where "LOS_ERRNO_QUEUE_SIZE_TOO_BIG \<equiv> 0x02000603"
abbreviation (input) LOS_ERRNO_QUEUE_CB_UNAVAILABLE :: u32 where "LOS_ERRNO_QUEUE_CB_UNAVAILABLE \<equiv> 0x02000604"
abbreviation (input) LOS_ERRNO_QUEUE_NOT_FOUND :: u32 where "LOS_ERRNO_QUEUE_NOT_FOUND \<equiv> 0x02000605"
abbreviation (input) LOS_ERRNO_QUEUE_PEND_IN_LOCK :: u32 where "LOS_ERRNO_QUEUE_PEND_IN_LOCK \<equiv> 0x02000606"
abbreviation (input) LOS_ERRNO_QUEUE_TIMEOUT :: u32 where "LOS_ERRNO_QUEUE_TIMEOUT \<equiv> 0x02000607"
abbreviation (input) LOS_ERRNO_QUEUE_IN_TSKUSE :: u32 where "LOS_ERRNO_QUEUE_IN_TSKUSE \<equiv> 0x02000608"
abbreviation (input) LOS_ERRNO_QUEUE_WRITE_IN_INTERRUPT :: u32 where "LOS_ERRNO_QUEUE_WRITE_IN_INTERRUPT \<equiv> 0x02000609"
abbreviation (input) LOS_ERRNO_QUEUE_NOT_CREATE :: u32 where "LOS_ERRNO_QUEUE_NOT_CREATE \<equiv> 0x0200060A"
abbreviation (input) LOS_ERRNO_QUEUE_IN_TSKWRITE :: u32 where "LOS_ERRNO_QUEUE_IN_TSKWRITE \<equiv> 0x0200060B"
abbreviation (input) LOS_ERRNO_QUEUE_PARA_ISZERO :: u32 where "LOS_ERRNO_QUEUE_PARA_ISZERO \<equiv> 0x0200060D"
abbreviation (input) LOS_ERRNO_QUEUE_INVALID :: u32 where "LOS_ERRNO_QUEUE_INVALID \<equiv> 0x0200060E"
abbreviation (input) LOS_ERRNO_QUEUE_READ_PTR_NULL :: u32 where "LOS_ERRNO_QUEUE_READ_PTR_NULL \<equiv> 0x0200060F"
abbreviation (input) LOS_ERRNO_QUEUE_READSIZE_IS_INVALID :: u32 where "LOS_ERRNO_QUEUE_READSIZE_IS_INVALID \<equiv> 0x02000610"
abbreviation (input) LOS_ERRNO_QUEUE_WRITE_PTR_NULL :: u32 where "LOS_ERRNO_QUEUE_WRITE_PTR_NULL \<equiv> 0x02000612"
abbreviation (input) LOS_ERRNO_QUEUE_WRITESIZE_ISZERO :: u32 where "LOS_ERRNO_QUEUE_WRITESIZE_ISZERO \<equiv> 0x02000613"
abbreviation (input) LOS_ERRNO_QUEUE_WRITE_SIZE_TOO_BIG :: u32 where "LOS_ERRNO_QUEUE_WRITE_SIZE_TOO_BIG \<equiv> 0x02000615"
abbreviation (input) LOS_ERRNO_QUEUE_ISFULL :: u32 where "LOS_ERRNO_QUEUE_ISFULL \<equiv> 0x02000616"
abbreviation (input) LOS_ERRNO_QUEUE_READ_IN_INTERRUPT :: u32 where "LOS_ERRNO_QUEUE_READ_IN_INTERRUPT \<equiv> 0x02000618"
abbreviation (input) LOS_ERRNO_QUEUE_ISEMPTY :: u32 where "LOS_ERRNO_QUEUE_ISEMPTY \<equiv> 0x0200061D"

abbreviation (input) OS_QUEUE_UNUSED :: u16 where "OS_QUEUE_UNUSED \<equiv> 0"
abbreviation (input) OS_QUEUE_INUSED :: u16 where "OS_QUEUE_INUSED \<equiv> 1"
abbreviation (input) OS_QUEUE_READ :: u32 where "OS_QUEUE_READ \<equiv> 0"
abbreviation (input) OS_QUEUE_WRITE :: u32 where "OS_QUEUE_WRITE \<equiv> 1"
abbreviation (input) OS_QUEUE_HEAD :: u32 where "OS_QUEUE_HEAD \<equiv> 0"
abbreviation (input) OS_QUEUE_TAIL :: u32 where "OS_QUEUE_TAIL \<equiv> 1"
abbreviation (input) OS_TASK_WAIT_QUEUE :: u16 where "OS_TASK_WAIT_QUEUE \<equiv> 6"

definition OS_QUEUE_OPERATE_TYPE :: "u32 \<Rightarrow> u32 \<Rightarrow> u32" where
  "OS_QUEUE_OPERATE_TYPE ReadOrWrite HeadOrTail = push_bit 1 HeadOrTail OR ReadOrWrite"

definition OS_QUEUE_READ_WRITE_GET :: "u32 \<Rightarrow> u32" where
  "OS_QUEUE_READ_WRITE_GET type = type AND 0x01"

definition OS_QUEUE_OPERATE_GET :: "u32 \<Rightarrow> u32" where
  "OS_QUEUE_OPERATE_GET type = type AND 0x03"

definition OS_QUEUE_IS_READ :: "u32 \<Rightarrow> bool" where
  "OS_QUEUE_IS_READ type \<longleftrightarrow> OS_QUEUE_READ_WRITE_GET type = OS_QUEUE_READ"

definition OS_QUEUE_IS_WRITE :: "u32 \<Rightarrow> bool" where
  "OS_QUEUE_IS_WRITE type \<longleftrightarrow> OS_QUEUE_READ_WRITE_GET type = OS_QUEUE_WRITE"

text \<open>
  \<open>queueHandle\<close> is the byte array of the queue, \<open>None\<close> the null pointer. \<open>readWriteableCnt\<close> is indexed by
  \<open>OS_QUEUE_READ\<close> and \<open>OS_QUEUE_WRITE\<close>; the lists of waiting tasks are \<open>QueueRead i\<close>, \<open>QueueWrite i\<close> and
  \<open>QueueMem i\<close> of queue \<open>i\<close>.
\<close>

record LosQueueCB =
  queueHandle :: "(nat \<Rightarrow> u8) option"
  queueState :: u16
  queueLen :: u16
  queueSize :: u16
  queueID :: u32
  queueHead :: u16
  queueTail :: u16
  readWriteableCnt :: "u32 \<Rightarrow> u16"

record queue_sys =
  q_k :: kstate
  g_allQueue :: "nat \<Rightarrow> LosQueueCB"
  g_freeQueueList :: "nat list"
  queue_limit :: nat

definition SET_QUEUE_ID :: "u32 \<Rightarrow> u32 \<Rightarrow> u32" where
  "SET_QUEUE_ID cnt qid = push_bit 16 cnt OR qid"

definition GET_QUEUE_INDEX :: "u32 \<Rightarrow> u32" where
  "GET_QUEUE_INDEX qid = qid AND 0xFFFF"

definition GET_QUEUE_COUNT :: "u32 \<Rightarrow> u32" where
  "GET_QUEUE_COUNT qid = drop_bit 16 qid"

definition GET_QUEUE_HANDLE :: "queue_sys \<Rightarrow> u32 \<Rightarrow> LosQueueCB" where
  "GET_QUEUE_HANDLE S qid = g_allQueue S (unat (GET_QUEUE_INDEX qid))"

definition upd_queue :: "nat \<Rightarrow> (LosQueueCB \<Rightarrow> LosQueueCB) \<Rightarrow> queue_sys \<Rightarrow> queue_sys" where
  "upd_queue i f S = S\<lparr>g_allQueue := (g_allQueue S)(i := f (g_allQueue S i))\<rparr>"

definition readWriteList :: "u32 \<Rightarrow> nat \<Rightarrow> pend_head" where
  "readWriteList rw i = (if rw = OS_QUEUE_READ then QueueRead i else QueueWrite i)"

section \<open>Creation\<close>

text \<open>
  \<open>OsAllQueueCBInit\<close> with the memory for the control blocks given: all fields zero, and every block on
  the free list in the order of the indices.
\<close>

definition queue_zero :: LosQueueCB where
  "queue_zero = \<lparr>queueHandle = None, queueState = 0, queueLen = 0, queueSize = 0, queueID = 0, queueHead = 0,
     queueTail = 0, readWriteableCnt = (\<lambda>_. 0)\<rparr>"

fun queue_init_loop :: "nat \<Rightarrow> nat \<Rightarrow> queue_sys \<Rightarrow> queue_sys" where
  "queue_init_loop 0 index S = S"
| "queue_init_loop (Suc n) index S =
     (let S1 = upd_queue index (\<lambda>q. q\<lparr>queueID := of_nat index\<rparr>) S
      in queue_init_loop n (Suc index) (S1\<lparr>g_freeQueueList := g_freeQueueList S1 @ [index]\<rparr>))"

definition OsAllQueueCBInit :: "queue_sys \<Rightarrow> queue_sys" where
  "OsAllQueueCBInit S = queue_init_loop (queue_limit S) 0 (S\<lparr>g_allQueue := (\<lambda>_. queue_zero), g_freeQueueList := []\<rparr>)"

definition OsQueueInit :: "queue_sys \<Rightarrow> u32 \<times> queue_sys" where
  "OsQueueInit S = (0, OsAllQueueCBInit S)"

text \<open>\<open>mem\<close> is what \<open>LOS_MemAlloc\<close> returned: the array, or nothing.\<close>

definition LOS_QueueCreate :: "u16 \<Rightarrow> u16 \<Rightarrow> (nat \<Rightarrow> u8) option \<Rightarrow> queue_sys \<Rightarrow> (u32 + u32) \<times> queue_sys" where
  "LOS_QueueCreate len maxMsgSize mem S =
     (if maxMsgSize > 0xFFFF - 4 then (Inl LOS_ERRNO_QUEUE_SIZE_TOO_BIG, S)
      else if len = 0 \<or> maxMsgSize = 0 then (Inl LOS_ERRNO_QUEUE_PARA_ISZERO, S)
      else (case mem of
          None \<Rightarrow> (Inl LOS_ERRNO_QUEUE_CREATE_NO_MEMORY, S)
        | Some queue \<Rightarrow> (case g_freeQueueList S of
              [] \<Rightarrow> (Inl LOS_ERRNO_QUEUE_CB_UNAVAILABLE, S)
            | unusedQueue # rest \<Rightarrow>
                (let msgSize = maxMsgSize + 4;
                     S1 = upd_queue unusedQueue (\<lambda>q. q\<lparr>queueLen := len, queueSize := msgSize, queueHandle := Some queue,
                             queueState := OS_QUEUE_INUSED,
                             readWriteableCnt := (readWriteableCnt q)(OS_QUEUE_READ := 0, OS_QUEUE_WRITE := len),
                             queueHead := 0, queueTail := 0\<rparr>)
                           (S\<lparr>g_freeQueueList := rest,
                              q_k := (q_k S)\<lparr>pend := (pend (q_k S))(QueueRead unusedQueue := [], QueueWrite unusedQueue := [],
                                                       QueueMem unusedQueue := [])\<rparr>\<rparr>)
                 in (Inr (queueID (g_allQueue S1 unusedQueue)), S1)))))"

section \<open>Checks\<close>

text \<open>
  \<open>bufferAddr\<close> and the pointer \<open>bufferSize\<close> of a read may be null; \<open>LOS_NO_WAIT\<close> is zero.
\<close>

definition OsQueueReadParameterCheck :: "u32 \<Rightarrow> u8 list option \<Rightarrow> u32 option \<Rightarrow> u32 \<Rightarrow> queue_sys \<Rightarrow> u32" where
  "OsQueueReadParameterCheck qid bufferAddr bufferSize timeout S =
     (if unat (GET_QUEUE_INDEX qid) \<ge> queue_limit S then LOS_ERRNO_QUEUE_INVALID
      else if bufferAddr = None then LOS_ERRNO_QUEUE_READ_PTR_NULL
      else (case bufferSize of
          None \<Rightarrow> LOS_ERRNO_QUEUE_READ_PTR_NULL
        | Some sz \<Rightarrow>
            if sz = 0 \<or> sz > 0xFFFF - 4 then LOS_ERRNO_QUEUE_READSIZE_IS_INVALID
            else if timeout \<noteq> 0 \<and> int_active (q_k S) then LOS_ERRNO_QUEUE_READ_IN_INTERRUPT
            else 0))"

definition OsQueueWriteParameterCheck :: "u32 \<Rightarrow> u8 list option \<Rightarrow> u32 \<Rightarrow> u32 \<Rightarrow> queue_sys \<Rightarrow> u32" where
  "OsQueueWriteParameterCheck qid bufferAddr bufferSize timeout S =
     (if unat (GET_QUEUE_INDEX qid) \<ge> queue_limit S then LOS_ERRNO_QUEUE_INVALID
      else if bufferAddr = None then LOS_ERRNO_QUEUE_WRITE_PTR_NULL
      else if bufferSize = 0 then LOS_ERRNO_QUEUE_WRITESIZE_ISZERO
      else if timeout \<noteq> 0 \<and> int_active (q_k S) then LOS_ERRNO_QUEUE_WRITE_IN_INTERRUPT
      else 0)"

definition OsQueueOperateParamCheck :: "LosQueueCB \<Rightarrow> u32 \<Rightarrow> u32 \<Rightarrow> u32 \<Rightarrow> u32" where
  "OsQueueOperateParamCheck q qid operateType bufferSize =
     (if queueID q \<noteq> qid \<or> queueState q = OS_QUEUE_UNUSED then LOS_ERRNO_QUEUE_NOT_CREATE
      else if OS_QUEUE_IS_WRITE operateType \<and> bufferSize > ucast (queueSize q) - 4 then LOS_ERRNO_QUEUE_WRITE_SIZE_TOO_BIG
      else 0)"

section \<open>The ring\<close>

definition queue_mem :: "LosQueueCB \<Rightarrow> nat \<Rightarrow> u8" where
  "queue_mem q = (case queueHandle q of Some m \<Rightarrow> m | None \<Rightarrow> (\<lambda>_. 0))"

text \<open>The \<open>switch\<close> of \<open>OsQueueBufferOperate\<close>: the position of the slot, with the head or tail moved.\<close>

definition queue_position :: "u32 \<Rightarrow> LosQueueCB \<Rightarrow> (u16 \<times> LosQueueCB) option" where
  "queue_position operateType q =
     (let ty = OS_QUEUE_OPERATE_GET operateType
      in if ty = OS_QUEUE_OPERATE_TYPE OS_QUEUE_READ OS_QUEUE_HEAD then
           Some (queueHead q, q\<lparr>queueHead := if unat (queueHead q) + 1 = unat (queueLen q) then 0 else queueHead q + 1\<rparr>)
         else if ty = OS_QUEUE_OPERATE_TYPE OS_QUEUE_WRITE OS_QUEUE_HEAD then
           (let h = (if queueHead q = 0 then queueLen q - 1 else queueHead q - 1)
            in Some (h, q\<lparr>queueHead := h\<rparr>))
         else if ty = OS_QUEUE_OPERATE_TYPE OS_QUEUE_WRITE OS_QUEUE_TAIL then
           Some (queueTail q, q\<lparr>queueTail := if unat (queueTail q) + 1 = unat (queueLen q) then 0 else queueTail q + 1\<rparr>)
         else None)"

definition queue_store :: "(nat \<Rightarrow> u8) \<Rightarrow> LosQueueCB \<Rightarrow> LosQueueCB" where
  "queue_store m q = q\<lparr>queueHandle := map_option (\<lambda>_. m) (queueHandle q)\<rparr>"

definition OsQueueBufferOperate :: "u32 \<Rightarrow> u8 list \<Rightarrow> u32 \<Rightarrow> LosQueueCB \<Rightarrow> u8 list \<times> u32 \<times> LosQueueCB" where
  "OsQueueBufferOperate operateType buffer bufferSize q = (case queue_position operateType q of
     None \<Rightarrow> (buffer, bufferSize, q)
   | Some (queuePosition, q1) \<Rightarrow>
       (let queueNode = unat queuePosition * unat (queueSize q1); m = queue_mem q1;
            sizeAddr = queueNode + unat (queueSize q1) - 4
        in if OS_QUEUE_IS_READ operateType then
             (let msgDataSize = u32_of_bytes (mem_read sizeAddr 4 m);
                  n = (if bufferSize < msgDataSize then bufferSize else msgDataSize)
              in (mem_read queueNode (unat n) m @ drop (unat n) buffer, n, q1))
           else if bufferSize > ucast (queueSize q1) then (buffer, bufferSize, q1)
           else (buffer, bufferSize,
                 queue_store (mem_write sizeAddr (bytes_of_u32 bufferSize)
                                (mem_write queueNode (take (unat bufferSize) buffer) m)) q1)))"

section \<open>Reading and writing\<close>

text \<open>
  \<open>OsQueueOperate\<close> from the transfer on, when the counter has been taken or the wait is over, and what
  follows a wait. A result \<open>None\<close> says that the caller waits; \<open>OsQueueOperate_resume\<close> is the rest of its
  call, with the local variables it has kept.
\<close>

definition queue_finish ::
    "u32 \<Rightarrow> nat \<Rightarrow> u32 \<Rightarrow> u8 list \<Rightarrow> u32 \<Rightarrow> queue_sys \<Rightarrow> (u32 option \<times> u8 list \<times> u32) \<times> queue_sys" where
  "queue_finish ret i operateType buffer bufferSize S =
     (let other = (if OS_QUEUE_READ_WRITE_GET operateType = 0 then 1 else 0);
          (buf, sz, q) = OsQueueBufferOperate operateType buffer bufferSize (g_allQueue S i);
          S1 = upd_queue i (\<lambda>_. q) S
      in (case pend (q_k S1) (readWriteList other i) of
            resumedTask # _ \<Rightarrow>
              ((Some 0, buf, sz),
               S1\<lparr>q_k := LOS_Schedule (ops_wake resumedTask (OsTaskWakeClearPendMask resumedTask (q_k S1)))\<rparr>)
          | [] \<Rightarrow>
              ((Some ret, buf, sz),
               upd_queue i (\<lambda>q. q\<lparr>readWriteableCnt := (readWriteableCnt q)(other := readWriteableCnt q other + 1)\<rparr>) S1)))"

definition queue_after_wait ::
    "u32 \<Rightarrow> nat \<Rightarrow> u32 \<Rightarrow> u8 list \<Rightarrow> u32 \<Rightarrow> queue_sys \<Rightarrow> (u32 option \<times> u8 list \<times> u32) \<times> queue_sys" where
  "queue_after_wait ret i operateType buffer bufferSize S =
     (if ret = LOS_ERRNO_TSK_TIMEOUT then ((Some LOS_ERRNO_QUEUE_TIMEOUT, buffer, bufferSize), S)
      else queue_finish ret i operateType buffer bufferSize S)"

definition OsQueueOperate ::
    "u32 \<Rightarrow> u32 \<Rightarrow> u8 list \<Rightarrow> u32 \<Rightarrow> u32 \<Rightarrow> queue_sys \<Rightarrow> (u32 option \<times> u8 list \<times> u32) \<times> queue_sys" where
  "OsQueueOperate qid operateType buffer bufferSize timeout S =
     (let i = unat (GET_QUEUE_INDEX qid); q = GET_QUEUE_HANDLE S qid;
          readWrite = OS_QUEUE_READ_WRITE_GET operateType;
          ret = OsQueueOperateParamCheck q qid operateType bufferSize
      in if ret \<noteq> 0 then ((Some ret, buffer, bufferSize), S)
         else if readWriteableCnt q readWrite = 0 then
           (if timeout = 0 then
              ((Some (if OS_QUEUE_IS_READ operateType then LOS_ERRNO_QUEUE_ISEMPTY else LOS_ERRNO_QUEUE_ISFULL),
                buffer, bufferSize), S)
            else let (preemptable, k1) = OsPreemptableInSched (q_k S)
                 in if \<not> preemptable then ((Some LOS_ERRNO_QUEUE_PEND_IN_LOCK, buffer, bufferSize), S\<lparr>q_k := k1\<rparr>)
                    else let (r, k2) = ops_wait (currTask k1) (AtHead (readWriteList readWrite i)) timeout
                                         (OsTaskWaitSetPendMask OS_TASK_WAIT_QUEUE (queueID q) k1)
                         in (case r of
                               None \<Rightarrow> ((None, buffer, bufferSize), S\<lparr>q_k := k2\<rparr>)
                             | Some r \<Rightarrow> queue_after_wait r i operateType buffer bufferSize (S\<lparr>q_k := k2\<rparr>)))
         else queue_finish 0 i operateType buffer bufferSize
                (upd_queue i (\<lambda>q. q\<lparr>readWriteableCnt :=
                   (readWriteableCnt q)(readWrite := readWriteableCnt q readWrite - 1)\<rparr>) S))"

definition OsQueueOperate_resume ::
    "nat \<Rightarrow> u32 \<Rightarrow> u32 \<Rightarrow> u8 list \<Rightarrow> u32 \<Rightarrow> queue_sys \<Rightarrow> (u32 option \<times> u8 list \<times> u32) \<times> queue_sys" where
  "OsQueueOperate_resume t qid operateType buffer bufferSize S =
     (let (ret, k) = wait_resume t (q_k S)
      in queue_after_wait ret (unat (GET_QUEUE_INDEX qid)) operateType buffer bufferSize (S\<lparr>q_k := k\<rparr>))"

definition LOS_QueueReadCopy ::
    "u32 \<Rightarrow> u8 list option \<Rightarrow> u32 option \<Rightarrow> u32 \<Rightarrow> queue_sys \<Rightarrow> (u32 option \<times> u8 list \<times> u32) \<times> queue_sys" where
  "LOS_QueueReadCopy qid bufferAddr bufferSize timeout S =
     (let ret = OsQueueReadParameterCheck qid bufferAddr bufferSize timeout S
      in case (bufferAddr, bufferSize) of
           (Some buffer, Some sz) \<Rightarrow>
             if ret \<noteq> 0 then ((Some ret, buffer, sz), S)
             else OsQueueOperate qid (OS_QUEUE_OPERATE_TYPE OS_QUEUE_READ OS_QUEUE_HEAD) buffer sz timeout S
         | _ \<Rightarrow> ((Some ret, [], 0), S))"

definition queue_write_copy ::
    "u32 \<Rightarrow> u32 \<Rightarrow> u8 list option \<Rightarrow> u32 \<Rightarrow> u32 \<Rightarrow> queue_sys \<Rightarrow> (u32 option \<times> u8 list \<times> u32) \<times> queue_sys" where
  "queue_write_copy headTail qid bufferAddr bufferSize timeout S =
     (let ret = OsQueueWriteParameterCheck qid bufferAddr bufferSize timeout S
      in case bufferAddr of
           Some buffer \<Rightarrow>
             if ret \<noteq> 0 then ((Some ret, buffer, bufferSize), S)
             else OsQueueOperate qid (OS_QUEUE_OPERATE_TYPE OS_QUEUE_WRITE headTail) buffer bufferSize timeout S
         | None \<Rightarrow> ((Some ret, [], bufferSize), S))"

definition LOS_QueueWriteHeadCopy ::
    "u32 \<Rightarrow> u8 list option \<Rightarrow> u32 \<Rightarrow> u32 \<Rightarrow> queue_sys \<Rightarrow> (u32 option \<times> u8 list \<times> u32) \<times> queue_sys" where
  "LOS_QueueWriteHeadCopy = queue_write_copy OS_QUEUE_HEAD"

definition LOS_QueueWriteCopy ::
    "u32 \<Rightarrow> u8 list option \<Rightarrow> u32 \<Rightarrow> u32 \<Rightarrow> queue_sys \<Rightarrow> (u32 option \<times> u8 list \<times> u32) \<times> queue_sys" where
  "LOS_QueueWriteCopy = queue_write_copy OS_QUEUE_TAIL"

definition LOS_QueueRead ::
    "u32 \<Rightarrow> u8 list option \<Rightarrow> u32 \<Rightarrow> u32 \<Rightarrow> queue_sys \<Rightarrow> (u32 option \<times> u8 list \<times> u32) \<times> queue_sys" where
  "LOS_QueueRead qid bufferAddr bufferSize timeout S = LOS_QueueReadCopy qid bufferAddr (Some bufferSize) timeout S"

text \<open>These two send the address \<open>bufferAddr\<close> itself, four bytes of it, not what it points to.\<close>

definition LOS_QueueWrite :: "u32 \<Rightarrow> u32 \<Rightarrow> u32 \<Rightarrow> u32 \<Rightarrow> queue_sys \<Rightarrow> (u32 option \<times> u8 list \<times> u32) \<times> queue_sys" where
  "LOS_QueueWrite qid bufferAddr bufferSize timeout S =
     (if bufferAddr = 0 then ((Some LOS_ERRNO_QUEUE_WRITE_PTR_NULL, [], bufferSize), S)
      else LOS_QueueWriteCopy qid (Some (bytes_of_u32 bufferAddr)) 4 timeout S)"

definition LOS_QueueWriteHead :: "u32 \<Rightarrow> u32 \<Rightarrow> u32 \<Rightarrow> u32 \<Rightarrow> queue_sys \<Rightarrow> (u32 option \<times> u8 list \<times> u32) \<times> queue_sys" where
  "LOS_QueueWriteHead qid bufferAddr bufferSize timeout S =
     (if bufferAddr = 0 then ((Some LOS_ERRNO_QUEUE_WRITE_PTR_NULL, [], bufferSize), S)
      else LOS_QueueWriteHeadCopy qid (Some (bytes_of_u32 bufferAddr)) 4 timeout S)"

section \<open>Deletion and information\<close>

text \<open>\<open>freed\<close> is what \<open>LOS_MemFree\<close> returns for the array.\<close>

definition LOS_QueueDelete :: "u32 \<Rightarrow> u32 \<Rightarrow> queue_sys \<Rightarrow> u32 \<times> queue_sys" where
  "LOS_QueueDelete freed qid S =
     (let i = unat (GET_QUEUE_INDEX qid); q = GET_QUEUE_HANDLE S qid
      in if i \<ge> queue_limit S then (LOS_ERRNO_QUEUE_NOT_FOUND, S)
         else if queueID q \<noteq> qid \<or> queueState q = OS_QUEUE_UNUSED then (LOS_ERRNO_QUEUE_NOT_CREATE, S)
         else if pend (q_k S) (QueueRead i) \<noteq> [] then (LOS_ERRNO_QUEUE_IN_TSKUSE, S)
         else if pend (q_k S) (QueueWrite i) \<noteq> [] then (LOS_ERRNO_QUEUE_IN_TSKUSE, S)
         else if pend (q_k S) (QueueMem i) \<noteq> [] then (LOS_ERRNO_QUEUE_IN_TSKUSE, S)
         else if unat (readWriteableCnt q OS_QUEUE_WRITE) + unat (readWriteableCnt q OS_QUEUE_READ) \<noteq> unat (queueLen q)
           then (LOS_ERRNO_QUEUE_IN_TSKWRITE, S)
         else (freed, upd_queue i (\<lambda>q. q\<lparr>queueHandle := None, queueState := OS_QUEUE_UNUSED,
                        queueID := SET_QUEUE_ID (GET_QUEUE_COUNT (queueID q) + 1) (GET_QUEUE_INDEX (queueID q))\<rparr>)
                      (S\<lparr>g_freeQueueList := g_freeQueueList S @ [i]\<rparr>)))"

record QUEUE_INFO_S =
  uwQueueID :: u32
  usQueueLen :: u16
  usQueueSize :: u16
  usQueueHead :: u16
  usQueueTail :: u16
  usWritableCnt :: u16
  usReadableCnt :: u16
  uwWaitReadTask :: u64
  uwWaitWriteTask :: u64
  uwWaitMemTask :: u64

fun wait_task_bits :: "kstate \<Rightarrow> nat list \<Rightarrow> u64 \<Rightarrow> u64" where
  "wait_task_bits k [] w = w"
| "wait_task_bits k (t # ts) w = wait_task_bits k ts (w OR push_bit (unat (taskID (tcb k t))) 1)"

definition LOS_QueueInfoGet :: "u32 \<Rightarrow> queue_sys \<Rightarrow> u32 + QUEUE_INFO_S" where
  "LOS_QueueInfoGet qid S =
     (let i = unat (GET_QUEUE_INDEX qid); q = GET_QUEUE_HANDLE S qid; k = q_k S
      in if i \<ge> queue_limit S then Inl LOS_ERRNO_QUEUE_INVALID
         else if queueID q \<noteq> qid \<or> queueState q = OS_QUEUE_UNUSED then Inl LOS_ERRNO_QUEUE_NOT_CREATE
         else Inr \<lparr>uwQueueID = qid, usQueueLen = queueLen q, usQueueSize = queueSize q,
                usQueueHead = queueHead q, usQueueTail = queueTail q,
                usWritableCnt = readWriteableCnt q OS_QUEUE_WRITE, usReadableCnt = readWriteableCnt q OS_QUEUE_READ,
                uwWaitReadTask = wait_task_bits k (pend k (QueueRead i)) 0,
                uwWaitWriteTask = wait_task_bits k (pend k (QueueWrite i)) 0,
                uwWaitMemTask = wait_task_bits k (pend k (QueueMem i)) 0\<rparr>)"

section \<open>The ring holds a list of messages\<close>

text \<open>\<open>slot_holds q p m\<close>: slot \<open>p\<close> of the array holds message \<open>m\<close> and its length.\<close>

definition slot_holds :: "LosQueueCB \<Rightarrow> nat \<Rightarrow> u8 list \<Rightarrow> bool" where
  "slot_holds q p m \<longleftrightarrow> length m + 4 \<le> unat (queueSize q) \<and>
     mem_read (p * unat (queueSize q)) (length m) (queue_mem q) = m \<and>
     mem_read (p * unat (queueSize q) + unat (queueSize q) - 4) 4 (queue_mem q) = bytes_of_u32 (of_nat (length m))"

definition queue_ring :: "LosQueueCB \<Rightarrow> u8 list list \<Rightarrow> bool" where
  "queue_ring q msgs \<longleftrightarrow> queueHandle q \<noteq> None \<and> 4 < unat (queueSize q) \<and>
     unat (queueHead q) < unat (queueLen q) \<and> length msgs \<le> unat (queueLen q) \<and>
     unat (queueTail q) = (unat (queueHead q) + length msgs) mod unat (queueLen q) \<and>
     (\<forall>j<length msgs. slot_holds q ((unat (queueHead q) + j) mod unat (queueLen q)) (msgs ! j))"

lemmas queue_type_defs = OS_QUEUE_OPERATE_TYPE_def OS_QUEUE_READ_WRITE_GET_def OS_QUEUE_OPERATE_GET_def
  OS_QUEUE_IS_READ_def OS_QUEUE_IS_WRITE_def

lemma queue_store_simps [simp]:
  "queueHead (queue_store m q) = queueHead q" "queueTail (queue_store m q) = queueTail q"
  "queueLen (queue_store m q) = queueLen q" "queueSize (queue_store m q) = queueSize q"
  "readWriteableCnt (queue_store m q) = readWriteableCnt q" "queueID (queue_store m q) = queueID q"
  "queueState (queue_store m q) = queueState q"
  "queueHandle q \<noteq> None \<Longrightarrow> queue_mem (queue_store m q) = m"
  "queueHandle (queue_store m q) = None \<longleftrightarrow> queueHandle q = None"
  by (auto simp: queue_store_def queue_mem_def)

lemma slots_disjoint:
  fixes p p' z :: nat
  assumes "p \<noteq> p'"
  shows "p * z + z \<le> p' * z \<or> p' * z + z \<le> p * z"
proof -
  have "Suc p \<le> p' \<or> Suc p' \<le> p" using assms(1) by linarith
  then have "Suc p * z \<le> p' * z \<or> Suc p' * z \<le> p * z" by (metis mult_le_mono1)
  then show ?thesis by (simp add: add.commute)
qed

text \<open>Writing a message to its slot: the slot holds it, and every other slot is as it was.\<close>

definition slot_write :: "nat \<Rightarrow> u8 list \<Rightarrow> LosQueueCB \<Rightarrow> LosQueueCB" where
  "slot_write p m q = queue_store (mem_write (p * unat (queueSize q) + unat (queueSize q) - 4) (bytes_of_u32 (of_nat (length m)))
     (mem_write (p * unat (queueSize q)) m (queue_mem q))) q"

lemma slot_write_holds:
  assumes "queueHandle q \<noteq> None" "length m + 4 \<le> unat (queueSize q)"
  shows "slot_holds (slot_write p m q) p m"
proof -
  let ?z = "unat (queueSize q)" and ?mm = "mem_write (p * unat (queueSize q)) m (queue_mem q)"
  have "mem_read (p * ?z) (length m) (mem_write (p * ?z + ?z - 4) (bytes_of_u32 (of_nat (length m))) ?mm) = m"
    using assms(2) by (subst mem_read_write_other) (auto simp: mem_read_write_same)
  moreover have "mem_read (p * ?z + ?z - 4) 4 (mem_write (p * ?z + ?z - 4) (bytes_of_u32 (of_nat (length m))) ?mm) =
      bytes_of_u32 (of_nat (length m))"
    by (metis mem_read_write_same length_bytes_of_u32)
  ultimately show ?thesis using assms by (simp add: slot_holds_def slot_write_def)
qed

lemma slot_write_other:
  assumes "queueHandle q \<noteq> None" "length m + 4 \<le> unat (queueSize q)" "p \<noteq> p'" "slot_holds q p' m'"
  shows "slot_holds (slot_write p m q) p' m'"
proof -
  let ?z = "unat (queueSize q)"
  have d: "p * ?z + ?z \<le> p' * ?z \<or> p' * ?z + ?z \<le> p * ?z" by (rule slots_disjoint [OF assms(3)])
  have l: "length m' + 4 \<le> ?z" using assms(4) by (simp add: slot_holds_def)
  have "mem_read a n (queue_mem (slot_write p m q)) = mem_read a n (queue_mem q)"
    if "p' * ?z \<le> a" "a + n \<le> p' * ?z + ?z" for a n
  proof -
    have "a + n \<le> p * ?z \<or> p * ?z + length m \<le> a"
      "a + n \<le> p * ?z + ?z - 4 \<or> p * ?z + ?z - 4 + length (bytes_of_u32 (of_nat (length m))) \<le> a"
      using d that assms(2) by auto
    then show ?thesis using assms(1) by (simp add: slot_write_def mem_read_write_other)
  qed
  from this [of "p' * ?z" "length m'"] this [of "p' * ?z + ?z - 4" 4] l
  show ?thesis using assms(4) by (simp add: slot_holds_def slot_write_def)
qed

lemma slot_holds_cong:
  "queueHandle q' = queueHandle q \<Longrightarrow> queueSize q' = queueSize q \<Longrightarrow> slot_holds q' = slot_holds q"
  by (intro ext) (simp add: slot_holds_def queue_mem_def)

section \<open>The three transfers\<close>

lemma u16_next:
  assumes "unat (h :: u16) < unat (n :: u16)"
  shows "unat (if unat h + 1 = unat n then 0 else h + 1 :: u16) = (unat h + 1) mod unat n"
proof (cases "unat h + 1 = unat n")
  case False
  then have "unat (h + 1) = unat h + 1" using assms by (intro unat_inc [of h n]) (simp add: word_less_nat_alt)
  with False assms show ?thesis by simp
qed simp

lemma u16_prev:
  assumes "unat (h :: u16) < unat (n :: u16)"
  shows "unat (if h = 0 then n - 1 else h - 1 :: u16) = (unat h + unat n - 1) mod unat n"
proof (cases "h = 0")
  case True
  then have "n \<noteq> 0" using assms by auto
  then have "0 < unat n" by (simp add: unat_gt_0)
  with True \<open>n \<noteq> 0\<close> show ?thesis by (simp add: unat_minus_one)
next
  case False
  then have "unat (h - 1) = unat h - 1" "0 < unat h" by (simp_all add: unat_minus_one unat_gt_0)
  then show ?thesis using False assms by (simp add: mod_if)
qed

lemma OsQueueBufferOperate_read:
  assumes ring: "queue_ring q (m # ms)"
  shows "\<exists>q'. OsQueueBufferOperate (OS_QUEUE_OPERATE_TYPE OS_QUEUE_READ OS_QUEUE_HEAD) buf sz q =
      (take (unat sz) m @ drop (min (unat sz) (length m)) buf, of_nat (min (unat sz) (length m)), q') \<and>
    queue_ring q' ms \<and> readWriteableCnt q' = readWriteableCnt q \<and> queueLen q' = queueLen q \<and>
    queueID q' = queueID q \<and> queueState q' = queueState q \<and> queueSize q' = queueSize q"
proof -
  let ?h = "unat (queueHead q)" and ?n = "unat (queueLen q)" and ?z = "unat (queueSize q)"
  let ?q = "q\<lparr>queueHead := if ?h + 1 = ?n then 0 else queueHead q + 1\<rparr>"
  have r: "?h < ?n" "slot_holds q ?h m" and hd: "\<forall>j<length (m # ms). slot_holds q ((?h + j) mod ?n) ((m # ms) ! j)"
    and len: "Suc (length ms) \<le> ?n" and tl: "unat (queueTail q) = (?h + Suc (length ms)) mod ?n" "queueHandle q \<noteq> None" "4 < ?z"
    using ring by (auto simp: queue_ring_def dest: spec [of _ 0])
  have nh: "unat (if ?h + 1 = ?n then 0 else queueHead q + 1) = (?h + 1) mod ?n" by (rule u16_next [OF r(1)])
  have "queue_ring ?q ms"
    unfolding queue_ring_def
  proof (intro conjI allI impI)
    show "unat (queueHead ?q) < unat (queueLen ?q)" using nh r(1) by simp
    show "unat (queueTail ?q) = (unat (queueHead ?q) + length ms) mod unat (queueLen ?q)"
      using nh tl(1) by (simp add: mod_simps)
    fix j assume "j < length ms"
    then have "slot_holds q ((?h + Suc j) mod ?n) (ms ! j)" using hd by auto
    moreover have "(unat (queueHead ?q) + j) mod ?n = (?h + Suc j) mod ?n" using nh by (simp add: mod_simps)
    moreover have "slot_holds ?q = slot_holds q" by (rule slot_holds_cong) simp_all
    ultimately show "slot_holds ?q ((unat (queueHead ?q) + j) mod unat (queueLen ?q)) (ms ! j)" by simp
  qed (use tl len in auto)
  moreover have "OsQueueBufferOperate (OS_QUEUE_OPERATE_TYPE OS_QUEUE_READ OS_QUEUE_HEAD) buf sz q =
      (take (unat sz) m @ drop (min (unat sz) (length m)) buf, of_nat (min (unat sz) (length m)), ?q)"
  proof -
    have mz: "length m < 2 ^ 32" using r(2) unat_bound [of "queueSize q"] by (simp add: slot_holds_def)
    have lm: "u32_of_bytes (mem_read (?h * ?z + ?z - 4) 4 (queue_mem q)) = of_nat (length m)"
      using r(2) by (simp add: slot_holds_def)
    have um: "unat (of_nat (length m) :: u32) = length m" using mz by (simp add: unat_of_nat take_bit_nat_eq_self)
    have lt: "sz < of_nat (length m) \<longleftrightarrow> unat sz < length m" using um by (simp add: word_less_nat_alt)
    have full: "mem_read (?h * ?z) (length m) (queue_mem q) = m" using r(2) by (simp add: slot_holds_def)
    have "mem_read (?h * ?z) (unat sz) (queue_mem q) = take (unat sz) m" if "unat sz < length m"
      using mem_read_take [of "unat sz" "length m" "?h * ?z" "queue_mem q"] that full by simp
    moreover have "queue_mem ?q = queue_mem q" by (simp add: queue_mem_def)
    ultimately show ?thesis
      using lm um full unfolding OsQueueBufferOperate_def queue_position_def
      by (cases "unat sz < length m") (simp_all add: queue_type_defs Let_def lt min_def)
  qed
  ultimately show ?thesis by (intro exI [of _ ?q]) simp
qed

text \<open>The slots of a ring after a message was written to a free one.\<close>

lemma slots_after_write:
  assumes ring: "queue_ring q ms" and m: "length m + 4 \<le> unat (queueSize q)" and room: "length ms < unat (queueLen q)"
    and p: "p < unat (queueLen q)" "\<forall>j<length ms. (unat (queueHead q) + j) mod unat (queueLen q) \<noteq> p"
    and j: "j < length ms"
  shows "slot_holds (slot_write p m q) ((unat (queueHead q) + j) mod unat (queueLen q)) (ms ! j)"
proof (rule slot_write_other [OF _ m])
  show "queueHandle q \<noteq> None" "slot_holds q ((unat (queueHead q) + j) mod unat (queueLen q)) (ms ! j)"
    using ring j by (auto simp: queue_ring_def)
  show "p \<noteq> (unat (queueHead q) + j) mod unat (queueLen q)" using p(2) j by auto
qed

lemma OsQueueBufferOperate_write_tail:
  assumes ring: "queue_ring q ms" and room: "length ms < unat (queueLen q)"
    and buf: "unat sz \<le> length buf" "unat sz + 4 \<le> unat (queueSize q)"
  shows "\<exists>q'. OsQueueBufferOperate (OS_QUEUE_OPERATE_TYPE OS_QUEUE_WRITE OS_QUEUE_TAIL) buf sz q = (buf, sz, q') \<and>
    queue_ring q' (ms @ [take (unat sz) buf]) \<and> readWriteableCnt q' = readWriteableCnt q \<and> queueLen q' = queueLen q \<and>
    queueID q' = queueID q \<and> queueState q' = queueState q \<and> queueSize q' = queueSize q"
proof -
  let ?h = "unat (queueHead q)" and ?n = "unat (queueLen q)" and ?t = "unat (queueTail q)" and ?m = "take (unat sz) buf"
  let ?q = "q\<lparr>queueTail := if ?t + 1 = ?n then 0 else queueTail q + 1\<rparr>" and ?w = "slot_write (unat (queueTail q)) (take (unat sz) buf) q"
  let ?q' = "?w\<lparr>queueTail := if ?t + 1 = ?n then 0 else queueTail q + 1\<rparr>"
  have r: "?h < ?n" "queueHandle q \<noteq> None" "?t = (?h + length ms) mod ?n" "4 < unat (queueSize q)"
    using ring by (auto simp: queue_ring_def)
  then have t: "?t < ?n" using room by simp
  have lm: "length ?m = unat sz" using buf(1) by simp
  have ws: "queueHead ?w = queueHead q" "queueLen ?w = queueLen q" "queueSize ?w = queueSize q" "queueHandle ?w \<noteq> None"
    "readWriteableCnt ?w = readWriteableCnt q" "queueID ?w = queueID q" "queueState ?w = queueState q"
    using r(2) by (simp_all add: slot_write_def)
  have away: "\<forall>j<length ms. (?h + j) mod ?n \<noteq> ?t"
    using ring_distance [of _ ?n "length ms" ?h] room r(3) by (metis less_irrefl less_trans)
  have sh: "slot_holds ?q' = slot_holds ?w" by (rule slot_holds_cong) simp_all
  have "queue_ring ?q' (ms @ [?m])"
    unfolding queue_ring_def
  proof (intro conjI allI impI)
    show "unat (queueTail ?q') = (unat (queueHead ?q') + length (ms @ [?m])) mod unat (queueLen ?q')"
      using u16_next [OF t] r(3) ws by (simp add: mod_simps)
    fix j assume "j < length (ms @ [?m])"
    then consider "j < length ms" | "j = length ms" by fastforce
    then show "slot_holds ?q' ((unat (queueHead ?q') + j) mod unat (queueLen ?q')) ((ms @ [?m]) ! j)"
    proof cases
      case 1
      then show ?thesis
        using slots_after_write [OF ring _ room t away 1, of ?m] buf(2) lm ws sh by (simp add: nth_append)
    next
      case 2
      then show ?thesis
        using slot_write_holds [OF r(2), of ?m ?t] buf(2) lm ws sh r(3) by (simp add: nth_append)
    qed
  qed (use ws r room in auto)
  moreover have "OsQueueBufferOperate (OS_QUEUE_OPERATE_TYPE OS_QUEUE_WRITE OS_QUEUE_TAIL) buf sz q = (buf, sz, ?q')"
  proof -
    have "queue_mem ?q = queue_mem q" by (simp add: queue_mem_def)
    moreover have "\<not> ucast (queueSize q) < sz"
      using buf(2) by (simp add: word_less_nat_alt not_less)
    ultimately show ?thesis
      using lm r(2) unfolding OsQueueBufferOperate_def queue_position_def
      by (simp add: queue_type_defs Let_def slot_write_def queue_store_def)
  qed
  ultimately show ?thesis using ws by (intro exI [of _ ?q']) simp
qed

lemma OsQueueBufferOperate_write_head:
  assumes ring: "queue_ring q ms" and room: "length ms < unat (queueLen q)"
    and buf: "unat sz \<le> length buf" "unat sz + 4 \<le> unat (queueSize q)"
  shows "\<exists>q'. OsQueueBufferOperate (OS_QUEUE_OPERATE_TYPE OS_QUEUE_WRITE OS_QUEUE_HEAD) buf sz q = (buf, sz, q') \<and>
    queue_ring q' (take (unat sz) buf # ms) \<and> readWriteableCnt q' = readWriteableCnt q \<and> queueLen q' = queueLen q \<and>
    queueID q' = queueID q \<and> queueState q' = queueState q \<and> queueSize q' = queueSize q"
proof -
  let ?h = "unat (queueHead q)" and ?n = "unat (queueLen q)" and ?m = "take (unat sz) buf"
  let ?g = "if queueHead q = 0 then queueLen q - 1 else queueHead q - 1"
  let ?w = "slot_write (unat ?g) (take (unat sz) buf) q" and ?q = "q\<lparr>queueHead := ?g\<rparr>"
  let ?q' = "?w\<lparr>queueHead := ?g\<rparr>"
  have r: "?h < ?n" "queueHandle q \<noteq> None" "unat (queueTail q) = (?h + length ms) mod ?n" "4 < unat (queueSize q)"
    using ring by (auto simp: queue_ring_def)
  have g: "unat ?g = (?h + ?n - 1) mod ?n" by (rule u16_prev [OF r(1)])
  then have gn: "unat ?g < ?n" using r(1) by simp
  have step: "(unat ?g + Suc j) mod ?n = (?h + j) mod ?n" for j
  proof -
    have "(unat ?g + Suc j) mod ?n = (?h + ?n - 1 + Suc j) mod ?n" unfolding g by (rule mod_add_left_eq)
    also have "?h + ?n - 1 + Suc j = ?h + j + ?n" using r(1) by simp
    finally show ?thesis by simp
  qed
  have lm: "length ?m = unat sz" using buf(1) by simp
  have ws: "queueTail ?w = queueTail q" "queueLen ?w = queueLen q" "queueSize ?w = queueSize q" "queueHandle ?w \<noteq> None"
    "readWriteableCnt ?w = readWriteableCnt q" "queueID ?w = queueID q" "queueState ?w = queueState q"
    using r(2) by (simp_all add: slot_write_def)
  have away: "\<forall>j<length ms. (?h + j) mod ?n \<noteq> unat ?g"
  proof (intro allI impI notI)
    fix j assume j: "j < length ms" "(?h + j) mod ?n = unat ?g"
    then have "(unat ?g + Suc j) mod ?n = (unat ?g + 0) mod ?n" using step [of j] gn by simp
    from ring_distance [OF _ _ this] j(1) room show False by simp
  qed
  have sh: "slot_holds ?q' = slot_holds ?w" by (rule slot_holds_cong) simp_all
  have "queue_ring ?q' (?m # ms)"
    unfolding queue_ring_def
  proof (intro conjI allI impI)
    show "unat (queueTail ?q') = (unat (queueHead ?q') + length (?m # ms)) mod unat (queueLen ?q')"
      using step [of "length ms"] r(3) ws by simp
    fix j assume "j < length (?m # ms)"
    then consider "j = 0" | i where "j = Suc i" "i < length ms" by (cases j) auto
    then show "slot_holds ?q' ((unat (queueHead ?q') + j) mod unat (queueLen ?q')) ((?m # ms) ! j)"
    proof cases
      case 1
      then show ?thesis using slot_write_holds [OF r(2), of ?m "unat ?g"] buf(2) lm ws sh gn by simp
    next
      case 2
      then show ?thesis
        using slots_after_write [OF ring _ room gn away 2(2), of ?m] buf(2) lm ws sh step [of i] by simp
    qed
  qed (use ws r room gn in auto)
  moreover have "OsQueueBufferOperate (OS_QUEUE_OPERATE_TYPE OS_QUEUE_WRITE OS_QUEUE_HEAD) buf sz q = (buf, sz, ?q')"
  proof -
    have "queue_mem ?q = queue_mem q" by (simp add: queue_mem_def)
    moreover have "\<not> ucast (queueSize q) < sz"
      using buf(2) by (simp add: word_less_nat_alt not_less)
    ultimately show ?thesis
      using lm r(2) unfolding OsQueueBufferOperate_def queue_position_def
      by (simp add: queue_type_defs Let_def slot_write_def queue_store_def)
  qed
  ultimately show ?thesis using ws by (intro exI [of _ ?q']) simp
qed

section \<open>Counters, waiting tasks and reservations\<close>

text \<open>
  The state of queue \<open>i\<close>: it holds the messages \<open>msgs\<close>. A task that is woken takes its message or slot
  only when it runs again; \<open>r\<close> messages are reserved for woken readers and \<open>w\<close> free slots for woken
  writers, and neither is counted as available. Tasks wait only when nothing is available.
\<close>

definition queue_rel :: "queue_sys \<Rightarrow> nat \<Rightarrow> u8 list list \<Rightarrow> nat \<Rightarrow> nat \<Rightarrow> bool" where
  "queue_rel S i msgs r w \<longleftrightarrow> (let q = g_allQueue S i in
     queue_ring q msgs \<and> queueState q \<noteq> OS_QUEUE_UNUSED \<and>
     unat (readWriteableCnt q OS_QUEUE_READ) + r = length msgs \<and>
     unat (readWriteableCnt q OS_QUEUE_WRITE) + length msgs + w = unat (queueLen q) \<and>
     (pend (q_k S) (QueueRead i) \<noteq> [] \<longrightarrow> readWriteableCnt q OS_QUEUE_READ = 0) \<and>
     (pend (q_k S) (QueueWrite i) \<noteq> [] \<longrightarrow> readWriteableCnt q OS_QUEUE_WRITE = 0))"

lemma upd_queue_simps [simp]:
  "q_k (upd_queue i f S) = q_k S" "g_allQueue (upd_queue i f S) = (g_allQueue S)(i := f (g_allQueue S i))"
  "g_freeQueueList (upd_queue i f S) = g_freeQueueList S" "queue_limit (upd_queue i f S) = queue_limit S"
  by (simp_all add: upd_queue_def)

lemma queue_ring_cnt [simp]: "queue_ring (q\<lparr>readWriteableCnt := c\<rparr>) = queue_ring q"
  by (intro ext) (simp add: queue_ring_def slot_holds_def queue_mem_def)

text \<open>Waking the first task of a list of the queue, and the rescheduling that follows.\<close>

lemma queue_wake:
  assumes inv: "sched_inv k" and h: "ipc_head h" and q: "pend k h = t # rest"
  shows "sched_inv (LOS_Schedule (ops_wake t (OsTaskWakeClearPendMask t k)))"
    "pend (LOS_Schedule (ops_wake t (OsTaskWakeClearPendMask t k))) h = rest"
    "ipc_head g \<Longrightarrow> g \<noteq> h \<Longrightarrow> pend (LOS_Schedule (ops_wake t (OsTaskWakeClearPendMask t k))) g = pend k g"
  using wake_first [OF inv h q] LOS_Schedule_inv LOS_Schedule_ipc(1) h by auto

lemma OsQueueBufferOperate_types:
  "OS_QUEUE_READ_WRITE_GET (OS_QUEUE_OPERATE_TYPE OS_QUEUE_READ OS_QUEUE_HEAD) = OS_QUEUE_READ"
  "OS_QUEUE_READ_WRITE_GET (OS_QUEUE_OPERATE_TYPE OS_QUEUE_WRITE OS_QUEUE_HEAD) = OS_QUEUE_WRITE"
  "OS_QUEUE_READ_WRITE_GET (OS_QUEUE_OPERATE_TYPE OS_QUEUE_WRITE OS_QUEUE_TAIL) = OS_QUEUE_WRITE"
  "OS_QUEUE_IS_READ (OS_QUEUE_OPERATE_TYPE OS_QUEUE_READ OS_QUEUE_HEAD)"
  "\<not> OS_QUEUE_IS_READ (OS_QUEUE_OPERATE_TYPE OS_QUEUE_WRITE OS_QUEUE_HEAD)"
  "\<not> OS_QUEUE_IS_READ (OS_QUEUE_OPERATE_TYPE OS_QUEUE_WRITE OS_QUEUE_TAIL)"
  "\<not> OS_QUEUE_IS_WRITE (OS_QUEUE_OPERATE_TYPE OS_QUEUE_READ OS_QUEUE_HEAD)"
  by (simp_all add: queue_type_defs)

text \<open>
  The two kinds of transfer, for a task that holds a reservation: it takes or adds its message, gives up
  the reservation, and the slot or message that it leaves goes to the first task waiting for it, as a
  reservation, or is counted as available.
\<close>

lemma queue_finish_read:
  fixes sz :: u32
  assumes inv: "sched_inv (q_k S)" and rel: "queue_rel S i (m # ms) (Suc r) w"
  defines "n \<equiv> min (unat sz) (length m)"
  shows "\<exists>S'. queue_finish ret i (OS_QUEUE_OPERATE_TYPE OS_QUEUE_READ OS_QUEUE_HEAD) buf sz S =
      ((Some (if pend (q_k S) (QueueWrite i) = [] then ret else 0), take (unat sz) m @ drop n buf, of_nat n), S') \<and>
    sched_inv (q_k S') \<and> queue_rel S' i ms r (w + (if pend (q_k S) (QueueWrite i) = [] then 0 else 1)) \<and>
    pend (q_k S') (QueueWrite i) = tl (pend (q_k S) (QueueWrite i)) \<and>
    pend (q_k S') (QueueRead i) = pend (q_k S) (QueueRead i) \<and> queueID (g_allQueue S' i) = queueID (g_allQueue S i)"
proof -
  let ?q = "g_allQueue S i" and ?ty = "OS_QUEUE_OPERATE_TYPE OS_QUEUE_READ OS_QUEUE_HEAD"
  have ring: "queue_ring ?q (m # ms)" using rel by (simp add: queue_rel_def Let_def)
  obtain q where q: "OsQueueBufferOperate ?ty buf sz ?q = (take (unat sz) m @ drop n buf, of_nat n, q)"
    "queue_ring q ms" "readWriteableCnt q = readWriteableCnt ?q" "queueLen q = queueLen ?q" "queueID q = queueID ?q"
    "queueState q = queueState ?q"
    using OsQueueBufferOperate_read [OF ring, of buf sz] n_def by auto
  show ?thesis
  proof (cases "pend (q_k S) (QueueWrite i)")
    case Nil
    have "unat (readWriteableCnt ?q OS_QUEUE_WRITE) + 1 \<le> unat (queueLen ?q)"
      using rel by (simp add: queue_rel_def Let_def)
    then have "unat (readWriteableCnt ?q OS_QUEUE_WRITE + 1) = unat (readWriteableCnt ?q OS_QUEUE_WRITE) + 1"
      by (intro unat_inc [of _ "queueLen ?q"]) (simp add: word_less_nat_alt)
    with Nil rel inv q show ?thesis
      by (auto simp: queue_finish_def Let_def OsQueueBufferOperate_types readWriteList_def queue_rel_def)
  next
    case (Cons t rest)
    have h: "ipc_head (QueueWrite i)" "ipc_head (QueueRead i)" by simp_all
    note wk = queue_wake [OF inv h(1) Cons]
    from Cons rel q wk(1,2) wk(3) [OF h(2)] show ?thesis
      by (auto simp: queue_finish_def Let_def OsQueueBufferOperate_types readWriteList_def queue_rel_def)
  qed
qed

definition queue_spec_write :: "u32 \<Rightarrow> u8 list \<Rightarrow> u8 list list \<Rightarrow> u8 list list" where
  "queue_spec_write headTail m msgs = (if headTail = OS_QUEUE_HEAD then m # msgs else msgs @ [m])"

lemma queue_finish_write:
  assumes inv: "sched_inv (q_k S)" and rel: "queue_rel S i msgs r (Suc w)" and ht: "ht = OS_QUEUE_HEAD \<or> ht = OS_QUEUE_TAIL"
    and buf: "unat sz \<le> length buf" "unat sz + 4 \<le> unat (queueSize (g_allQueue S i))"
  shows "\<exists>S'. queue_finish ret i (OS_QUEUE_OPERATE_TYPE OS_QUEUE_WRITE ht) buf sz S =
      ((Some (if pend (q_k S) (QueueRead i) = [] then ret else 0), buf, sz), S') \<and>
    sched_inv (q_k S') \<and>
    queue_rel S' i (queue_spec_write ht (take (unat sz) buf) msgs) (r + (if pend (q_k S) (QueueRead i) = [] then 0 else 1)) w \<and>
    pend (q_k S') (QueueRead i) = tl (pend (q_k S) (QueueRead i)) \<and>
    pend (q_k S') (QueueWrite i) = pend (q_k S) (QueueWrite i) \<and> queueID (g_allQueue S' i) = queueID (g_allQueue S i)"
proof -
  let ?q = "g_allQueue S i" and ?ty = "OS_QUEUE_OPERATE_TYPE OS_QUEUE_WRITE ht"
  have ring: "queue_ring ?q msgs" and room: "length msgs < unat (queueLen ?q)" using rel by (auto simp: queue_rel_def Let_def)
  obtain q where q: "OsQueueBufferOperate ?ty buf sz ?q = (buf, sz, q)"
    "queue_ring q (queue_spec_write ht (take (unat sz) buf) msgs)" "readWriteableCnt q = readWriteableCnt ?q"
    "queueLen q = queueLen ?q" "queueID q = queueID ?q" "queueState q = queueState ?q"
    using OsQueueBufferOperate_write_tail [OF ring room buf] OsQueueBufferOperate_write_head [OF ring room buf] ht
    by (auto simp: queue_spec_write_def)
  have ty: "OS_QUEUE_READ_WRITE_GET ?ty = OS_QUEUE_WRITE" using ht OsQueueBufferOperate_types by auto
  have len: "length (queue_spec_write ht m msgs) = Suc (length msgs)" for m by (simp add: queue_spec_write_def)
  show ?thesis
  proof (cases "pend (q_k S) (QueueRead i)")
    case Nil
    have "unat (readWriteableCnt ?q OS_QUEUE_READ) + 1 \<le> unat (queueLen ?q)"
      using rel by (simp add: queue_rel_def Let_def)
    then have "unat (readWriteableCnt ?q OS_QUEUE_READ + 1) = unat (readWriteableCnt ?q OS_QUEUE_READ) + 1"
      by (intro unat_inc [of _ "queueLen ?q"]) (simp add: word_less_nat_alt)
    with Nil rel inv q len show ?thesis
      by (auto simp: queue_finish_def Let_def ty readWriteList_def queue_rel_def)
  next
    case (Cons t rest)
    have h: "ipc_head (QueueRead i)" "ipc_head (QueueWrite i)" by simp_all
    note wk = queue_wake [OF inv h(1) Cons]
    from Cons rel q len wk(1,2) wk(3) [OF h(2)] show ?thesis
      by (auto simp: queue_finish_def Let_def ty readWriteList_def queue_rel_def)
  qed
qed

section \<open>Properties\<close>

definition queue_valid :: "queue_sys \<Rightarrow> u32 \<Rightarrow> bool" where
  "queue_valid S qid \<longleftrightarrow> queueID (GET_QUEUE_HANDLE S qid) = qid"

text \<open>Taking a unit from a counter makes it a reservation of the caller.\<close>

lemma queue_claim:
  assumes "queue_rel S i msgs r w"
  shows "readWriteableCnt (g_allQueue S i) OS_QUEUE_READ \<noteq> 0 \<Longrightarrow>
      queue_rel (upd_queue i (\<lambda>q. q\<lparr>readWriteableCnt := (readWriteableCnt q)(OS_QUEUE_READ := readWriteableCnt q OS_QUEUE_READ - 1)\<rparr>) S)
        i msgs (Suc r) w"
    and "readWriteableCnt (g_allQueue S i) OS_QUEUE_WRITE \<noteq> 0 \<Longrightarrow>
      queue_rel (upd_queue i (\<lambda>q. q\<lparr>readWriteableCnt := (readWriteableCnt q)(OS_QUEUE_WRITE := readWriteableCnt q OS_QUEUE_WRITE - 1)\<rparr>) S)
        i msgs r (Suc w)"
proof -
  have pos: "0 < unat (readWriteableCnt (g_allQueue S i) c)" if "readWriteableCnt (g_allQueue S i) c \<noteq> 0" for c
    using that by (simp add: unat_gt_0)
  show "queue_rel (upd_queue i (\<lambda>q. q\<lparr>readWriteableCnt := (readWriteableCnt q)(OS_QUEUE_READ := readWriteableCnt q OS_QUEUE_READ - 1)\<rparr>) S)
        i msgs (Suc r) w" if "readWriteableCnt (g_allQueue S i) OS_QUEUE_READ \<noteq> 0"
    using that assms pos [of OS_QUEUE_READ] by (auto simp: queue_rel_def Let_def unat_minus_one)
  show "queue_rel (upd_queue i (\<lambda>q. q\<lparr>readWriteableCnt := (readWriteableCnt q)(OS_QUEUE_WRITE := readWriteableCnt q OS_QUEUE_WRITE - 1)\<rparr>) S)
        i msgs r (Suc w)" if "readWriteableCnt (g_allQueue S i) OS_QUEUE_WRITE \<noteq> 0"
    using that assms pos [of OS_QUEUE_WRITE] by (auto simp: queue_rel_def Let_def unat_minus_one)
qed

lemma OsQueueParamCheck_ok:
  assumes "queue_valid S qid" "queueState (GET_QUEUE_HANDLE S qid) \<noteq> OS_QUEUE_UNUSED"
  shows "OsQueueOperateParamCheck (GET_QUEUE_HANDLE S qid) qid (OS_QUEUE_OPERATE_TYPE OS_QUEUE_READ OS_QUEUE_HEAD) sz = 0"
    and "unat sz + 4 \<le> unat (queueSize (GET_QUEUE_HANDLE S qid)) \<Longrightarrow>
      OsQueueOperateParamCheck (GET_QUEUE_HANDLE S qid) qid ty sz = 0"
proof -
  show "OsQueueOperateParamCheck (GET_QUEUE_HANDLE S qid) qid (OS_QUEUE_OPERATE_TYPE OS_QUEUE_READ OS_QUEUE_HEAD) sz = 0"
    using assms by (simp add: OsQueueOperateParamCheck_def queue_valid_def OsQueueBufferOperate_types)
  let ?z = "queueSize (GET_QUEUE_HANDLE S qid)"
  show "OsQueueOperateParamCheck (GET_QUEUE_HANDLE S qid) qid ty sz = 0" if z: "unat sz + 4 \<le> unat ?z"
  proof -
    have "(4 :: u32) \<le> ucast ?z" using z by (simp add: word_le_nat_alt)
    then have "unat (ucast ?z - 4 :: u32) = unat ?z - 4" by (simp add: unat_sub)
    then have "\<not> sz > ucast ?z - 4" using z by (simp add: word_less_nat_alt)
    then show ?thesis using assms by (simp add: OsQueueOperateParamCheck_def queue_valid_def)
  qed
qed

lemma queue_rel_state: "queue_rel S i msgs r w \<Longrightarrow> queueState (g_allQueue S i) \<noteq> OS_QUEUE_UNUSED"
  by (simp add: queue_rel_def Let_def)

lemma OsQueueOperate_read:
  assumes inv: "sched_inv (q_k S)" and rel: "queue_rel S (unat (GET_QUEUE_INDEX qid)) msgs r w" and v: "queue_valid S qid"
    and cnt: "readWriteableCnt (GET_QUEUE_HANDLE S qid) OS_QUEUE_READ \<noteq> 0"
  defines "i \<equiv> unat (GET_QUEUE_INDEX qid)"
  shows "\<exists>S'. OsQueueOperate qid (OS_QUEUE_OPERATE_TYPE OS_QUEUE_READ OS_QUEUE_HEAD) buf sz timeout S =
      ((Some 0, take (unat sz) (hd msgs) @ drop (min (unat sz) (length (hd msgs))) buf, of_nat (min (unat sz) (length (hd msgs)))), S') \<and>
    msgs \<noteq> [] \<and> sched_inv (q_k S') \<and>
    queue_rel S' i (tl msgs) r (w + (if pend (q_k S) (QueueWrite i) = [] then 0 else 1)) \<and>
    pend (q_k S') (QueueWrite i) = tl (pend (q_k S) (QueueWrite i))"
proof -
  let ?S = "upd_queue i (\<lambda>q. q\<lparr>readWriteableCnt := (readWriteableCnt q)(OS_QUEUE_READ := readWriteableCnt q OS_QUEUE_READ - 1)\<rparr>) S"
  have h: "GET_QUEUE_HANDLE S qid = g_allQueue S i" by (simp add: GET_QUEUE_HANDLE_def i_def)
  have "0 < unat (readWriteableCnt (g_allQueue S i) OS_QUEUE_READ)" using cnt h by (simp add: unat_gt_0)
  then obtain m ms where msgs: "msgs = m # ms" using rel by (cases msgs) (auto simp: queue_rel_def Let_def i_def)
  have "queue_rel ?S i (m # ms) (Suc r) w" using queue_claim(1) [OF rel [folded i_def]] cnt h msgs by simp
  from queue_finish_read [OF _ this, of 0 buf sz] inv msgs cnt show ?thesis
    using OsQueueParamCheck_ok(1) [OF v] queue_rel_state [OF rel] h
    unfolding OsQueueOperate_def by (auto simp: Let_def OsQueueBufferOperate_types i_def)
qed

lemma OsQueueOperate_write:
  assumes inv: "sched_inv (q_k S)" and rel: "queue_rel S (unat (GET_QUEUE_INDEX qid)) msgs r w" and v: "queue_valid S qid"
    and cnt: "readWriteableCnt (GET_QUEUE_HANDLE S qid) OS_QUEUE_WRITE \<noteq> 0"
    and buf: "unat sz \<le> length buf" "unat sz + 4 \<le> unat (queueSize (GET_QUEUE_HANDLE S qid))"
    and ht: "ht = OS_QUEUE_HEAD \<or> ht = OS_QUEUE_TAIL"
  defines "i \<equiv> unat (GET_QUEUE_INDEX qid)"
  shows "\<exists>S'. OsQueueOperate qid (OS_QUEUE_OPERATE_TYPE OS_QUEUE_WRITE ht) buf sz timeout S = ((Some 0, buf, sz), S') \<and>
    sched_inv (q_k S') \<and>
    queue_rel S' i (queue_spec_write ht (take (unat sz) buf) msgs) (r + (if pend (q_k S) (QueueRead i) = [] then 0 else 1)) w \<and>
    pend (q_k S') (QueueRead i) = tl (pend (q_k S) (QueueRead i))"
proof -
  let ?S = "upd_queue i (\<lambda>q. q\<lparr>readWriteableCnt := (readWriteableCnt q)(OS_QUEUE_WRITE := readWriteableCnt q OS_QUEUE_WRITE - 1)\<rparr>) S"
  have h: "GET_QUEUE_HANDLE S qid = g_allQueue S i" by (simp add: GET_QUEUE_HANDLE_def i_def)
  have ty: "OS_QUEUE_READ_WRITE_GET (OS_QUEUE_OPERATE_TYPE OS_QUEUE_WRITE ht) = OS_QUEUE_WRITE"
    using ht OsQueueBufferOperate_types by auto
  have "queue_rel ?S i msgs r (Suc w)" using queue_claim(2) [OF rel [folded i_def]] cnt h by simp
  from queue_finish_write [OF _ this ht buf(1), of 0] inv buf(2) cnt h show ?thesis
    using OsQueueParamCheck_ok(2) [OF v _ buf(2)] queue_rel_state [OF rel]
    unfolding OsQueueOperate_def by (auto simp: Let_def ty i_def)
qed

text \<open>
  C9. A queue in use is a list of messages. If a message is available, a read returns the first one, cut
  to the size of the buffer, with its length, and removes it; if a slot is available, a write adds its
  message at the end it names. The slot or the message that becomes free goes to the task that has
  waited longest for it, and is counted as available only when nobody waits. When nothing is
  available and the caller does not want to wait, the error for an empty or a full queue is returned
  and nothing changes.
\<close>

theorem queue_refines_list:
  assumes "sched_inv (q_k S)" "queue_valid S qid" "i = unat (GET_QUEUE_INDEX qid)" "queue_rel S i msgs r w"
    and "unat sz \<le> length buf" "ht = OS_QUEUE_HEAD \<or> ht = OS_QUEUE_TAIL"
    and "unat sz + 4 \<le> unat (queueSize (g_allQueue S i))"
  shows "(if readWriteableCnt (g_allQueue S i) OS_QUEUE_READ = 0
     then OsQueueOperate qid (OS_QUEUE_OPERATE_TYPE OS_QUEUE_READ OS_QUEUE_HEAD) buf sz 0 S =
       ((Some LOS_ERRNO_QUEUE_ISEMPTY, buf, sz), S)
     else \<exists>m ms S'. msgs = m # ms \<and>
       OsQueueOperate qid (OS_QUEUE_OPERATE_TYPE OS_QUEUE_READ OS_QUEUE_HEAD) buf sz timeout S =
         ((Some 0, take (unat sz) m @ drop (min (unat sz) (length m)) buf, of_nat (min (unat sz) (length m))), S') \<and>
       sched_inv (q_k S') \<and> pend (q_k S') (QueueWrite i) = tl (pend (q_k S) (QueueWrite i)) \<and>
       queue_rel S' i ms r (w + (if pend (q_k S) (QueueWrite i) = [] then 0 else 1))) \<and>
    (if readWriteableCnt (g_allQueue S i) OS_QUEUE_WRITE = 0
     then OsQueueOperate qid (OS_QUEUE_OPERATE_TYPE OS_QUEUE_WRITE ht) buf sz 0 S = ((Some LOS_ERRNO_QUEUE_ISFULL, buf, sz), S)
     else \<exists>S'. OsQueueOperate qid (OS_QUEUE_OPERATE_TYPE OS_QUEUE_WRITE ht) buf sz timeout S = ((Some 0, buf, sz), S') \<and>
       sched_inv (q_k S') \<and> pend (q_k S') (QueueRead i) = tl (pend (q_k S) (QueueRead i)) \<and>
       queue_rel S' i (queue_spec_write ht (take (unat sz) buf) msgs) (r + (if pend (q_k S) (QueueRead i) = [] then 0 else 1)) w)"
proof -
  have h: "GET_QUEUE_HANDLE S qid = g_allQueue S i" by (simp add: GET_QUEUE_HANDLE_def assms(3))
  note st = queue_rel_state [OF assms(4)]
  have ty: "OS_QUEUE_READ_WRITE_GET (OS_QUEUE_OPERATE_TYPE OS_QUEUE_WRITE ht) = OS_QUEUE_WRITE"
    "\<not> OS_QUEUE_IS_READ (OS_QUEUE_OPERATE_TYPE OS_QUEUE_WRITE ht)"
    using assms(6) OsQueueBufferOperate_types by auto
  have "OsQueueOperate qid (OS_QUEUE_OPERATE_TYPE OS_QUEUE_READ OS_QUEUE_HEAD) buf sz 0 S = ((Some LOS_ERRNO_QUEUE_ISEMPTY, buf, sz), S)"
    if "readWriteableCnt (g_allQueue S i) OS_QUEUE_READ = 0"
    using OsQueueParamCheck_ok(1) [OF assms(2)] st that h by (simp add: OsQueueOperate_def Let_def OsQueueBufferOperate_types)
  moreover have "OsQueueOperate qid (OS_QUEUE_OPERATE_TYPE OS_QUEUE_WRITE ht) buf sz 0 S = ((Some LOS_ERRNO_QUEUE_ISFULL, buf, sz), S)"
    if "readWriteableCnt (g_allQueue S i) OS_QUEUE_WRITE = 0"
    using OsQueueParamCheck_ok(2) [OF assms(2)] st that h assms(7) by (simp add: OsQueueOperate_def Let_def ty)
  ultimately show ?thesis
    using OsQueueOperate_read [OF assms(1) assms(4) [unfolded assms(3)] assms(2), of buf sz timeout]
      OsQueueOperate_write [OF assms(1) assms(4) [unfolded assms(3)] assms(2) _ assms(5) _ assms(6), of timeout] h assms(3,7)
    by (auto simp: neq_Nil_conv)
qed

text \<open>One queue of two slots for messages of four bytes, over the tasks of \<open>k_boot\<close>.\<close>

definition queue_one :: queue_sys where
  "queue_one = \<lparr>q_k = k_boot, g_allQueue = (\<lambda>_. queue_zero)(0 := \<lparr>queueHandle = Some (\<lambda>_. 0), queueState = OS_QUEUE_INUSED,
     queueLen = 2, queueSize = 8, queueID = 0, queueHead = 0, queueTail = 0, readWriteableCnt = (\<lambda>_. 0)(OS_QUEUE_WRITE := 2)\<rparr>),
     g_freeQueueList = [], queue_limit = 1\<rparr>"

lemma queue_one_rel: "sched_inv (q_k queue_one)" "queue_valid queue_one 0" "queue_rel queue_one 0 [] 0 0"
  "unat (GET_QUEUE_INDEX 0) = 0"
  using sched_inv_boot
  by (simp_all add: queue_one_def queue_valid_def GET_QUEUE_HANDLE_def GET_QUEUE_INDEX_def queue_rel_def queue_ring_def k_boot_def)

theorem queue_refines_list_witness:
  "fst (OsQueueOperate 0 (OS_QUEUE_OPERATE_TYPE OS_QUEUE_READ OS_QUEUE_HEAD) [7, 8] 2 0 queue_one) =
     (Some LOS_ERRNO_QUEUE_ISEMPTY, [7, 8], 2) \<and>
   queue_rel (snd (OsQueueOperate 0 (OS_QUEUE_OPERATE_TYPE OS_QUEUE_WRITE OS_QUEUE_TAIL) [7, 8] 2 0 queue_one)) 0 [[7, 8]] 0 0"
proof -
  have "readWriteableCnt (g_allQueue queue_one 0) OS_QUEUE_READ = 0" "readWriteableCnt (g_allQueue queue_one 0) OS_QUEUE_WRITE \<noteq> 0"
    "unat (2 :: u32) + 4 \<le> unat (queueSize (g_allQueue queue_one 0))" "pend (q_k queue_one) (QueueRead 0) = []"
    by (simp_all add: queue_one_def k_boot_def)
  with queue_refines_list [OF queue_one_rel(1,2) queue_one_rel(4) [symmetric] queue_one_rel(3), of 2 "[7, 8]" OS_QUEUE_TAIL 0]
  show ?thesis by (auto simp: queue_spec_write_def)
qed

text \<open>
  What a task that waited for a queue does when it runs again. If its time ran out it returns the timeout
  error, its mark of the timeout is gone and no queue has changed. Otherwise it was given a reservation: a
  reader returns the first message and removes it, a writer adds its message; there is always a message for
  the one and a slot for the other.
\<close>

theorem queue_resumed:
  assumes "sched_inv (q_k S)" "i = unat (GET_QUEUE_INDEX qid)"
  shows "(has (status (q_k S) t) OS_TASK_STATUS_TIMEOUT \<longrightarrow>
      fst (OsQueueOperate_resume t qid ty buf sz S) = (Some LOS_ERRNO_QUEUE_TIMEOUT, buf, sz) \<and>
      g_allQueue (snd (OsQueueOperate_resume t qid ty buf sz S)) = g_allQueue S) \<and>
    (\<not> has (status (q_k S) t) OS_TASK_STATUS_TIMEOUT \<and> queue_rel S i msgs (Suc r) w \<longrightarrow>
      (\<exists>m ms S'. msgs = m # ms \<and> OsQueueOperate_resume t qid (OS_QUEUE_OPERATE_TYPE OS_QUEUE_READ OS_QUEUE_HEAD) buf sz S =
         ((Some 0, take (unat sz) m @ drop (min (unat sz) (length m)) buf, of_nat (min (unat sz) (length m))), S') \<and>
         sched_inv (q_k S') \<and> queue_rel S' i ms r (w + (if pend (q_k S) (QueueWrite i) = [] then 0 else 1)))) \<and>
    (\<not> has (status (q_k S) t) OS_TASK_STATUS_TIMEOUT \<and> queue_rel S i msgs r (Suc w) \<and> (ht = OS_QUEUE_HEAD \<or> ht = OS_QUEUE_TAIL) \<and>
       unat sz \<le> length buf \<and> unat sz + 4 \<le> unat (queueSize (g_allQueue S i)) \<longrightarrow>
      (\<exists>S'. OsQueueOperate_resume t qid (OS_QUEUE_OPERATE_TYPE OS_QUEUE_WRITE ht) buf sz S = ((Some 0, buf, sz), S') \<and>
         sched_inv (q_k S') \<and> queue_rel S' i (queue_spec_write ht (take (unat sz) buf) msgs)
           (r + (if pend (q_k S) (QueueRead i) = [] then 0 else 1)) w))"
proof (intro conjI impI)
  assume "has (status (q_k S) t) OS_TASK_STATUS_TIMEOUT"
  then show "fst (OsQueueOperate_resume t qid ty buf sz S) = (Some LOS_ERRNO_QUEUE_TIMEOUT, buf, sz)"
    "g_allQueue (snd (OsQueueOperate_resume t qid ty buf sz S)) = g_allQueue S"
    by (simp_all add: OsQueueOperate_resume_def wait_resume_def queue_after_wait_def)
next
  assume a: "\<not> has (status (q_k S) t) OS_TASK_STATUS_TIMEOUT \<and> queue_rel S i msgs (Suc r) w"
  then obtain m ms where msgs: "msgs = m # ms" by (cases msgs) (auto simp: queue_rel_def Let_def)
  from queue_finish_read [OF assms(1), of i m ms r w 0 buf sz] a msgs assms(2)
  show "\<exists>m ms S'. msgs = m # ms \<and> OsQueueOperate_resume t qid (OS_QUEUE_OPERATE_TYPE OS_QUEUE_READ OS_QUEUE_HEAD) buf sz S =
         ((Some 0, take (unat sz) m @ drop (min (unat sz) (length m)) buf, of_nat (min (unat sz) (length m))), S') \<and>
         sched_inv (q_k S') \<and> queue_rel S' i ms r (w + (if pend (q_k S) (QueueWrite i) = [] then 0 else 1))"
    by (auto simp: OsQueueOperate_resume_def wait_resume_def queue_after_wait_def LOS_ERRNO_TSK_TIMEOUT_def)
next
  assume a: "\<not> has (status (q_k S) t) OS_TASK_STATUS_TIMEOUT \<and> queue_rel S i msgs r (Suc w) \<and> (ht = OS_QUEUE_HEAD \<or> ht = OS_QUEUE_TAIL) \<and>
       unat sz \<le> length buf \<and> unat sz + 4 \<le> unat (queueSize (g_allQueue S i))"
  with queue_finish_write [OF assms(1), of i msgs r w ht sz buf 0] assms(2)
  show "\<exists>S'. OsQueueOperate_resume t qid (OS_QUEUE_OPERATE_TYPE OS_QUEUE_WRITE ht) buf sz S = ((Some 0, buf, sz), S') \<and>
         sched_inv (q_k S') \<and> queue_rel S' i (queue_spec_write ht (take (unat sz) buf) msgs)
           (r + (if pend (q_k S) (QueueRead i) = [] then 0 else 1)) w"
    by (auto simp: OsQueueOperate_resume_def wait_resume_def queue_after_wait_def LOS_ERRNO_TSK_TIMEOUT_def)
qed

text \<open>The queue of \<open>queue_one\<close> when a writer that waited was given one of its slots.\<close>

definition queue_given :: queue_sys where
  "queue_given = upd_queue 0 (\<lambda>q. q\<lparr>readWriteableCnt := (readWriteableCnt q)(OS_QUEUE_WRITE := 1)\<rparr>) queue_one"

theorem queue_resumed_witness:
  "queue_rel (snd (OsQueueOperate_resume 1 0 (OS_QUEUE_OPERATE_TYPE OS_QUEUE_WRITE OS_QUEUE_TAIL) [5] 1 queue_given)) 0 [[5]] 0 0"
proof -
  have "sched_inv (q_k queue_given)" "0 = unat (GET_QUEUE_INDEX 0)" "queue_rel queue_given 0 [] 0 (Suc 0)"
    "\<not> has (status (q_k queue_given) 1) OS_TASK_STATUS_TIMEOUT" "pend (q_k queue_given) (QueueRead 0) = []"
    "queueSize (g_allQueue queue_given 0) = 8"
    using queue_one_rel(1,3,4)
    by (simp_all add: queue_given_def queue_rel_def queue_ring_def Let_def queue_one_def k_boot_def tcb_boot_def tcb_blank_def status_def)
  with queue_resumed [of queue_given 0 0 1 0 "[5]" 1 "[]" 0 0 OS_QUEUE_TAIL] show ?thesis
    by (auto simp: queue_spec_write_def)
qed

lemma QUEUE_handle: "GET_QUEUE_INDEX = handle_index" "SET_QUEUE_ID = handle_make"
  by (simp_all add: fun_eq_iff GET_QUEUE_INDEX_def SET_QUEUE_ID_def handle_index_def handle_make_def)

text \<open>
  A queue is deleted only when it is quiet: no task waits on it, and no woken reader or writer has yet
  to collect its message or slot. Messages may still be in it. Afterwards its handle is dead: reading, writing and
  deleting with it fail with the error for a queue that was not created.
\<close>

theorem queue_delete_quiet:
  assumes "queue_rel S i msgs r w" "i = unat (GET_QUEUE_INDEX qid)" "i < queue_limit S" "queue_valid S qid"
    and "freed \<noteq> LOS_ERRNO_QUEUE_IN_TSKUSE" "freed \<noteq> LOS_ERRNO_QUEUE_IN_TSKWRITE"
  shows "(fst (LOS_QueueDelete freed qid S) = freed \<longleftrightarrow>
      r = 0 \<and> w = 0 \<and> pend (q_k S) (QueueRead i) = [] \<and> pend (q_k S) (QueueWrite i) = [] \<and> pend (q_k S) (QueueMem i) = []) \<and>
    (fst (LOS_QueueDelete freed qid S) = freed \<longrightarrow>
      (let S' = snd (LOS_QueueDelete freed qid S)
       in LOS_QueueDelete freed qid S' = (LOS_ERRNO_QUEUE_NOT_CREATE, S') \<and>
          OsQueueOperate qid ty buf sz timeout S' = ((Some LOS_ERRNO_QUEUE_NOT_CREATE, buf, sz), S') \<and>
          i \<in> set (g_freeQueueList S')))"
proof -
  let ?q = "g_allQueue S i"
  have q: "GET_QUEUE_HANDLE S qid = ?q" "queueID ?q = qid" "queueState ?q \<noteq> OS_QUEUE_UNUSED"
    using assms(1,2,4) by (simp_all add: GET_QUEUE_HANDLE_def queue_valid_def queue_rel_def Let_def)
  have cnt: "unat (readWriteableCnt ?q OS_QUEUE_WRITE) + unat (readWriteableCnt ?q OS_QUEUE_READ) = unat (queueLen ?q) \<longleftrightarrow> r = 0 \<and> w = 0"
    using assms(1) by (auto simp: queue_rel_def Let_def)
  have "SET_QUEUE_ID (GET_QUEUE_COUNT qid + 1) (GET_QUEUE_INDEX qid) \<noteq> qid"
    unfolding QUEUE_handle GET_QUEUE_COUNT_def by (rule handle_next)
  with q cnt assms(2,3,5,6) show ?thesis
    by (auto simp: LOS_QueueDelete_def Let_def OsQueueOperate_def OsQueueOperateParamCheck_def GET_QUEUE_HANDLE_def)
qed

theorem queue_delete_quiet_witness:
  "fst (LOS_QueueDelete 0 0 queue_one) = 0 \<and> fst (LOS_QueueDelete 0 0 (snd (LOS_QueueDelete 0 0 queue_one))) = LOS_ERRNO_QUEUE_NOT_CREATE"
proof -
  have "0 < queue_limit queue_one" "pend (q_k queue_one) (QueueRead 0) = []" "pend (q_k queue_one) (QueueWrite 0) = []"
    "pend (q_k queue_one) (QueueMem 0) = []"
    by (simp_all add: queue_one_def k_boot_def)
  with queue_delete_quiet [OF queue_one_rel(3) queue_one_rel(4) [symmetric] _ queue_one_rel(2), of 0]
  show ?thesis by (auto simp: Let_def)
qed

text \<open>
  Creating a queue checks the lengths, needs memory and a free control block, and gives an empty
  queue with all its slots available, whose handle is valid.
\<close>

theorem queue_create_empty:
  assumes "g_freeQueueList S = i # rest" "handle_index (queueID (g_allQueue S i)) = of_nat i" "i < 65536"
  shows "(case LOS_QueueCreate len maxMsgSize (Some mem) S of
      (Inl e, S') \<Rightarrow> S' = S \<and> (if maxMsgSize > 0xFFFB then e = LOS_ERRNO_QUEUE_SIZE_TOO_BIG
                            else (len = 0 \<or> maxMsgSize = 0) \<and> e = LOS_ERRNO_QUEUE_PARA_ISZERO)
    | (Inr qid, S') \<Rightarrow> queue_valid S' qid \<and> unat (GET_QUEUE_INDEX qid) = i \<and> queue_rel S' i [] 0 0 \<and> g_freeQueueList S' = rest \<and>
        queueLen (g_allQueue S' i) = len \<and> unat (queueSize (g_allQueue S' i)) = unat maxMsgSize + 4) \<and>
    fst (LOS_QueueCreate len maxMsgSize None S) \<noteq> Inr qid"
proof (cases "maxMsgSize > 0xFFFB \<or> len = 0 \<or> maxMsgSize = 0")
  case True
  then show ?thesis by (auto simp: LOS_QueueCreate_def)
next
  case False
  then have sz: "unat (maxMsgSize + 4) = unat maxMsgSize + 4" "0 < unat maxMsgSize" "0 < unat len"
    by (auto simp: word_less_nat_alt unat_word_ariths unat_gt_0)
  have idx: "unat (GET_QUEUE_INDEX (queueID (g_allQueue S i))) = i"
    unfolding QUEUE_handle assms(2) using assms(3) by (simp add: unat_of_nat take_bit_nat_eq_self)
  show ?thesis
    using False assms(1) sz idx
    by (auto simp: LOS_QueueCreate_def Let_def queue_valid_def GET_QUEUE_HANDLE_def queue_rel_def queue_ring_def)
qed

theorem queue_create_empty_witness:
  "queue_rel (snd (LOS_QueueCreate 3 16 (Some (\<lambda>_. 0)) (OsAllQueueCBInit queue_one))) 0 [] 0 0"
proof -
  have one: "queue_init_loop 1 i S = queue_init_loop (Suc 0) i S" for i S by simp
  have f: "g_freeQueueList (OsAllQueueCBInit queue_one) = [0]" "queueID (g_allQueue (OsAllQueueCBInit queue_one) 0) = 0"
    by (simp_all add: OsAllQueueCBInit_def one queue_one_def queue_zero_def)
  have "handle_index 0 = of_nat 0" by (simp add: handle_index_def)
  moreover obtain a S' where eq: "LOS_QueueCreate 3 16 (Some (\<lambda>_. 0)) (OsAllQueueCBInit queue_one) = (a, S')" by fastforce
  ultimately show ?thesis
    using queue_create_empty [of "OsAllQueueCBInit queue_one" 0 "[]" 16 3 "\<lambda>_. 0"] f by (cases a) auto
qed

end
