(* ===== verification/Ipc_Event.thy ===== *)
theory Ipc_Event
  imports Sched_Ops
begin

text \<open>
  Events, \<^verbatim>\<open>kernel/base/ipc/los_event.c\<close>: a set of bits that tasks wait for, any of a mask (\<open>OR\<close>) or all of
  it (\<open>AND\<close>), with the option to clear what was read. An event control block is named by a number,
  \<open>None\<close> is the null pointer; its list of waiting tasks is \<open>EventList i\<close>.
\<close>

section \<open>Operations\<close>

abbreviation (input) LOS_WAITMODE_AND :: u32 where "LOS_WAITMODE_AND \<equiv> 4"
abbreviation (input) LOS_WAITMODE_OR :: u32 where "LOS_WAITMODE_OR \<equiv> 2"
abbreviation (input) LOS_WAITMODE_CLR :: u32 where "LOS_WAITMODE_CLR \<equiv> 1"
abbreviation (input) LOS_ERRTYPE_ERROR :: u32 where "LOS_ERRTYPE_ERROR \<equiv> 0x02000000"
abbreviation (input) LOS_ERRNO_EVENT_SETBIT_INVALID :: u32 where "LOS_ERRNO_EVENT_SETBIT_INVALID \<equiv> 0x02001C00"
abbreviation (input) LOS_ERRNO_EVENT_READ_TIMEOUT :: u32 where "LOS_ERRNO_EVENT_READ_TIMEOUT \<equiv> 0x02001C01"
abbreviation (input) LOS_ERRNO_EVENT_EVENTMASK_INVALID :: u32 where "LOS_ERRNO_EVENT_EVENTMASK_INVALID \<equiv> 0x02001C02"
abbreviation (input) LOS_ERRNO_EVENT_READ_IN_INTERRUPT :: u32 where "LOS_ERRNO_EVENT_READ_IN_INTERRUPT \<equiv> 0x02001C03"
abbreviation (input) LOS_ERRNO_EVENT_FLAGS_INVALID :: u32 where "LOS_ERRNO_EVENT_FLAGS_INVALID \<equiv> 0x02001C04"
abbreviation (input) LOS_ERRNO_EVENT_READ_IN_LOCK :: u32 where "LOS_ERRNO_EVENT_READ_IN_LOCK \<equiv> 0x02001C05"
abbreviation (input) LOS_ERRNO_EVENT_PTR_NULL :: u32 where "LOS_ERRNO_EVENT_PTR_NULL \<equiv> 0x02001C06"
abbreviation (input) LOS_ERRNO_EVENT_READ_IN_SYSTEM_TASK :: u32 where "LOS_ERRNO_EVENT_READ_IN_SYSTEM_TASK \<equiv> 0x02001C07"
abbreviation (input) LOS_ERRNO_EVENT_SHOULD_NOT_DESTROY :: u32 where "LOS_ERRNO_EVENT_SHOULD_NOT_DESTROY \<equiv> 0x02001C08"
abbreviation (input) OS_TASK_WAIT_EVENT :: u16 where "OS_TASK_WAIT_EVENT \<equiv> 12"

record event_sys =
  ev_k :: kstate
  uwEventID :: "nat \<Rightarrow> u32"

definition set_eventID :: "nat \<Rightarrow> u32 \<Rightarrow> event_sys \<Rightarrow> event_sys" where
  "set_eventID i w S = S\<lparr>uwEventID := (uwEventID S)(i := w)\<rparr>"

definition LOS_EventInit :: "nat option \<Rightarrow> event_sys \<Rightarrow> u32 \<times> event_sys" where
  "LOS_EventInit eventCB S = (case eventCB of
     None \<Rightarrow> (LOS_ERRNO_EVENT_PTR_NULL, S)
   | Some i \<Rightarrow> (0, (set_eventID i 0 S)\<lparr>ev_k := (ev_k S)\<lparr>pend := (pend (ev_k S))(EventList i := [])\<rparr>\<rparr>))"

definition OsEventParamCheck :: "'a option \<Rightarrow> u32 \<Rightarrow> u32 \<Rightarrow> u32" where
  "OsEventParamCheck ptr evMask mode =
     (if ptr = None then LOS_ERRNO_EVENT_PTR_NULL
      else if evMask = 0 then LOS_ERRNO_EVENT_EVENTMASK_INVALID
      else if has evMask LOS_ERRTYPE_ERROR then LOS_ERRNO_EVENT_SETBIT_INVALID
      else if has mode LOS_WAITMODE_OR \<and> has mode LOS_WAITMODE_AND \<or>
              has mode (NOT (LOS_WAITMODE_OR OR LOS_WAITMODE_AND OR LOS_WAITMODE_CLR)) \<or>
              \<not> has mode (LOS_WAITMODE_OR OR LOS_WAITMODE_AND)
        then LOS_ERRNO_EVENT_FLAGS_INVALID
      else 0)"

text \<open>\<open>OsEventPoll\<close> on the word it is given: the result and the new value of the word.\<close>

definition OsEventPoll :: "u32 \<Rightarrow> u32 \<Rightarrow> u32 \<Rightarrow> u32 \<times> u32" where
  "OsEventPoll eventID evMask mode =
     (let ret = (if has mode LOS_WAITMODE_OR
                 then (if eventID AND evMask \<noteq> 0 then eventID AND evMask else 0)
                 else (if evMask \<noteq> 0 \<and> evMask = eventID AND evMask then eventID AND evMask else 0))
      in (ret, if ret \<noteq> 0 \<and> has mode LOS_WAITMODE_CLR then eventID AND NOT ret else eventID))"

definition OsEventReadCheck :: "nat option \<Rightarrow> u32 \<Rightarrow> u32 \<Rightarrow> event_sys \<Rightarrow> u32" where
  "OsEventReadCheck eventCB evMask mode S =
     (let ret = OsEventParamCheck eventCB evMask mode
      in if ret \<noteq> 0 then ret
         else if int_active (ev_k S) then LOS_ERRNO_EVENT_READ_IN_INTERRUPT
         else if has (status (ev_k S) (currTask (ev_k S))) OS_TASK_FLAG_SYSTEM_TASK then LOS_ERRNO_EVENT_READ_IN_SYSTEM_TASK
         else 0)"

definition event_poll :: "nat \<Rightarrow> u32 \<Rightarrow> u32 \<Rightarrow> event_sys \<Rightarrow> u32 \<times> event_sys" where
  "event_poll i evMask mode S =
     (let (ret, w) = OsEventPoll (uwEventID S i) evMask mode in (ret, set_eventID i w S))"

text \<open>The end of \<open>OsEventReadImp\<close>, after the wait.\<close>

definition event_after_wait :: "u32 \<Rightarrow> nat \<Rightarrow> u32 \<Rightarrow> u32 \<Rightarrow> event_sys \<Rightarrow> u32 \<times> event_sys" where
  "event_after_wait ret i evMask mode S =
     (if ret = LOS_ERRNO_TSK_TIMEOUT then (LOS_ERRNO_EVENT_READ_TIMEOUT, S) else event_poll i evMask mode S)"

definition OsEventReadImp :: "nat \<Rightarrow> u32 \<Rightarrow> u32 \<Rightarrow> u32 \<Rightarrow> bool \<Rightarrow> event_sys \<Rightarrow> u32 option \<times> event_sys" where
  "OsEventReadImp i evMask mode timeout once S =
     (let runTask = currTask (ev_k S);
          (ret, S1) = (if once then (0, S) else event_poll i evMask mode S)
      in if ret \<noteq> 0 then (Some ret, S1)
         else if timeout = 0 then (Some ret, S1)
         else let (preemptable, k1) = OsPreemptableInSched (ev_k S1)
              in if \<not> preemptable then (Some LOS_ERRNO_EVENT_READ_IN_LOCK, S1\<lparr>ev_k := k1\<rparr>)
                 else let k2 = upd_tcb runTask (\<lambda>c. c\<lparr>eventMask := evMask, eventMode := mode, taskEvent := Some i\<rparr>) k1;
                          (r, k3) = ops_wait runTask (AtHead (EventList i)) timeout
                                      (OsTaskWaitSetPendMask OS_TASK_WAIT_EVENT evMask k2)
                      in (case r of
                            None \<Rightarrow> (None, S1\<lparr>ev_k := k3\<rparr>)
                          | Some r \<Rightarrow> (let (r', S2) = event_after_wait r i evMask mode (S1\<lparr>ev_k := k3\<rparr>) in (Some r', S2))))"

definition OsEventReadImp_resume :: "nat \<Rightarrow> nat \<Rightarrow> u32 \<Rightarrow> u32 \<Rightarrow> event_sys \<Rightarrow> u32 \<times> event_sys" where
  "OsEventReadImp_resume t i evMask mode S =
     (let (r, k) = wait_resume t (ev_k S) in event_after_wait r i evMask mode (S\<lparr>ev_k := k\<rparr>))"

definition OsEventRead :: "nat option \<Rightarrow> u32 \<Rightarrow> u32 \<Rightarrow> u32 \<Rightarrow> bool \<Rightarrow> event_sys \<Rightarrow> u32 option \<times> event_sys" where
  "OsEventRead eventCB evMask mode timeout once S =
     (let ret = OsEventReadCheck eventCB evMask mode S
      in if ret \<noteq> 0 then (Some ret, S)
         else (case eventCB of
                 Some i \<Rightarrow> OsEventReadImp i evMask mode timeout once S
               | None \<Rightarrow> (Some ret, S)))"

definition event_ready :: "TCB \<Rightarrow> u32 \<Rightarrow> u32 \<Rightarrow> bool" where
  "event_ready c w events \<longleftrightarrow> has (eventMode c) LOS_WAITMODE_OR \<and> eventMask c AND events \<noteq> 0 \<or>
     has (eventMode c) LOS_WAITMODE_AND \<and> eventMask c AND w = eventMask c"

definition OsEventResume :: "nat \<Rightarrow> nat \<Rightarrow> u32 \<Rightarrow> event_sys \<Rightarrow> bool \<times> event_sys" where
  "OsEventResume resumedTask i events S =
     (if event_ready (tcb (ev_k S) resumedTask) (uwEventID S i) events
      then (True, S\<lparr>ev_k := ops_wake resumedTask (OsTaskWakeClearPendMask resumedTask
                      (upd_tcb resumedTask (\<lambda>c. c\<lparr>taskEvent := None\<rparr>) (ev_k S)))\<rparr>)
      else (False, S))"

text \<open>
  The loop of \<open>OsEventWriteUnsafe\<close>. The next task is read from the list before the current one is
  resumed, which takes only the current one off the list, so the loop visits the tasks that were on the
  list at its start.
\<close>

fun event_write_loop :: "nat \<Rightarrow> u32 \<Rightarrow> bool \<Rightarrow> nat list \<Rightarrow> bool \<Rightarrow> event_sys \<Rightarrow> bool \<times> event_sys" where
  "event_write_loop i events once [] flag0 S = (flag0, S)"
| "event_write_loop i events once (resumedTask # rest) flag0 S =
     (let (resumed, S1) = OsEventResume resumedTask i events S; flag = (flag0 \<or> resumed)
      in if once then (flag, S1) else event_write_loop i events once rest flag S1)"

definition OsEventWriteUnsafe :: "nat \<Rightarrow> u32 \<Rightarrow> bool \<Rightarrow> event_sys \<Rightarrow> bool \<times> event_sys" where
  "OsEventWriteUnsafe i events once S =
     (let S1 = set_eventID i (uwEventID S i OR events) S
      in event_write_loop i events once (pend (ev_k S1) (EventList i)) False S1)"

definition OsEventWrite :: "nat option \<Rightarrow> u32 \<Rightarrow> bool \<Rightarrow> event_sys \<Rightarrow> u32 \<times> event_sys" where
  "OsEventWrite eventCB events once S = (case eventCB of
     None \<Rightarrow> (LOS_ERRNO_EVENT_PTR_NULL, S)
   | Some i \<Rightarrow>
       if has events LOS_ERRTYPE_ERROR then (LOS_ERRNO_EVENT_SETBIT_INVALID, S)
       else let (exitFlag, S1) = OsEventWriteUnsafe i events once S
            in (0, if exitFlag then S1\<lparr>ev_k := LOS_Schedule (ev_k S1)\<rparr> else S1))"

definition LOS_EventPoll :: "u32 option \<Rightarrow> u32 \<Rightarrow> u32 \<Rightarrow> u32 \<times> u32 option" where
  "LOS_EventPoll eventID evMask mode =
     (let ret = OsEventParamCheck eventID evMask mode
      in if ret \<noteq> 0 then (ret, eventID)
         else (case eventID of
                 Some w \<Rightarrow> (let (r, w') = OsEventPoll w evMask mode in (r, Some w'))
               | None \<Rightarrow> (ret, None)))"

definition LOS_EventRead :: "nat option \<Rightarrow> u32 \<Rightarrow> u32 \<Rightarrow> u32 \<Rightarrow> event_sys \<Rightarrow> u32 option \<times> event_sys" where
  "LOS_EventRead eventCB evMask mode timeout S = OsEventRead eventCB evMask mode timeout False S"

definition LOS_EventWrite :: "nat option \<Rightarrow> u32 \<Rightarrow> event_sys \<Rightarrow> u32 \<times> event_sys" where
  "LOS_EventWrite eventCB events S = OsEventWrite eventCB events False S"

definition OsEventReadOnce :: "nat option \<Rightarrow> u32 \<Rightarrow> u32 \<Rightarrow> u32 \<Rightarrow> event_sys \<Rightarrow> u32 option \<times> event_sys" where
  "OsEventReadOnce eventCB evMask mode timeout S = OsEventRead eventCB evMask mode timeout True S"

definition OsEventWriteOnce :: "nat option \<Rightarrow> u32 \<Rightarrow> event_sys \<Rightarrow> u32 \<times> event_sys" where
  "OsEventWriteOnce eventCB events S = OsEventWrite eventCB events True S"

definition LOS_EventDestroy :: "nat option \<Rightarrow> event_sys \<Rightarrow> u32 \<times> event_sys" where
  "LOS_EventDestroy eventCB S = (case eventCB of
     None \<Rightarrow> (LOS_ERRNO_EVENT_PTR_NULL, S)
   | Some i \<Rightarrow>
       if pend (ev_k S) (EventList i) \<noteq> [] then (LOS_ERRNO_EVENT_SHOULD_NOT_DESTROY, S)
       else (0, set_eventID i 0 S))"

definition LOS_EventClear :: "nat option \<Rightarrow> u32 \<Rightarrow> event_sys \<Rightarrow> u32 \<times> event_sys" where
  "LOS_EventClear eventCB evMask S = (case eventCB of
     None \<Rightarrow> (LOS_ERRNO_EVENT_PTR_NULL, S)
   | Some i \<Rightarrow> (0, set_eventID i (uwEventID S i AND evMask) S))"

text \<open>\<open>EventCond\<close>, with the value that its pointer \<open>realValue\<close> leads to.\<close>

record EventCond =
  realValue :: int
  cond_value :: int
  clearEvent :: u32

definition OsEventReadWithCond ::
    "EventCond \<Rightarrow> nat option \<Rightarrow> u32 \<Rightarrow> u32 \<Rightarrow> u32 \<Rightarrow> event_sys \<Rightarrow> u32 option \<times> event_sys" where
  "OsEventReadWithCond cond eventCB evMask mode timeout S =
     (let ret = OsEventReadCheck eventCB evMask mode S
      in if ret \<noteq> 0 then (Some ret, S)
         else (case eventCB of
                 Some i \<Rightarrow>
                   if realValue cond \<noteq> cond_value cond then (Some ret, set_eventID i (uwEventID S i AND clearEvent cond) S)
                   else OsEventReadImp i evMask mode timeout False S
               | None \<Rightarrow> (Some ret, S)))"

section \<open>Waking by events\<close>

lemma set_eventID_simps [simp]:
  "ev_k (set_eventID i w S) = ev_k S" "uwEventID (set_eventID i w S) = (uwEventID S)(i := w)"
  by (simp_all add: set_eventID_def)

lemma sched_inv_taskEvent: "sched_inv k \<Longrightarrow> sched_inv (upd_tcb t (\<lambda>c. c\<lparr>taskEvent := e\<rparr>) k)"
  by (rule sched_inv_upd_tcb) (simp_all add: tcb_same_def)

lemma OsEventResume_wakes:
  assumes inv: "sched_inv (ev_k S)" and t: "t \<in> set (pend (ev_k S) (EventList i))"
    and ready: "event_ready (tcb (ev_k S) t) (uwEventID S i) events"
  defines "j \<equiv> ev_k (snd (OsEventResume t i events S))"
  shows "fst (OsEventResume t i events S)" "sched_inv j" "pend j (EventList i) = remove1 t (pend (ev_k S) (EventList i))"
    "\<not> has (status j t) OS_TASK_STATUS_PENDING" "u \<noteq> t \<Longrightarrow> tcb j u = tcb (ev_k S) u"
    "uwEventID (snd (OsEventResume t i events S)) = uwEventID S"
    "ipc_head g \<Longrightarrow> g \<noteq> EventList i \<Longrightarrow> pend j g = pend (ev_k S) g"
proof -
  let ?k = "upd_tcb t (\<lambda>c. c\<lparr>taskEvent := None\<rparr>) (ev_k S)"
  have h: "ipc_head (EventList i)" by simp
  have t': "t \<in> set (pend ?k (EventList i))" using t by simp
  have j: "j = ops_wake t (OsTaskWakeClearPendMask t ?k)" using ready by (simp add: j_def OsEventResume_def)
  note w = wake_any [OF sched_inv_taskEvent [OF inv] h t', folded j]
  show "fst (OsEventResume t i events S)" "uwEventID (snd (OsEventResume t i events S)) = uwEventID S"
    using ready by (simp_all add: OsEventResume_def)
  show "sched_inv j" "pend j (EventList i) = remove1 t (pend (ev_k S) (EventList i))"
    "\<not> has (status j t) OS_TASK_STATUS_PENDING" "u \<noteq> t \<Longrightarrow> tcb j u = tcb (ev_k S) u"
    "ipc_head g \<Longrightarrow> g \<noteq> EventList i \<Longrightarrow> pend j g = pend (ev_k S) g"
    using w by auto
qed

text \<open>The tasks of \<open>xs\<close> that the events satisfy.\<close>

definition event_hit :: "event_sys \<Rightarrow> nat \<Rightarrow> u32 \<Rightarrow> nat list \<Rightarrow> nat \<Rightarrow> bool" where
  "event_hit S i events xs t \<longleftrightarrow> t \<in> set xs \<and> event_ready (tcb (ev_k S) t) (uwEventID S i) events"

lemma event_write_loop_all:
  assumes "sched_inv (ev_k S)" "distinct xs" "set xs \<subseteq> set (pend (ev_k S) (EventList i))"
    and "event_write_loop i events False xs fl S = (f, S')"
  shows "sched_inv (ev_k S') \<and> uwEventID S' = uwEventID S \<and> f = (fl \<or> (\<exists>t. event_hit S i events xs t)) \<and>
    pend (ev_k S') (EventList i) = filter (\<lambda>t. \<not> event_hit S i events xs t) (pend (ev_k S) (EventList i)) \<and>
    (\<forall>t. if event_hit S i events xs t then \<not> has (status (ev_k S') t) OS_TASK_STATUS_PENDING
         else tcb (ev_k S') t = tcb (ev_k S) t)"
  using assms
proof (induction xs arbitrary: fl S)
  case Nil
  then show ?case by (simp add: event_hit_def)
next
  case (Cons t xs)
  have t: "t \<in> set (pend (ev_k S) (EventList i))" "t \<notin> set xs" "distinct xs" using Cons.prems(2,3) by auto
  show ?case
  proof (cases "event_ready (tcb (ev_k S) t) (uwEventID S i) events")
    case False
    then have hit: "event_hit S i events (t # xs) = event_hit S i events xs" by (auto simp: event_hit_def fun_eq_iff)
    have "event_write_loop i events False xs fl S = (f, S')"
      using Cons.prems(4) False by (simp add: OsEventResume_def)
    from Cons.IH [OF Cons.prems(1) t(3) _ this] Cons.prems(3) show ?thesis unfolding hit by simp
  next
    case True
    let ?S = "snd (OsEventResume t i events S)"
    note w = OsEventResume_wakes [OF Cons.prems(1) t(1) True]
    have d: "distinct (pend (ev_k S) (EventList i))"
      using lists_okD(1) rq_invD(1) sched_coreD(1) Cons.prems(1) by (auto simp: sched_inv_def)
    have p: "pend (ev_k ?S) (EventList i) = filter (\<lambda>u. u \<noteq> t) (pend (ev_k S) (EventList i))"
      unfolding w(3) distinct_remove1_removeAll [OF d] removeAll_filter_not_eq by (metis (no_types))
    have hit: "event_hit ?S i events xs u \<longleftrightarrow> event_hit S i events xs u" for u
      using w(5) [of u] w(6) t(2) by (cases "u = t") (auto simp: event_hit_def)
    have eq: "event_write_loop i events False xs True ?S = (f, S')"
      using Cons.prems(4) w(1) by (simp add: case_prod_beta Let_def)
    have sub: "set xs \<subseteq> set (pend (ev_k ?S) (EventList i))" using Cons.prems(3) t(2) p by auto
    have th: "event_hit S i events (t # xs) u \<longleftrightarrow> u = t \<or> event_hit S i events xs u" for u
      using True by (auto simp: event_hit_def)
    have nt: "\<not> event_hit S i events xs t" using t(2) by (simp add: event_hit_def)
    note ih = Cons.IH [OF w(2) t(3) sub eq, unfolded hit]
    have last: "if u = t \<or> event_hit S i events xs u then \<not> has (status (ev_k S') u) OS_TASK_STATUS_PENDING
        else tcb (ev_k S') u = tcb (ev_k S) u" for u
      using ih [unfolded status_def] w(4) [unfolded status_def] w(5) nt unfolding status_def by (cases "u = t") auto
    from ih have "pend (ev_k S') (EventList i) = filter (\<lambda>u. \<not> (u = t \<or> event_hit S i events xs u)) (pend (ev_k S) (EventList i))"
      unfolding p filter_filter by (simp add: conj_commute)
    moreover from ih have "sched_inv (ev_k S') \<and> uwEventID S' = uwEventID S \<and> f" using w(6) by simp
    ultimately show ?thesis unfolding th using last by blast
  qed
qed

section \<open>Properties\<close>

text \<open>
  C17. Polling: under a valid mask and mode the result is the set of bits of the mask that are present, if
  any of them (\<open>OR\<close>) or all of them (\<open>AND\<close>) are, and zero otherwise; it never has the bit that marks
  error codes. The bits that were read are cleared on request, and no other bit changes.
\<close>

theorem event_poll_exact:
  assumes "OsEventParamCheck (Some w) evMask mode = 0" "n < 32"
  shows "(let (ret, w') = OsEventPoll w evMask mode;
      occurred = (if has mode LOS_WAITMODE_OR then \<exists>b. bit w b \<and> bit evMask b else \<forall>b. bit evMask b \<longrightarrow> bit w b)
    in (bit ret n \<longleftrightarrow> occurred \<and> bit w n \<and> bit evMask n) \<and> (ret \<noteq> 0 \<longleftrightarrow> occurred) \<and>
       (bit w' n \<longleftrightarrow> bit w n \<and> \<not> (has mode LOS_WAITMODE_CLR \<and> bit ret n)) \<and> \<not> has ret LOS_ERRTYPE_ERROR)"
proof -
  have m: "evMask \<noteq> 0" "\<not> has evMask LOS_ERRTYPE_ERROR" using assms(1) by (auto simp: OsEventParamCheck_def split: if_splits)
  note any = and_nonzero_iff [of w evMask]
  note all = and_absorb_iff [of evMask w]
  have e: "\<not> has (w AND evMask) LOS_ERRTYPE_ERROR"
    using m(2) by (auto simp: has_def bit_eq_iff bit_simps)
  show ?thesis
  proof (cases "has mode LOS_WAITMODE_OR")
    case True
    then show ?thesis using any e assms(2) by (auto simp: OsEventPoll_def Let_def bit_simps)
  next
    case False
    then show ?thesis using all e m(1) assms(2) by (auto simp: OsEventPoll_def Let_def bit_simps)
  qed
qed

theorem event_poll_exact_witness:
  "bit (fst (OsEventPoll 0b1101 0b0101 5)) 2 \<and> \<not> bit (snd (OsEventPoll 0b1101 0b0101 5)) 2"
proof -
  have "OsEventParamCheck (Some (0b1101 :: u32)) 0b0101 5 = 0" by (simp add: OsEventParamCheck_def)
  from event_poll_exact [OF this, of 2] show ?thesis
    by (simp add: OsEventPoll_def)
qed


text \<open>Tasks 4 and 5 wait for event 0: the one for any bit of 3, the other for all bits of 12.\<close>

definition ev_two :: event_sys where
  "ev_two = \<lparr>ev_k = k_boot\<lparr>tcb := tcb_boot
       (4 := tcb_blank\<lparr>taskStatus := OS_TASK_STATUS_PENDING, on := Some (EventList 0), eventMask := 3, eventMode := LOS_WAITMODE_OR\<rparr>,
        5 := tcb_blank\<lparr>taskStatus := OS_TASK_STATUS_PENDING, on := Some (EventList 0), eventMask := 12, eventMode := LOS_WAITMODE_AND\<rparr>),
     pend := (pend k_boot)(EventList 0 := [4, 5])\<rparr>, uwEventID = (\<lambda>_. 4)\<rparr>"

lemmas ev_two_defs = ev_two_def k_boot_def tcb_boot_def tcb_blank_def

lemma sched_inv_ev_two: "sched_inv (ev_k ev_two)"
proof -
  have "rq_inv (ev_k ev_two)"
  proof (rule rq_invI)
    show "lists_ok (ev_k ev_two)" by (auto simp: lists_ok_def ev_two_defs)
    show "task_ok (tcb (ev_k ev_two) t)" for t by (simp add: task_ok_def ev_two_defs)
    show "maps_ok (pend (ev_k ev_two)) (readyTasks (ev_k ev_two)) (prioBitmap (ev_k ev_two)) (queueBitmap (ev_k ev_two))"
      using maps_ok_boot by (simp add: maps_ok_def ev_two_def)
  qed
  then show ?thesis by (simp add: sched_inv_def sched_core_def ev_two_defs hpf_task_def)
qed




end
