(* ===== verification/Ipc_Mux.thy ===== *)
theory Ipc_Mux
  imports Sched_Props
begin

text \<open>
  Mutexes, \<^verbatim>\<open>kernel/base/ipc/los_mux.c\<close>: attributes, locking with recursion, error checking and waiting in
  the order of priorities, priority inheritance and ceilings, and unlocking with the mutex handed to
  the first waiter. A mutex is named by a number, \<open>None\<close> is the null pointer; the tasks that wait for
  mutex \<open>i\<close> are \<open>MuxList i\<close>, and the node \<open>holdList\<close> of a held mutex is its number in the \<open>lockList\<close> of
  the task that holds it.
\<close>

section \<open>Attributes\<close>

abbreviation (input) LOS_EPERM :: u32 where "LOS_EPERM \<equiv> 1"
abbreviation (input) LOS_NOK :: u32 where "LOS_NOK \<equiv> 1"
abbreviation (input) LOS_EINTR :: u32 where "LOS_EINTR \<equiv> 4"
abbreviation (input) LOS_EBADF :: u32 where "LOS_EBADF \<equiv> 9"
abbreviation (input) LOS_EBUSY :: u32 where "LOS_EBUSY \<equiv> 16"
abbreviation (input) LOS_EINVAL :: u32 where "LOS_EINVAL \<equiv> 22"
abbreviation (input) LOS_EDEADLK :: u32 where "LOS_EDEADLK \<equiv> 35"
abbreviation (input) LOS_ETIMEDOUT :: u32 where "LOS_ETIMEDOUT \<equiv> 110"
abbreviation (input) LOS_MUX_PRIO_NONE :: u8 where "LOS_MUX_PRIO_NONE \<equiv> 0"
abbreviation (input) LOS_MUX_PRIO_INHERIT :: u8 where "LOS_MUX_PRIO_INHERIT \<equiv> 1"
abbreviation (input) LOS_MUX_PRIO_PROTECT :: u8 where "LOS_MUX_PRIO_PROTECT \<equiv> 2"
abbreviation (input) LOS_MUX_NORMAL :: u8 where "LOS_MUX_NORMAL \<equiv> 0"
abbreviation (input) LOS_MUX_RECURSIVE :: u8 where "LOS_MUX_RECURSIVE \<equiv> 1"
abbreviation (input) LOS_MUX_ERRORCHECK :: u8 where "LOS_MUX_ERRORCHECK \<equiv> 2"
abbreviation (input) OS_MUX_MAGIC :: u32 where "OS_MUX_MAGIC \<equiv> 0xEBCFDEA0"
abbreviation (input) OS_TASK_PRIORITY_LOWEST :: int where "OS_TASK_PRIORITY_LOWEST \<equiv> 31"
abbreviation (input) OS_TASK_PRIORITY_HIGHEST :: int where "OS_TASK_PRIORITY_HIGHEST \<equiv> 0"
abbreviation (input) OS_TASK_WAIT_MUTEX :: u16 where "OS_TASK_WAIT_MUTEX \<equiv> 10"

record LosMuxAttr =
  protocol :: u8
  prioceiling :: u8
  attr_type :: u8

definition LOS_MuxAttrInit :: "LosMuxAttr option \<Rightarrow> u32 \<times> LosMuxAttr option" where
  "LOS_MuxAttrInit attr = (case attr of
     None \<Rightarrow> (LOS_EINVAL, None)
   | Some a \<Rightarrow> (0, Some (a\<lparr>protocol := LOS_MUX_PRIO_INHERIT, prioceiling := 31, attr_type := LOS_MUX_RECURSIVE\<rparr>)))"

definition LOS_MuxAttrDestroy :: "LosMuxAttr option \<Rightarrow> u32" where
  "LOS_MuxAttrDestroy attr = (if attr = None then LOS_EINVAL else 0)"

text \<open>
  An output parameter is part of the result; the pointer to it is taken not to be null. Only
  \<open>LOS_MuxAttrGetPrioceiling\<close> and \<open>LOS_MuxSetPrioceiling\<close> accept a null one, and then write nothing.
\<close>

definition LOS_MuxAttrGetType :: "LosMuxAttr option \<Rightarrow> u32 + int" where
  "LOS_MuxAttrGetType attr = (case attr of
     None \<Rightarrow> Inl LOS_EINVAL
   | Some a \<Rightarrow> (let ty = uint (attr_type a AND 0x0F)
              in if ty < uint LOS_MUX_NORMAL \<or> ty > uint LOS_MUX_ERRORCHECK then Inl LOS_EINVAL else Inr ty))"

definition LOS_MuxAttrSetType :: "LosMuxAttr option \<Rightarrow> int \<Rightarrow> u32 \<times> LosMuxAttr option" where
  "LOS_MuxAttrSetType attr ty = (case attr of
     None \<Rightarrow> (LOS_EINVAL, None)
   | Some a \<Rightarrow> if ty < uint LOS_MUX_NORMAL \<or> ty > uint LOS_MUX_ERRORCHECK then (LOS_EINVAL, attr)
              else (0, Some (a\<lparr>attr_type := (attr_type a AND NOT 0x0F) OR word_of_int ty\<rparr>)))"

definition LOS_MuxAttrGetProtocol :: "LosMuxAttr option \<Rightarrow> u32 + int" where
  "LOS_MuxAttrGetProtocol attr = (case attr of None \<Rightarrow> Inl LOS_EINVAL | Some a \<Rightarrow> Inr (uint (protocol a)))"

definition LOS_MuxAttrSetProtocol :: "LosMuxAttr option \<Rightarrow> int \<Rightarrow> u32 \<times> LosMuxAttr option" where
  "LOS_MuxAttrSetProtocol attr p = (case attr of
     None \<Rightarrow> (LOS_EINVAL, None)
   | Some a \<Rightarrow> if p = 0 \<or> p = 1 \<or> p = 2 then (0, Some (a\<lparr>protocol := word_of_int p\<rparr>)) else (LOS_EINVAL, attr))"

definition LOS_MuxAttrGetPrioceiling :: "LosMuxAttr option \<Rightarrow> u32 + int" where
  "LOS_MuxAttrGetPrioceiling attr = (case attr of None \<Rightarrow> Inl LOS_EINVAL | Some a \<Rightarrow> Inr (uint (prioceiling a)))"

definition LOS_MuxAttrSetPrioceiling :: "LosMuxAttr option \<Rightarrow> int \<Rightarrow> u32 \<times> LosMuxAttr option" where
  "LOS_MuxAttrSetPrioceiling attr p = (case attr of
     None \<Rightarrow> (LOS_EINVAL, None)
   | Some a \<Rightarrow> if p < OS_TASK_PRIORITY_HIGHEST \<or> p > OS_TASK_PRIORITY_LOWEST then (LOS_EINVAL, attr)
              else (0, Some (a\<lparr>prioceiling := word_of_int p\<rparr>)))"

definition OsCheckMutexAttr :: "LosMuxAttr \<Rightarrow> u32" where
  "OsCheckMutexAttr a =
     (if sint (attr_type a) < uint LOS_MUX_NORMAL \<or> attr_type a > LOS_MUX_ERRORCHECK then LOS_NOK
      else if sint (prioceiling a) < OS_TASK_PRIORITY_HIGHEST \<or> uint (prioceiling a) > OS_TASK_PRIORITY_LOWEST then LOS_NOK
      else if sint (protocol a) < uint LOS_MUX_PRIO_NONE \<or> protocol a > LOS_MUX_PRIO_PROTECT then LOS_NOK
      else 0)"

section \<open>Mutexes\<close>

text \<open>\<open>mux_linked\<close> says that the list head \<open>muxList\<close> has been initialised: its pointers are not null.\<close>

record LosMux =
  magic :: u32
  mux_attr :: LosMuxAttr
  mux_linked :: bool
  owner :: "nat option"
  muxCount :: u16

record mux_sys =
  mx_k :: kstate
  mutexes :: "nat \<Rightarrow> LosMux"

definition upd_mux :: "nat \<Rightarrow> (LosMux \<Rightarrow> LosMux) \<Rightarrow> mux_sys \<Rightarrow> mux_sys" where
  "upd_mux i f S = S\<lparr>mutexes := (mutexes S)(i := f (mutexes S i))\<rparr>"

definition upd_mk :: "(kstate \<Rightarrow> kstate) \<Rightarrow> mux_sys \<Rightarrow> mux_sys" where
  "upd_mk f S = S\<lparr>mx_k := f (mx_k S)\<rparr>"

definition param_zero :: SchedParam where
  "param_zero = \<lparr>pr_policy = 0, pr_basePrio = 0, pr_priority = 0, pr_timeSlice = 0, pr_runTimeUs = 0, pr_deadlineUs = 0, pr_periodUs = 0\<rparr>"

definition LOS_MuxIsValid :: "nat option \<Rightarrow> mux_sys \<Rightarrow> bool" where
  "LOS_MuxIsValid mutex S = (case mutex of None \<Rightarrow> False | Some i \<Rightarrow> magic (mutexes S i) = OS_MUX_MAGIC)"

definition LOS_MuxGetPrioceiling :: "nat option \<Rightarrow> mux_sys \<Rightarrow> u32 + int" where
  "LOS_MuxGetPrioceiling mutex S = (case mutex of
     None \<Rightarrow> Inl LOS_EINVAL
   | Some i \<Rightarrow> if magic (mutexes S i) = OS_MUX_MAGIC then Inr (uint (prioceiling (mux_attr (mutexes S i)))) else Inl LOS_EINVAL)"

definition LOS_MuxInit :: "nat option \<Rightarrow> LosMuxAttr option \<Rightarrow> mux_sys \<Rightarrow> u32 \<times> mux_sys" where
  "LOS_MuxInit mutex attr S = (case mutex of
     None \<Rightarrow> (LOS_EINVAL, S)
   | Some i \<Rightarrow>
       (let a = (case attr of None \<Rightarrow> the (snd (LOS_MuxAttrInit (Some (mux_attr (mutexes S i))))) | Some a \<Rightarrow> a);
            S1 = upd_mux i (\<lambda>m. m\<lparr>mux_attr := a\<rparr>) S
        in if OsCheckMutexAttr a \<noteq> 0 then (LOS_EINVAL, S1)
           else (0, upd_mk (\<lambda>k. k\<lparr>pend := (pend k)(MuxList i := [])\<rparr>)
                      (upd_mux i (\<lambda>m. m\<lparr>muxCount := 0, owner := None, mux_linked := True, magic := OS_MUX_MAGIC\<rparr>) S1))))"

definition LOS_MuxDestroy :: "nat option \<Rightarrow> mux_sys \<Rightarrow> u32 \<times> mux_sys" where
  "LOS_MuxDestroy mutex S = (case mutex of
     None \<Rightarrow> (LOS_EINVAL, S)
   | Some i \<Rightarrow>
       if magic (mutexes S i) \<noteq> OS_MUX_MAGIC then (LOS_EBADF, S)
       else if muxCount (mutexes S i) \<noteq> 0 then (LOS_EBUSY, S)
       else (0, upd_mux i (\<lambda>m. \<lparr>magic = 0, mux_attr = \<lparr>protocol = 0, prioceiling = 0, attr_type = 0\<rparr>,
                                 mux_linked = False, owner = None, muxCount = 0\<rparr>) S))"

section \<open>Locking\<close>

text \<open>
  \<open>OsMuxBitmapSet\<close> and \<open>OsMuxBitmapRestore\<close> read the operations of the owner; with no owner that is a
  read through a null pointer.
\<close>

definition OsMuxBitmapSet :: "nat \<Rightarrow> nat \<Rightarrow> mux_sys \<Rightarrow> mux_sys" where
  "OsMuxBitmapSet i runTask S =
     (if protocol (mux_attr (mutexes S i)) \<noteq> LOS_MUX_PRIO_INHERIT then S
      else (case owner (mutexes S i) of
          None \<Rightarrow> upd_mk (\<lambda>k. k\<lparr>fault := True\<rparr>) S
        | Some ow \<Rightarrow>
            if OsSchedParamCompare (tcb (mx_k S) ow) (tcb (mx_k S) runTask) > 0
            then upd_mk (ops_priorityInheritance ow (ops_schedParamGet (mx_k S) runTask param_zero)) S
            else S))"

definition OsMuxBitmapRestore :: "nat \<Rightarrow> pend_head option \<Rightarrow> nat \<Rightarrow> mux_sys \<Rightarrow> mux_sys" where
  "OsMuxBitmapRestore i list runTask S =
     (if protocol (mux_attr (mutexes S i)) \<noteq> LOS_MUX_PRIO_INHERIT then S
      else (case owner (mutexes S i) of
          None \<Rightarrow> upd_mk (\<lambda>k. k\<lparr>fault := True\<rparr>) S
        | Some ow \<Rightarrow> upd_mk (ops_priorityRestore ow list (ops_schedParamGet (mx_k S) runTask param_zero)) S))"

text \<open>The three parts of \<open>OsMuxPendOp\<close>: taking a free mutex, waiting for it, and what follows the wait.\<close>

definition mux_take :: "nat \<Rightarrow> nat \<Rightarrow> mux_sys \<Rightarrow> mux_sys" where
  "mux_take runTask i S =
     (let S1 = upd_mux i (\<lambda>m. m\<lparr>muxCount := muxCount m + 1, owner := Some runTask\<rparr>) S;
          S2 = upd_mk (upd_tcb runTask (\<lambda>c. c\<lparr>lockList := lockList c @ [i]\<rparr>)) S1
      in if protocol (mux_attr (mutexes S2 i)) = LOS_MUX_PRIO_PROTECT
         then upd_mk (ops_priorityInheritance runTask
                ((ops_schedParamGet (mx_k S2) runTask param_zero)\<lparr>pr_priority := unat (prioceiling (mux_attr (mutexes S2 i)))\<rparr>)) S2
         else S2)"

definition mux_after_wait :: "u32 \<Rightarrow> nat \<Rightarrow> nat \<Rightarrow> mux_sys \<Rightarrow> u32 \<times> mux_sys" where
  "mux_after_wait ret runTask i S =
     (if ret = LOS_ERRNO_TSK_TIMEOUT
      then (LOS_ETIMEDOUT, upd_mk (upd_tcb runTask (\<lambda>c. c\<lparr>taskMux := None\<rparr>)) (OsMuxBitmapRestore i None runTask S))
      else (ret, S))"

definition mux_wait :: "nat \<Rightarrow> nat \<Rightarrow> u32 \<Rightarrow> mux_sys \<Rightarrow> u32 option \<times> mux_sys" where
  "mux_wait runTask i timeout S =
     (let (preemptable, k1) = OsPreemptableInSched (mx_k S)
      in if \<not> preemptable then (Some LOS_EDEADLK, S\<lparr>mx_k := k1\<rparr>)
         else let S1 = upd_mk (upd_tcb runTask (\<lambda>c. c\<lparr>taskMux := Some i\<rparr>)) (OsMuxBitmapSet i runTask (S\<lparr>mx_k := k1\<rparr>))
              in (case OsSchedLockPendFindPos (mx_k S1) runTask (MuxList i) of
                    None \<Rightarrow> (Some LOS_NOK, S1)
                  | Some node \<Rightarrow>
                      (let (r, k2) = ops_wait runTask node timeout
                                       (OsTaskWaitSetPendMask OS_TASK_WAIT_MUTEX (of_nat i) (mx_k S1))
                       in (case r of
                             None \<Rightarrow> (None, S1\<lparr>mx_k := k2\<rparr>)
                           | Some r \<Rightarrow> (let (r', S2) = mux_after_wait r runTask i (S1\<lparr>mx_k := k2\<rparr>) in (Some r', S2))))))"

definition OsMuxPendOp :: "nat \<Rightarrow> nat \<Rightarrow> u32 \<Rightarrow> mux_sys \<Rightarrow> u32 option \<times> mux_sys" where
  "OsMuxPendOp runTask i timeout S0 =
     (let S = (if mux_linked (mutexes S0 i) then S0
               else upd_mk (\<lambda>k. k\<lparr>pend := (pend k)(MuxList i := [])\<rparr>)
                      (upd_mux i (\<lambda>m. m\<lparr>muxCount := 0, owner := None, mux_linked := True\<rparr>) S0));
          m = mutexes S i
      in if muxCount m = 0 then (Some 0, mux_take runTask i S)
         else if owner m = Some runTask \<and> attr_type (mux_attr m) = LOS_MUX_RECURSIVE
           then (Some 0, if muxCount m < 0xFFFF then upd_mux i (\<lambda>m. m\<lparr>muxCount := muxCount m + 1\<rparr>) S else S)
         else if timeout = 0 then (Some LOS_EINVAL, S)
         else mux_wait runTask i timeout S)"

definition OsMuxPendOp_resume :: "nat \<Rightarrow> nat \<Rightarrow> mux_sys \<Rightarrow> u32 \<times> mux_sys" where
  "OsMuxPendOp_resume t i S =
     (let (r, k) = wait_resume t (mx_k S) in mux_after_wait r t i (S\<lparr>mx_k := k\<rparr>))"

definition OsMuxLockUnsafe :: "nat \<Rightarrow> u32 \<Rightarrow> mux_sys \<Rightarrow> u32 option \<times> mux_sys" where
  "OsMuxLockUnsafe i timeout S =
     (let runTask = currTask (mx_k S); m = mutexes S i
      in if magic m \<noteq> OS_MUX_MAGIC then (Some LOS_EBADF, S)
         else if OsCheckMutexAttr (mux_attr m) \<noteq> 0 then (Some LOS_EINVAL, S)
         else if attr_type (mux_attr m) = LOS_MUX_ERRORCHECK \<and> owner m = Some runTask then (Some LOS_EDEADLK, S)
         else OsMuxPendOp runTask i timeout S)"

definition OsMuxTrylockUnsafe :: "nat \<Rightarrow> u32 \<Rightarrow> mux_sys \<Rightarrow> u32 option \<times> mux_sys" where
  "OsMuxTrylockUnsafe i timeout S =
     (let runTask = currTask (mx_k S); m = mutexes S i
      in if magic m \<noteq> OS_MUX_MAGIC then (Some LOS_EBADF, S)
         else if OsCheckMutexAttr (mux_attr m) \<noteq> 0 then (Some LOS_EINVAL, S)
         else if owner m \<noteq> None \<and> (owner m \<noteq> Some runTask \<or> attr_type (mux_attr m) \<noteq> LOS_MUX_RECURSIVE)
           then (Some LOS_EBUSY, S)
         else OsMuxPendOp runTask i timeout S)"

text \<open>The warning to system tasks is output only.\<close>

definition LOS_MuxLock :: "nat option \<Rightarrow> u32 \<Rightarrow> mux_sys \<Rightarrow> u32 option \<times> mux_sys" where
  "LOS_MuxLock mutex timeout S = (case mutex of
     None \<Rightarrow> (Some LOS_EINVAL, S)
   | Some i \<Rightarrow> if int_active (mx_k S) then (Some LOS_EINTR, S) else OsMuxLockUnsafe i timeout S)"

definition LOS_MuxTrylock :: "nat option \<Rightarrow> mux_sys \<Rightarrow> u32 option \<times> mux_sys" where
  "LOS_MuxTrylock mutex S = (case mutex of
     None \<Rightarrow> (Some LOS_EINVAL, S)
   | Some i \<Rightarrow> if int_active (mx_k S) then (Some LOS_EINTR, S) else OsMuxTrylockUnsafe i 0 S)"

section \<open>Unlocking\<close>

text \<open>\<open>LOS_ListDelete (&mutex->holdList)\<close> takes the mutex off the list of the task that holds it.\<close>

definition hold_delete :: "nat \<Rightarrow> mux_sys \<Rightarrow> mux_sys" where
  "hold_delete i S = (case owner (mutexes S i) of
     None \<Rightarrow> S | Some t \<Rightarrow> upd_mk (upd_tcb t (\<lambda>c. c\<lparr>lockList := remove1 i (lockList c)\<rparr>)) S)"

definition OsMuxPostOp :: "nat \<Rightarrow> nat \<Rightarrow> bool \<Rightarrow> mux_sys \<Rightarrow> u32 \<times> bool \<times> mux_sys" where
  "OsMuxPostOp taskCB i needSched S = (case pend (mx_k S) (MuxList i) of
     [] \<Rightarrow> (0, needSched, upd_mux i (\<lambda>m. m\<lparr>owner := None\<rparr>) (hold_delete i S))
   | resumedTask # _ \<Rightarrow>
       (let S1 = hold_delete i (OsMuxBitmapRestore i (Some (MuxList i)) resumedTask S);
            S2 = upd_mux i (\<lambda>m. m\<lparr>muxCount := 1, owner := Some resumedTask\<rparr>) S1;
            S3 = upd_mk (upd_tcb resumedTask (\<lambda>c. c\<lparr>lockList := lockList c @ [i]\<rparr>)) S2;
            S4 = upd_mk (\<lambda>k. ops_wake resumedTask (OsTaskWakeClearPendMask resumedTask k)) S3
        in (0, True, upd_mk (upd_tcb resumedTask (\<lambda>c. c\<lparr>taskMux := None\<rparr>)) S4)))"

definition OsMuxUnlockUnsafe :: "nat \<Rightarrow> nat \<Rightarrow> bool \<Rightarrow> mux_sys \<Rightarrow> u32 \<times> bool \<times> mux_sys" where
  "OsMuxUnlockUnsafe taskCB i needSched S =
     (let m = mutexes S i
      in if magic m \<noteq> OS_MUX_MAGIC then (LOS_EBADF, needSched, S)
         else if OsCheckMutexAttr (mux_attr m) \<noteq> 0 then (LOS_EINVAL, needSched, S)
         else if owner m \<noteq> Some taskCB then (LOS_EPERM, needSched, S)
         else if muxCount m = 0 then (LOS_EPERM, needSched, S)
         else let S1 = upd_mux i (\<lambda>m. m\<lparr>muxCount := muxCount m - 1\<rparr>) S
              in if muxCount m - 1 \<noteq> 0 \<and> attr_type (mux_attr m) = LOS_MUX_RECURSIVE then (0, needSched, S1)
                 else OsMuxPostOp taskCB i needSched
                   (if protocol (mux_attr m) = LOS_MUX_PRIO_PROTECT
                    then upd_mk (ops_priorityRestore taskCB None (ops_schedParamGet (mx_k S1) taskCB param_zero)) S1
                    else S1))"

definition LOS_MuxUnlock :: "nat option \<Rightarrow> mux_sys \<Rightarrow> u32 \<times> mux_sys" where
  "LOS_MuxUnlock mutex S = (case mutex of
     None \<Rightarrow> (LOS_EINVAL, S)
   | Some i \<Rightarrow>
       if int_active (mx_k S) then (LOS_EINTR, S)
       else let (ret, needSched, S1) = OsMuxUnlockUnsafe (currTask (mx_k S)) i False S
            in (ret, if needSched then upd_mk LOS_Schedule S1 else S1))"

text \<open>
  \<open>LOS_MuxSetPrioceiling\<close>: what follows the lock, which may have waited. The second result is the value
  written to \<open>oldPrioceiling\<close>, \<open>None\<close> when the call returns before writing it.
\<close>

definition mux_set_ceiling :: "u32 \<Rightarrow> nat \<Rightarrow> int \<Rightarrow> mux_sys \<Rightarrow> u32 \<times> int option \<times> mux_sys" where
  "mux_set_ceiling retLock i p S =
     (if retLock \<noteq> 0 then (retLock, None, S)
      else let old = uint (prioceiling (mux_attr (mutexes S i)));
               (ret, a) = LOS_MuxAttrSetPrioceiling (Some (mux_attr (mutexes S i))) p;
               (retLock2, S2) = LOS_MuxUnlock (Some i) (upd_mux i (\<lambda>m. m\<lparr>mux_attr := the a\<rparr>) S)
           in (if ret = 0 \<and> retLock2 \<noteq> 0 then retLock2 else ret, Some old, S2))"

definition LOS_MuxSetPrioceiling :: "nat option \<Rightarrow> int \<Rightarrow> mux_sys \<Rightarrow> u32 option \<times> int option \<times> mux_sys" where
  "LOS_MuxSetPrioceiling mutex p S = (case mutex of
     None \<Rightarrow> (Some LOS_EINVAL, None, S)
   | Some i \<Rightarrow>
       if p < OS_TASK_PRIORITY_HIGHEST \<or> p > OS_TASK_PRIORITY_LOWEST then (Some LOS_EINVAL, None, S)
       else let (retLock, S1) = LOS_MuxLock mutex LOS_WAIT_FOREVER S
            in (case retLock of
                  None \<Rightarrow> (None, None, S1)
                | Some r \<Rightarrow> (let (ret, old, S2) = mux_set_ceiling r i p S1 in (Some ret, old, S2))))"

definition LOS_MuxSetPrioceiling_resume :: "nat \<Rightarrow> nat \<Rightarrow> int \<Rightarrow> mux_sys \<Rightarrow> u32 \<times> int option \<times> mux_sys" where
  "LOS_MuxSetPrioceiling_resume t i p S =
     (let (r, S1) = OsMuxPendOp_resume t i S in mux_set_ceiling r i p S1)"

section \<open>Changes of priority\<close>

text \<open>
  Inheriting and restoring change the priority of one task and its record of priorities. The invariant of the
  scheduler survives this if the task is on no queue of ready tasks.
\<close>

definition prio_change :: "nat \<Rightarrow> kstate \<Rightarrow> kstate \<Rightarrow> bool" where
  "prio_change t k j \<longleftrightarrow> (\<exists>b p. j = upd_sp t (\<lambda>s. s\<lparr>priBitmap := b, priority := p\<rparr>) k \<and> (hpf_task (tcb k t) \<longrightarrow> p < 32))"

definition unqueued :: "kstate \<Rightarrow> nat \<Rightarrow> bool" where
  "unqueued k t \<longleftrightarrow> (\<forall>b p. on (tcb k t) \<noteq> Some (HpfQue b p))"

lemma prio_change_refl: "prio_change t k k"
  unfolding prio_change_def upd_sp_def upd_tcb_def
  by (rule exI [of _ "priBitmap (sp (tcb k t))"], rule exI [of _ "priority (sp (tcb k t))"]) (simp add: hpf_task_def)

lemma prio_change_upd: "(hpf_task (tcb k t) \<Longrightarrow> p < 32) \<Longrightarrow> prio_change t k (upd_sp t (\<lambda>s. s\<lparr>priBitmap := b s, priority := p\<rparr>) k)"
  unfolding prio_change_def upd_sp_def upd_tcb_def by (rule exI [of _ "b (sp (tcb k t))"]) auto

lemma prio_change_bitmap: "prio_change t k (upd_sp t (\<lambda>s. s\<lparr>priBitmap := b s\<rparr>) k)"
  unfolding prio_change_def upd_sp_def upd_tcb_def
  by (rule exI [of _ "b (sp (tcb k t))"], rule exI [of _ "priority (sp (tcb k t))"]) (simp add: hpf_task_def)

lemma LOS_LowBitGet_32:
  assumes "b \<noteq> 0"
  shows "LOS_LowBitGet b < 32"
proof -
  have "finite {i. bit b i}" by (rule finite_subset [of _ "{..<32}"]) (auto dest: bit_imp_le_length)
  moreover have "{i. bit b i} \<noteq> {}" using assms by (auto simp: bit_eq_iff)
  ultimately have "bit b (Min {i. bit b i})" using Min_in by blast
  then show ?thesis unfolding LOS_LowBitGet_eq [OF assms] by (auto dest: bit_imp_le_length)
qed

lemma ops_priorityInheritance_change:
  assumes "pr_priority param < 32"
  shows "prio_change t k (ops_priorityInheritance t param k)"
  using assms prio_change_refl [of t k]
  by (auto simp: ops_priorityInheritance_def HPFPriorityInheritance_def EDFPriorityInheritance_def IdlePriorityInheritance_def
      intro: prio_change_upd split: sched_ops.split)

lemma ops_priorityRestore_change: "prio_change t k (ops_priorityRestore t list param k)"
proof -
  have "LOS_LowBitGet b < 32" if "LOS_LowBitGet b \<noteq> LOS_INVALID_BIT_INDEX" for b
    using LOS_LowBitGet_32 [of b] that by (auto simp: LOS_LowBitGet_def)
  then show ?thesis
    using prio_change_refl [of t k] prio_change_bitmap [of t k]
    by (auto simp: ops_priorityRestore_def HPFPriorityRestore_def EDFPriorityRestore_def IdlePriorityRestore_def Let_def
        intro: prio_change_upd split: sched_ops.split)
qed

lemma prio_change_frame:
  assumes "prio_change t k j"
  shows "pend j = pend k" "lockList (tcb j u) = lockList (tcb k u)" "currTask j = currTask k" "taskLockCnt j = taskLockCnt k"
    "idleTask j = idleTask k" "taskStatus (tcb j u) = taskStatus (tcb k u)" "on (tcb j u) = on (tcb k u)" "ops (tcb j u) = ops (tcb k u)"
    "u \<noteq> t \<Longrightarrow> tcb j u = tcb k u" "int_active j = int_active k" "fault j = fault k"
  using assms by (auto simp: prio_change_def upd_sp_def)

lemma prio_change_inv:
  assumes "sched_inv k" "unqueued k t" "prio_change t k j"
  shows "sched_inv j"
proof -
  from assms(3) obtain b p where j: "j = upd_sp t (\<lambda>s. s\<lparr>priBitmap := b, priority := p\<rparr>) k" and p: "hpf_task (tcb k t) \<longrightarrow> p < 32"
    by (auto simp: prio_change_def)
  have core: "sched_core k" using assms(1) by (simp add: sched_inv_def)
  note rq = sched_coreD(1) [OF core]
  have "task_ok (tcb j u)" for u
    using rq_invD(2) [OF rq, of u] assms(2)
    by (cases "u = t") (auto simp: j upd_sp_def task_ok_def unqueued_def split: option.splits pend_head.splits)
  moreover have "lists_ok j" using rq_invD(1) [OF rq] by (auto simp: lists_ok_def j upd_sp_def)
  moreover have "maps_ok (pend j) (readyTasks j) (prioBitmap j) (queueBitmap j)"
    using rq_invD(3) [OF rq] by (simp add: j upd_sp_def)
  ultimately have "rq_inv j" by (intro rq_invI)
  moreover have "ops (tcb j u) = PriorityOps \<Longrightarrow> hpf_task (tcb j u)" for u
    using sched_coreD(4) [OF core, of u] p by (auto simp: j upd_sp_def hpf_task_def)
  ultimately show ?thesis using assms(1) by (auto simp: sched_inv_def sched_core_def j upd_sp_def)
qed

lemma param_below_32:
  assumes "sched_core k" "t \<noteq> idleTask k"
  shows "pr_priority (ops_schedParamGet k t param_zero) < 32"
  using sched_coreD(4) [OF assms(1), of t] sched_coreD(6) [OF assms(1), of t] assms(2)
  by (auto simp: ops_schedParamGet_def HPFSchedParamGet_def EDFSchedParamGet_def IdleSchedParamGet_def param_zero_def Let_def
      hpf_task_def split: sched_ops.split)

section \<open>Ownership\<close>

text \<open>
  A mutex counts as held exactly if it has an owner, tasks wait for it only while it is held, only a
  recursive mutex is held more than once, and it is on the list of locks of its owner, once, and of no other task.
\<close>

definition mux_one :: "LosMux \<Rightarrow> nat list \<Rightarrow> bool" where
  "mux_one m ws \<longleftrightarrow> (muxCount m = 0 \<longleftrightarrow> owner m = None) \<and> (owner m = None \<longrightarrow> ws = []) \<and>
     (attr_type (mux_attr m) \<noteq> LOS_MUX_RECURSIVE \<longrightarrow> muxCount m \<le> 1) \<and> (\<not> mux_linked m \<longrightarrow> owner m = None)"

definition mux_inv :: "mux_sys \<Rightarrow> bool" where
  "mux_inv S \<longleftrightarrow> sched_inv (mx_k S) \<and> (\<forall>i. mux_one (mutexes S i) (pend (mx_k S) (MuxList i))) \<and>
     (\<forall>t i. count_list (lockList (tcb (mx_k S) t)) i = (if owner (mutexes S i) = Some t then 1 else 0))"

lemma mux_invD:
  assumes "mux_inv S"
  shows "sched_inv (mx_k S)" "mux_one (mutexes S i) (pend (mx_k S) (MuxList i))"
    "count_list (lockList (tcb (mx_k S) t)) i = (if owner (mutexes S i) = Some t then 1 else 0)"
  using assms by (auto simp: mux_inv_def)

lemma upd_mux_simps [simp]:
  "mx_k (upd_mux i f S) = mx_k S" "mutexes (upd_mux i f S) = (mutexes S)(i := f (mutexes S i))"
  by (simp_all add: upd_mux_def)

lemma upd_mk_simps [simp]: "mx_k (upd_mk f S) = f (mx_k S)" "mutexes (upd_mk f S) = mutexes S"
  by (simp_all add: upd_mk_def)

lemma mux_inv_kernel:
  assumes "mux_inv S" "sched_inv (mx_k T)" "mutexes T = mutexes S"
    and "\<And>i. owner (mutexes S i) = None \<Longrightarrow> pend (mx_k T) (MuxList i) = []"
    and "\<And>t. lockList (tcb (mx_k T) t) = lockList (tcb (mx_k S) t)"
  shows "mux_inv T"
  using assms by (auto simp: mux_inv_def mux_one_def)

text \<open>A change of one mutex that keeps its owner.\<close>

lemma mux_inv_upd:
  assumes "mux_inv S" "owner (f (mutexes S i)) = owner (mutexes S i)" "mux_one (f (mutexes S i)) (pend (mx_k S) (MuxList i))"
  shows "mux_inv (upd_mux i f S)"
  using assms by (auto simp: mux_inv_def)

lemma sched_inv_lockList: "sched_inv k \<Longrightarrow> sched_inv (upd_tcb t (\<lambda>c. c\<lparr>lockList := f (lockList c)\<rparr>) k)"
  by (rule sched_inv_upd_tcb) (simp_all add: tcb_same_def)

lemma sched_inv_taskMux: "sched_inv k \<Longrightarrow> sched_inv (upd_tcb t (\<lambda>c. c\<lparr>taskMux := m\<rparr>) k)"
  by (rule sched_inv_upd_tcb) (simp_all add: tcb_same_def)

lemma curr_unqueued: "sched_inv k \<Longrightarrow> unqueued k (currTask k)"
  by (simp add: sched_inv_def unqueued_def)

lemma attr_ok_ceiling:
  assumes "OsCheckMutexAttr a = 0"
  shows "unat (prioceiling a) < 32"
proof -
  have "\<not> x" if "(if P then (1 :: u32) else if Q \<or> x then 1 else if R then 1 else 0) = 0" for P Q R x
    using that by (auto split: if_splits)
  from this [OF assms [unfolded OsCheckMutexAttr_def]] have "\<not> uint (prioceiling a) > 31" .
  then show ?thesis unfolding unat_eq_nat_uint by linarith
qed

text \<open>Taking a free mutex.\<close>

lemma mux_take_inv:
  assumes inv: "mux_inv S" and free: "owner (mutexes S i) = None" "mux_linked (mutexes S i)"
    and a: "OsCheckMutexAttr (mux_attr (mutexes S i)) = 0"
  defines "T \<equiv> mux_take (currTask (mx_k S)) i S"
  shows "mux_inv T" "mutexes T = (mutexes S)(i := (mutexes S i)\<lparr>muxCount := 1, owner := Some (currTask (mx_k S))\<rparr>)"
    "pend (mx_k T) = pend (mx_k S)" "currTask (mx_k T) = currTask (mx_k S)" "int_active (mx_k T) = int_active (mx_k S)"
proof -
  let ?run = "currTask (mx_k S)" and ?m = "(mutexes S i)\<lparr>muxCount := 1, owner := Some (currTask (mx_k S))\<rparr>"
  let ?k = "upd_tcb ?run (\<lambda>c. c\<lparr>lockList := lockList c @ [i]\<rparr>) (mx_k S)"
  have c0: "muxCount (mutexes S i) = 0" using mux_invD(2) [OF inv, of i] free by (simp add: mux_one_def)
  have k: "sched_inv ?k" by (rule sched_inv_lockList [OF mux_invD(1) [OF inv]])
  have "prio_change ?run ?k (mx_k T)"
    using attr_ok_ceiling [OF a] ops_priorityInheritance_change prio_change_refl
    by (auto simp: T_def mux_take_def Let_def)
  note p = prio_change_frame [OF this] prio_change_inv [OF k _ this]
  have mt: "mutexes T = (mutexes S)(i := ?m)" using c0 by (auto simp: T_def mux_take_def Let_def)
  have "sched_inv (mx_k T)" using p(12) curr_unqueued [OF k] by simp
  moreover have "mux_one (mutexes T n) (pend (mx_k T) (MuxList n))" for n
    using mux_invD(2) [OF inv, of n] free(2) by (auto simp: mt p(1) mux_one_def)
  moreover have "count_list (lockList (tcb (mx_k T) t)) n = (if owner (mutexes T n) = Some t then 1 else 0)" for t n
    using mux_invD(3) [OF inv, of t n] free(1) by (auto simp: mt p(2))
  ultimately show "mux_inv T" by (simp add: mux_inv_def)
  show "mutexes T = (mutexes S)(i := ?m)" by (rule mt)
  show "pend (mx_k T) = pend (mx_k S)" "currTask (mx_k T) = ?run" "int_active (mx_k T) = int_active (mx_k S)"
    using p(1,3,10) by simp_all
qed

section \<open>Locking and unlocking keep the invariant\<close>

text \<open>
  Inheritance reaches the owner wherever it is. It is harmless while the owner is not on a queue of ready
  tasks of the priority policy.
\<close>

definition mux_calm :: "mux_sys \<Rightarrow> nat \<Rightarrow> bool" where
  "mux_calm S i \<longleftrightarrow> (protocol (mux_attr (mutexes S i)) = LOS_MUX_PRIO_INHERIT \<longrightarrow>
     (\<forall>ow. owner (mutexes S i) = Some ow \<longrightarrow> unqueued (mx_k S) ow))"

lemma OsMuxBitmapSet_change:
  assumes "owner (mutexes S i) = Some ow" "sched_core (mx_k S)" "r \<noteq> idleTask (mx_k S)"
  shows "mutexes (OsMuxBitmapSet i r S) = mutexes S" "prio_change ow (mx_k S) (mx_k (OsMuxBitmapSet i r S))"
    "protocol (mux_attr (mutexes S i)) \<noteq> LOS_MUX_PRIO_INHERIT \<Longrightarrow> OsMuxBitmapSet i r S = S"
  using assms(1) ops_priorityInheritance_change [OF param_below_32 [OF assms(2,3)]] prio_change_refl
  by (auto simp: OsMuxBitmapSet_def)

lemma OsMuxBitmapRestore_change:
  assumes "owner (mutexes S i) = Some ow"
  shows "mutexes (OsMuxBitmapRestore i l r S) = mutexes S" "prio_change ow (mx_k S) (mx_k (OsMuxBitmapRestore i l r S))"
    "protocol (mux_attr (mutexes S i)) \<noteq> LOS_MUX_PRIO_INHERIT \<Longrightarrow> OsMuxBitmapRestore i l r S = S"
  using assms ops_priorityRestore_change prio_change_refl by (auto simp: OsMuxBitmapRestore_def)

lemma OsMuxBitmapRestore_none:
  assumes "owner (mutexes S i) = None"
  shows "mutexes (OsMuxBitmapRestore i l r S) = mutexes S" "sched_inv (mx_k S) \<Longrightarrow> sched_inv (mx_k (OsMuxBitmapRestore i l r S))"
    "pend (mx_k (OsMuxBitmapRestore i l r S)) = pend (mx_k S)" "tcb (mx_k (OsMuxBitmapRestore i l r S)) = tcb (mx_k S)"
  using assms by (auto simp: OsMuxBitmapRestore_def sched_inv_def sched_core_def rq_inv_def lists_ok_def)

lemma mux_inv_prio:
  assumes "mux_inv S" "prio_change ow (mx_k S) (mx_k T)" "unqueued (mx_k S) ow" "mutexes T = mutexes S"
  shows "mux_inv T"
  using prio_change_inv [OF mux_invD(1) [OF assms(1)] assms(3,2)] prio_change_frame [OF assms(2)] mux_invD(2) [OF assms(1)] assms(4)
  by (intro mux_inv_kernel [OF assms(1)]) (auto simp: mux_one_def)

lemma OsMuxBitmapSet_inv:
  assumes "mux_inv S" "owner (mutexes S i) = Some ow" "mux_calm S i" "r \<noteq> idleTask (mx_k S)"
  shows "mux_inv (OsMuxBitmapSet i r S)"
proof (cases "protocol (mux_attr (mutexes S i)) = LOS_MUX_PRIO_INHERIT")
  case True
  have core: "sched_core (mx_k S)" using mux_invD(1) [OF assms(1)] by (simp add: sched_inv_def)
  note c = OsMuxBitmapSet_change [OF assms(2) core assms(4)]
  show ?thesis using True assms(2,3) by (intro mux_inv_prio [OF assms(1) c(2) _ c(1)]) (simp add: mux_calm_def)
next
  case False
  then show ?thesis using assms(1) by (simp add: OsMuxBitmapSet_def)
qed

lemma OsMuxBitmapRestore_inv:
  assumes "mux_inv S" "mux_calm S i"
  shows "mux_inv (OsMuxBitmapRestore i l r S)"
proof (cases "owner (mutexes S i)")
  case None
  note n = OsMuxBitmapRestore_none [OF None, of l r]
  show ?thesis
    using n(2) [OF mux_invD(1) [OF assms(1)]] mux_invD(2) [OF assms(1)]
    by (intro mux_inv_kernel [OF assms(1) _ n(1)]) (auto simp: n(3,4) mux_one_def)
next
  case (Some ow)
  note c = OsMuxBitmapRestore_change [OF Some]
  show ?thesis
  proof (cases "protocol (mux_attr (mutexes S i)) = LOS_MUX_PRIO_INHERIT")
    case True
    then show ?thesis using Some assms(2) by (intro mux_inv_prio [OF assms(1) c(2) _ c(1)]) (simp add: mux_calm_def)
  qed (use c(3) assms(1) in simp)
qed

lemma mux_inv_taskMux: "mux_inv S \<Longrightarrow> mux_inv (upd_mk (upd_tcb t (\<lambda>c. c\<lparr>taskMux := m\<rparr>)) S)"
  by (rule mux_inv_kernel) (auto simp: mux_inv_def mux_one_def sched_inv_taskMux)

lemma mux_after_wait_inv:
  assumes "mux_inv S" "mux_calm S i"
  shows "mux_inv (snd (mux_after_wait r t i S))"
  using assms mux_inv_taskMux [OF OsMuxBitmapRestore_inv [OF assms]] by (simp add: mux_after_wait_def)

text \<open>The state in which the running task looks for its place in the list.\<close>

definition mux_enter :: "nat \<Rightarrow> nat \<Rightarrow> mux_sys \<Rightarrow> mux_sys" where
  "mux_enter t i S = upd_mk (upd_tcb t (\<lambda>c. c\<lparr>taskMux := Some i\<rparr>)) (OsMuxBitmapSet i t S)"

lemma mux_enter_facts:
  assumes "mux_inv S" "owner (mutexes S i) = Some ow" "mux_calm S i" "t \<noteq> idleTask (mx_k S)"
  shows "mux_inv (mux_enter t i S)" "mutexes (mux_enter t i S) = mutexes S" "pend (mx_k (mux_enter t i S)) = pend (mx_k S)"
    "currTask (mx_k (mux_enter t i S)) = currTask (mx_k S)" "taskLockCnt (mx_k (mux_enter t i S)) = taskLockCnt (mx_k S)"
    "idleTask (mx_k (mux_enter t i S)) = idleTask (mx_k S)" "lockList (tcb (mx_k (mux_enter t i S)) u) = lockList (tcb (mx_k S) u)"
    "u \<noteq> ow \<Longrightarrow> sp (tcb (mx_k (mux_enter t i S)) u) = sp (tcb (mx_k S) u)"
    "ops (tcb (mx_k (mux_enter t i S)) u) = ops (tcb (mx_k S) u)" "taskMux (tcb (mx_k (mux_enter t i S)) t) = Some i"
proof -
  have core: "sched_core (mx_k S)" using mux_invD(1) [OF assms(1)] by (simp add: sched_inv_def)
  note c = OsMuxBitmapSet_change [OF assms(2) core assms(4)]
  note f = prio_change_frame [OF c(2)]
  show "mux_inv (mux_enter t i S)"
    unfolding mux_enter_def by (rule mux_inv_taskMux [OF OsMuxBitmapSet_inv [OF assms]])
  show "mutexes (mux_enter t i S) = mutexes S" "pend (mx_k (mux_enter t i S)) = pend (mx_k S)"
    "currTask (mx_k (mux_enter t i S)) = currTask (mx_k S)" "taskLockCnt (mx_k (mux_enter t i S)) = taskLockCnt (mx_k S)"
    "idleTask (mx_k (mux_enter t i S)) = idleTask (mx_k S)" "lockList (tcb (mx_k (mux_enter t i S)) u) = lockList (tcb (mx_k S) u)"
    "u \<noteq> ow \<Longrightarrow> sp (tcb (mx_k (mux_enter t i S)) u) = sp (tcb (mx_k S) u)"
    "ops (tcb (mx_k (mux_enter t i S)) u) = ops (tcb (mx_k S) u)" "taskMux (tcb (mx_k (mux_enter t i S)) t) = Some i"
    using c(1) f by (simp_all add: mux_enter_def)
qed

text \<open>Waiting: the task has its place in the list and another task runs.\<close>

lemma mux_wait_blocks:
  assumes inv: "mux_inv S" and ow: "owner (mutexes S i) = Some ow" and calm: "mux_calm S i"
    and busy: "currTask (mx_k S) \<noteq> idleTask (mx_k S)" and lock: "taskLockCnt (mx_k S) = 0"
    and pos: "OsSchedLockPendFindPos (mx_k (mux_enter (currTask (mx_k S)) i S)) (currTask (mx_k S)) (MuxList i) = Some pos"
  shows "\<exists>k. mux_wait (currTask (mx_k S)) i timeout S = (None, S\<lparr>mx_k := k\<rparr>) \<and> mux_inv (S\<lparr>mx_k := k\<rparr>) \<and>
    currTask k \<noteq> currTask (mx_k S) \<and> pend k (MuxList i) = pos_insert pos (currTask (mx_k S)) (pend (mx_k S) (MuxList i)) \<and>
    (\<forall>u. tcb_sched (tcb (mx_k (mux_enter (currTask (mx_k S)) i S)) u) (tcb k u))"
proof -
  let ?run = "currTask (mx_k S)" and ?E = "mux_enter (currTask (mx_k S)) i S"
  note e = mux_enter_facts [OF inv ow calm busy]
  have lo: "lists_ok (mx_k ?E)" using mux_invD(1) [OF e(1)] rq_invD(1) sched_coreD(1) by (auto simp: sched_inv_def)
  have h: "ipc_head (MuxList i)" by simp
  obtain j where j: "ops_wait ?run pos timeout (OsTaskWaitSetPendMask OS_TASK_WAIT_MUTEX (of_nat i) (mx_k ?E)) = (None, j)"
    "sched_inv j" "currTask j \<noteq> ?run" "pend j (MuxList i) = pos_insert pos ?run (pend (mx_k S) (MuxList i))"
    "\<forall>g. ipc_head g \<longrightarrow> g \<noteq> MuxList i \<longrightarrow> pend j g = pend (mx_k S) g" "\<forall>u. tcb_sched (tcb (mx_k ?E) u) (tcb j u)"
    using wait_on [OF mux_invD(1) [OF e(1)] h lock_pos_on [OF lo pos], of timeout OS_TASK_WAIT_MUTEX "of_nat i"] lock busy
    unfolding e(3-6) by auto
  have "mux_inv (S\<lparr>mx_k := j\<rparr>)"
  proof (rule mux_inv_kernel [OF inv])
    show "pend (mx_k (S\<lparr>mx_k := j\<rparr>)) (MuxList n) = []" if "owner (mutexes S n) = None" for n
      using that ow j(5) mux_invD(2) [OF inv, of n] by (cases "n = i") (auto simp: mux_one_def)
    show "lockList (tcb (mx_k (S\<lparr>mx_k := j\<rparr>)) u) = lockList (tcb (mx_k S) u)" for u
      using j(6) e(7) by (simp add: tcb_sched_def)
  qed (use j(2) in simp_all)
  moreover have "mux_wait ?run i timeout S = (None, S\<lparr>mx_k := j\<rparr>)"
  proof -
    have "?E\<lparr>mx_k := j\<rparr> = S\<lparr>mx_k := j\<rparr>" using e(2) by (simp add: mux_sys.equality)
    then show ?thesis
      using pos j(1) lock unfolding mux_wait_def mux_enter_def by (simp add: OsPreemptableInSched_def Let_def)
  qed
  ultimately show ?thesis using j(3,4,6) by blast
qed

lemma mux_inv_flag: "mux_inv S \<Longrightarrow> mux_inv (S\<lparr>mx_k := set_schedFlag m (mx_k S)\<rparr>)"
  by (rule mux_inv_kernel)
    (auto simp: mux_inv_def mux_one_def set_schedFlag_def intro: sched_inv_acct [OF k_acct_flag(1), unfolded set_schedFlag_def])

lemma mux_wait_inv:
  assumes inv: "mux_inv S" and ow: "owner (mutexes S i) = Some ow" and calm: "mux_calm S i"
    and busy: "currTask (mx_k S) \<noteq> idleTask (mx_k S)"
  shows "mux_inv (snd (mux_wait (currTask (mx_k S)) i timeout S))"
proof (cases "taskLockCnt (mx_k S) = 0")
  case True
  show ?thesis
  proof (cases "OsSchedLockPendFindPos (mx_k (mux_enter (currTask (mx_k S)) i S)) (currTask (mx_k S)) (MuxList i)")
    case None
    then show ?thesis using mux_enter_facts(1) [OF inv ow calm busy] True
      unfolding mux_wait_def mux_enter_def by (simp add: OsPreemptableInSched_def Let_def)
  next
    case (Some pos)
    then show ?thesis using mux_wait_blocks [OF inv ow calm busy True Some, of timeout] by auto
  qed
next
  case False
  then show ?thesis using mux_inv_flag [OF inv] by (simp add: mux_wait_def OsPreemptableInSched_def)
qed

text \<open>A mutex that was set up by its initialiser macro gets its list when it is first locked.\<close>

definition mux_link :: "nat \<Rightarrow> mux_sys \<Rightarrow> mux_sys" where
  "mux_link i S = (if mux_linked (mutexes S i) then S
     else upd_mk (\<lambda>k. k\<lparr>pend := (pend k)(MuxList i := [])\<rparr>)
            (upd_mux i (\<lambda>m. m\<lparr>muxCount := 0, owner := None, mux_linked := True\<rparr>) S))"

lemma mux_link_facts:
  assumes "mux_inv S"
  shows "mux_inv (mux_link i S)" "mx_k (mux_link i S) = mx_k S" "mutexes (mux_link i S) = (mutexes S)(i := (mutexes S i)\<lparr>mux_linked := True\<rparr>)"
proof -
  have one: "mux_one (mutexes S i) (pend (mx_k S) (MuxList i))" by (rule mux_invD(2) [OF assms])
  show k: "mx_k (mux_link i S) = mx_k S"
  proof (cases "mux_linked (mutexes S i)")
    case False
    then have "(pend (mx_k S))(MuxList i := []) = pend (mx_k S)" using one by (auto simp: mux_one_def)
    then show ?thesis by (simp add: mux_link_def)
  qed (simp add: mux_link_def)
  show m: "mutexes (mux_link i S) = (mutexes S)(i := (mutexes S i)\<lparr>mux_linked := True\<rparr>)"
    using one by (auto simp: mux_link_def mux_one_def fun_eq_iff)
  show "mux_inv (mux_link i S)" using assms one by (auto simp: mux_inv_def k m mux_one_def)
qed

lemma OsMuxPendOp_link:
  "OsMuxPendOp t i timeout S = (let S = mux_link i S; m = mutexes S i in
     if muxCount m = 0 then (Some 0, mux_take t i S)
     else if owner m = Some t \<and> attr_type (mux_attr m) = LOS_MUX_RECURSIVE
       then (Some 0, if muxCount m < 0xFFFF then upd_mux i (\<lambda>m. m\<lparr>muxCount := muxCount m + 1\<rparr>) S else S)
     else if timeout = 0 then (Some LOS_EINVAL, S) else mux_wait t i timeout S)"
  by (simp add: OsMuxPendOp_def mux_link_def)

lemma OsMuxPendOp_inv:
  assumes inv: "mux_inv S" and a: "OsCheckMutexAttr (mux_attr (mutexes S i)) = 0" and calm: "mux_calm S i"
    and busy: "currTask (mx_k S) \<noteq> idleTask (mx_k S)"
  shows "mux_inv (snd (OsMuxPendOp (currTask (mx_k S)) i timeout S))"
proof -
  let ?L = "mux_link i S"
  note l = mux_link_facts [OF inv, of i]
  have m: "mutexes ?L i = (mutexes S i)\<lparr>mux_linked := True\<rparr>" by (simp add: l(3))
  have calm': "mux_calm ?L i" using calm by (simp add: mux_calm_def l(2) m)
  have one: "mux_one (mutexes ?L i) (pend (mx_k ?L) (MuxList i))" by (rule mux_invD(2) [OF l(1)])
  have take: "mux_inv (mux_take (currTask (mx_k S)) i ?L)" if "muxCount (mutexes ?L i) = 0"
    using mux_take_inv(1) [OF l(1), of i] one that a unfolding l(2) by (simp add: mux_one_def m)
  have wait: "mux_inv (snd (mux_wait (currTask (mx_k S)) i timeout ?L))" if "muxCount (mutexes ?L i) \<noteq> 0"
    using mux_wait_inv [OF l(1) _ calm', of _ timeout] one that busy unfolding l(2) by (auto simp: mux_one_def)
  have rec: "mux_inv (upd_mux i (\<lambda>m. m\<lparr>muxCount := muxCount m + 1\<rparr>) ?L)"
    if "muxCount (mutexes ?L i) \<noteq> 0" "attr_type (mux_attr (mutexes ?L i)) = LOS_MUX_RECURSIVE" "muxCount (mutexes ?L i) < 0xFFFF"
  proof (rule mux_inv_upd [OF l(1)])
    have "muxCount (mutexes ?L i) + 1 \<noteq> 0" using unat_inc [OF that(3)] by (metis add_is_0 one_neq_zero unat_0)
    then show "mux_one ((mutexes ?L i)\<lparr>muxCount := muxCount (mutexes ?L i) + 1\<rparr>) (pend (mx_k ?L) (MuxList i))"
      using one that by (simp add: mux_one_def)
  qed simp
  show ?thesis using take wait rec l(1) unfolding OsMuxPendOp_link Let_def by auto
qed

lemma LOS_MuxLock_inv:
  assumes "mux_inv S" "\<And>i. mutex = Some i \<Longrightarrow> mux_calm S i" "currTask (mx_k S) \<noteq> idleTask (mx_k S)"
  shows "mux_inv (snd (LOS_MuxLock mutex timeout S))" "mux_inv (snd (LOS_MuxTrylock mutex S))"
  using OsMuxPendOp_inv [OF assms(1) _ assms(2) assms(3)] assms(1)
  by (auto simp: LOS_MuxLock_def OsMuxLockUnsafe_def LOS_MuxTrylock_def OsMuxTrylockUnsafe_def Let_def split: option.split)

section \<open>Handing over\<close>

lemma count_list_remove1: "count_list (remove1 a xs) b = (if a = b then count_list xs b - 1 else count_list xs b)"
proof (induction xs)
  case (Cons x xs)
  have "count_list xs x = 0 \<Longrightarrow> x \<notin> set xs" by (simp add: count_list_0_iff)
  with Cons show ?case by (cases "x = a") (auto simp: count_list_0_iff)
qed simp

text \<open>What the waiting task that gets the mutex, and the task that gives it, look like then.\<close>

lemma hand_over:
  fixes t :: nat
  assumes inv: "sched_inv K" and q: "pend K (MuxList i) = r # rest"
  defines "J \<equiv> upd_tcb r (\<lambda>c. c\<lparr>taskMux := None\<rparr>) (ops_wake r (OsTaskWakeClearPendMask r
      (upd_tcb r (\<lambda>c. c\<lparr>lockList := lockList c @ [i]\<rparr>) (upd_tcb t (\<lambda>c. c\<lparr>lockList := remove1 i (lockList c)\<rparr>) K))))"
  shows "sched_inv J" "pend J (MuxList n) = (if n = i then rest else pend K (MuxList n))"
    "r \<noteq> t \<Longrightarrow> lockList (tcb J u) = (if u = r then lockList (tcb K r) @ [i] else if u = t then remove1 i (lockList (tcb K t)) else lockList (tcb K u))"
    "\<not> has (status J r) OS_TASK_STATUS_PENDING" "taskMux (tcb J r) = None"
    "priority (sp (tcb J u)) = priority (sp (tcb K u))"
proof -
  let ?K = "upd_tcb r (\<lambda>c. c\<lparr>lockList := lockList c @ [i]\<rparr>) (upd_tcb t (\<lambda>c. c\<lparr>lockList := remove1 i (lockList c)\<rparr>) K)"
  have inv': "sched_inv ?K"
    using sched_inv_lockList [OF sched_inv_lockList [OF inv, of t "remove1 i"], of r "\<lambda>l. l @ [i]"] by simp
  have q': "pend ?K (MuxList i) = r # rest" using q by simp
  have h: "ipc_head (MuxList i)" by simp
  note w = wake_first [OF inv' h q']
  show "sched_inv J" unfolding J_def by (rule sched_inv_taskMux [OF w(1)])
  show "pend J (MuxList n) = (if n = i then rest else pend K (MuxList n))"
    using w(2) w(3) [of "MuxList n"] by (simp add: J_def)
  show "lockList (tcb J u) = (if u = r then lockList (tcb K r) @ [i] else if u = t then remove1 i (lockList (tcb K t)) else lockList (tcb K u))"
    if "r \<noteq> t" using w(4) [of u] that by (auto simp: J_def tcb_sched_def)
  show "\<not> has (status J r) OS_TASK_STATUS_PENDING" "taskMux (tcb J r) = None"
    using w(7) by (simp_all add: J_def status_def)
  show "priority (sp (tcb J u)) = priority (sp (tcb K u))" using w(4) [of u] by (auto simp: J_def tcb_sched_def split: if_splits)
qed

section \<open>Unlocking\<close>

text \<open>The state in which \<open>OsMuxUnlockUnsafe\<close> looks for a waiting task: the count is zero and a ceiling is given back.\<close>

definition mux_dropped :: "nat \<Rightarrow> mux_sys \<Rightarrow> mux_sys" where
  "mux_dropped i S =
     (let t = currTask (mx_k S); S1 = upd_mux i (\<lambda>m. m\<lparr>muxCount := muxCount m - 1\<rparr>) S
      in if protocol (mux_attr (mutexes S i)) = LOS_MUX_PRIO_PROTECT
         then upd_mk (ops_priorityRestore t None (ops_schedParamGet (mx_k S1) t param_zero)) S1 else S1)"

definition mux_mine :: "mux_sys \<Rightarrow> nat \<Rightarrow> bool" where
  "mux_mine S i \<longleftrightarrow> magic (mutexes S i) = OS_MUX_MAGIC \<and> OsCheckMutexAttr (mux_attr (mutexes S i)) = 0 \<and>
     owner (mutexes S i) = Some (currTask (mx_k S))"

lemma mux_unlock_eq:
  assumes "mux_mine S i" "muxCount (mutexes S i) = 1"
  shows "OsMuxUnlockUnsafe (currTask (mx_k S)) i b S = OsMuxPostOp (currTask (mx_k S)) i b (mux_dropped i S)"
  using assms by (simp add: OsMuxUnlockUnsafe_def mux_mine_def mux_dropped_def Let_def)

lemma mux_dropped_facts:
  assumes inv: "mux_inv S" and mine: "mux_mine S i" and one: "muxCount (mutexes S i) = 1"
  shows "mutexes (mux_dropped i S) = (mutexes S)(i := (mutexes S i)\<lparr>muxCount := 0\<rparr>)"
    "prio_change (currTask (mx_k S)) (mx_k S) (mx_k (mux_dropped i S))" "sched_inv (mx_k (mux_dropped i S))"
proof -
  show "mutexes (mux_dropped i S) = (mutexes S)(i := (mutexes S i)\<lparr>muxCount := 0\<rparr>)"
    using one by (simp add: mux_dropped_def Let_def)
  show p: "prio_change (currTask (mx_k S)) (mx_k S) (mx_k (mux_dropped i S))"
    using ops_priorityRestore_change prio_change_refl by (simp add: mux_dropped_def Let_def)
  show "sched_inv (mx_k (mux_dropped i S))"
    by (rule prio_change_inv [OF mux_invD(1) [OF inv] curr_unqueued [OF mux_invD(1) [OF inv]] p])
qed

lemma mux_unlock_free:
  assumes inv: "mux_inv S" and mine: "mux_mine S i" and one: "muxCount (mutexes S i) = 1" and q: "pend (mx_k S) (MuxList i) = []"
  shows "\<exists>T. OsMuxUnlockUnsafe (currTask (mx_k S)) i b S = (0, b, T) \<and> mux_inv T \<and>
    mutexes T = (mutexes S)(i := (mutexes S i)\<lparr>muxCount := 0, owner := None\<rparr>) \<and> currTask (mx_k T) = currTask (mx_k S) \<and>
    pend (mx_k T) = pend (mx_k S) \<and> int_active (mx_k T) = int_active (mx_k S) \<and>
    (\<forall>u. status (mx_k T) u = status (mx_k S) u) \<and> (\<forall>u. sp (tcb (mx_k T) u) = sp (tcb (mx_k (mux_dropped i S)) u))"
proof -
  let ?t = "currTask (mx_k S)" and ?D = "mux_dropped i S"
  note d = mux_dropped_facts [OF inv mine one]
  note f = prio_change_frame [OF d(2)]
  define T where "T = upd_mux i (\<lambda>m. m\<lparr>owner := None\<rparr>) (upd_mk (upd_tcb ?t (\<lambda>c. c\<lparr>lockList := remove1 i (lockList c)\<rparr>)) ?D)"
  have m: "mutexes T = (mutexes S)(i := (mutexes S i)\<lparr>muxCount := 0, owner := None\<rparr>)"
    using d(1) by (auto simp: T_def)
  have ow: "owner (mutexes S i) = Some ?t" using mine by (simp add: mux_mine_def)
  have k: "pend (mx_k T) = pend (mx_k S)" "currTask (mx_k T) = ?t"
    "\<And>u. lockList (tcb (mx_k T) u) = (if u = ?t then remove1 i (lockList (tcb (mx_k S) u)) else lockList (tcb (mx_k S) u))"
    "int_active (mx_k T) = int_active (mx_k S)" "\<And>u. status (mx_k T) u = status (mx_k S) u"
    "\<And>u. sp (tcb (mx_k T) u) = sp (tcb (mx_k (mux_dropped i S)) u)"
    by (simp_all add: T_def f(1,2,3,6,10) status_def)
  have "mux_inv T"
    unfolding mux_inv_def
  proof (intro conjI allI)
    show "sched_inv (mx_k T)" using sched_inv_lockList [OF d(3)] by (simp add: T_def)
    show "mux_one (mutexes T n) (pend (mx_k T) (MuxList n))" for n
      using mux_invD(2) [OF inv, of n] q ow by (auto simp: m mux_one_def k(1))
    show "count_list (lockList (tcb (mx_k T) u)) n = (if owner (mutexes T n) = Some u then 1 else 0)" for u n
      using mux_invD(3) [OF inv, of u n] ow by (auto simp: m k(3) count_list_remove1)
  qed
  moreover have "OsMuxUnlockUnsafe ?t i b S = (0, b, T)"
    unfolding mux_unlock_eq [OF mine one] OsMuxPostOp_def using q ow by (simp add: f(1) hold_delete_def d(1) T_def)
  ultimately show ?thesis using m k(1,2,4-6) by blast
qed

lemma mux_unlock_hands:
  assumes inv: "mux_inv S" and mine: "mux_mine S i" and one: "muxCount (mutexes S i) = 1" and q: "pend (mx_k S) (MuxList i) = r # rest"
  shows "\<exists>T. OsMuxUnlockUnsafe (currTask (mx_k S)) i b S = (0, True, T) \<and> mux_inv T \<and>
    mutexes T = (mutexes S)(i := (mutexes S i)\<lparr>muxCount := 1, owner := Some r\<rparr>) \<and> pend (mx_k T) (MuxList i) = rest \<and>
    \<not> has (status (mx_k T) r) OS_TASK_STATUS_PENDING \<and> taskMux (tcb (mx_k T) r) = None"
proof -
  let ?t = "currTask (mx_k S)" and ?D = "mux_dropped i S"
  let ?R = "OsMuxBitmapRestore i (Some (MuxList i)) r ?D"
  note d = mux_dropped_facts [OF inv mine one]
  note f = prio_change_frame [OF d(2)]
  have ow: "owner (mutexes S i) = Some ?t" using mine by (simp add: mux_mine_def)
  then have owD: "owner (mutexes ?D i) = Some ?t" by (simp add: d(1))
  note c = OsMuxBitmapRestore_change [OF owD, of "Some (MuxList i)" r]
  note g = prio_change_frame [OF c(2)]
  have "unqueued (mx_k ?D) ?t" using curr_unqueued [OF d(3)] by (simp add: f(3))
  then have R: "sched_inv (mx_k ?R)" by (rule prio_change_inv [OF d(3) _ c(2)])
  have qR: "pend (mx_k ?R) (MuxList i) = r # rest" using q by (simp add: f(1) g(1))
  have "on (tcb (mx_k S) r) = Some (MuxList i)"
    using lists_okD(2) [OF rq_invD(1) [OF sched_coreD(1)], of "mx_k S" r "MuxList i"] mux_invD(1) [OF inv] q
    by (simp add: sched_inv_def)
  then have rt: "r \<noteq> ?t" using mux_invD(1) [OF inv] by (auto simp: sched_inv_def)
  note h = hand_over [where t = ?t, OF R qR]
  define T where "T = \<lparr>mx_k = upd_tcb r (\<lambda>c. c\<lparr>taskMux := None\<rparr>) (ops_wake r (OsTaskWakeClearPendMask r
      (upd_tcb r (\<lambda>c. c\<lparr>lockList := lockList c @ [i]\<rparr>) (upd_tcb ?t (\<lambda>c. c\<lparr>lockList := remove1 i (lockList c)\<rparr>) (mx_k ?R))))),
    mutexes = (mutexes S)(i := (mutexes S i)\<lparr>muxCount := 1, owner := Some r\<rparr>)\<rparr>"
  have m: "mutexes T = (mutexes S)(i := (mutexes S i)\<lparr>muxCount := 1, owner := Some r\<rparr>)" by (simp add: T_def)
  have k: "\<And>n. pend (mx_k T) (MuxList n) = (if n = i then rest else pend (mx_k S) (MuxList n))"
    "\<And>u. lockList (tcb (mx_k T) u) = (if u = r then lockList (tcb (mx_k S) r) @ [i]
       else if u = ?t then remove1 i (lockList (tcb (mx_k S) ?t)) else lockList (tcb (mx_k S) u))"
    using h(2,3) rt by (simp_all add: T_def f(1,2) g(1,2))
  have "mux_inv T"
    unfolding mux_inv_def
  proof (intro conjI allI)
    show "sched_inv (mx_k T)" using h(1) by (simp add: T_def)
    show "mux_one (mutexes T n) (pend (mx_k T) (MuxList n))" for n
      using mux_invD(2) [OF inv, of n] ow by (auto simp: m mux_one_def k(1))
    show "count_list (lockList (tcb (mx_k T) u)) n = (if owner (mutexes T n) = Some u then 1 else 0)" for u n
      using mux_invD(3) [OF inv, of u n] mux_invD(3) [OF inv, of r n] ow rt by (auto simp: m k(2) count_list_remove1)
  qed
  moreover have "OsMuxUnlockUnsafe ?t i b S = (0, True, T)"
    unfolding mux_unlock_eq [OF mine one] OsMuxPostOp_def using q ow
    by (simp add: f(1) hold_delete_def c(1) d(1) T_def upd_mk_def upd_mux_def fun_upd_def cong: if_cong)
  moreover have "pend (mx_k T) (MuxList i) = rest" "\<not> has (status (mx_k T) r) OS_TASK_STATUS_PENDING" "taskMux (tcb (mx_k T) r) = None"
    using h(2) [of i] h(4,5) by (simp_all add: T_def)
  ultimately show ?thesis using m by blast
qed

lemma mux_inv_schedule:
  assumes inv: "mux_inv S"
  shows "mux_inv (upd_mk LOS_Schedule S)"
proof (rule mux_inv_kernel [OF inv])
  note k = mux_invD(1) [OF inv]
  show "sched_inv (mx_k (upd_mk LOS_Schedule S))" using LOS_Schedule_inv [OF k] by simp
  show "pend (mx_k (upd_mk LOS_Schedule S)) (MuxList i) = []" if "owner (mutexes S i) = None" for i
    using LOS_Schedule_ipc(1) [OF k, of "MuxList i"] mux_invD(2) [OF inv, of i] that by (simp add: mux_one_def)
  show "lockList (tcb (mx_k (upd_mk LOS_Schedule S)) t) = lockList (tcb (mx_k S) t)" for t
    using LOS_Schedule_ipc(2) [OF k, of t] by (simp add: tcb_sched_def)
qed simp

lemma mux_unlock_count:
  assumes "mux_inv S" "mux_mine S i"
  shows "muxCount (mutexes S i) \<noteq> 0" "muxCount (mutexes S i) \<noteq> 1 \<Longrightarrow> attr_type (mux_attr (mutexes S i)) = LOS_MUX_RECURSIVE"
proof -
  have one: "mux_one (mutexes S i) (pend (mx_k S) (MuxList i))" by (rule mux_invD(2) [OF assms(1)])
  show n: "muxCount (mutexes S i) \<noteq> 0" using one assms(2) by (simp add: mux_one_def mux_mine_def)
  show "attr_type (mux_attr (mutexes S i)) = LOS_MUX_RECURSIVE" if "muxCount (mutexes S i) \<noteq> 1"
  proof (rule ccontr)
    assume "attr_type (mux_attr (mutexes S i)) \<noteq> LOS_MUX_RECURSIVE"
    then have "unat (muxCount (mutexes S i)) \<le> 1" using one by (simp add: mux_one_def word_le_nat_alt)
    moreover have "unat (muxCount (mutexes S i)) \<noteq> 0" using n by (simp add: unat_eq_zero)
    ultimately have "unat (muxCount (mutexes S i)) = unat (1 :: u16)" by simp
    with that show False by (simp only: word_unat_eq_iff)
  qed
qed

lemma mux_unlock_nested:
  assumes inv: "mux_inv S" and mine: "mux_mine S i" and n: "muxCount (mutexes S i) \<noteq> 1"
  shows "OsMuxUnlockUnsafe (currTask (mx_k S)) i b S = (0, b, upd_mux i (\<lambda>m. m\<lparr>muxCount := muxCount m - 1\<rparr>) S)"
    "mux_inv (upd_mux i (\<lambda>m. m\<lparr>muxCount := muxCount m - 1\<rparr>) S)"
proof -
  note c = mux_unlock_count [OF inv mine]
  have n': "muxCount (mutexes S i) - 1 \<noteq> 0" using n by simp
  show "OsMuxUnlockUnsafe (currTask (mx_k S)) i b S = (0, b, upd_mux i (\<lambda>m. m\<lparr>muxCount := muxCount m - 1\<rparr>) S)"
    using mine c(1) c(2) [OF n] n' by (simp add: OsMuxUnlockUnsafe_def mux_mine_def Let_def)
  show "mux_inv (upd_mux i (\<lambda>m. m\<lparr>muxCount := muxCount m - 1\<rparr>) S)"
    using mux_invD(2) [OF inv, of i] c(2) [OF n] c(1) n' by (intro mux_inv_upd [OF inv]) (auto simp: mux_one_def)
qed

lemma OsMuxUnlockUnsafe_inv:
  assumes "mux_inv S"
  shows "mux_inv (snd (snd (OsMuxUnlockUnsafe (currTask (mx_k S)) i b S)))"
proof (cases "mux_mine S i")
  case True
  show ?thesis
  proof (cases "muxCount (mutexes S i) = 1")
    case one: True
    show ?thesis
    proof (cases "pend (mx_k S) (MuxList i)")
      case Nil
      then show ?thesis using mux_unlock_free [OF assms True one, of b] by auto
    next
      case (Cons r rest)
      then show ?thesis using mux_unlock_hands [OF assms True one Cons, of b] by auto
    qed
  qed (use mux_unlock_nested [OF assms True] in simp)
next
  case False
  then show ?thesis using assms by (auto simp: OsMuxUnlockUnsafe_def mux_mine_def Let_def)
qed

lemma LOS_MuxUnlock_inv: "mux_inv S \<Longrightarrow> mux_inv (snd (LOS_MuxUnlock mutex S))"
  using OsMuxUnlockUnsafe_inv mux_inv_schedule
  by (auto simp: LOS_MuxUnlock_def case_prod_beta Let_def split: option.split)

section \<open>Every operation keeps the invariant\<close>

lemma LOS_MuxInit_inv:
  assumes inv: "mux_inv S" and free: "owner (mutexes S i) = None"
  shows "mux_inv (snd (LOS_MuxInit (Some i) attr S))"
proof -
  have one: "muxCount (mutexes S i) = 0" "pend (mx_k S) (MuxList i) = []"
    using mux_invD(2) [OF inv, of i] free by (simp_all add: mux_one_def)
  have "mux_inv (upd_mux i (\<lambda>m. m\<lparr>mux_attr := a\<rparr>) S)" for a
    using one free by (intro mux_inv_upd [OF inv]) (auto simp: mux_one_def)
  moreover have "mux_inv (upd_mk (\<lambda>k. k\<lparr>pend := (pend k)(MuxList i := [])\<rparr>)
      (upd_mux i (\<lambda>m. m\<lparr>muxCount := 0, owner := None, mux_linked := True, magic := OS_MUX_MAGIC\<rparr>) T))"
    if "mux_inv T" "mx_k T = mx_k S" "owner (mutexes T i) = None" for T
  proof -
    have k: "mx_k S\<lparr>pend := (pend (mx_k S))(MuxList i := [])\<rparr> = mx_k S" using one(2) by (simp add: fun_upd_idem)
    have "upd_mk (\<lambda>k. k\<lparr>pend := (pend k)(MuxList i := [])\<rparr>) V = V" if "mx_k V = mx_k S" for V
      using that k by (simp add: upd_mk_def)
    moreover have "mux_inv (upd_mux i (\<lambda>m. m\<lparr>muxCount := 0, owner := None, mux_linked := True, magic := OS_MUX_MAGIC\<rparr>) T)"
      using that one(2) by (intro mux_inv_upd) (auto simp: mux_one_def)
    ultimately show ?thesis using that(2) by simp
  qed
  ultimately show ?thesis using free by (simp add: LOS_MuxInit_def Let_def)
qed

lemma LOS_MuxDestroy_inv:
  assumes inv: "mux_inv S"
  shows "mux_inv (snd (LOS_MuxDestroy (Some i) S))"
proof -
  have "mux_inv (upd_mux i (\<lambda>m. \<lparr>magic = 0, mux_attr = \<lparr>protocol = 0, prioceiling = 0, attr_type = 0\<rparr>,
      mux_linked = False, owner = None, muxCount = 0\<rparr>) S)" if "muxCount (mutexes S i) = 0"
    using mux_invD(2) [OF inv, of i] that by (intro mux_inv_upd [OF inv]) (auto simp: mux_one_def)
  then show ?thesis using inv by (simp add: LOS_MuxDestroy_def)
qed

lemma OsMuxPendOp_resume_inv:
  assumes inv: "mux_inv S" and calm: "mux_calm S i"
  shows "mux_inv (snd (OsMuxPendOp_resume t i S))"
proof -
  obtain r k where w: "wait_resume t (mx_k S) = (r, k)" by fastforce
  have k: "sched_inv k" "pend k = pend (mx_k S)" using wait_resume_frame [OF mux_invD(1) [OF inv], of t] w by auto
  have l: "lockList (tcb k u) = lockList (tcb (mx_k S) u)" "on (tcb k u) = on (tcb (mx_k S) u)" for u
    using w by (auto simp: wait_resume_def clr_status_def split: if_splits)
  have "mux_inv (S\<lparr>mx_k := k\<rparr>)"
    using k l(1) mux_invD(2) [OF inv] by (intro mux_inv_kernel [OF inv]) (auto simp: mux_one_def)
  moreover have "mux_calm (S\<lparr>mx_k := k\<rparr>) i" using calm l(2) by (simp add: mux_calm_def unqueued_def)
  ultimately show ?thesis using mux_after_wait_inv w by (simp add: OsMuxPendOp_resume_def)
qed

lemma mux_set_ceiling_inv:
  assumes inv: "mux_inv S"
  shows "mux_inv (snd (snd (mux_set_ceiling r i p S)))"
proof -
  let ?a = "snd (LOS_MuxAttrSetPrioceiling (Some (mux_attr (mutexes S i))) p)"
  have "attr_type (the ?a) = attr_type (mux_attr (mutexes S i))" by (simp add: LOS_MuxAttrSetPrioceiling_def)
  then have "mux_inv (upd_mux i (\<lambda>m. m\<lparr>mux_attr := the ?a\<rparr>) S)"
    using mux_invD(2) [OF inv, of i] by (intro mux_inv_upd [OF inv]) (auto simp: mux_one_def)
  from LOS_MuxUnlock_inv [OF this] inv show ?thesis by (simp add: mux_set_ceiling_def case_prod_beta Let_def)
qed

text \<open>
  The steps of a system of mutexes: the operations, run by any task, and whatever else the kernel does,
  which may let waiting tasks time out but leaves the lists of locks alone.
\<close>

inductive mux_step :: "mux_sys \<Rightarrow> mux_sys \<Rightarrow> bool" where
  step_init: "owner (mutexes S i) = None \<Longrightarrow> mux_step S (snd (LOS_MuxInit (Some i) attr S))"
| step_destroy: "mux_step S (snd (LOS_MuxDestroy (Some i) S))"
| step_lock: "mux_calm S i \<Longrightarrow> currTask (mx_k S) \<noteq> idleTask (mx_k S) \<Longrightarrow> mux_step S (snd (LOS_MuxLock (Some i) timeout S))"
| step_trylock: "mux_calm S i \<Longrightarrow> currTask (mx_k S) \<noteq> idleTask (mx_k S) \<Longrightarrow> mux_step S (snd (LOS_MuxTrylock (Some i) S))"
| step_resume: "mux_calm S i \<Longrightarrow> mux_step S (snd (OsMuxPendOp_resume t i S))"
| step_unlock: "mux_step S (snd (LOS_MuxUnlock (Some i) S))"
| step_ceiling: "mux_step S (snd (snd (mux_set_ceiling r i p S)))"
| step_kernel: "sched_inv k \<Longrightarrow> (\<And>i. set (pend k (MuxList i)) \<subseteq> set (pend (mx_k S) (MuxList i))) \<Longrightarrow>
    (\<And>t. lockList (tcb k t) = lockList (tcb (mx_k S) t)) \<Longrightarrow> mux_step S (S\<lparr>mx_k := k\<rparr>)"

inductive_cases mux_stepE: "mux_step S T"

lemma mux_step_inv:
  assumes "mux_step S T" "mux_inv S"
  shows "mux_inv T"
  using assms
proof cases
  case (step_kernel k)
  show ?thesis
    unfolding step_kernel(1)
  proof (rule mux_inv_kernel [OF assms(2)])
    show "pend (mx_k (S\<lparr>mx_k := k\<rparr>)) (MuxList i) = []" if "owner (mutexes S i) = None" for i
      using step_kernel(3) [of i] mux_invD(2) [OF assms(2), of i] that by (simp add: mux_one_def)
  qed (use step_kernel in simp_all)
next
  case (step_lock i timeout)
  then show ?thesis using LOS_MuxLock_inv(1) [OF assms(2), of "Some i" timeout] by simp
next
  case (step_trylock i)
  then show ?thesis using LOS_MuxLock_inv(2) [OF assms(2), of "Some i"] by simp
qed (simp_all add: LOS_MuxInit_inv LOS_MuxDestroy_inv OsMuxPendOp_resume_inv LOS_MuxUnlock_inv mux_set_ceiling_inv)

section \<open>The order of the waiting tasks\<close>

definition same_rank :: "TCB \<Rightarrow> TCB \<Rightarrow> bool" where
  "same_rank c d \<longleftrightarrow> ops d = ops c \<and> policy (sp d) = policy (sp c) \<and> basePrio (sp d) = basePrio (sp c) \<and> priority (sp d) = priority (sp c)"

lemma lock_le_rank:
  assumes "same_rank (tcb k a) (tcb j a)" "same_rank (tcb k b) (tcb j b)" "same_policy k t a" "same_policy k t b"
  shows "lock_le j a b = lock_le k a b"
  using assms by (simp add: lock_le_def same_rank_def same_policy_def OsSchedParamCompare_def ops_schedParamCompare_def HPFParamCompare_def)

lemma sorted_lock_rank:
  assumes "\<And>u. u \<in> set xs \<Longrightarrow> same_rank (tcb k u) (tcb j u)" "\<And>u. u \<in> set xs \<Longrightarrow> same_policy k t u"
  shows "sorted_wrt (lock_le j) xs = sorted_wrt (lock_le k) xs"
  using assms
proof (induction xs)
  case (Cons x xs)
  have "lock_le j x y = lock_le k x y" if "y \<in> set xs" for y
    using lock_le_rank [of k x j y t] Cons.prems that by simp
  with Cons show ?case by auto
qed simp

text \<open>The tasks that wait for the mutex are sorted, and they and the running task are of one policy.\<close>

definition mux_order :: "mux_sys \<Rightarrow> nat \<Rightarrow> bool" where
  "mux_order S i \<longleftrightarrow> sorted_wrt (lock_le (mx_k S)) (pend (mx_k S) (MuxList i)) \<and>
     (\<forall>u\<in>set (currTask (mx_k S) # pend (mx_k S) (MuxList i)). same_policy (mx_k S) (currTask (mx_k S)) u) \<and>
     (\<forall>u\<in>set (pend (mx_k S) (MuxList i)). owner (mutexes S i) \<noteq> Some u)"

lemma mux_enter_rank:
  assumes "mux_inv S" "owner (mutexes S i) = Some ow" "mux_calm S i" "currTask (mx_k S) \<noteq> idleTask (mx_k S)" "mux_order S i"
    and u: "u \<in> set (currTask (mx_k S) # pend (mx_k S) (MuxList i))"
  shows "same_rank (tcb (mx_k S) u) (tcb (mx_k (mux_enter (currTask (mx_k S)) i S)) u)"
proof (cases "u = ow")
  case False
  then show ?thesis using mux_enter_facts(8,9) [OF assms(1-4), of u] by (simp add: same_rank_def)
next
  case True
  then have ut: "u = currTask (mx_k S)" using assms(2,5) u by (auto simp: mux_order_def)
  then have "same_policy (mx_k S) u u" using assms(5) by (simp add: mux_order_def)
  then have "OsSchedParamCompare (tcb (mx_k S) u) (tcb (mx_k S) u) = 0"
    by (simp add: same_policy_def OsSchedParamCompare_def ops_schedParamCompare_def HPFParamCompare_def)
  then have "OsMuxBitmapSet i u S = S" using assms(2) True by (simp add: OsMuxBitmapSet_def)
  then show ?thesis using ut by (simp add: mux_enter_def same_rank_def)
qed

lemma mux_wait_sorted:
  assumes inv: "mux_inv S" and ow: "owner (mutexes S i) = Some ow" and calm: "mux_calm S i"
    and busy: "currTask (mx_k S) \<noteq> idleTask (mx_k S)" and lock: "taskLockCnt (mx_k S) = 0" and ord: "mux_order S i"
  shows "\<exists>k. mux_wait (currTask (mx_k S)) i timeout S = (None, S\<lparr>mx_k := k\<rparr>) \<and> mux_inv (S\<lparr>mx_k := k\<rparr>) \<and>
    currTask k \<noteq> currTask (mx_k S) \<and> set (pend k (MuxList i)) = insert (currTask (mx_k S)) (set (pend (mx_k S) (MuxList i))) \<and>
    sorted_wrt (lock_le k) (pend k (MuxList i))"
proof -
  let ?t = "currTask (mx_k S)" and ?ws = "pend (mx_k S) (MuxList i)" and ?k = "mx_k (mux_enter (currTask (mx_k S)) i S)"
  note e = mux_enter_facts [OF inv ow calm busy]
  note rank = mux_enter_rank [OF inv ow calm busy ord]
  have pol: "same_policy (mx_k S) ?t u" if "u \<in> set (?t # ?ws)" for u using ord that unfolding mux_order_def by blast
  have pol': "same_policy ?k ?t u" if "u \<in> set (?t # ?ws)" for u
    using pol [OF that] rank [OF that] rank [of ?t] by (simp add: same_policy_def same_rank_def)
  have lo: "lists_ok ?k" using mux_invD(1) [OF e(1)] rq_invD(1) sched_coreD(1) by (auto simp: sched_inv_def)
  have s: "sorted_wrt (lock_le ?k) ?ws"
    using sorted_lock_rank [of ?ws "mx_k S" ?k ?t] rank pol ord by (simp add: mux_order_def)
  obtain pos where pos: "OsSchedLockPendFindPos ?k ?t (MuxList i) = Some pos" "pos_on ?k pos (MuxList i)" "cuts ?k ?t (MuxList i) pos"
    using lock_pos_cuts [OF lo, of "MuxList i" ?t] s pol' unfolding e(3) by auto
  from pos(3) obtain pre post where c: "?ws = pre @ post" "pos_insert pos ?t ?ws = pre @ ?t # post"
    "\<forall>a\<in>set pre. lock_le ?k a ?t" "\<forall>b\<in>set post. lock_le ?k ?t b" unfolding cuts_def e(3) by blast
  obtain k where k: "mux_wait ?t i timeout S = (None, S\<lparr>mx_k := k\<rparr>)" "mux_inv (S\<lparr>mx_k := k\<rparr>)" "currTask k \<noteq> ?t"
    "pend k (MuxList i) = pre @ ?t # post" "\<forall>u. tcb_sched (tcb ?k u) (tcb k u)"
    using mux_wait_blocks [OF inv ow calm busy lock pos(1), of timeout] c(2) by auto
  have "sorted_wrt (lock_le ?k) (pre @ ?t # post)" using s c by (simp add: sorted_wrt_append)
  then have "sorted_wrt (lock_le k) (pre @ ?t # post)"
    using sorted_lock_rank [of "pre @ ?t # post" ?k k ?t] k(5) pol' c(1) by (simp add: same_rank_def tcb_sched_def)
  then show ?thesis using k c(1) by auto
qed

section \<open>Properties\<close>


text \<open>No mutex is set up and the scheduler is in its state after boot; task 1 runs.\<close>

definition mux_boot :: mux_sys where
  "mux_boot = \<lparr>mx_k = k_boot, mutexes = (\<lambda>_. \<lparr>magic = 0, mux_attr = \<lparr>protocol = 0, prioceiling = 0, attr_type = 0\<rparr>,
     mux_linked = False, owner = None, muxCount = 0\<rparr>)\<rparr>"

lemma mux_inv_boot: "mux_inv mux_boot"
  using sched_inv_boot
  by (auto simp: mux_inv_def mux_boot_def mux_one_def k_boot_def tcb_boot_def tcb_blank_def)

text \<open>Mutex 0 is set up with the given attributes.\<close>

definition mux_ready :: "LosMuxAttr \<Rightarrow> mux_sys" where
  "mux_ready a = snd (LOS_MuxInit (Some 0) (Some a) mux_boot)"

lemma mux_inv_ready: "mux_inv (mux_ready a)"
  unfolding mux_ready_def by (rule LOS_MuxInit_inv [OF mux_inv_boot]) (simp add: mux_boot_def)

lemma mux_ready_kernel: "mx_k (mux_ready a) = k_boot"
proof -
  have "k_boot\<lparr>pend := (pend k_boot)(MuxList 0 := [])\<rparr> = k_boot" by (simp add: k_boot_def fun_upd_idem)
  then show ?thesis by (simp add: mux_ready_def LOS_MuxInit_def mux_boot_def Let_def)
qed

lemma mux_ready_mutex:
  "OsCheckMutexAttr a = 0 \<Longrightarrow> mutexes (mux_ready a) 0 =
     \<lparr>magic = OS_MUX_MAGIC, mux_attr = a, mux_linked = True, owner = None, muxCount = 0\<rparr>"
  by (simp add: mux_ready_def LOS_MuxInit_def mux_boot_def Let_def)


lemma mux_lock_busy:
  assumes "mux_inv S" "LOS_MuxIsValid (Some i) S" "OsCheckMutexAttr (mux_attr (mutexes S i)) = 0" "\<not> int_active (mx_k S)"
    and ow: "owner (mutexes S i) = Some ow"
  shows "LOS_MuxLock (Some i) timeout S =
    (if attr_type (mux_attr (mutexes S i)) = LOS_MUX_ERRORCHECK \<and> ow = currTask (mx_k S) then (Some LOS_EDEADLK, S)
     else if ow = currTask (mx_k S) \<and> attr_type (mux_attr (mutexes S i)) = LOS_MUX_RECURSIVE
       then (Some 0, if muxCount (mutexes S i) < 0xFFFF then upd_mux i (\<lambda>m. m\<lparr>muxCount := muxCount m + 1\<rparr>) S else S)
     else if timeout = 0 then (Some LOS_EINVAL, S) else mux_wait (currTask (mx_k S)) i timeout S)"
proof -
  have one: "muxCount (mutexes S i) \<noteq> 0" "mux_linked (mutexes S i)"
    using mux_invD(2) [OF assms(1), of i] ow by (auto simp: mux_one_def)
  have "mux_link i S = S" using one(2) by (simp add: mux_link_def)
  then show ?thesis
    using assms(2-4) ow one by (simp add: LOS_MuxLock_def OsMuxLockUnsafe_def LOS_MuxIsValid_def OsMuxPendOp_link Let_def)
qed

lemma mux_lock_free:
  assumes "mux_inv S" "LOS_MuxIsValid (Some i) S" "OsCheckMutexAttr (mux_attr (mutexes S i)) = 0" "\<not> int_active (mx_k S)"
    and ow: "owner (mutexes S i) = None"
  shows "LOS_MuxLock (Some i) timeout S = (Some 0, mux_take (currTask (mx_k S)) i (mux_link i S))"
    "mux_inv (mux_take (currTask (mx_k S)) i (mux_link i S))"
    "mutexes (mux_take (currTask (mx_k S)) i (mux_link i S)) =
       (mutexes S)(i := (mutexes S i)\<lparr>mux_linked := True, muxCount := 1, owner := Some (currTask (mx_k S))\<rparr>)"
    "currTask (mx_k (mux_take (currTask (mx_k S)) i (mux_link i S))) = currTask (mx_k S)"
    "int_active (mx_k (mux_take (currTask (mx_k S)) i (mux_link i S))) = int_active (mx_k S)"
    "pend (mx_k (mux_take (currTask (mx_k S)) i (mux_link i S))) = pend (mx_k S)"
proof -
  note l = mux_link_facts [OF assms(1), of i]
  have c: "muxCount (mutexes S i) = 0" using mux_invD(2) [OF assms(1), of i] ow by (simp add: mux_one_def)
  show "LOS_MuxLock (Some i) timeout S = (Some 0, mux_take (currTask (mx_k S)) i (mux_link i S))"
    using assms(2-4) ow c l(3) by (simp add: LOS_MuxLock_def OsMuxLockUnsafe_def LOS_MuxIsValid_def OsMuxPendOp_link Let_def)
  note t = mux_take_inv [OF l(1), of i, unfolded l(2,3)]
  show "mux_inv (mux_take (currTask (mx_k S)) i (mux_link i S))"
    "mutexes (mux_take (currTask (mx_k S)) i (mux_link i S)) =
       (mutexes S)(i := (mutexes S i)\<lparr>mux_linked := True, muxCount := 1, owner := Some (currTask (mx_k S))\<rparr>)"
    "currTask (mx_k (mux_take (currTask (mx_k S)) i (mux_link i S))) = currTask (mx_k S)"
    "int_active (mx_k (mux_take (currTask (mx_k S)) i (mux_link i S))) = int_active (mx_k S)"
    "pend (mx_k (mux_take (currTask (mx_k S)) i (mux_link i S))) = pend (mx_k S)"
    using t ow assms(3) by simp_all
qed


text \<open>Mutex 0 is a recursive mutex without inheritance, held twice by task 2, which is ready.\<close>

definition mux_held :: mux_sys where
  "mux_held = upd_mk (upd_tcb 2 (\<lambda>c. c\<lparr>lockList := lockList c @ [0]\<rparr>))
     (upd_mux 0 (\<lambda>m. m\<lparr>owner := Some 2, muxCount := 2\<rparr>) (mux_ready \<lparr>protocol = 0, prioceiling = 31, attr_type = 1\<rparr>))"

lemma mux_attr_held: "OsCheckMutexAttr \<lparr>protocol = 0, prioceiling = 31, attr_type = 1\<rparr> = 0"
  by (simp add: OsCheckMutexAttr_def)

lemma mux_held_facts:
  "mx_k mux_held = upd_tcb 2 (\<lambda>c. c\<lparr>lockList := lockList c @ [0]\<rparr>) k_boot"
  "mutexes mux_held 0 = \<lparr>magic = OS_MUX_MAGIC, mux_attr = \<lparr>protocol = 0, prioceiling = 31, attr_type = 1\<rparr>,
     mux_linked = True, owner = Some 2, muxCount = 2\<rparr>"
  "i \<noteq> 0 \<Longrightarrow> mutexes mux_held i = mutexes mux_boot i"
  using mux_ready_kernel mux_ready_mutex [OF mux_attr_held]
  by (simp_all add: mux_held_def) (simp_all add: mux_ready_def LOS_MuxInit_def Let_def)

lemma mux_inv_held: "mux_inv mux_held"
proof -
  have "sched_inv (mx_k mux_held)"
    unfolding mux_held_facts using sched_inv_lockList [OF sched_inv_boot, of 2 "\<lambda>l. l @ [0]"] by simp
  moreover have "mux_one (mutexes mux_held i) (pend (mx_k mux_held) (MuxList i))" for i
    using mux_held_facts(1,2) mux_held_facts(3) [of i]
    by (cases "i = 0") (simp_all add: mux_one_def mux_boot_def k_boot_def)
  moreover have "count_list (lockList (tcb (mx_k mux_held) t)) i = (if owner (mutexes mux_held i) = Some t then 1 else 0)" for t i
    using mux_held_facts(1,2) mux_held_facts(3) [of i]
    by (cases "i = 0") (simp_all add: mux_boot_def k_boot_def tcb_boot_def tcb_blank_def)
  ultimately show ?thesis by (simp add: mux_inv_def)
qed


text \<open>
  C11. Unlocking a valid mutex, on every branch. Only its owner can unlock it. A mutex held more than once is held
  once less. The last unlock frees the mutex if nobody waits, and otherwise hands it to the first task
  of the list, so that it is never free while a task waits for it.
\<close>

theorem mux_unlock_cases:
  assumes "mux_inv S" "LOS_MuxIsValid (Some i) S" "OsCheckMutexAttr (mux_attr (mutexes S i)) = 0" "\<not> int_active (mx_k S)"
  shows "let t = currTask (mx_k S); m = mutexes S i; (ret, T) = LOS_MuxUnlock (Some i) S
    in mux_inv T \<and> (\<forall>n. n \<noteq> i \<longrightarrow> mutexes T n = mutexes S n) \<and>
      (if owner m \<noteq> Some t then ret = LOS_EPERM \<and> T = S
       else if muxCount m \<noteq> 1 then ret = 0 \<and> mx_k T = mx_k S \<and> mutexes T i = m\<lparr>muxCount := muxCount m - 1\<rparr>
       else case pend (mx_k S) (MuxList i) of
           [] \<Rightarrow> ret = 0 \<and> mutexes T i = m\<lparr>muxCount := 0, owner := None\<rparr> \<and> currTask (mx_k T) = t
         | r # rest \<Rightarrow> ret = 0 \<and> mutexes T i = m\<lparr>muxCount := 1, owner := Some r\<rparr> \<and>
             pend (mx_k T) (MuxList i) = rest \<and> taskMux (tcb (mx_k T) r) = None)"
proof (cases "owner (mutexes S i) = Some (currTask (mx_k S))")
  case False
  then show ?thesis
    using assms by (simp add: LOS_MuxUnlock_def OsMuxUnlockUnsafe_def LOS_MuxIsValid_def Let_def)
next
  case True
  then have mine: "mux_mine S i" using assms(2,3) by (simp add: mux_mine_def LOS_MuxIsValid_def)
  show ?thesis
  proof (cases "muxCount (mutexes S i) = 1")
    case False
    then show ?thesis
      using mux_unlock_nested [OF assms(1) mine False] True assms(4) by (simp add: LOS_MuxUnlock_def)
  next
    case one: True
    show ?thesis
    proof (cases "pend (mx_k S) (MuxList i)")
      case Nil
      from mux_unlock_free [OF assms(1) mine one Nil, of False] show ?thesis
        using True one Nil assms(4) by (auto simp: LOS_MuxUnlock_def)
    next
      case (Cons r rest)
      from mux_unlock_hands [OF assms(1) mine one Cons, of False] obtain T where
        T: "OsMuxUnlockUnsafe (currTask (mx_k S)) i False S = (0, True, T)" "mux_inv T"
        "mutexes T = (mutexes S)(i := (mutexes S i)\<lparr>muxCount := 1, owner := Some r\<rparr>)" "pend (mx_k T) (MuxList i) = rest"
        "taskMux (tcb (mx_k T) r) = None" by blast
      have "pend (mx_k (upd_mk LOS_Schedule T)) (MuxList i) = rest" "taskMux (tcb (mx_k (upd_mk LOS_Schedule T)) r) = None"
        using LOS_Schedule_ipc(1,2) [OF mux_invD(1) [OF T(2)]] T(4,5) by (simp_all add: tcb_sched_def)
      with mux_inv_schedule [OF T(2)] T True one Cons assms(4) show ?thesis by (simp add: LOS_MuxUnlock_def)
    qed
  qed
qed

theorem mux_unlock_cases_witness:
  "fst (LOS_MuxUnlock (Some 0) mux_held) = LOS_EPERM"
proof -
  have "\<not> int_active (mx_k mux_held)" "currTask (mx_k mux_held) = 1" by (simp_all add: mux_held_facts k_boot_def)
  then show ?thesis
    using mux_unlock_cases [OF mux_inv_held, of 0]
    by (simp add: LOS_MuxIsValid_def mux_held_facts(2) mux_attr_held case_prod_beta Let_def)
qed

text \<open>
  \<open>mux_depth S i n\<close>: the running task holds the recursive mutex \<open>i\<close> exactly \<open>n\<close> times and nobody waits for it.
\<close>

definition mux_depth :: "mux_sys \<Rightarrow> nat \<Rightarrow> nat \<Rightarrow> bool" where
  "mux_depth S i n \<longleftrightarrow> mux_inv S \<and> LOS_MuxIsValid (Some i) S \<and> OsCheckMutexAttr (mux_attr (mutexes S i)) = 0 \<and>
     attr_type (mux_attr (mutexes S i)) = LOS_MUX_RECURSIVE \<and> \<not> int_active (mx_k S) \<and> pend (mx_k S) (MuxList i) = [] \<and>
     owner (mutexes S i) = (if n = 0 then None else Some (currTask (mx_k S))) \<and> unat (muxCount (mutexes S i)) = n"

lemma mux_depth_lock:
  assumes d: "mux_depth S i n" and n: "n < 65535"
  shows "fst (LOS_MuxLock (Some i) timeout S) = Some 0" "mux_depth (snd (LOS_MuxLock (Some i) timeout S)) i (n + 1)"
    "currTask (mx_k (snd (LOS_MuxLock (Some i) timeout S))) = currTask (mx_k S)"
proof -
  have A: "mux_inv S" "LOS_MuxIsValid (Some i) S" "OsCheckMutexAttr (mux_attr (mutexes S i)) = 0" "\<not> int_active (mx_k S)"
    using d by (simp_all add: mux_depth_def)
  have "fst (LOS_MuxLock (Some i) timeout S) = Some 0 \<and> mux_depth (snd (LOS_MuxLock (Some i) timeout S)) i (n + 1) \<and>
    currTask (mx_k (snd (LOS_MuxLock (Some i) timeout S))) = currTask (mx_k S)"
  proof (cases "n = 0")
    case True
    then have "owner (mutexes S i) = None" using d by (simp add: mux_depth_def)
    from mux_lock_free [OF A this] d True show ?thesis by (simp add: mux_depth_def LOS_MuxIsValid_def)
  next
    case False
    then have ow: "owner (mutexes S i) = Some (currTask (mx_k S))" using d by (simp add: mux_depth_def)
    have c: "muxCount (mutexes S i) < 0xFFFF" using d n by (simp add: mux_depth_def word_less_nat_alt)
    have ne: "muxCount (mutexes S i) + 1 \<noteq> 0" using unat_inc [OF c] by (metis add_is_0 one_neq_zero unat_0)
    have "mux_inv (upd_mux i (\<lambda>m. m\<lparr>muxCount := muxCount m + 1\<rparr>) S)"
      using d ne ow mux_invD(2) [OF A(1), of i] by (intro mux_inv_upd [OF A(1)]) (simp_all add: mux_depth_def mux_one_def)
    then show ?thesis
      using mux_lock_busy [OF A ow, of timeout] c ow d unat_inc [OF c] by (simp add: mux_depth_def LOS_MuxIsValid_def)
  qed
  then show "fst (LOS_MuxLock (Some i) timeout S) = Some 0" "mux_depth (snd (LOS_MuxLock (Some i) timeout S)) i (n + 1)"
    "currTask (mx_k (snd (LOS_MuxLock (Some i) timeout S))) = currTask (mx_k S)" by auto
qed

lemma mux_depth_unlock:
  assumes d: "mux_depth S i (n + 1)"
  shows "fst (LOS_MuxUnlock (Some i) S) = 0" "mux_depth (snd (LOS_MuxUnlock (Some i) S)) i n"
    "currTask (mx_k (snd (LOS_MuxUnlock (Some i) S))) = currTask (mx_k S)"
proof -
  have mine: "mux_mine S i" and inv: "mux_inv S" using d by (simp_all add: mux_depth_def mux_mine_def LOS_MuxIsValid_def)
  have u: "unat (muxCount (mutexes S i)) = n + 1" using d by (simp add: mux_depth_def)
  have "fst (LOS_MuxUnlock (Some i) S) = 0 \<and> mux_depth (snd (LOS_MuxUnlock (Some i) S)) i n \<and>
    currTask (mx_k (snd (LOS_MuxUnlock (Some i) S))) = currTask (mx_k S)"
  proof (cases "muxCount (mutexes S i) = 1")
    case True
    then have n: "n = 0" using u by simp
    have q: "pend (mx_k S) (MuxList i) = []" using d by (simp add: mux_depth_def)
    obtain T where T: "OsMuxUnlockUnsafe (currTask (mx_k S)) i False S = (0, False, T)" "mux_inv T"
      "mutexes T = (mutexes S)(i := (mutexes S i)\<lparr>muxCount := 0, owner := None\<rparr>)" "currTask (mx_k T) = currTask (mx_k S)"
      "pend (mx_k T) = pend (mx_k S)" "int_active (mx_k T) = int_active (mx_k S)"
      using mux_unlock_free [OF inv mine True q, of False] by blast
    then show ?thesis using n d by (simp add: mux_depth_def LOS_MuxUnlock_def LOS_MuxIsValid_def)
  next
    case False
    note t = mux_unlock_nested [OF inv mine False]
    have n: "n \<noteq> 0" using u False by (metis One_nat_def add_0 unat_1 word_unat_eq_iff)
    have "unat (muxCount (mutexes S i) - 1) = n" using u mux_unlock_count(1) [OF inv mine] by (simp add: unat_minus_one)
    then show ?thesis using t d n by (simp add: mux_depth_def LOS_MuxUnlock_def LOS_MuxIsValid_def)
  qed
  then show "fst (LOS_MuxUnlock (Some i) S) = 0" "mux_depth (snd (LOS_MuxUnlock (Some i) S)) i n"
    "currTask (mx_k (snd (LOS_MuxUnlock (Some i) S))) = currTask (mx_k S)" by auto
qed

text \<open>
  A recursive mutex locked \<open>n\<close> times by a task, for any \<open>n\<close> up to the limit of the counter, is held by it until
  it was unlocked \<open>n\<close> times, and free then.
\<close>

theorem mux_recursive_roundtrip:
  assumes "mux_depth S i 0" "n \<le> 65535" "m \<le> n"
  shows "let T = ((\<lambda>S. snd (LOS_MuxUnlock (Some i) S)) ^^ m) (((\<lambda>S. snd (LOS_MuxLock (Some i) timeout S)) ^^ n) S)
    in unat (muxCount (mutexes T i)) = n - m \<and>
       owner (mutexes T i) = (if m = n then None else Some (currTask (mx_k S))) \<and> mux_inv T"
proof -
  let ?L = "\<lambda>n. ((\<lambda>S. snd (LOS_MuxLock (Some i) timeout S)) ^^ n) S"
  let ?U = "\<lambda>m. ((\<lambda>S. snd (LOS_MuxUnlock (Some i) S)) ^^ m) (?L n)"
  have up: "mux_depth (?L j) i j \<and> currTask (mx_k (?L j)) = currTask (mx_k S)" if "j \<le> 65535" for j
    using that
  proof (induction j)
    case (Suc j)
    then have "mux_depth (?L j) i j" "currTask (mx_k (?L j)) = currTask (mx_k S)" "j < 65535" by simp_all
    then show ?case using mux_depth_lock [of "?L j" i j timeout] by simp
  qed (use assms(1) in simp)
  have "mux_depth (?U j) i (n - j) \<and> currTask (mx_k (?U j)) = currTask (mx_k S)" if "j \<le> n" for j
    using that
  proof (induction j)
    case (Suc j)
    then have "mux_depth (?U j) i ((n - Suc j) + 1)" "currTask (mx_k (?U j)) = currTask (mx_k S)"
      by (simp_all add: Suc_diff_Suc)
    then show ?case using mux_depth_unlock [of "?U j" i "n - Suc j"] by simp
  qed (use up [OF assms(2)] in simp)
  from this [OF assms(3)] assms(3) show ?thesis by (auto simp: mux_depth_def Let_def)
qed

lemma mux_depth_ready: "mux_depth (mux_ready \<lparr>protocol = 0, prioceiling = 31, attr_type = 1\<rparr>) 0 0"
  using mux_inv_ready mux_ready_kernel mux_ready_mutex [OF mux_attr_held] mux_attr_held
  by (simp add: mux_depth_def LOS_MuxIsValid_def k_boot_def)

theorem mux_recursive_roundtrip_witness:
  "owner (mutexes (snd (LOS_MuxUnlock (Some 0) (snd (LOS_MuxLock (Some 0) 0 (snd (LOS_MuxLock (Some 0) 0
     (mux_ready \<lparr>protocol = 0, prioceiling = 31, attr_type = 1\<rparr>))))))) 0) = Some 1"
  using mux_recursive_roundtrip [OF mux_depth_ready, of 2 1 0] mux_ready_kernel
  by (simp add: numeral_2_eq_2 k_boot_def Let_def)

text \<open>
  At the limit of the counter a further lock succeeds and is not counted: the mutex is free one unlock too early.
\<close>

lemma mux_count_saturates:
  assumes "mux_depth S i 65535"
  shows "LOS_MuxLock (Some i) timeout S = (Some 0, S)"
proof -
  have c: "\<not> muxCount (mutexes S i) < 0xFFFF" using assms by (simp add: mux_depth_def word_less_nat_alt)
  show ?thesis using mux_lock_busy [of S i "currTask (mx_k S)" timeout] assms c by (simp add: mux_depth_def)
qed

section \<open>Ceilings\<close>

lemma mux_take_ceiling:
  assumes "protocol (mux_attr (mutexes S i)) = LOS_MUX_PRIO_PROTECT" "hpf_task (tcb (mx_k S) t)"
  shows "sp (tcb (mx_k (mux_take t i S)) t) =
    (let s = sp (tcb (mx_k S) t); c = unat (prioceiling (mux_attr (mutexes S i)))
     in if priority s \<le> c then s else s\<lparr>priBitmap := LOS_BitmapSet (priBitmap s) (of_nat (priority s)), priority := c\<rparr>)"
  using assms
  by (auto simp: mux_take_def Let_def ops_priorityInheritance_def HPFPriorityInheritance_def ops_schedParamGet_def HPFSchedParamGet_def
      hpf_task_def upd_sp_def)

lemma mux_dropped_ceiling:
  assumes "protocol (mux_attr (mutexes S i)) = LOS_MUX_PRIO_PROTECT" "hpf_task (tcb (mx_k S) (currTask (mx_k S)))"
  shows "sp (tcb (mx_k (mux_dropped i S)) (currTask (mx_k S))) =
    (let s = sp (tcb (mx_k S) (currTask (mx_k S))); b = priBitmap s; p = LOS_LowBitGet b
     in if b = 0 then s else s\<lparr>priBitmap := LOS_BitmapClr b (of_nat p), priority := p\<rparr>)"
  using assms LOS_LowBitGet_32 [of "priBitmap (sp (tcb (mx_k S) (currTask (mx_k S))))"]
  by (auto simp: mux_dropped_def Let_def ops_priorityRestore_def HPFPriorityRestore_def ops_schedParamGet_def HPFSchedParamGet_def
      hpf_task_def upd_sp_def)

text \<open>A lock that succeeds at once, and the unlock after it, on a mutex with a ceiling.\<close>

lemma mux_ceiling_sp:
  fixes timeout :: u32
  assumes A: "mux_inv S" "LOS_MuxIsValid (Some i) S" "OsCheckMutexAttr (mux_attr (mutexes S i)) = 0" "\<not> int_active (mx_k S)"
    and ow: "owner (mutexes S i) = None" and p: "protocol (mux_attr (mutexes S i)) = LOS_MUX_PRIO_PROTECT"
    and h: "hpf_task (tcb (mx_k S) (currTask (mx_k S)))"
  defines "t \<equiv> currTask (mx_k S)" and "S1 \<equiv> snd (LOS_MuxLock (Some i) timeout S)"
  defines "S2 \<equiv> snd (LOS_MuxUnlock (Some i) S1)" and "s \<equiv> sp (tcb (mx_k S) t)" and "c \<equiv> unat (prioceiling (mux_attr (mutexes S i)))"
  shows "sp (tcb (mx_k S1) t) = (if priority s \<le> c then s
      else s\<lparr>priBitmap := LOS_BitmapSet (priBitmap s) (of_nat (priority s)), priority := c\<rparr>)" (is "?lock")
    "sp (tcb (mx_k S2) t) = (let b = priBitmap (sp (tcb (mx_k S1) t)); q = LOS_LowBitGet b
      in if b = 0 then sp (tcb (mx_k S1) t) else (sp (tcb (mx_k S1) t))\<lparr>priBitmap := LOS_BitmapClr b (of_nat q), priority := q\<rparr>)" (is "?unlock")
proof -
  note l = mux_link_facts [OF A(1), of i]
  note f = mux_lock_free [OF A ow]
  have S1: "S1 = mux_take t i (mux_link i S)" using f(1) by (simp add: S1_def t_def)
  show ?lock
    unfolding S1 using mux_take_ceiling [of "mux_link i S" i t] p h by (simp add: l(2,3) s_def c_def t_def Let_def)
  have m: "mux_inv S1" "mutexes S1 i = (mutexes S i)\<lparr>mux_linked := True, muxCount := 1, owner := Some t\<rparr>"
    "currTask (mx_k S1) = t" "pend (mx_k S1) (MuxList i) = []" "\<not> int_active (mx_k S1)"
    using f(2-6) A(4) mux_invD(2) [OF A(1), of i] ow unfolding S1 t_def by (simp_all add: mux_one_def)
  have mine: "mux_mine S1 i" using A(2,3) m(2,3) by (simp add: mux_mine_def LOS_MuxIsValid_def)
  have one: "muxCount (mutexes S1 i) = 1" using m(2) by simp
  have "ops (tcb (mx_k S) t) \<noteq> IdleOps" "ops (tcb (mx_k S) t) \<noteq> DeadlineOps" using h by (simp_all add: hpf_task_def t_def)
  moreover have "ops (tcb (mx_k S1) t) = ops (tcb (mx_k S) t)"
    unfolding S1 using prio_change_frame(8) [OF ops_priorityInheritance_change] attr_ok_ceiling [OF A(3)]
    by (simp add: mux_take_def Let_def l(2,3))
  ultimately have "ops (tcb (mx_k S1) t) = PriorityOps" by (metis sched_ops.exhaust)
  then have h1: "hpf_task (tcb (mx_k S1) (currTask (mx_k S1)))"
    using mux_invD(1) [OF m(1)] sched_coreD(4) [of "mx_k S1" t] m(3) by (simp add: sched_inv_def)
  have "sp (tcb (mx_k S2) t) = sp (tcb (mx_k (mux_dropped i S1)) t)"
    using mux_unlock_free [OF m(1) mine one m(4), of False] m(3,5) unfolding S2_def by (auto simp: LOS_MuxUnlock_def)
  then show ?unlock using mux_dropped_ceiling [OF _ h1, of i] m(2,3) p by (simp add: Let_def)
qed

lemma bitmap_one:
  assumes "p < 32"
  shows "LOS_BitmapSet 0 (of_nat p) \<noteq> 0" "LOS_LowBitGet (LOS_BitmapSet 0 (of_nat p)) = p"
    "LOS_BitmapClr (LOS_BitmapSet 0 (of_nat p)) (of_nat p) = 0"
proof -
  have p: "unat (of_nat p :: u16) = p" using assms by (simp add: unat_of_nat take_bit_nat_eq_self)
  have b: "bit (LOS_BitmapSet 0 (of_nat p)) j \<longleftrightarrow> j = p" for j
    using bit_BitmapSet [of "of_nat p" 0 j] p assms by simp
  show n: "LOS_BitmapSet 0 (of_nat p) \<noteq> 0"
  proof
    assume "LOS_BitmapSet 0 (of_nat p) = 0"
    with b [of p] show False by simp
  qed
  show "LOS_LowBitGet (LOS_BitmapSet 0 (of_nat p)) = p" unfolding LOS_LowBitGet_eq [OF n] b by simp
  show "LOS_BitmapClr (LOS_BitmapSet 0 (of_nat p)) (of_nat p) = 0"
    using bit_BitmapClr [of "of_nat p"] p b assms by (auto intro: bit_eqI)
qed

text \<open>
  Ceilings: a task that takes a mutex with a ceiling runs at the ceiling or at its own priority, whichever
  is higher, and has its scheduling parameters back once it has released the mutex, if no other
  priority was inherited before.
\<close>

theorem mux_ceiling_roundtrip:
  assumes "mux_inv S" "LOS_MuxIsValid (Some i) S" "OsCheckMutexAttr (mux_attr (mutexes S i)) = 0" "\<not> int_active (mx_k S)"
    and "owner (mutexes S i) = None" "protocol (mux_attr (mutexes S i)) = LOS_MUX_PRIO_PROTECT"
    and "hpf_task (tcb (mx_k S) (currTask (mx_k S)))" "priBitmap (sp (tcb (mx_k S) (currTask (mx_k S)))) = 0"
  shows "let t = currTask (mx_k S); S1 = snd (LOS_MuxLock (Some i) timeout S); S2 = snd (LOS_MuxUnlock (Some i) S1)
    in priority (sp (tcb (mx_k S1) t)) = min (priority (sp (tcb (mx_k S) t))) (unat (prioceiling (mux_attr (mutexes S i)))) \<and>
       sp (tcb (mx_k S2) t) = sp (tcb (mx_k S) t)"
proof -
  let ?s = "sp (tcb (mx_k S) (currTask (mx_k S)))"
  have "priority ?s < 32" using assms(7) by (simp add: hpf_task_def)
  note one = bitmap_one [OF this]
  show ?thesis using mux_ceiling_sp [OF assms(1-7), of timeout] assms(8) one by (simp add: Let_def)
qed

lemma mux_attr_ceiling: "OsCheckMutexAttr \<lparr>protocol = 2, prioceiling = 4, attr_type = 1\<rparr> = 0"
  by (simp add: OsCheckMutexAttr_def)

theorem mux_ceiling_roundtrip_witness:
  "priority (sp (tcb (mx_k (snd (LOS_MuxLock (Some 0) 0 (mux_ready \<lparr>protocol = 2, prioceiling = 4, attr_type = 1\<rparr>)))) 1)) = 4"
proof -
  let ?S = "mux_ready \<lparr>protocol = 2, prioceiling = 4, attr_type = 1\<rparr>"
  have m: "LOS_MuxIsValid (Some 0) ?S" "owner (mutexes ?S 0) = None" "OsCheckMutexAttr (mux_attr (mutexes ?S 0)) = 0"
    "mux_attr (mutexes ?S 0) = \<lparr>protocol = 2, prioceiling = 4, attr_type = 1\<rparr>"
    using mux_ready_mutex [OF mux_attr_ceiling] mux_attr_ceiling by (simp_all add: LOS_MuxIsValid_def)
  have k: "currTask (mx_k ?S) = 1" "\<not> int_active (mx_k ?S)" "hpf_task (tcb (mx_k ?S) 1)" "sp (tcb (mx_k ?S) 1) = sp tcb_blank"
    unfolding mux_ready_kernel by (simp_all add: k_boot_def tcb_boot_def tcb_blank_def hpf_task_def)
  show ?thesis
    using mux_ceiling_roundtrip [OF mux_inv_ready m(1,3) k(2) m(2), of 0] k m(4) by (simp add: Let_def tcb_blank_def)
qed

section \<open>Where the code departs from its intent\<close>

text \<open>
  C37. A ceiling can be lost. A task holds mutex \<open>j\<close> and runs at its ceiling. It takes and releases another mutex \<open>i\<close>
  whose ceiling is not higher. Taking it changed nothing, but releasing it gives the task its old
  priority back, below the ceiling of the mutex that it still holds.
\<close>

theorem mux_ceiling_lost:
  assumes "mux_inv S" "LOS_MuxIsValid (Some i) S" "OsCheckMutexAttr (mux_attr (mutexes S i)) = 0" "\<not> int_active (mx_k S)"
    and "owner (mutexes S i) = None" "protocol (mux_attr (mutexes S i)) = LOS_MUX_PRIO_PROTECT"
    and "hpf_task (tcb (mx_k S) (currTask (mx_k S)))" "priBitmap (sp (tcb (mx_k S) (currTask (mx_k S)))) = LOS_BitmapSet 0 (of_nat q)"
    and "priority (sp (tcb (mx_k S) (currTask (mx_k S)))) < q" "q < 32"
    and "priority (sp (tcb (mx_k S) (currTask (mx_k S)))) \<le> unat (prioceiling (mux_attr (mutexes S i)))"
    and "owner (mutexes S j) = Some (currTask (mx_k S))" "priority (sp (tcb (mx_k S) (currTask (mx_k S)))) = unat (prioceiling (mux_attr (mutexes S j)))"
  shows "let t = currTask (mx_k S); S2 = snd (LOS_MuxUnlock (Some i) (snd (LOS_MuxLock (Some i) timeout S)))
    in owner (mutexes S2 j) = Some t \<and> priority (sp (tcb (mx_k S2) t)) > unat (prioceiling (mux_attr (mutexes S2 j)))"
proof -
  let ?S1 = "snd (LOS_MuxLock (Some i) timeout S)"
  note f = mux_lock_free [OF assms(1-5)]
  have S1: "?S1 = mux_take (currTask (mx_k S)) i (mux_link i S)" using f(1) by simp
  have ij: "j \<noteq> i" using assms(5,12) by auto
  have "\<forall>n. n \<noteq> i \<longrightarrow> mutexes (snd (LOS_MuxUnlock (Some i) ?S1)) n = mutexes S n"
  proof -
    have m: "mux_inv ?S1" "mux_mine ?S1 i" "muxCount (mutexes ?S1 i) = 1" "pend (mx_k ?S1) (MuxList i) = []" "\<not> int_active (mx_k ?S1)"
      "mutexes ?S1 n = mutexes S n" if "n \<noteq> i" for n
      using f(2-6) assms(2-5) mux_invD(2) [OF assms(1), of i] that
      unfolding S1 by (simp_all add: mux_mine_def LOS_MuxIsValid_def mux_one_def)
    show ?thesis using mux_unlock_free [OF m(1-4), of j j j j False] ij m(5) [OF ij] m(6) by (auto simp: LOS_MuxUnlock_def)
  qed
  then show ?thesis
    using mux_ceiling_sp [OF assms(1-7), of timeout] bitmap_one [OF assms(10)] assms(8-13) ij by (simp add: Let_def)
qed

text \<open>Mutexes 0 and 5 have the ceilings 4 and 8; task 1 has taken the first.\<close>

definition mux_nest :: mux_sys where
  "mux_nest = snd (LOS_MuxLock (Some 0) 0
     (snd (LOS_MuxInit (Some 5) (Some \<lparr>protocol = 2, prioceiling = 8, attr_type = 1\<rparr>)
       (mux_ready \<lparr>protocol = 2, prioceiling = 4, attr_type = 1\<rparr>))))"

lemma mux_nest_facts:
  "mux_inv mux_nest" "currTask (mx_k mux_nest) = 1" "\<not> int_active (mx_k mux_nest)"
  "mutexes mux_nest 0 = \<lparr>magic = OS_MUX_MAGIC, mux_attr = \<lparr>protocol = 2, prioceiling = 4, attr_type = 1\<rparr>,
     mux_linked = True, owner = Some 1, muxCount = 1\<rparr>"
  "mutexes mux_nest 5 = \<lparr>magic = OS_MUX_MAGIC, mux_attr = \<lparr>protocol = 2, prioceiling = 8, attr_type = 1\<rparr>,
     mux_linked = True, owner = None, muxCount = 0\<rparr>"
  "sp (tcb (mx_k mux_nest) 1) = (sp tcb_blank)\<lparr>priBitmap := LOS_BitmapSet 0 10, priority := 4\<rparr>" "ops (tcb (mx_k mux_nest) 1) = PriorityOps"
proof -
  let ?R = "mux_ready \<lparr>protocol = 2, prioceiling = 4, attr_type = 1\<rparr>" and ?a = "\<lparr>protocol = 2, prioceiling = 8, attr_type = 1\<rparr> :: LosMuxAttr"
  let ?S = "snd (LOS_MuxInit (Some 5) (Some ?a) ?R)"
  have a: "OsCheckMutexAttr ?a = 0" by (simp add: OsCheckMutexAttr_def)
  have R1: "mutexes ?R 5 = mutexes mux_boot 5" by (simp add: mux_ready_def LOS_MuxInit_def Let_def)
  have k: "mx_k ?S = k_boot"
  proof -
    have "k_boot\<lparr>pend := (pend k_boot)(MuxList 5 := [])\<rparr> = k_boot" by (simp add: k_boot_def fun_upd_idem)
    then show ?thesis by (simp add: LOS_MuxInit_def mux_ready_kernel Let_def)
  qed
  have m: "mutexes ?S 0 = mutexes ?R 0" "mutexes ?S 5 = \<lparr>magic = OS_MUX_MAGIC, mux_attr = ?a, mux_linked = True, owner = None, muxCount = 0\<rparr>"
    using a by (simp_all add: LOS_MuxInit_def Let_def)
  note m0 = m(1) [unfolded mux_ready_mutex [OF mux_attr_ceiling]]
  have inv: "mux_inv ?S" by (rule LOS_MuxInit_inv [OF mux_inv_ready]) (use R1 in \<open>simp add: mux_boot_def\<close>)
  have A: "LOS_MuxIsValid (Some 0) ?S" "OsCheckMutexAttr (mux_attr (mutexes ?S 0)) = 0" "\<not> int_active (mx_k ?S)" "owner (mutexes ?S 0) = None"
    using m0 mux_attr_ceiling by (simp_all add: LOS_MuxIsValid_def k k_boot_def)
  note f = mux_lock_free [OF inv A]
  have c: "currTask (mx_k ?S) = 1" by (simp add: k k_boot_def)
  have n: "mux_nest = mux_take (currTask (mx_k ?S)) 0 (mux_link 0 ?S)" using f(1) by (simp add: mux_nest_def)
  show "mux_inv mux_nest" "currTask (mx_k mux_nest) = 1" "\<not> int_active (mx_k mux_nest)" using f(2,4,5) A(3) c by (simp_all add: n)
  show "mutexes mux_nest 0 = \<lparr>magic = OS_MUX_MAGIC, mux_attr = \<lparr>protocol = 2, prioceiling = 4, attr_type = 1\<rparr>,
     mux_linked = True, owner = Some 1, muxCount = 1\<rparr>"
    "mutexes mux_nest 5 = \<lparr>magic = OS_MUX_MAGIC, mux_attr = ?a, mux_linked = True, owner = None, muxCount = 0\<rparr>"
    using f(3) m0 m(2) c by (simp_all add: n)
  have h: "hpf_task (tcb (mx_k ?S) (currTask (mx_k ?S)))" "sp (tcb (mx_k ?S) 1) = sp tcb_blank"
    by (simp_all add: k k_boot_def tcb_boot_def tcb_blank_def hpf_task_def)
  show "sp (tcb (mx_k mux_nest) 1) = (sp tcb_blank)\<lparr>priBitmap := LOS_BitmapSet 0 10, priority := 4\<rparr>"
    using mux_ceiling_sp(1) [OF inv A _ h(1), of 0] m0 h(2) c unfolding mux_nest_def by (simp add: tcb_blank_def)
  show "ops (tcb (mx_k mux_nest) 1) = PriorityOps"
    using prio_change_frame(8) [OF ops_priorityInheritance_change] attr_ok_ceiling [OF A(2)] mux_link_facts [OF inv, of 0] c
    unfolding n by (simp add: mux_take_def Let_def k k_boot_def tcb_boot_def tcb_blank_def)
qed

theorem mux_ceiling_lost_witness:
  "let S2 = snd (LOS_MuxUnlock (Some 5) (snd (LOS_MuxLock (Some 5) 0 mux_nest)))
   in owner (mutexes S2 0) = Some 1 \<and> priority (sp (tcb (mx_k S2) 1)) > unat (prioceiling (mux_attr (mutexes S2 0)))"
proof -
  note n = mux_nest_facts
  have "OsCheckMutexAttr (mux_attr (mutexes mux_nest 5)) = 0" by (simp add: n(5) OsCheckMutexAttr_def)
  then show ?thesis
    using mux_ceiling_lost [OF n(1), of 5 10 0 0] n by (simp add: LOS_MuxIsValid_def hpf_task_def tcb_blank_def Let_def)
qed

text \<open>
  C38. A task whose wait for a mutex timed out reads the owner of the mutex when it runs again. If the owner has
  released the mutex in between, there is none, and with priority inheritance, the default, the
  kernel reads through a null pointer.
\<close>

theorem mux_timeout_null_owner:
  assumes "mux_inv S" "mux_mine S i" "muxCount (mutexes S i) = 1" "pend (mx_k S) (MuxList i) = []" "\<not> int_active (mx_k S)"
    and "protocol (mux_attr (mutexes S i)) = LOS_MUX_PRIO_INHERIT" "has (status (mx_k S) t) OS_TASK_STATUS_TIMEOUT"
  shows "fault (mx_k (snd (OsMuxPendOp_resume t i (snd (LOS_MuxUnlock (Some i) S)))))"
proof -
  obtain T where T: "OsMuxUnlockUnsafe (currTask (mx_k S)) i False S = (0, False, T)"
    "mutexes T = (mutexes S)(i := (mutexes S i)\<lparr>muxCount := 0, owner := None\<rparr>)" "status (mx_k T) t = status (mx_k S) t"
    using mux_unlock_free [OF assms(1-4), of False] by blast
  have "snd (LOS_MuxUnlock (Some i) S) = T" using T(1) assms(5) by (simp add: LOS_MuxUnlock_def)
  then show ?thesis
    using T(2,3) assms(6,7)
    by (simp add: OsMuxPendOp_resume_def wait_resume_def mux_after_wait_def OsMuxBitmapRestore_def upd_tcb_def)
qed

text \<open>Task 1 holds mutex 0, which has the default attributes, and the wait of task 2 for it has timed out.\<close>

definition mux_late :: mux_sys where
  "mux_late = upd_mk (set_status 2 OS_TASK_STATUS_TIMEOUT)
     (snd (LOS_MuxLock (Some 0) 0 (mux_ready \<lparr>protocol = 1, prioceiling = 31, attr_type = 1\<rparr>)))"

theorem mux_timeout_null_owner_witness:
  "fault (mx_k (snd (OsMuxPendOp_resume 2 0 (snd (LOS_MuxUnlock (Some 0) mux_late)))))"
proof -
  let ?R = "mux_ready \<lparr>protocol = 1, prioceiling = 31, attr_type = 1\<rparr>"
  let ?L = "snd (LOS_MuxLock (Some 0) 0 ?R)"
  have a: "OsCheckMutexAttr \<lparr>protocol = 1, prioceiling = 31, attr_type = 1\<rparr> = 0" by (simp add: OsCheckMutexAttr_def)
  note m = mux_ready_mutex [OF a]
  have A: "LOS_MuxIsValid (Some 0) ?R" "OsCheckMutexAttr (mux_attr (mutexes ?R 0)) = 0" "\<not> int_active (mx_k ?R)" "owner (mutexes ?R 0) = None"
    using m a by (simp_all add: LOS_MuxIsValid_def mux_ready_kernel k_boot_def)
  note f = mux_lock_free [OF mux_inv_ready A]
  have L: "?L = mux_take (currTask (mx_k ?R)) 0 (mux_link 0 ?R)" using f(1) by simp
  have inv: "mux_inv mux_late"
  proof (rule mux_inv_kernel [OF f(2)])
    show "sched_inv (mx_k mux_late)"
      unfolding mux_late_def L set_status_def upd_mk_simps
      by (rule sched_inv_upd_tcb [OF mux_invD(1) [OF f(2)]]) (simp_all add: tcb_same_def)
    show "pend (mx_k mux_late) (MuxList i) = []" for i
      unfolding mux_late_def L using f(6) by (simp add: set_status_def mux_ready_kernel k_boot_def)
  qed (simp_all add: mux_late_def L set_status_def)
  have "mux_mine mux_late 0" "muxCount (mutexes mux_late 0) = 1" "pend (mx_k mux_late) (MuxList 0) = []" "\<not> int_active (mx_k mux_late)"
    "protocol (mux_attr (mutexes mux_late 0)) = LOS_MUX_PRIO_INHERIT" "has (status (mx_k mux_late) 2) OS_TASK_STATUS_TIMEOUT"
    unfolding mux_late_def L using f(3-6) m a
    by (simp_all add: mux_mine_def set_status_def mux_ready_kernel k_boot_def status_def)
  from mux_timeout_null_owner [OF inv this] show ?thesis .
qed

end
