(* ===== verification/Ipc_Rwlock.thy ===== *)
theory Ipc_Rwlock
  imports Ipc_Mux
begin

text \<open>
  Read-write locks, \<^verbatim>\<open>kernel/base/ipc/los_rwlock.c\<close>. A lock is named by a number, \<open>None\<close> is the null pointer; the
  tasks that wait to read lock \<open>i\<close> are \<open>RwRead i\<close>, those that wait to write it \<open>RwWrite i\<close>. \<open>rwCount\<close> is the
  signed 8-bit field of the source, kept as an integer: the code tests both ends of its range before
  it counts, and \<open>rw_reachable\<close> shows that it stays inside.
\<close>

section \<open>Locks\<close>

abbreviation (input) RWLOCK_COUNT_MASK :: u32 where "RWLOCK_COUNT_MASK \<equiv> 0x00FFFFFF"
abbreviation (input) OS_RWLOCK_MAGIC :: u32 where "OS_RWLOCK_MAGIC \<equiv> 0xEFDCA"
abbreviation (input) INT8_MAX :: int where "INT8_MAX \<equiv> 127"
abbreviation (input) INT8_MIN :: int where "INT8_MIN \<equiv> - 128"

text \<open>\<open>rw_magic\<close> is the 24-bit field, sign-extended when it is read.\<close>

record LosRwlock =
  rw_magic :: "24 word"
  rwCount :: int
  writeOwner :: "nat option"

record rw_sys =
  rw_k :: kstate
  rwlocks :: "nat \<Rightarrow> LosRwlock"

datatype RwlockMode = RWLOCK_NONE_MODE | RWLOCK_READ_MODE | RWLOCK_WRITE_MODE | RWLOCK_READFIRST_MODE | RWLOCK_WRITEFIRST_MODE

definition upd_rw :: "nat \<Rightarrow> (LosRwlock \<Rightarrow> LosRwlock) \<Rightarrow> rw_sys \<Rightarrow> rw_sys" where
  "upd_rw i f S = S\<lparr>rwlocks := (rwlocks S)(i := f (rwlocks S i))\<rparr>"

definition upd_rk :: "(kstate \<Rightarrow> kstate) \<Rightarrow> rw_sys \<Rightarrow> rw_sys" where
  "upd_rk f S = S\<lparr>rw_k := f (rw_k S)\<rparr>"

definition rw_magic_ok :: "LosRwlock \<Rightarrow> bool" where
  "rw_magic_ok r \<longleftrightarrow> (scast (rw_magic r) :: u32) AND RWLOCK_COUNT_MASK = OS_RWLOCK_MAGIC"

definition LOS_RwlockIsValid :: "nat option \<Rightarrow> rw_sys \<Rightarrow> bool" where
  "LOS_RwlockIsValid rwlock S = (case rwlock of None \<Rightarrow> False | Some i \<Rightarrow> rw_magic_ok (rwlocks S i))"

definition LOS_RwlockInit :: "nat option \<Rightarrow> rw_sys \<Rightarrow> u32 \<times> rw_sys" where
  "LOS_RwlockInit rwlock S = (case rwlock of
     None \<Rightarrow> (LOS_EINVAL, S)
   | Some i \<Rightarrow>
       if rw_magic_ok (rwlocks S i) then (LOS_EPERM, S)
       else (0, upd_rw i (\<lambda>r. r\<lparr>rwCount := 0, writeOwner := None, rw_magic := 0xEFDCA\<rparr>)
                  (upd_rk (\<lambda>k. k\<lparr>pend := (pend k)(RwRead i := [], RwWrite i := [])\<rparr>) S)))"

definition LOS_RwlockDestroy :: "nat option \<Rightarrow> rw_sys \<Rightarrow> u32 \<times> rw_sys" where
  "LOS_RwlockDestroy rwlock S = (case rwlock of
     None \<Rightarrow> (LOS_EINVAL, S)
   | Some i \<Rightarrow>
       if \<not> rw_magic_ok (rwlocks S i) then (LOS_EBADF, S)
       else if rwCount (rwlocks S i) \<noteq> 0 then (LOS_EBUSY, S)
       else (0, upd_rw i (\<lambda>r. \<lparr>rw_magic = 0, rwCount = 0, writeOwner = None\<rparr>) S))"

definition OsRwlockCheck :: "nat option \<Rightarrow> rw_sys \<Rightarrow> u32" where
  "OsRwlockCheck rwlock S =
     (if rwlock = None then LOS_EINVAL
      else if int_active (rw_k S) then LOS_EINTR
      else if has (status (rw_k S) (currTask (rw_k S))) OS_TASK_FLAG_SYSTEM_TASK then LOS_EPERM
      else 0)"

section \<open>Locking\<close>

definition OsRwlockPriCompare :: "kstate \<Rightarrow> nat \<Rightarrow> pend_head \<Rightarrow> bool" where
  "OsRwlockPriCompare k runTask h = (case pend k h of
     [] \<Rightarrow> True
   | highestTask # _ \<Rightarrow> OsSchedParamCompare (tcb k runTask) (tcb k highestTask) < 0)"

text \<open>
  The end of both waiting operations: \<open>wait\<close> at the position that was found, and what follows it. A
  missing position is a null pointer that \<open>wait\<close> writes through.
\<close>

definition rw_after_wait :: "u32 \<Rightarrow> u32" where
  "rw_after_wait ret = (if ret = LOS_ERRNO_TSK_TIMEOUT then LOS_ETIMEDOUT else ret)"

definition rw_wait :: "nat \<Rightarrow> pend_head \<Rightarrow> u32 \<Rightarrow> kstate \<Rightarrow> u32 option \<times> kstate" where
  "rw_wait runTask h timeout k = (case OsSchedLockPendFindPos k runTask h of
     None \<Rightarrow> (Some LOS_NOK, k\<lparr>fault := True\<rparr>)
   | Some node \<Rightarrow> (let (r, k1) = ops_wait runTask node timeout k in (map_option rw_after_wait r, k1)))"

definition OsRwlockRdPendOp :: "nat \<Rightarrow> nat \<Rightarrow> u32 \<Rightarrow> rw_sys \<Rightarrow> u32 option \<times> rw_sys" where
  "OsRwlockRdPendOp runTask i timeout S =
     (let r = rwlocks S i
      in if rwCount r \<ge> 0 \<and> OsRwlockPriCompare (rw_k S) runTask (RwWrite i)
         then if rwCount r = INT8_MAX then (Some LOS_EINVAL, S)
              else (Some 0, upd_rw i (\<lambda>r. r\<lparr>rwCount := rwCount r + 1\<rparr>) S)
         else if timeout = 0 then (Some LOS_EINVAL, S)
         else let (preemptable, k1) = OsPreemptableInSched (rw_k S)
              in if \<not> preemptable then (Some LOS_EDEADLK, S\<lparr>rw_k := k1\<rparr>)
                 else if writeOwner r = Some runTask then (Some LOS_EINVAL, S\<lparr>rw_k := k1\<rparr>)
                 else let (ret, k2) = rw_wait runTask (RwRead i) timeout k1 in (ret, S\<lparr>rw_k := k2\<rparr>))"

definition OsRwlockWrPendOp :: "nat \<Rightarrow> nat \<Rightarrow> u32 \<Rightarrow> rw_sys \<Rightarrow> u32 option \<times> rw_sys" where
  "OsRwlockWrPendOp runTask i timeout S =
     (let r = rwlocks S i
      in if rwCount r = 0 then (Some 0, upd_rw i (\<lambda>r. r\<lparr>rwCount := - 1, writeOwner := Some runTask\<rparr>) S)
         else if rwCount r < 0 \<and> writeOwner r = Some runTask
           then if rwCount r = INT8_MIN then (Some LOS_EINVAL, S)
                else (Some 0, upd_rw i (\<lambda>r. r\<lparr>rwCount := rwCount r - 1\<rparr>) S)
         else if timeout = 0 then (Some LOS_EINVAL, S)
         else let (preemptable, k1) = OsPreemptableInSched (rw_k S)
              in if \<not> preemptable then (Some LOS_EDEADLK, S\<lparr>rw_k := k1\<rparr>)
                 else let (ret, k2) = rw_wait runTask (RwWrite i) timeout k1 in (ret, S\<lparr>rw_k := k2\<rparr>))"

text \<open>What a task that waited does when it runs again, for readers and writers alike.\<close>

definition rw_resume :: "nat \<Rightarrow> rw_sys \<Rightarrow> u32 \<times> rw_sys" where
  "rw_resume t S = (let (r, k) = wait_resume t (rw_k S) in (rw_after_wait r, S\<lparr>rw_k := k\<rparr>))"

definition OsRwlockRdUnsafe :: "nat \<Rightarrow> u32 \<Rightarrow> rw_sys \<Rightarrow> u32 option \<times> rw_sys" where
  "OsRwlockRdUnsafe i timeout S =
     (if \<not> rw_magic_ok (rwlocks S i) then (Some LOS_EBADF, S) else OsRwlockRdPendOp (currTask (rw_k S)) i timeout S)"

definition OsRwlockTryRdUnsafe :: "nat \<Rightarrow> u32 \<Rightarrow> rw_sys \<Rightarrow> u32 option \<times> rw_sys" where
  "OsRwlockTryRdUnsafe i timeout S =
     (let r = rwlocks S i; runTask = currTask (rw_k S)
      in if \<not> rw_magic_ok r then (Some LOS_EBADF, S)
         else if writeOwner r = Some runTask then (Some LOS_EINVAL, S)
         else if rwCount r \<ge> 0 \<and> \<not> OsRwlockPriCompare (rw_k S) runTask (RwWrite i) then (Some LOS_EBUSY, S)
         else if rwCount r < 0 then (Some LOS_EBUSY, S)
         else OsRwlockRdPendOp runTask i timeout S)"

definition OsRwlockWrUnsafe :: "nat \<Rightarrow> u32 \<Rightarrow> rw_sys \<Rightarrow> u32 option \<times> rw_sys" where
  "OsRwlockWrUnsafe i timeout S =
     (if \<not> rw_magic_ok (rwlocks S i) then (Some LOS_EBADF, S) else OsRwlockWrPendOp (currTask (rw_k S)) i timeout S)"

definition OsRwlockTryWrUnsafe :: "nat \<Rightarrow> u32 \<Rightarrow> rw_sys \<Rightarrow> u32 option \<times> rw_sys" where
  "OsRwlockTryWrUnsafe i timeout S =
     (let r = rwlocks S i; runTask = currTask (rw_k S)
      in if \<not> rw_magic_ok r then (Some LOS_EBADF, S)
         else if rwCount r > 0 then (Some LOS_EBUSY, S)
         else if rwCount r < 0 \<and> writeOwner r \<noteq> Some runTask then (Some LOS_EBUSY, S)
         else OsRwlockWrPendOp runTask i timeout S)"

text \<open>The public calls; \<open>rwlock\<close> is not null after the check.\<close>

definition rw_checked :: "nat option \<Rightarrow> (nat \<Rightarrow> rw_sys \<Rightarrow> u32 option \<times> rw_sys) \<Rightarrow> rw_sys \<Rightarrow> u32 option \<times> rw_sys" where
  "rw_checked rwlock f S =
     (let ret = OsRwlockCheck rwlock S
      in if ret \<noteq> 0 then (Some ret, S) else (case rwlock of Some i \<Rightarrow> f i S | None \<Rightarrow> (Some ret, S)))"

definition LOS_RwlockRdLock :: "nat option \<Rightarrow> u32 \<Rightarrow> rw_sys \<Rightarrow> u32 option \<times> rw_sys" where
  "LOS_RwlockRdLock rwlock timeout S = rw_checked rwlock (\<lambda>i. OsRwlockRdUnsafe i timeout) S"

definition LOS_RwlockTryRdLock :: "nat option \<Rightarrow> rw_sys \<Rightarrow> u32 option \<times> rw_sys" where
  "LOS_RwlockTryRdLock rwlock S = rw_checked rwlock (\<lambda>i. OsRwlockTryRdUnsafe i 0) S"

definition LOS_RwlockWrLock :: "nat option \<Rightarrow> u32 \<Rightarrow> rw_sys \<Rightarrow> u32 option \<times> rw_sys" where
  "LOS_RwlockWrLock rwlock timeout S = rw_checked rwlock (\<lambda>i. OsRwlockWrUnsafe i timeout) S"

definition LOS_RwlockTryWrLock :: "nat option \<Rightarrow> rw_sys \<Rightarrow> u32 option \<times> rw_sys" where
  "LOS_RwlockTryWrLock rwlock S = rw_checked rwlock (\<lambda>i. OsRwlockTryWrUnsafe i 0) S"

section \<open>Unlocking\<close>

definition OsRwlockGetMode :: "kstate \<Rightarrow> pend_head \<Rightarrow> pend_head \<Rightarrow> RwlockMode" where
  "OsRwlockGetMode k readList writeList = (case (pend k readList, pend k writeList) of
     ([], []) \<Rightarrow> RWLOCK_NONE_MODE
   | (_ # _, []) \<Rightarrow> RWLOCK_READ_MODE
   | ([], _ # _) \<Rightarrow> RWLOCK_WRITE_MODE
   | (pendedRead # _, pendedWrite # _) \<Rightarrow>
       if OsSchedParamCompare (tcb k pendedWrite) (tcb k pendedRead) \<le> 0 then RWLOCK_WRITEFIRST_MODE else RWLOCK_READFIRST_MODE)"

text \<open>
  The loop of \<open>OsRwlockPostOp\<close>: readers are woken while there are any, unless one does not come before the first
  writer, or the count is at its limit. The fuel bounds the number of iterations; each of them takes a
  task off the list, so the length of the list is enough.
\<close>

fun rw_read_loop :: "nat \<Rightarrow> nat \<Rightarrow> RwlockMode \<Rightarrow> rw_sys \<Rightarrow> u32 \<times> bool \<times> rw_sys" where
  "rw_read_loop fuel i mode S = (case pend (rw_k S) (RwRead i) of
     [] \<Rightarrow> (0, True, S)
   | resumedTask # _ \<Rightarrow>
       if mode = RWLOCK_READFIRST_MODE \<and>
          OsSchedParamCompare (tcb (rw_k S) resumedTask) (tcb (rw_k S) (hd (pend (rw_k S) (RwWrite i)))) \<ge> 0
       then (0, True, S)
       else if rwCount (rwlocks S i) = INT8_MAX then (LOS_EINVAL, False, S)
       else (case fuel of
          0 \<Rightarrow> (0, True, upd_rk (\<lambda>k. k\<lparr>diverged := True\<rparr>) S)
        | Suc n \<Rightarrow> rw_read_loop n i mode (upd_rk (ops_wake resumedTask) (upd_rw i (\<lambda>r. r\<lparr>rwCount := rwCount r + 1\<rparr>) S))))"

declare rw_read_loop.simps [simp del]

text \<open>\<open>needSched\<close> is false before; the second result says that it was set.\<close>

definition OsRwlockPostOp :: "nat \<Rightarrow> rw_sys \<Rightarrow> u32 \<times> bool \<times> rw_sys" where
  "OsRwlockPostOp i S =
     (let S1 = upd_rw i (\<lambda>r. r\<lparr>rwCount := 0, writeOwner := None\<rparr>) S;
          mode = OsRwlockGetMode (rw_k S1) (RwRead i) (RwWrite i)
      in if mode = RWLOCK_NONE_MODE then (0, False, S1)
         else if mode = RWLOCK_WRITE_MODE \<or> mode = RWLOCK_WRITEFIRST_MODE
         then let resumedTask = hd (pend (rw_k S1) (RwWrite i))
              in (0, True, upd_rk (ops_wake resumedTask) (upd_rw i (\<lambda>r. r\<lparr>rwCount := - 1, writeOwner := Some resumedTask\<rparr>) S1))
         else let resumedTask = hd (pend (rw_k S1) (RwRead i));
                  S2 = upd_rk (ops_wake resumedTask) (upd_rw i (\<lambda>r. r\<lparr>rwCount := 1\<rparr>) S1)
              in rw_read_loop (length (pend (rw_k S2) (RwRead i))) i mode S2)"

definition OsRwlockUnlockUnsafe :: "nat \<Rightarrow> rw_sys \<Rightarrow> u32 \<times> bool \<times> rw_sys" where
  "OsRwlockUnlockUnsafe i S =
     (let r = rwlocks S i
      in if \<not> rw_magic_ok r then (LOS_EBADF, False, S)
         else if rwCount r = 0 then (LOS_EPERM, False, S)
         else if rwCount r < 0 \<and> writeOwner r \<noteq> Some (currTask (rw_k S)) then (LOS_EPERM, False, S)
         else if rwCount r > 1 then (0, False, upd_rw i (\<lambda>r. r\<lparr>rwCount := rwCount r - 1\<rparr>) S)
         else if rwCount r < - 1 then (0, False, upd_rw i (\<lambda>r. r\<lparr>rwCount := rwCount r + 1\<rparr>) S)
         else OsRwlockPostOp i S)"

definition LOS_RwlockUnLock :: "nat option \<Rightarrow> rw_sys \<Rightarrow> u32 \<times> rw_sys" where
  "LOS_RwlockUnLock rwlock S =
     (let ret = OsRwlockCheck rwlock S
      in if ret \<noteq> 0 then (ret, S)
         else (case rwlock of
                 Some i \<Rightarrow> (let (r, needSched, S1) = OsRwlockUnlockUnsafe i S in (r, if needSched then upd_rk LOS_Schedule S1 else S1))
               | None \<Rightarrow> (ret, S)))"

section \<open>The invariant\<close>

text \<open>
  The count is in its range, it is negative exactly while a writer owns the lock, and nobody waits for a lock that is free.
\<close>

definition rw_one :: "LosRwlock \<Rightarrow> nat list \<Rightarrow> nat list \<Rightarrow> bool" where
  "rw_one r rs ws \<longleftrightarrow> INT8_MIN \<le> rwCount r \<and> rwCount r \<le> INT8_MAX \<and> (rwCount r < 0 \<longleftrightarrow> writeOwner r \<noteq> None) \<and>
     (rwCount r = 0 \<longrightarrow> rs = [] \<and> ws = []) \<and> (\<not> rw_magic_ok r \<longrightarrow> rwCount r = 0)"

definition rw_inv :: "rw_sys \<Rightarrow> bool" where
  "rw_inv S \<longleftrightarrow> sched_inv (rw_k S) \<and> (\<forall>i. rw_one (rwlocks S i) (pend (rw_k S) (RwRead i)) (pend (rw_k S) (RwWrite i)))"

lemma rw_invD:
  assumes "rw_inv S"
  shows "sched_inv (rw_k S)" "rw_one (rwlocks S i) (pend (rw_k S) (RwRead i)) (pend (rw_k S) (RwWrite i))"
  using assms by (auto simp: rw_inv_def)

lemma upd_rw_simps [simp]:
  "rw_k (upd_rw i f S) = rw_k S" "rwlocks (upd_rw i f S) = (rwlocks S)(i := f (rwlocks S i))"
  by (simp_all add: upd_rw_def)

lemma upd_rk_simps [simp]: "rw_k (upd_rk f S) = f (rw_k S)" "rwlocks (upd_rk f S) = rwlocks S"
  by (simp_all add: upd_rk_def)

lemma rw_inv_upd:
  assumes "rw_inv S" "rw_one (f (rwlocks S i)) (pend (rw_k S) (RwRead i)) (pend (rw_k S) (RwWrite i))"
  shows "rw_inv (upd_rw i f S)"
  using assms by (simp add: rw_inv_def)

text \<open>What the kernel does besides may only shorten the lists of locks that are free, to keep them empty.\<close>

lemma rw_inv_kernel:
  assumes "rw_inv S" "sched_inv (rw_k T)" "rwlocks T = rwlocks S"
    and "\<And>i. rwCount (rwlocks S i) = 0 \<Longrightarrow> pend (rw_k T) (RwRead i) = [] \<and> pend (rw_k T) (RwWrite i) = []"
  shows "rw_inv T"
  using assms by (auto simp: rw_inv_def rw_one_def)

lemma sched_inv_fault: "sched_inv (k\<lparr>fault := b\<rparr>) = sched_inv k"
  by (simp add: sched_inv_def sched_core_def rq_inv_def lists_ok_def)

lemma rw_wait_inv:
  assumes inv: "sched_inv k" and h: "ipc_head h" and lock: "taskLockCnt k = 0" and busy: "currTask k \<noteq> idleTask k"
  shows "sched_inv (snd (rw_wait (currTask k) h timeout k))"
    "ipc_head g \<Longrightarrow> g \<noteq> h \<Longrightarrow> pend (snd (rw_wait (currTask k) h timeout k)) g = pend k g"
proof -
  have "sched_inv (snd (rw_wait (currTask k) h timeout k)) \<and>
    (\<forall>g. ipc_head g \<longrightarrow> g \<noteq> h \<longrightarrow> pend (snd (rw_wait (currTask k) h timeout k)) g = pend k g)"
  proof (cases "OsSchedLockPendFindPos k (currTask k) h")
    case None
    then show ?thesis using inv by (simp add: rw_wait_def sched_inv_fault)
  next
    case (Some pos)
    have "lists_ok k" using inv rq_invD(1) sched_coreD(1) by (auto simp: sched_inv_def)
    from wait_bare [OF inv h lock_pos_on [OF this Some] lock busy, of timeout] Some show ?thesis by (auto simp: rw_wait_def)
  qed
  then show "sched_inv (snd (rw_wait (currTask k) h timeout k))"
    "ipc_head g \<Longrightarrow> g \<noteq> h \<Longrightarrow> pend (snd (rw_wait (currTask k) h timeout k)) g = pend k g" by auto
qed

text \<open>Waiting for a lock that is held.\<close>

lemma rw_wait_step:
  assumes inv: "rw_inv S" and h: "h = RwRead i \<or> h = RwWrite i" and held: "rwCount (rwlocks S i) \<noteq> 0"
    and lock: "taskLockCnt (rw_k S) = 0" and busy: "currTask (rw_k S) \<noteq> idleTask (rw_k S)"
  shows "rw_inv (S\<lparr>rw_k := snd (rw_wait (currTask (rw_k S)) h timeout (rw_k S))\<rparr>)"
proof -
  have ih: "ipc_head h" using h by auto
  note w = rw_wait_inv [where timeout = timeout, OF rw_invD(1) [OF inv] ih lock busy]
  show ?thesis
  proof (rule rw_inv_kernel [OF inv])
    fix n assume n: "rwCount (rwlocks S n) = 0"
    then have "RwRead n \<noteq> h" "RwWrite n \<noteq> h" using h held by auto
    with w(2) [of "RwRead n"] w(2) [of "RwWrite n"] rw_invD(2) [OF inv, of n] n
    show "pend (rw_k (S\<lparr>rw_k := snd (rw_wait (currTask (rw_k S)) h timeout (rw_k S))\<rparr>)) (RwRead n) = [] \<and>
      pend (rw_k (S\<lparr>rw_k := snd (rw_wait (currTask (rw_k S)) h timeout (rw_k S))\<rparr>)) (RwWrite n) = []"
      by (simp add: rw_one_def)
  qed (use w(1) in simp_all)
qed

lemma rw_inv_flag: "rw_inv S \<Longrightarrow> rw_inv (S\<lparr>rw_k := set_schedFlag m (rw_k S)\<rparr>)"
  by (rule rw_inv_kernel)
    (auto simp: rw_inv_def rw_one_def set_schedFlag_def intro: sched_inv_acct [OF k_acct_flag(1), unfolded set_schedFlag_def])

lemma OsRwlockRdPendOp_inv:
  assumes inv: "rw_inv S" and m: "rw_magic_ok (rwlocks S i)" and busy: "currTask (rw_k S) \<noteq> idleTask (rw_k S)"
  shows "rw_inv (snd (OsRwlockRdPendOp (currTask (rw_k S)) i timeout S))"
proof -
  note one = rw_invD(2) [OF inv, of i]
  show ?thesis
  proof (cases "rwCount (rwlocks S i) \<ge> 0 \<and> OsRwlockPriCompare (rw_k S) (currTask (rw_k S)) (RwWrite i)")
    case True
    have "rw_inv (upd_rw i (\<lambda>r. r\<lparr>rwCount := rwCount r + 1\<rparr>) S)" if "rwCount (rwlocks S i) \<noteq> INT8_MAX"
      using one True that m by (intro rw_inv_upd [OF inv]) (auto simp: rw_one_def rw_magic_ok_def)
    then show ?thesis using True inv by (simp add: OsRwlockRdPendOp_def Let_def)
  next
    case False
    have held: "rwCount (rwlocks S i) \<noteq> 0"
    proof
      assume "rwCount (rwlocks S i) = 0"
      then show False using one False by (simp add: rw_one_def OsRwlockPriCompare_def)
    qed
    have "OsRwlockRdPendOp (currTask (rw_k S)) i timeout S =
      (if timeout = 0 then (Some LOS_EINVAL, S)
       else if taskLockCnt (rw_k S) \<noteq> 0 then (Some LOS_EDEADLK, S\<lparr>rw_k := set_schedFlag INT_PEND_RESCH (rw_k S)\<rparr>)
       else if writeOwner (rwlocks S i) = Some (currTask (rw_k S)) then (Some LOS_EINVAL, S)
       else let (ret, k2) = rw_wait (currTask (rw_k S)) (RwRead i) timeout (rw_k S) in (ret, S\<lparr>rw_k := k2\<rparr>))"
      using False by (auto simp: OsRwlockRdPendOp_def Let_def OsPreemptableInSched_def)
    then show ?thesis
      using inv rw_inv_flag [OF inv, of INT_PEND_RESCH] rw_wait_step [OF inv _ held _ busy, of "RwRead i" timeout] by (simp add: case_prod_beta)
  qed
qed

lemma OsRwlockWrPendOp_inv:
  assumes inv: "rw_inv S" and m: "rw_magic_ok (rwlocks S i)" and busy: "currTask (rw_k S) \<noteq> idleTask (rw_k S)"
  shows "rw_inv (snd (OsRwlockWrPendOp (currTask (rw_k S)) i timeout S))"
proof -
  note one = rw_invD(2) [OF inv, of i]
  have take: "rw_inv (upd_rw i (\<lambda>r. r\<lparr>rwCount := - 1, writeOwner := Some (currTask (rw_k S))\<rparr>) S)"
    if "rwCount (rwlocks S i) = 0"
    using m by (intro rw_inv_upd [OF inv]) (simp add: rw_one_def rw_magic_ok_def)
  have again: "rw_inv (upd_rw i (\<lambda>r. r\<lparr>rwCount := rwCount r - 1\<rparr>) S)"
    if "rwCount (rwlocks S i) < 0" "rwCount (rwlocks S i) \<noteq> INT8_MIN"
    using one m that by (intro rw_inv_upd [OF inv]) (auto simp: rw_one_def rw_magic_ok_def)
  show ?thesis
    using take again inv rw_inv_flag [OF inv, of INT_PEND_RESCH] rw_wait_step [OF inv, of "RwWrite i" i timeout] busy
    by (auto simp: OsRwlockWrPendOp_def Let_def OsPreemptableInSched_def case_prod_beta)
qed

section \<open>Waking the readers\<close>

text \<open>The readers that may go ahead: all if no writer counts, else those that come before the first writer.\<close>

definition rw_goes :: "kstate \<Rightarrow> nat \<Rightarrow> RwlockMode \<Rightarrow> nat \<Rightarrow> bool" where
  "rw_goes k i mode t \<longleftrightarrow>
     (mode = RWLOCK_READFIRST_MODE \<longrightarrow> OsSchedParamCompare (tcb k t) (tcb k (hd (pend k (RwWrite i)))) < 0)"

text \<open>\<open>rw_woken S T i ts c\<close>: from \<open>S\<close> to \<open>T\<close> the readers \<open>ts\<close> of lock \<open>i\<close> were woken, and its count is \<open>c\<close>.\<close>

definition rw_woken :: "rw_sys \<Rightarrow> rw_sys \<Rightarrow> nat \<Rightarrow> nat list \<Rightarrow> int \<Rightarrow> bool" where
  "rw_woken S T i ts c \<longleftrightarrow> sched_inv (rw_k T) \<and> rwlocks T = (rwlocks S)(i := (rwlocks S i)\<lparr>rwCount := c\<rparr>) \<and>
     pend (rw_k S) (RwRead i) = ts @ pend (rw_k T) (RwRead i) \<and>
     (\<forall>g. ipc_head g \<longrightarrow> g \<noteq> RwRead i \<longrightarrow> pend (rw_k T) g = pend (rw_k S) g) \<and>
     (\<forall>u. u \<notin> set ts \<longrightarrow> tcb (rw_k T) u = tcb (rw_k S) u) \<and> (\<forall>t\<in>set ts. \<not> has (status (rw_k T) t) OS_TASK_STATUS_PENDING)"

lemma rw_woken_one:
  assumes inv: "sched_inv (rw_k S)" and q: "pend (rw_k S) (RwRead i) = t # rest"
  shows "rw_woken S (upd_rk (ops_wake t) (upd_rw i (\<lambda>r. r\<lparr>rwCount := c\<rparr>) S)) i [t] c"
proof -
  have h: "ipc_head (RwRead i)" and t: "t \<in> set (pend (rw_k S) (RwRead i))" using q by simp_all
  note w = wake_bare [OF inv h t]
  show ?thesis using w q by (auto simp: rw_woken_def)
qed

lemma rw_woken_trans:
  assumes "rw_woken S T i ts c" "rw_woken T V i us d" "distinct (pend (rw_k S) (RwRead i))"
  shows "rw_woken S V i (ts @ us) d"
proof -
  have disj: "set ts \<inter> set us = {}" using assms by (auto simp: rw_woken_def)
  have "\<not> has (status (rw_k V) t) OS_TASK_STATUS_PENDING" if "t \<in> set (ts @ us)" for t
  proof (cases "t \<in> set us")
    case False
    then have "status (rw_k V) t = status (rw_k T) t" "t \<in> set ts" using assms(2) that by (auto simp: rw_woken_def status_def)
    then show ?thesis using assms(1) by (simp add: rw_woken_def)
  qed (use assms(2) in \<open>simp add: rw_woken_def\<close>)
  then show ?thesis using assms(1,2) by (auto simp: rw_woken_def)
qed

lemma rw_woken_goes:
  assumes w: "rw_woken S T i ts c" and lo: "lists_ok (rw_k S)" and u: "u \<notin> set ts"
    and m: "mode = RWLOCK_READFIRST_MODE \<longrightarrow> pend (rw_k S) (RwWrite i) \<noteq> []"
  shows "rw_goes (rw_k T) i mode u = rw_goes (rw_k S) i mode u"
proof (cases "mode = RWLOCK_READFIRST_MODE")
  case True
  let ?w = "hd (pend (rw_k S) (RwWrite i))"
  have "on (tcb (rw_k S) ?w) = Some (RwWrite i)" using lists_okD(2) [OF lo, of ?w "RwWrite i"] m True by simp
  moreover have "on (tcb (rw_k S) t) = Some (RwRead i)" if "t \<in> set ts" for t
    using lists_okD(2) [OF lo, of t "RwRead i"] w that by (auto simp: rw_woken_def)
  ultimately have "?w \<notin> set ts" by fastforce
  then show ?thesis using w u by (simp add: rw_goes_def rw_woken_def)
qed (simp add: rw_goes_def)

text \<open>One iteration: the first reader is woken, and who may go ahead after it is unchanged.\<close>

lemma rw_read_loop_Cons:
  assumes "pend (rw_k S) (RwRead i) = t # rest"
  shows "rw_read_loop (Suc n) i mode S =
    (if \<not> rw_goes (rw_k S) i mode t then (0, True, S)
     else if rwCount (rwlocks S i) = INT8_MAX then (LOS_EINVAL, False, S)
     else rw_read_loop n i mode (upd_rk (ops_wake t) (upd_rw i (\<lambda>r. r\<lparr>rwCount := rwCount r + 1\<rparr>) S)))"
  using assms by (auto simp: rw_read_loop.simps [of "Suc n"] rw_goes_def)

lemma rw_wake_head:
  assumes inv: "sched_inv (rw_k S)" and q: "pend (rw_k S) (RwRead i) = t # rest"
    and m: "mode = RWLOCK_READFIRST_MODE \<longrightarrow> pend (rw_k S) (RwWrite i) \<noteq> []"
  defines "T \<equiv> upd_rk (ops_wake t) (upd_rw i (\<lambda>r. r\<lparr>rwCount := rwCount r + 1\<rparr>) S)"
  shows "rw_woken S T i [t] (rwCount (rwlocks S i) + 1)" "sched_inv (rw_k T)" "pend (rw_k T) (RwRead i) = rest"
    "rwCount (rwlocks T i) = rwCount (rwlocks S i) + 1" "pend (rw_k T) (RwWrite i) = pend (rw_k S) (RwWrite i)"
    "takeWhile (rw_goes (rw_k T) i mode) rest = takeWhile (rw_goes (rw_k S) i mode) rest"
    "distinct (pend (rw_k S) (RwRead i))"
proof -
  have "T = upd_rk (ops_wake t) (upd_rw i (\<lambda>r. r\<lparr>rwCount := rwCount (rwlocks S i) + 1\<rparr>) S)" by (simp add: T_def upd_rw_def)
  then show w: "rw_woken S T i [t] (rwCount (rwlocks S i) + 1)" using rw_woken_one [OF inv q] by metis
  show "sched_inv (rw_k T)" "pend (rw_k T) (RwRead i) = rest" "rwCount (rwlocks T i) = rwCount (rwlocks S i) + 1"
    "pend (rw_k T) (RwWrite i) = pend (rw_k S) (RwWrite i)"
    using w q by (auto simp: rw_woken_def)
  have lo: "lists_ok (rw_k S)" using inv rq_invD(1) sched_coreD(1) by (auto simp: sched_inv_def)
  show d: "distinct (pend (rw_k S) (RwRead i))" by (rule lists_okD(1) [OF lo])
  show "takeWhile (rw_goes (rw_k T) i mode) rest = takeWhile (rw_goes (rw_k S) i mode) rest"
  proof (rule takeWhile_cong)
    fix u assume "u \<in> set rest"
    then have "u \<notin> set [t]" using d q by auto
    then show "rw_goes (rw_k T) i mode u = rw_goes (rw_k S) i mode u" by (rule rw_woken_goes [OF w lo _ m])
  qed simp
qed

text \<open>The loop wakes the longest run of readers that may go ahead, as far as the count allows.\<close>

lemma rw_read_loop_woken:
  assumes "sched_inv (rw_k S)" "length (pend (rw_k S) (RwRead i)) \<le> fuel" "rwCount (rwlocks S i) \<le> INT8_MAX"
    and "mode = RWLOCK_READFIRST_MODE \<longrightarrow> pend (rw_k S) (RwWrite i) \<noteq> []"
  defines "go \<equiv> takeWhile (rw_goes (rw_k S) i mode) (pend (rw_k S) (RwRead i))"
    and "room \<equiv> nat (INT8_MAX - rwCount (rwlocks S i))"
  shows "\<exists>T. rw_read_loop fuel i mode S = (if length go \<le> room then (0, True, T) else (LOS_EINVAL, False, T)) \<and>
    rw_woken S T i (take room go) (rwCount (rwlocks S i) + int (length (take room go)))"
  using assms(1-4) unfolding go_def room_def
proof (induction fuel arbitrary: S)
  case 0
  then have "pend (rw_k S) (RwRead i) = []" by simp
  then show ?case using 0 by (simp add: rw_read_loop.simps rw_woken_def)
next
  case (Suc n)
  let ?c = "rwCount (rwlocks S i)"
  show ?case
  proof (cases "pend (rw_k S) (RwRead i)")
    case Nil
    then show ?thesis using Suc.prems by (simp add: rw_read_loop.simps rw_woken_def)
  next
    case (Cons t rest)
    show ?thesis
    proof (cases "rw_goes (rw_k S) i mode t \<and> ?c \<noteq> INT8_MAX")
      case False
      then show ?thesis using Suc.prems(1) Cons by (auto simp: rw_read_loop_Cons [OF Cons] rw_woken_def)
    next
      case go: True
      let ?T = "upd_rk (ops_wake t) (upd_rw i (\<lambda>r. r\<lparr>rwCount := rwCount r + 1\<rparr>) S)"
      note T = rw_wake_head [where mode = mode, OF Suc.prems(1) Cons Suc.prems(4)]
      let ?g = "takeWhile (rw_goes (rw_k S) i mode) rest" and ?r = "nat (INT8_MAX - (?c + 1))"
      have room: "nat (INT8_MAX - ?c) = Suc ?r" using go Suc.prems(3) by linarith
      obtain V where V: "rw_read_loop n i mode ?T = (if length ?g \<le> ?r then (0, True, V) else (LOS_EINVAL, False, V))"
        "rw_woken ?T V i (take ?r ?g) (?c + 1 + int (length (take ?r ?g)))"
        using Suc.IH [OF T(2), unfolded T(3-6)] Suc.prems(2-4) Cons go by auto
      have "rw_woken S V i ([t] @ take ?r ?g) (?c + 1 + int (length (take ?r ?g)))"
        by (rule rw_woken_trans [OF T(1) V(2) T(7)])
      then show ?thesis using V(1) go Cons unfolding rw_read_loop_Cons [OF Cons] room by (auto simp: add.assoc)
    qed
  qed
qed

section \<open>The last unlock\<close>

text \<open>The readers that a last unlock lets in: the first one, and those behind it that come before the first writer.\<close>

definition rw_let_in :: "kstate \<Rightarrow> nat \<Rightarrow> nat list" where
  "rw_let_in k i = (case pend k (RwRead i) of [] \<Rightarrow> []
     | r # rs \<Rightarrow> r # takeWhile (\<lambda>t. pend k (RwWrite i) = [] \<or> OsSchedParamCompare (tcb k t) (tcb k (hd (pend k (RwWrite i)))) < 0) rs)"

definition rw_writer_first :: "kstate \<Rightarrow> nat \<Rightarrow> bool" where
  "rw_writer_first k i \<longleftrightarrow> pend k (RwWrite i) \<noteq> [] \<and>
     (pend k (RwRead i) = [] \<or> OsSchedParamCompare (tcb k (hd (pend k (RwWrite i)))) (tcb k (hd (pend k (RwRead i)))) \<le> 0)"

lemma OsRwlockGetMode_cases:
  "OsRwlockGetMode k (RwRead i) (RwWrite i) =
    (if pend k (RwRead i) = [] \<and> pend k (RwWrite i) = [] then RWLOCK_NONE_MODE
     else if rw_writer_first k i then (if pend k (RwRead i) = [] then RWLOCK_WRITE_MODE else RWLOCK_WRITEFIRST_MODE)
     else if pend k (RwWrite i) = [] then RWLOCK_READ_MODE else RWLOCK_READFIRST_MODE)"
  by (auto simp: OsRwlockGetMode_def rw_writer_first_def split: list.splits)

lemma rw_post_write:
  assumes inv: "rw_inv S" and m: "rw_magic_ok (rwlocks S i)" and w: "rw_writer_first (rw_k S) i"
  shows "\<exists>T. OsRwlockPostOp i S = (0, True, T) \<and> rw_inv T \<and>
    rwlocks T = (rwlocks S)(i := (rwlocks S i)\<lparr>rwCount := - 1, writeOwner := Some (hd (pend (rw_k S) (RwWrite i)))\<rparr>) \<and>
    pend (rw_k T) (RwWrite i) = tl (pend (rw_k S) (RwWrite i)) \<and> pend (rw_k T) (RwRead i) = pend (rw_k S) (RwRead i) \<and>
    \<not> has (status (rw_k T) (hd (pend (rw_k S) (RwWrite i)))) OS_TASK_STATUS_PENDING"
proof -
  obtain t rest where q: "pend (rw_k S) (RwWrite i) = t # rest" using w by (auto simp: rw_writer_first_def neq_Nil_conv)
  have h: "ipc_head (RwWrite i)" and t: "t \<in> set (pend (rw_k S) (RwWrite i))" using q by simp_all
  note k = wake_bare [OF rw_invD(1) [OF inv] h t]
  define T where "T = upd_rk (ops_wake t) (upd_rw i (\<lambda>r. r\<lparr>rwCount := - 1, writeOwner := Some t\<rparr>) S)"
  have l: "rwlocks T = (rwlocks S)(i := (rwlocks S i)\<lparr>rwCount := - 1, writeOwner := Some t\<rparr>)" by (simp add: T_def)
  have p: "pend (rw_k T) g = (if g = RwWrite i then rest else pend (rw_k S) g)" if "ipc_head g" for g
    using k(2) k(3) [OF that] q by (simp add: T_def)
  have "rw_one (rwlocks T n) (pend (rw_k T) (RwRead n)) (pend (rw_k T) (RwWrite n))" for n
    using rw_invD(2) [OF inv, of n] m p [of "RwRead n"] p [of "RwWrite n"] by (auto simp: l rw_one_def rw_magic_ok_def)
  then have "rw_inv T" using k(1) by (simp add: rw_inv_def T_def)
  moreover have "OsRwlockPostOp i S = (0, True, T)"
    using w q by (simp add: OsRwlockPostOp_def Let_def OsRwlockGetMode_cases T_def upd_rw_def upd_rk_def)
  moreover have "pend (rw_k T) (RwWrite i) = tl (pend (rw_k S) (RwWrite i))" "pend (rw_k T) (RwRead i) = pend (rw_k S) (RwRead i)"
    using p [of "RwRead i"] p [of "RwWrite i"] q by simp_all
  moreover have "\<not> has (status (rw_k T) (hd (pend (rw_k S) (RwWrite i)))) OS_TASK_STATUS_PENDING"
    using k(7) q by (simp add: T_def)
  ultimately show ?thesis using l q by auto
qed

lemma rw_inv_woken:
  assumes inv: "rw_inv S" and m: "rw_magic_ok (rwlocks S i)" and c: "1 \<le> c" "c \<le> INT8_MAX"
    and w: "rw_woken (upd_rw i (\<lambda>r. r\<lparr>rwCount := d, writeOwner := None\<rparr>) S) T i ts c"
  shows "rw_inv T"
proof -
  have l: "rwlocks T = (rwlocks S)(i := (rwlocks S i)\<lparr>rwCount := c, writeOwner := None\<rparr>)" using w by (auto simp: rw_woken_def)
  have p: "pend (rw_k T) g = pend (rw_k S) g" if "ipc_head g" "g \<noteq> RwRead i" for g using w that by (simp add: rw_woken_def)
  have "rw_one (rwlocks T n) (pend (rw_k T) (RwRead n)) (pend (rw_k T) (RwWrite n))" for n
    using rw_invD(2) [OF inv, of n] m c p [of "RwRead n"] p [of "RwWrite n"] by (cases "n = i") (auto simp: l rw_one_def rw_magic_ok_def)
  then show ?thesis using w by (simp add: rw_inv_def rw_woken_def)
qed

lemma rw_post_read:
  assumes inv: "rw_inv S" and m: "rw_magic_ok (rwlocks S i)" and w: "\<not> rw_writer_first (rw_k S) i"
    and q: "pend (rw_k S) (RwRead i) \<noteq> []"
  defines "go \<equiv> rw_let_in (rw_k S) i"
  shows "\<exists>T. OsRwlockPostOp i S = (if length go \<le> 127 then (0, True, T) else (LOS_EINVAL, False, T)) \<and> rw_inv T \<and>
    rw_woken (upd_rw i (\<lambda>r. r\<lparr>rwCount := 0, writeOwner := None\<rparr>) S) T i (take 127 go) (int (length (take 127 go)))"
proof -
  let ?k = "rw_k S" and ?mode = "OsRwlockGetMode (rw_k S) (RwRead i) (RwWrite i)"
  let ?S1 = "upd_rw i (\<lambda>r. r\<lparr>rwCount := 0, writeOwner := None\<rparr>) S"
  obtain r rs where rs: "pend ?k (RwRead i) = r # rs" using q by (auto simp: neq_Nil_conv)
  have rs1: "pend (rw_k ?S1) (RwRead i) = r # rs" and inv1: "sched_inv (rw_k ?S1)" using rs rw_invD(1) [OF inv] by simp_all
  have mode: "?mode = RWLOCK_READFIRST_MODE \<longleftrightarrow> pend ?k (RwWrite i) \<noteq> []" "?mode \<noteq> RWLOCK_NONE_MODE"
    "?mode \<noteq> RWLOCK_WRITE_MODE" "?mode \<noteq> RWLOCK_WRITEFIRST_MODE"
    using w q by (simp_all add: OsRwlockGetMode_cases)
  define S2 where "S2 = upd_rk (ops_wake r) (upd_rw i (\<lambda>r. r\<lparr>rwCount := rwCount r + 1\<rparr>) ?S1)"
  have "?mode = RWLOCK_READFIRST_MODE \<longrightarrow> pend (rw_k ?S1) (RwWrite i) \<noteq> []" using mode(1) by simp
  note s = rw_wake_head [OF inv1 rs1 this, folded S2_def]
  define gs where "gs = takeWhile (rw_goes (rw_k ?S1) i ?mode) rs"
  have "rw_goes (rw_k ?S1) i ?mode =
      (\<lambda>t. pend ?k (RwWrite i) = [] \<or> OsSchedParamCompare (tcb ?k t) (tcb ?k (hd (pend ?k (RwWrite i)))) < 0)"
    using mode(1) by (auto simp: rw_goes_def fun_eq_iff)
  then have go: "go = r # gs" by (simp add: go_def gs_def rw_let_in_def rs)
  have c: "rwCount (rwlocks S2 i) = 1" using s(4) by simp
  obtain T where T: "rw_read_loop (length (pend (rw_k S2) (RwRead i))) i ?mode S2 =
      (if length gs \<le> 126 then (0, True, T) else (LOS_EINVAL, False, T))"
    "rw_woken S2 T i (take 126 gs) (1 + int (length (take 126 gs)))"
    using rw_read_loop_woken [OF s(2), of i "length (pend (rw_k S2) (RwRead i))" ?mode] mode(1)
    unfolding c s(3,5,6) gs_def [symmetric] by auto
  have "rw_woken ?S1 T i ([r] @ take 126 gs) (1 + int (length (take 126 gs)))" by (rule rw_woken_trans [OF s(1) T(2) s(7)])
  moreover have "[r] @ take 126 gs = take 127 go" by (simp add: go take_Cons')
  ultimately have wk: "rw_woken ?S1 T i (take 127 go) (int (length (take 127 go)))" by (metis length_append_singleton length_Cons append_Cons append_Nil of_nat_Suc add.commute)
  have "OsRwlockPostOp i S = rw_read_loop (length (pend (rw_k S2) (RwRead i))) i ?mode S2"
    using mode rs by (simp add: OsRwlockPostOp_def Let_def S2_def upd_rw_def)
  then have "OsRwlockPostOp i S = (if length go \<le> 127 then (0, True, T) else (LOS_EINVAL, False, T))" using T(1) by (simp add: go)
  moreover have "rw_inv T" using go by (intro rw_inv_woken [OF inv m _ _ wk]) simp_all
  ultimately show ?thesis using wk by blast
qed

section \<open>Every operation keeps the invariant\<close>

lemma OsRwlockPostOp_inv:
  assumes inv: "rw_inv S" and m: "rw_magic_ok (rwlocks S i)"
  shows "rw_inv (snd (snd (OsRwlockPostOp i S)))"
proof -
  consider (none) "pend (rw_k S) (RwRead i) = []" "pend (rw_k S) (RwWrite i) = []" | (writer) "rw_writer_first (rw_k S) i"
    | (reader) "\<not> rw_writer_first (rw_k S) i" "pend (rw_k S) (RwRead i) \<noteq> []"
    by (auto simp: rw_writer_first_def)
  then show ?thesis
  proof cases
    case none
    then have "rw_inv (upd_rw i (\<lambda>r. r\<lparr>rwCount := 0, writeOwner := None\<rparr>) S)"
      by (intro rw_inv_upd [OF inv]) (simp add: rw_one_def)
    then show ?thesis using none by (simp add: OsRwlockPostOp_def Let_def OsRwlockGetMode_cases)
  next
    case writer
    from rw_post_write [OF inv m this] show ?thesis by auto
  next
    case reader
    from rw_post_read [OF inv m this] show ?thesis by auto
  qed
qed

lemma OsRwlockUnlockUnsafe_inv:
  assumes inv: "rw_inv S"
  shows "rw_inv (snd (snd (OsRwlockUnlockUnsafe i S)))"
proof -
  note one = rw_invD(2) [OF inv, of i]
  have "rw_inv (upd_rw i (\<lambda>r. r\<lparr>rwCount := rwCount r - 1\<rparr>) S)" if "rwCount (rwlocks S i) > 1" "rw_magic_ok (rwlocks S i)"
    using one that by (intro rw_inv_upd [OF inv]) (auto simp: rw_one_def rw_magic_ok_def)
  moreover have "rw_inv (upd_rw i (\<lambda>r. r\<lparr>rwCount := rwCount r + 1\<rparr>) S)" if "rwCount (rwlocks S i) < - 1" "rw_magic_ok (rwlocks S i)"
    using one that by (intro rw_inv_upd [OF inv]) (auto simp: rw_one_def rw_magic_ok_def)
  ultimately show ?thesis using inv OsRwlockPostOp_inv [OF inv] by (simp add: OsRwlockUnlockUnsafe_def Let_def)
qed

lemma rw_inv_schedule:
  assumes inv: "rw_inv S"
  shows "rw_inv (upd_rk LOS_Schedule S)"
proof (rule rw_inv_kernel [OF inv])
  note k = rw_invD(1) [OF inv]
  show "sched_inv (rw_k (upd_rk LOS_Schedule S))" using LOS_Schedule_inv [OF k] by simp
  show "pend (rw_k (upd_rk LOS_Schedule S)) (RwRead i) = [] \<and> pend (rw_k (upd_rk LOS_Schedule S)) (RwWrite i) = []"
    if "rwCount (rwlocks S i) = 0" for i
    using LOS_Schedule_ipc(1) [OF k, of "RwRead i"] LOS_Schedule_ipc(1) [OF k, of "RwWrite i"] rw_invD(2) [OF inv, of i] that
    by (simp add: rw_one_def)
qed simp

lemma LOS_RwlockUnLock_inv: "rw_inv S \<Longrightarrow> rw_inv (snd (LOS_RwlockUnLock rwlock S))"
  using OsRwlockUnlockUnsafe_inv rw_inv_schedule
  by (auto simp: LOS_RwlockUnLock_def case_prod_beta Let_def split: option.split)

lemma rw_lock_inv:
  assumes inv: "rw_inv S" and busy: "currTask (rw_k S) \<noteq> idleTask (rw_k S)"
  shows "rw_inv (snd (LOS_RwlockRdLock rwlock timeout S))" "rw_inv (snd (LOS_RwlockTryRdLock rwlock S))"
    "rw_inv (snd (LOS_RwlockWrLock rwlock timeout S))" "rw_inv (snd (LOS_RwlockTryWrLock rwlock S))"
  using inv OsRwlockRdPendOp_inv [OF inv _ busy] OsRwlockWrPendOp_inv [OF inv _ busy]
  by (simp_all add: LOS_RwlockRdLock_def LOS_RwlockTryRdLock_def LOS_RwlockWrLock_def LOS_RwlockTryWrLock_def rw_checked_def
      OsRwlockRdUnsafe_def OsRwlockTryRdUnsafe_def OsRwlockWrUnsafe_def OsRwlockTryWrUnsafe_def Let_def split: option.split)

lemma rw_init_inv:
  assumes inv: "rw_inv S"
  shows "rw_inv (snd (LOS_RwlockInit (Some i) S))" "rw_inv (snd (LOS_RwlockDestroy (Some i) S))"
proof -
  note one = rw_invD(2) [OF inv, of i]
  show "rw_inv (snd (LOS_RwlockInit (Some i) S))"
  proof (cases "rw_magic_ok (rwlocks S i)")
    case False
    then have e: "pend (rw_k S) (RwRead i) = []" "pend (rw_k S) (RwWrite i) = []" using one by (auto simp: rw_one_def)
    then have "rw_k S\<lparr>pend := (pend (rw_k S))(RwRead i := [], RwWrite i := [])\<rparr> = rw_k S" by (simp add: fun_upd_idem)
    then have "snd (LOS_RwlockInit (Some i) S) = upd_rw i (\<lambda>r. r\<lparr>rwCount := 0, writeOwner := None, rw_magic := 0xEFDCA\<rparr>) S"
      using False by (simp add: LOS_RwlockInit_def upd_rk_def)
    then show ?thesis using e rw_inv_upd [OF inv, of "\<lambda>r. r\<lparr>rwCount := 0, writeOwner := None, rw_magic := 0xEFDCA\<rparr>" i]
      by (simp add: rw_one_def)
  qed (use inv in \<open>simp add: LOS_RwlockInit_def\<close>)
  have "rw_inv (upd_rw i (\<lambda>r. \<lparr>rw_magic = 0, rwCount = 0, writeOwner = None\<rparr>) S)" if "rwCount (rwlocks S i) = 0"
    using one that by (intro rw_inv_upd [OF inv]) (simp add: rw_one_def)
  then show "rw_inv (snd (LOS_RwlockDestroy (Some i) S))" using inv by (simp add: LOS_RwlockDestroy_def)
qed

lemma rw_resume_inv:
  assumes inv: "rw_inv S"
  shows "rw_inv (snd (rw_resume t S))"
proof -
  have "rw_inv (S\<lparr>rw_k := snd (wait_resume t (rw_k S))\<rparr>)"
    using wait_resume_frame [OF rw_invD(1) [OF inv], of t] rw_invD(2) [OF inv]
    by (intro rw_inv_kernel [OF inv]) (simp_all add: rw_one_def)
  then show ?thesis by (simp add: rw_resume_def case_prod_beta Let_def)
qed

text \<open>
  The steps of a system of locks: the operations, run by any task, and whatever else the kernel does,
  which may let waiting tasks time out.
\<close>

inductive rw_step :: "rw_sys \<Rightarrow> rw_sys \<Rightarrow> bool" where
  rw_do_init: "rw_step S (snd (LOS_RwlockInit (Some i) S))"
| rw_do_destroy: "rw_step S (snd (LOS_RwlockDestroy (Some i) S))"
| rw_do_read: "currTask (rw_k S) \<noteq> idleTask (rw_k S) \<Longrightarrow> rw_step S (snd (LOS_RwlockRdLock (Some i) timeout S))"
| rw_do_tryread: "currTask (rw_k S) \<noteq> idleTask (rw_k S) \<Longrightarrow> rw_step S (snd (LOS_RwlockTryRdLock (Some i) S))"
| rw_do_write: "currTask (rw_k S) \<noteq> idleTask (rw_k S) \<Longrightarrow> rw_step S (snd (LOS_RwlockWrLock (Some i) timeout S))"
| rw_do_trywrite: "currTask (rw_k S) \<noteq> idleTask (rw_k S) \<Longrightarrow> rw_step S (snd (LOS_RwlockTryWrLock (Some i) S))"
| rw_do_resume: "rw_step S (snd (rw_resume t S))"
| rw_do_unlock: "rw_step S (snd (LOS_RwlockUnLock (Some i) S))"
| rw_do_kernel: "sched_inv k \<Longrightarrow> (\<And>g. ipc_head g \<Longrightarrow> set (pend k g) \<subseteq> set (pend (rw_k S) g)) \<Longrightarrow> rw_step S (S\<lparr>rw_k := k\<rparr>)"

lemma rw_step_inv:
  assumes "rw_step S T" "rw_inv S"
  shows "rw_inv T"
  using assms
proof cases
  case (rw_do_kernel k)
  show ?thesis
    unfolding rw_do_kernel(1)
  proof (rule rw_inv_kernel [OF assms(2)])
    show "pend (rw_k (S\<lparr>rw_k := k\<rparr>)) (RwRead i) = [] \<and> pend (rw_k (S\<lparr>rw_k := k\<rparr>)) (RwWrite i) = []"
      if "rwCount (rwlocks S i) = 0" for i
      using rw_do_kernel(3) [of "RwRead i"] rw_do_kernel(3) [of "RwWrite i"] rw_invD(2) [OF assms(2), of i] that
      by (simp add: rw_one_def)
  qed (use rw_do_kernel in simp_all)
qed (simp_all add: rw_init_inv rw_lock_inv rw_resume_inv LOS_RwlockUnLock_inv)

section \<open>Properties\<close>

text \<open>
  C13. Whatever tasks do with read-write locks: in every reachable state the count of a lock is in the range of its
  eight bits, it is negative exactly while one writer owns the lock, so that readers and a writer never
  hold it together, and nobody waits for a lock that is free.
\<close>

theorem rw_reachable:
  assumes "rw_step\<^sup>*\<^sup>* S0 S" "rw_inv S0"
  shows "rw_inv S"
  using assms by (induction rule: rtranclp_induct) (auto intro: rw_step_inv)

text \<open>No lock is set up and the scheduler is in its state after boot; task 1 runs.\<close>

definition rw_boot :: rw_sys where
  "rw_boot = \<lparr>rw_k = k_boot, rwlocks = (\<lambda>_. \<lparr>rw_magic = 0, rwCount = 0, writeOwner = None\<rparr>)\<rparr>"

lemma rw_inv_boot: "rw_inv rw_boot"
  using sched_inv_boot by (simp add: rw_inv_def rw_boot_def rw_one_def k_boot_def)

theorem rw_reachable_witness:
  "rw_inv (snd (LOS_RwlockUnLock (Some 0) (snd (LOS_RwlockRdLock (Some 0) 0 (snd (LOS_RwlockInit (Some 0) rw_boot))))))"
proof -
  let ?A = "snd (LOS_RwlockInit (Some 0) rw_boot)"
  let ?B = "snd (LOS_RwlockRdLock (Some 0) 0 ?A)"
  have "currTask (rw_k ?A) \<noteq> idleTask (rw_k ?A)" by (simp add: LOS_RwlockInit_def rw_boot_def k_boot_def)
  then have "rw_step rw_boot ?A" "rw_step ?A ?B" "rw_step ?B (snd (LOS_RwlockUnLock (Some 0) ?B))"
    using rw_do_init rw_do_read rw_do_unlock by blast+
  then have "rw_step\<^sup>*\<^sup>* rw_boot (snd (LOS_RwlockUnLock (Some 0) ?B))" by (meson r_into_rtranclp rtranclp_trans)
  from rw_reachable [OF this rw_inv_boot] show ?thesis .
qed

text \<open>
  C14. The last unlock of a lock, on every branch. With nobody waiting the lock is free. A writer at the head of its
  list that does not come after the first reader owns the lock, and all others keep waiting. Otherwise
  the first reader is let in, and behind it the readers that come before the first writer, at most 127
  in all; the count is their number, and the others keep waiting in their order.
\<close>

theorem rw_unlock_hands_over:
  assumes "rw_inv S" "rw_magic_ok (rwlocks S i)"
    and "rwCount (rwlocks S i) = 1 \<or> rwCount (rwlocks S i) = - 1 \<and> writeOwner (rwlocks S i) = Some (currTask (rw_k S))"
  shows "let rs = pend (rw_k S) (RwRead i); ws = pend (rw_k S) (RwWrite i); go = rw_let_in (rw_k S) i;
      (ret, needSched, T) = OsRwlockUnlockUnsafe i S; r = rwlocks T i
    in rw_inv T \<and>
      (if rs = [] \<and> ws = [] then ret = 0 \<and> \<not> needSched \<and> rwCount r = 0 \<and> writeOwner r = None
       else if rw_writer_first (rw_k S) i
         then ret = 0 \<and> needSched \<and> rwCount r = - 1 \<and> writeOwner r = Some (hd ws) \<and> pend (rw_k T) (RwWrite i) = tl ws \<and>
           pend (rw_k T) (RwRead i) = rs \<and> \<not> has (status (rw_k T) (hd ws)) OS_TASK_STATUS_PENDING
       else rwCount r = int (min 127 (length go)) \<and> writeOwner r = None \<and> rs = take 127 go @ pend (rw_k T) (RwRead i) \<and>
         pend (rw_k T) (RwWrite i) = ws \<and> (\<forall>t\<in>set (take 127 go). \<not> has (status (rw_k T) t) OS_TASK_STATUS_PENDING) \<and>
         (if length go \<le> 127 then ret = 0 \<and> needSched else ret = LOS_EINVAL \<and> \<not> needSched))"
proof -
  have eq: "OsRwlockUnlockUnsafe i S = OsRwlockPostOp i S" using assms(2,3) by (auto simp: OsRwlockUnlockUnsafe_def Let_def)
  consider (none) "pend (rw_k S) (RwRead i) = []" "pend (rw_k S) (RwWrite i) = []" | (writer) "rw_writer_first (rw_k S) i"
    | (reader) "\<not> rw_writer_first (rw_k S) i" "pend (rw_k S) (RwRead i) \<noteq> []"
    by (auto simp: rw_writer_first_def)
  then show ?thesis
  proof cases
    case none
    then show ?thesis
      using OsRwlockPostOp_inv [OF assms(1,2)] unfolding eq by (simp add: OsRwlockPostOp_def Let_def OsRwlockGetMode_cases)
  next
    case writer
    then have "pend (rw_k S) (RwWrite i) \<noteq> []" by (simp add: rw_writer_first_def)
    with rw_post_write [OF assms(1,2) writer] writer show ?thesis unfolding eq by (auto simp: Let_def)
  next
    case reader
    from rw_post_read [OF assms(1,2) reader] obtain T where T: "rw_inv T"
      "OsRwlockPostOp i S = (if length (rw_let_in (rw_k S) i) \<le> 127 then (0, True, T) else (LOS_EINVAL, False, T))"
      "rw_woken (upd_rw i (\<lambda>r. r\<lparr>rwCount := 0, writeOwner := None\<rparr>) S) T i (take 127 (rw_let_in (rw_k S) i))
         (int (length (take 127 (rw_let_in (rw_k S) i))))" by blast
    then show ?thesis using reader unfolding eq T(2) by (auto simp: Let_def rw_woken_def min.commute)
  qed
qed

text \<open>Lock 0 is held by one reader; tasks 4 and 5, of priority 10, wait to read it, and task 6, of priority 12, to write it.\<close>

definition rw_queue :: rw_sys where
  "rw_queue = \<lparr>rw_k = k_boot\<lparr>tcb := tcb_boot
       (4 := tcb_blank\<lparr>taskStatus := OS_TASK_STATUS_PENDING, on := Some (RwRead 0)\<rparr>,
        5 := tcb_blank\<lparr>taskStatus := OS_TASK_STATUS_PENDING, on := Some (RwRead 0)\<rparr>,
        6 := tcb_blank\<lparr>taskStatus := OS_TASK_STATUS_PENDING, on := Some (RwWrite 0), sp := (sp tcb_blank)\<lparr>priority := 12\<rparr>\<rparr>),
     pend := (pend k_boot)(RwRead 0 := [4, 5], RwWrite 0 := [6])\<rparr>,
     rwlocks = (\<lambda>_. \<lparr>rw_magic = 0, rwCount = 0, writeOwner = None\<rparr>)(0 := \<lparr>rw_magic = 0xEFDCA, rwCount = 1, writeOwner = None\<rparr>)\<rparr>"

lemmas rw_queue_defs = rw_queue_def k_boot_def tcb_boot_def tcb_blank_def

lemma rw_inv_queue: "rw_inv rw_queue"
proof -
  have "rq_inv (rw_k rw_queue)"
  proof (rule rq_invI)
    show "lists_ok (rw_k rw_queue)" by (auto simp: lists_ok_def rw_queue_defs)
    show "task_ok (tcb (rw_k rw_queue) t)" for t by (simp add: task_ok_def rw_queue_defs)
    show "maps_ok (pend (rw_k rw_queue)) (readyTasks (rw_k rw_queue)) (prioBitmap (rw_k rw_queue)) (queueBitmap (rw_k rw_queue))"
      using maps_ok_boot by (simp add: maps_ok_def rw_queue_def)
  qed
  then have "sched_inv (rw_k rw_queue)" by (simp add: sched_inv_def sched_core_def rw_queue_defs hpf_task_def)
  then show ?thesis by (auto simp: rw_inv_def rw_one_def rw_magic_ok_def rw_queue_defs)
qed

theorem rw_unlock_hands_over_witness:
  "rwCount (rwlocks (snd (snd (OsRwlockUnlockUnsafe 0 rw_queue))) 0) = 2 \<and>
   pend (rw_k (snd (snd (OsRwlockUnlockUnsafe 0 rw_queue)))) (RwRead 0) = [] \<and>
   pend (rw_k (snd (snd (OsRwlockUnlockUnsafe 0 rw_queue)))) (RwWrite 0) = [6]"
proof -
  have q: "pend (rw_k rw_queue) (RwRead 0) = [4, 5]" "pend (rw_k rw_queue) (RwWrite 0) = [6]" "rwCount (rwlocks rw_queue 0) = 1"
    "rw_magic_ok (rwlocks rw_queue 0)"
    by (simp_all add: rw_queue_def rw_magic_ok_def)
  have c: "OsSchedParamCompare (tcb (rw_k rw_queue) 6) (tcb (rw_k rw_queue) 4) = 2" "OsSchedParamCompare (tcb (rw_k rw_queue) 5) (tcb (rw_k rw_queue) 6) = - 2"
    by (simp_all add: rw_queue_defs OsSchedParamCompare_def ops_schedParamCompare_def HPFParamCompare_def)
  have "\<not> rw_writer_first (rw_k rw_queue) 0" "rw_let_in (rw_k rw_queue) 0 = [4, 5]"
    using q(1,2) c by (simp_all add: rw_writer_first_def rw_let_in_def)
  then show ?thesis
    using rw_unlock_hands_over [OF rw_inv_queue q(4)] q by (simp add: case_prod_beta Let_def)
qed

end
