(* ===== verification/Membox.thy ===== *)
theory Membox
  imports Kernel_Prelude
begin

text \<open>
  Pools of memory blocks of one size, \<^verbatim>\<open>kernel/base/mem/membox/los_membox.c\<close>. Addresses are 32-bit words. The state
  has the control structure at the start of the pool, the word \<open>pstNext\<close> at the start of every block, by
  its address, and the bytes that belong to the users. The spin lock is not there on one processor.
\<close>

section \<open>Pools\<close>

abbreviation (input) OS_MEMBOX_MAGIC :: u32 where "OS_MEMBOX_MAGIC \<equiv> 0xa55a5aa5"
abbreviation (input) OS_MEMBOX_NODE_HEAD_SIZE :: u32 where "OS_MEMBOX_NODE_HEAD_SIZE \<equiv> 4"
abbreviation (input) MEMBOX_INFO_SIZE :: u32 where "MEMBOX_INFO_SIZE \<equiv> 16"
abbreviation (input) BOX_OK :: u32 where "BOX_OK \<equiv> 0"
abbreviation (input) BOX_NOK :: u32 where "BOX_NOK \<equiv> 1"

text \<open>\<open>stFreeList\<close> is the pointer in the list head; \<open>box_fault\<close> records a division by zero.\<close>

record LOS_MEMBOX_INFO =
  uwBlkSize :: u32
  uwBlkNum :: u32
  uwBlkCnt :: u32
  stFreeList :: u32
  pstNext :: "u32 \<Rightarrow> u32"
  userBytes :: "u32 \<Rightarrow> u8"
  box_fault :: bool

definition LOS_MEMBOX_ALIGNED :: "u32 \<Rightarrow> u32" where
  "LOS_MEMBOX_ALIGNED memAddr = (memAddr + 3) AND NOT 3"

definition OS_MEMBOX_NEXT :: "u32 \<Rightarrow> u32 \<Rightarrow> u32" where
  "OS_MEMBOX_NEXT addr blkSize = addr + blkSize"

definition OS_MEMBOX_USER_ADDR :: "u32 \<Rightarrow> u32" where
  "OS_MEMBOX_USER_ADDR addr = addr + OS_MEMBOX_NODE_HEAD_SIZE"

definition OS_MEMBOX_NODE_ADDR :: "u32 \<Rightarrow> u32" where
  "OS_MEMBOX_NODE_ADDR addr = addr - OS_MEMBOX_NODE_HEAD_SIZE"

definition OS_MEMBOX_CHECK_MAGIC :: "LOS_MEMBOX_INFO \<Rightarrow> u32 \<Rightarrow> u32" where
  "OS_MEMBOX_CHECK_MAGIC M addr = (if pstNext M addr = OS_MEMBOX_MAGIC then BOX_OK else BOX_NOK)"

definition set_next :: "u32 \<Rightarrow> u32 \<Rightarrow> LOS_MEMBOX_INFO \<Rightarrow> LOS_MEMBOX_INFO" where
  "set_next a v M = M\<lparr>pstNext := (pstNext M)(a := v)\<rparr>"

definition OsCheckBoxMem :: "u32 \<Rightarrow> LOS_MEMBOX_INFO \<Rightarrow> u32 \<Rightarrow> u32" where
  "OsCheckBoxMem pool M node =
     (if uwBlkSize M = 0 then BOX_NOK
      else let offset = node - (pool + MEMBOX_INFO_SIZE)
           in if offset mod uwBlkSize M \<noteq> 0 then BOX_NOK
              else if offset div uwBlkSize M \<ge> uwBlkNum M then BOX_NOK
              else OS_MEMBOX_CHECK_MAGIC M node)"

text \<open>The loop of \<open>LOS_MemboxInit\<close> that links \<open>n\<close> blocks to their successors.\<close>

fun membox_link :: "nat \<Rightarrow> u32 \<Rightarrow> LOS_MEMBOX_INFO \<Rightarrow> u32 \<times> LOS_MEMBOX_INFO" where
  "membox_link 0 node M = (node, M)"
| "membox_link (Suc n) node M =
     (let nxt = OS_MEMBOX_NEXT node (uwBlkSize M) in membox_link n nxt (set_next node nxt M))"

definition LOS_MemboxInit :: "u32 \<Rightarrow> u32 \<Rightarrow> u32 \<Rightarrow> LOS_MEMBOX_INFO \<Rightarrow> u32 \<times> LOS_MEMBOX_INFO" where
  "LOS_MemboxInit pool poolSize blkSize M =
     (if pool = 0 then (BOX_NOK, M)
      else if blkSize = 0 then (BOX_NOK, M)
      else if poolSize < MEMBOX_INFO_SIZE then (BOX_NOK, M)
      else let size = LOS_MEMBOX_ALIGNED (blkSize + OS_MEMBOX_NODE_HEAD_SIZE)
           in if size = 0 then (BOX_NOK, M\<lparr>uwBlkSize := 0, box_fault := True\<rparr>)
              else let num = (poolSize - MEMBOX_INFO_SIZE) div size;
                       M1 = M\<lparr>uwBlkSize := size, uwBlkNum := num, uwBlkCnt := 0\<rparr>
                   in if num = 0 then (BOX_NOK, M1)
                      else let node = pool + MEMBOX_INFO_SIZE;
                               (lst, M2) = membox_link (unat (num - 1)) node (M1\<lparr>stFreeList := node\<rparr>)
                           in (BOX_OK, set_next lst 0 M2))"

definition LOS_MemboxAlloc :: "u32 \<Rightarrow> LOS_MEMBOX_INFO \<Rightarrow> u32 \<times> LOS_MEMBOX_INFO" where
  "LOS_MemboxAlloc pool M =
     (if pool = 0 then (0, M)
      else if stFreeList M = 0 then (0, M)
      else let nodeTmp = stFreeList M
           in (OS_MEMBOX_USER_ADDR nodeTmp,
               set_next nodeTmp OS_MEMBOX_MAGIC (M\<lparr>stFreeList := pstNext M nodeTmp, uwBlkCnt := uwBlkCnt M + 1\<rparr>)))"

definition LOS_MemboxFree :: "u32 \<Rightarrow> u32 \<Rightarrow> LOS_MEMBOX_INFO \<Rightarrow> u32 \<times> LOS_MEMBOX_INFO" where
  "LOS_MemboxFree pool box M =
     (if pool = 0 \<or> box = 0 then (BOX_NOK, M)
      else let node = OS_MEMBOX_NODE_ADDR box
           in if OsCheckBoxMem pool M node \<noteq> BOX_OK then (BOX_NOK, M)
              else (BOX_OK, (set_next node (stFreeList M) M)\<lparr>stFreeList := node, uwBlkCnt := uwBlkCnt M - 1\<rparr>))"

definition LOS_MemboxClr :: "u32 \<Rightarrow> u32 \<Rightarrow> LOS_MEMBOX_INFO \<Rightarrow> LOS_MEMBOX_INFO" where
  "LOS_MemboxClr pool box M =
     (if pool = 0 \<or> box = 0 then M
      else M\<lparr>userBytes := (\<lambda>a. if a - box < uwBlkSize M - OS_MEMBOX_NODE_HEAD_SIZE then 0 else userBytes M a)\<rparr>)"

text \<open>
  The results of \<open>LOS_MemboxStatisticsGet\<close> are the number of blocks, the blocks in use and their size; \<open>outs\<close> says
  that none of the three pointers for them is null.
\<close>

definition LOS_MemboxStatisticsGet :: "u32 \<Rightarrow> bool \<Rightarrow> LOS_MEMBOX_INFO \<Rightarrow> u32 \<times> (u32 \<times> u32 \<times> u32) option" where
  "LOS_MemboxStatisticsGet boxMem outs M =
     (if boxMem = 0 \<or> \<not> outs then (BOX_NOK, None) else (BOX_OK, Some (uwBlkNum M, uwBlkCnt M, uwBlkSize M)))"

section \<open>Free lists\<close>

text \<open>\<open>chain nxt p as\<close>: the pointer \<open>p\<close> leads through the blocks \<open>as\<close> to the null pointer.\<close>

primrec chain :: "(u32 \<Rightarrow> u32) \<Rightarrow> u32 \<Rightarrow> u32 list \<Rightarrow> bool" where
  "chain nxt p [] \<longleftrightarrow> p = 0"
| "chain nxt p (a # as) \<longleftrightarrow> p = a \<and> a \<noteq> 0 \<and> chain nxt (nxt a) as"

lemma chain_upd [simp]: "a \<notin> set as \<Longrightarrow> chain (nxt(a := v)) p as = chain nxt p as"
  by (induction as arbitrary: p) auto

lemma chain_head: "chain nxt p as \<Longrightarrow> p = 0 \<or> p \<in> set as"
  by (cases as) simp_all

lemma chain_next: "chain nxt p as \<Longrightarrow> a \<in> set as \<Longrightarrow> nxt a = 0 \<or> nxt a \<in> set as"
proof (induction as arbitrary: p)
  case (Cons b as)
  then have "chain nxt (nxt b) as" by simp
  then show ?case using chain_head [of nxt "nxt b" as] Cons.IH [of "nxt b"] Cons.prems(2) by auto
qed simp

section \<open>Blocks\<close>

definition block :: "u32 \<Rightarrow> u32 \<Rightarrow> nat \<Rightarrow> u32" where
  "block pool sz i = pool + MEMBOX_INFO_SIZE + of_nat i * sz"

text \<open>The pool has \<open>n\<close> blocks, it and they are aligned, and it ends before the end of the address space.\<close>

definition box_geom :: "u32 \<Rightarrow> LOS_MEMBOX_INFO \<Rightarrow> nat \<Rightarrow> bool" where
  "box_geom pool M n \<longleftrightarrow> pool \<noteq> 0 \<and> 4 dvd unat pool \<and> 8 \<le> unat (uwBlkSize M) \<and> 4 dvd unat (uwBlkSize M) \<and>
     unat (uwBlkNum M) = n \<and> unat pool + 16 + n * unat (uwBlkSize M) \<le> 2 ^ 32"

lemma unat_block:
  assumes "box_geom pool M n" "i < n"
  shows "unat (block pool (uwBlkSize M) i) = unat pool + 16 + i * unat (uwBlkSize M)"
    "unat (of_nat i * uwBlkSize M) = i * unat (uwBlkSize M)"
proof -
  let ?s = "unat (uwBlkSize M)"
  have s: "0 < ?s" using assms(1) by (simp add: box_geom_def)
  have "Suc i * ?s \<le> n * ?s" using assms(2) by (intro mult_right_mono) auto
  then have le: "unat pool + 16 + i * ?s + ?s \<le> 4294967296" using assms(1) by (simp add: box_geom_def)
  have "i \<le> i * ?s" using s by simp
  then have i: "i < 4294967296" using le s by linarith
  have m: "unat (of_nat i * uwBlkSize M) = (i mod 4294967296 * ?s) mod 4294967296"
    by (simp add: unat_word_ariths unat_of_nat take_bit_eq_mod)
  also have "\<dots> = i * ?s" using i le s by simp
  finally show e: "unat (of_nat i * uwBlkSize M) = i * ?s" .
  have p: "unat (pool + 16) = unat pool + 16" using le s by (simp add: unat_word_ariths)
  show "unat (block pool (uwBlkSize M) i) = unat pool + 16 + i * ?s"
    using le s e p by (simp add: block_def unat_word_ariths)
qed

lemma block_facts:
  assumes g: "box_geom pool M n" and i: "i < n"
  shows "block pool (uwBlkSize M) i \<noteq> 0" "block pool (uwBlkSize M) i \<noteq> OS_MEMBOX_MAGIC"
    "j < n \<Longrightarrow> block pool (uwBlkSize M) i = block pool (uwBlkSize M) j \<longleftrightarrow> i = j"
    "OS_MEMBOX_USER_ADDR (block pool (uwBlkSize M) i) \<noteq> 0"
proof -
  let ?s = "unat (uwBlkSize M)" and ?b = "block pool (uwBlkSize M) i"
  note u = unat_block(1) [OF g i]
  have d: "4 dvd unat ?b" using g by (simp add: u box_geom_def)
  show "?b \<noteq> 0" using u by (metis add_is_0 numeral_neq_zero unat_0)
  have "unat (OS_MEMBOX_MAGIC :: u32) = 2774162085" by simp
  then show "?b \<noteq> OS_MEMBOX_MAGIC" using d by auto
  have s: "8 \<le> ?s" using g by (simp add: box_geom_def)
  show "?b = block pool (uwBlkSize M) j \<longleftrightarrow> i = j" if "j < n"
    using unat_block(1) [OF g that] u s by (metis add_left_cancel mult_right_cancel not_numeral_le_zero)
  have "Suc i * ?s \<le> n * ?s" using i by (intro mult_right_mono) auto
  then have "unat ?b + 8 \<le> 4294967296" using g u s by (simp add: box_geom_def)
  then have "unat (?b + 4) = unat ?b + 4" by (simp add: unat_word_ariths)
  then show "OS_MEMBOX_USER_ADDR ?b \<noteq> 0" unfolding OS_MEMBOX_USER_ADDR_def by (metis add_is_0 numeral_neq_zero unat_0)
qed

lemma OsCheckBoxMem_iff:
  assumes g: "box_geom pool M n"
  shows "OsCheckBoxMem pool M node = BOX_OK \<longleftrightarrow>
    (\<exists>i<n. node = block pool (uwBlkSize M) i \<and> pstNext M node = OS_MEMBOX_MAGIC)"
proof -
  let ?s = "uwBlkSize M" and ?o = "node - (pool + 16)"
  have s: "8 \<le> unat ?s" and n: "unat (uwBlkNum M) = n" using g by (simp_all add: box_geom_def)
  then have s0: "?s \<noteq> 0" by auto
  have iff: "(?o mod ?s = 0 \<and> \<not> ?o div ?s \<ge> uwBlkNum M) \<longleftrightarrow> (\<exists>i<n. node = block pool ?s i)"
  proof
    assume a: "?o mod ?s = 0 \<and> \<not> ?o div ?s \<ge> uwBlkNum M"
    let ?i = "unat (?o div ?s)"
    have i: "?i < n" using a n by (simp add: word_le_nat_alt)
    have "unat ?o mod unat ?s = 0" using a by (metis unat_mod unat_0)
    then have "unat ?o = ?i * unat ?s" unfolding unat_div by (metis add.right_neutral div_mult_mod_eq)
    then have "?o = of_nat ?i * ?s" using unat_block(2) [OF g i] by (metis word_unat_eq_iff)
    then have "node = block pool ?s ?i" by (simp add: block_def algebra_simps)
    with i show "\<exists>i<n. node = block pool ?s i" by blast
  next
    assume "\<exists>i<n. node = block pool ?s i"
    then obtain i where i: "i < n" "node = block pool ?s i" by blast
    have "?o = of_nat i * ?s" using i(2) by (simp add: block_def)
    then have u: "unat ?o = i * unat ?s" using unat_block(2) [OF g i(1)] by simp
    then have "unat (?o mod ?s) = 0" "unat (?o div ?s) = i" using s by (simp_all add: unat_mod unat_div)
    then show "?o mod ?s = 0 \<and> \<not> ?o div ?s \<ge> uwBlkNum M" using i(1) n by (simp add: unat_eq_zero word_le_nat_alt)
  qed
  have "OsCheckBoxMem pool M node = BOX_OK \<longleftrightarrow>
      (?o mod ?s = 0 \<and> \<not> ?o div ?s \<ge> uwBlkNum M) \<and> pstNext M node = OS_MEMBOX_MAGIC"
    using s0 unfolding OsCheckBoxMem_def Let_def OS_MEMBOX_CHECK_MAGIC_def by simp
  then show ?thesis unfolding iff by auto
qed

section \<open>The pool as a set of blocks\<close>

text \<open>
  \<open>box_rep pool M fs us\<close>: the blocks with the numbers \<open>fs\<close> are on the free list, in this order, and those of \<open>us\<close> are in use.
\<close>

definition box_rep :: "u32 \<Rightarrow> LOS_MEMBOX_INFO \<Rightarrow> nat list \<Rightarrow> nat set \<Rightarrow> bool" where
  "box_rep pool M fs us \<longleftrightarrow> (\<exists>n. box_geom pool M n \<and> distinct fs \<and> set fs \<inter> us = {} \<and> set fs \<union> us = {..<n} \<and>
     chain (pstNext M) (stFreeList M) (map (block pool (uwBlkSize M)) fs) \<and>
     (\<forall>i\<in>us. pstNext M (block pool (uwBlkSize M) i) = OS_MEMBOX_MAGIC) \<and> uwBlkCnt M = of_nat (card us))"

lemma box_repD:
  assumes "box_rep pool M fs us"
  obtains n where "box_geom pool M n" "distinct fs" "set fs \<inter> us = {}" "set fs \<union> us = {..<n}"
    "chain (pstNext M) (stFreeList M) (map (block pool (uwBlkSize M)) fs)"
    "\<And>i. i \<in> us \<Longrightarrow> pstNext M (block pool (uwBlkSize M) i) = OS_MEMBOX_MAGIC" "uwBlkCnt M = of_nat (card us)"
    "finite us" "\<And>i. i \<in> set fs \<Longrightarrow> i < n" "\<And>i. i \<in> us \<Longrightarrow> i < n"
proof -
  from assms obtain n where "box_geom pool M n" "distinct fs" "set fs \<inter> us = {}" "set fs \<union> us = {..<n}"
    "chain (pstNext M) (stFreeList M) (map (block pool (uwBlkSize M)) fs)"
    "\<forall>i\<in>us. pstNext M (block pool (uwBlkSize M) i) = OS_MEMBOX_MAGIC" "uwBlkCnt M = of_nat (card us)"
    unfolding box_rep_def by blast
  moreover have "finite us" using calculation(4) by (metis finite_Un finite_lessThan)
  ultimately show ?thesis by (intro that [of n]) auto
qed

lemma box_next_simps [simp]:
  "uwBlkSize (set_next a v M) = uwBlkSize M" "uwBlkNum (set_next a v M) = uwBlkNum M" "uwBlkCnt (set_next a v M) = uwBlkCnt M"
  "stFreeList (set_next a v M) = stFreeList M" "pstNext (set_next a v M) = (pstNext M)(a := v)"
  by (simp_all add: set_next_def)

lemma box_geom_cong: "uwBlkSize N = uwBlkSize M \<Longrightarrow> uwBlkNum N = uwBlkNum M \<Longrightarrow> box_geom pool N n = box_geom pool M n"
  by (simp add: box_geom_def)

lemma box_alloc_none:
  assumes "box_rep pool M [] us"
  shows "LOS_MemboxAlloc pool M = (0, M)"
  using assms by (auto simp: box_rep_def LOS_MemboxAlloc_def)

lemma box_alloc_some:
  assumes rep: "box_rep pool M (i # fs) us"
  shows "fst (LOS_MemboxAlloc pool M) = OS_MEMBOX_USER_ADDR (block pool (uwBlkSize M) i)"
    "box_rep pool (snd (LOS_MemboxAlloc pool M)) fs (insert i us)" "uwBlkSize (snd (LOS_MemboxAlloc pool M)) = uwBlkSize M"
proof -
  let ?b = "block pool (uwBlkSize M)" and ?N = "snd (LOS_MemboxAlloc pool M)"
  from rep obtain n where D: "box_geom pool M n" "distinct (i # fs)" "set (i # fs) \<inter> us = {}" "set (i # fs) \<union> us = {..<n}"
    "chain (pstNext M) (stFreeList M) (map ?b (i # fs))" "\<And>j. j \<in> us \<Longrightarrow> pstNext M (?b j) = OS_MEMBOX_MAGIC"
    "uwBlkCnt M = of_nat (card us)" "finite us" "\<And>j. j \<in> set (i # fs) \<Longrightarrow> j < n" "\<And>j. j \<in> us \<Longrightarrow> j < n"
    by (rule box_repD) blast
  have i: "i < n" "i \<notin> set fs" "i \<notin> us" using D(2,3,9) by auto
  have h: "pool \<noteq> 0" "stFreeList M = ?b i" "?b i \<noteq> 0" "chain (pstNext M) (pstNext M (?b i)) (map ?b fs)"
    using D(1) D(5) [unfolded list.map chain.simps(2)] unfolding box_geom_def by blast+
  have N: "?N = set_next (?b i) OS_MEMBOX_MAGIC (M\<lparr>stFreeList := pstNext M (?b i), uwBlkCnt := uwBlkCnt M + 1\<rparr>)"
    using h(1-3) by (simp add: LOS_MemboxAlloc_def Let_def)
  show "fst (LOS_MemboxAlloc pool M) = OS_MEMBOX_USER_ADDR (?b i)" using h(1-3) by (simp add: LOS_MemboxAlloc_def Let_def)
  show "uwBlkSize ?N = uwBlkSize M" by (simp add: N)
  have ne: "?b j \<noteq> ?b i" if "j < n" "j \<noteq> i" for j using block_facts(3) [OF D(1) that(1) i(1)] that(2) by simp
  have "?b j \<noteq> ?b i" if "j \<in> set fs" for j using ne [of j] D(9) [of j] i(2) that by auto
  then have "?b i \<notin> set (map ?b fs)" by (metis image_iff list.set_map)
  then have "chain (pstNext ?N) (stFreeList ?N) (map ?b fs)" using h(4) by (simp add: N)
  moreover have "pstNext ?N (?b j) = OS_MEMBOX_MAGIC" if "j \<in> insert i us" for j using that D(6) by (cases "?b j = ?b i") (auto simp: N)
  moreover have "uwBlkCnt ?N = of_nat (card (insert i us))" using D(7,8) i(3) by (simp add: N)
  moreover have "box_geom pool ?N n" using D(1) by (simp add: N box_geom_def)
  ultimately show "box_rep pool ?N fs (insert i us)"
    unfolding box_rep_def using D(2-4) i by (intro exI [of _ n]) (auto simp: N)
qed

lemma box_free_used:
  assumes rep: "box_rep pool M fs us" and i: "i \<in> us"
  defines "box \<equiv> OS_MEMBOX_USER_ADDR (block pool (uwBlkSize M) i)"
  shows "fst (LOS_MemboxFree pool box M) = BOX_OK" "box_rep pool (snd (LOS_MemboxFree pool box M)) (i # fs) (us - {i})"
    "uwBlkSize (snd (LOS_MemboxFree pool box M)) = uwBlkSize M"
proof -
  let ?b = "block pool (uwBlkSize M)" and ?N = "snd (LOS_MemboxFree pool box M)"
  from rep obtain n where D: "box_geom pool M n" "distinct fs" "set fs \<inter> us = {}" "set fs \<union> us = {..<n}"
    "chain (pstNext M) (stFreeList M) (map ?b fs)" "\<And>j. j \<in> us \<Longrightarrow> pstNext M (?b j) = OS_MEMBOX_MAGIC"
    "uwBlkCnt M = of_nat (card us)" "finite us" "\<And>j. j \<in> set fs \<Longrightarrow> j < n" "\<And>j. j \<in> us \<Longrightarrow> j < n"
    by (rule box_repD) blast
  have n: "i < n" using D(10) i by simp
  note b = block_facts [OF D(1) n]
  have node: "OS_MEMBOX_NODE_ADDR box = ?b i" by (simp add: box_def OS_MEMBOX_NODE_ADDR_def OS_MEMBOX_USER_ADDR_def)
  have ok: "OsCheckBoxMem pool M (?b i) = BOX_OK" using OsCheckBoxMem_iff [OF D(1)] n D(6) i by blast
  have nz: "pool \<noteq> 0" "box \<noteq> 0" using D(1) b(4) by (simp_all add: box_geom_def box_def)
  have N: "?N = (set_next (?b i) (stFreeList M) M)\<lparr>stFreeList := ?b i, uwBlkCnt := uwBlkCnt M - 1\<rparr>"
    and "fst (LOS_MemboxFree pool box M) = BOX_OK"
    using nz ok by (simp_all add: LOS_MemboxFree_def node Let_def)
  then show "fst (LOS_MemboxFree pool box M) = BOX_OK" "uwBlkSize ?N = uwBlkSize M" by simp_all
  have ne: "?b j \<noteq> ?b i" if "j < n" "j \<noteq> i" for j using block_facts(3) [OF D(1) that(1) n] that(2) by simp
  have "?b i \<notin> set (map ?b fs)" using ne D(3,9) i by fastforce
  then have "chain (pstNext ?N) (stFreeList ?N) (map ?b (i # fs))" using D(5) b(1) by (simp add: N)
  moreover have "pstNext ?N (?b j) = OS_MEMBOX_MAGIC" if "j \<in> us - {i}" for j using that D(6,10) ne by (simp add: N)
  moreover have "uwBlkCnt ?N = of_nat (card (us - {i}))"
    using D(7,8) i card_Suc_Diff1 [OF D(8) i] by (simp add: N)
  moreover have "box_geom pool ?N n" using D(1) by (simp add: N box_geom_def)
  ultimately show "box_rep pool ?N (i # fs) (us - {i})"
    unfolding box_rep_def using D(2-4) i n by (intro exI [of _ n]) (auto simp: N)
qed

lemma box_free_other:
  assumes rep: "box_rep pool M fs us" and no: "\<And>i. i \<in> us \<Longrightarrow> box \<noteq> OS_MEMBOX_USER_ADDR (block pool (uwBlkSize M) i)"
  shows "LOS_MemboxFree pool box M = (BOX_NOK, M)"
proof -
  let ?b = "block pool (uwBlkSize M)" and ?node = "OS_MEMBOX_NODE_ADDR box"
  from rep obtain n where D: "box_geom pool M n" "set fs \<union> us = {..<n}"
    "chain (pstNext M) (stFreeList M) (map ?b fs)" "\<And>j. j \<in> set fs \<Longrightarrow> j < n"
    by (rule box_repD) blast
  have "OsCheckBoxMem pool M ?node \<noteq> BOX_OK"
  proof
    assume "OsCheckBoxMem pool M ?node = BOX_OK"
    then obtain i where i: "i < n" "?node = ?b i" "pstNext M ?node = OS_MEMBOX_MAGIC"
      using OsCheckBoxMem_iff [OF D(1)] by blast
    have "box = OS_MEMBOX_USER_ADDR (?b i)" using i(2) by (simp add: OS_MEMBOX_NODE_ADDR_def OS_MEMBOX_USER_ADDR_def) (metis diff_add_cancel)
    then have "i \<in> set fs" using no i(1) D(2) by auto
    then have "pstNext M (?b i) = 0 \<or> pstNext M (?b i) \<in> ?b ` set fs" using chain_next [OF D(3), of "?b i"] by simp
    then show False using i block_facts(2) [OF D(1)] D(4) by fastforce
  qed
  then show ?thesis by (simp add: LOS_MemboxFree_def Let_def)
qed

section \<open>Setting up a pool\<close>

lemma unat_aligned:
  assumes "unat x + 3 < 2 ^ 32"
  shows "unat (LOS_MEMBOX_ALIGNED x) = 4 * ((unat x + 3) div 4)"
proof -
  have m: "(3 :: u32) = mask 2" by (simp add: mask_eq_exp_minus_1)
  have "unat (x + 3) = unat x + 3" using assms by (simp add: unat_word_ariths)
  then show ?thesis using unat_clear_low [of "x + 3" 2] by (simp add: LOS_MEMBOX_ALIGNED_def m [symmetric])
qed

lemma membox_link_frame:
  "uwBlkSize (snd (membox_link n a M)) = uwBlkSize M" "uwBlkNum (snd (membox_link n a M)) = uwBlkNum M"
  "uwBlkCnt (snd (membox_link n a M)) = uwBlkCnt M" "stFreeList (snd (membox_link n a M)) = stFreeList M"
  by (induction n arbitrary: a M) (simp_all add: Let_def)

lemma block_next: "OS_MEMBOX_NEXT (block pool sz j) sz = block pool sz (Suc j)"
  by (simp add: OS_MEMBOX_NEXT_def block_def algebra_simps)

text \<open>The loop links the blocks from the first to the last in their order, and changes no other pointer.\<close>

lemma membox_link_chain:
  assumes g: "box_geom pool M N" and "j + n < N"
  defines "R \<equiv> membox_link n (block pool (uwBlkSize M) j) M"
  shows "fst R = block pool (uwBlkSize M) (j + n)"
    "\<And>a. (\<And>k. j \<le> k \<Longrightarrow> k < j + n \<Longrightarrow> a \<noteq> block pool (uwBlkSize M) k) \<Longrightarrow> pstNext (snd R) a = pstNext M a"
    "chain ((pstNext (snd R))(fst R := 0)) (block pool (uwBlkSize M) j) (map (block pool (uwBlkSize M)) [j..<Suc (j + n)])"
proof -
  let ?b = "block pool (uwBlkSize M)"
  have "fst R = ?b (j + n) \<and> (\<forall>a. (\<forall>k. j \<le> k \<longrightarrow> k < j + n \<longrightarrow> a \<noteq> ?b k) \<longrightarrow> pstNext (snd R) a = pstNext M a) \<and>
    chain ((pstNext (snd R))(fst R := 0)) (?b j) (map ?b [j..<Suc (j + n)])"
    unfolding R_def using assms(1,2)
  proof (induction n arbitrary: j M)
    case 0
    then show ?case using block_facts(1) [OF 0(1), of j] by simp
  next
    case (Suc n)
    let ?b = "block pool (uwBlkSize M)" and ?M = "set_next (block pool (uwBlkSize M) j) (block pool (uwBlkSize M) (Suc j)) M"
    let ?R = "membox_link n (?b (Suc j)) ?M"
    have eq: "membox_link (Suc n) (?b j) M = ?R" by (simp add: Let_def block_next)
    have g: "box_geom pool ?M N" using Suc.prems(1) by (simp add: box_geom_def)
    have lt: "Suc j + n < N" using Suc.prems(2) by simp
    have ih: "fst ?R = ?b (Suc j + n)" "\<forall>a. (\<forall>k. Suc j \<le> k \<longrightarrow> k < Suc j + n \<longrightarrow> a \<noteq> ?b k) \<longrightarrow> pstNext (snd ?R) a = pstNext ?M a"
      "chain ((pstNext (snd ?R))(fst ?R := 0)) (?b (Suc j)) (map ?b [Suc j..<Suc (Suc j + n)])"
      using Suc.IH [OF g lt, unfolded box_next_simps(1)] by blast+
    have ne: "?b j \<noteq> ?b k" if "Suc j \<le> k" "k < Suc (Suc j + n)" for k
      using block_facts(3) [OF Suc.prems(1), of j k] that Suc.prems(2) by simp
    have "pstNext (snd ?R) (?b j) = ?b (Suc j)" using ih(2) ne by simp
    moreover have "?b j \<noteq> fst ?R" using ne [of "Suc j + n"] ih(1) by simp
    ultimately have "chain ((pstNext (snd ?R))(fst ?R := 0)) (?b j) (map ?b [j..<Suc (j + Suc n)])"
      using ih(3) block_facts(1) [OF Suc.prems(1), of j] Suc.prems(2) by (simp add: upt_conv_Cons del: upt_Suc)
    moreover have "pstNext (snd ?R) a = pstNext M a" if "\<forall>k. j \<le> k \<longrightarrow> k < j + Suc n \<longrightarrow> a \<noteq> ?b k" for a
      using ih(2) that by auto
    moreover have "fst ?R = ?b (j + Suc n)" using ih(1) by simp
    ultimately show ?case unfolding eq by blast
  qed
  then show "fst R = ?b (j + n)" "\<And>a. (\<And>k. j \<le> k \<Longrightarrow> k < j + n \<Longrightarrow> a \<noteq> ?b k) \<Longrightarrow> pstNext (snd R) a = pstNext M a"
    "chain ((pstNext (snd R))(fst R := 0)) (?b j) (map ?b [j..<Suc (j + n)])" by auto
qed

lemma box_init:
  assumes "pool \<noteq> 0" "4 dvd unat pool" "unat pool + unat poolSize \<le> 2 ^ 32" "16 \<le> unat poolSize"
    and "blkSize \<noteq> 0" "unat blkSize + 7 < 2 ^ 32"
  shows "let (ret, N) = LOS_MemboxInit pool poolSize blkSize M; s = unat (uwBlkSize N); n = (unat poolSize - 16) div s
    in unat blkSize + 4 \<le> s \<and> s < unat blkSize + 8 \<and> 4 dvd s \<and>
      (if n = 0 then ret = BOX_NOK else ret = BOX_OK \<and> box_rep pool N [0..<n] {} \<and> (\<forall>i<n. 16 + Suc i * s \<le> unat poolSize))"
proof -
  let ?w = "LOS_MEMBOX_ALIGNED (blkSize + 4)" and ?num = "(poolSize - 16) div LOS_MEMBOX_ALIGNED (blkSize + 4)"
  define s where "s = unat ?w"
  define n where "n = (unat poolSize - 16) div s"
  have b: "0 < unat blkSize" using assms(5) by (simp add: unat_gt_0)
  have "unat (blkSize + 4) = unat blkSize + 4" using assms(6) by (simp add: unat_word_ariths)
  then have "s = 4 * ((unat blkSize + 7) div 4)" using unat_aligned [of "blkSize + 4"] assms(6) by (simp add: s_def)
  then have s: "unat blkSize + 4 \<le> s" "s < unat blkSize + 8" "4 dvd s" "8 \<le> s" using b by (simp, linarith?)+
  have w: "?w \<noteq> 0" using s(4) s_def by auto
  have p: "\<not> poolSize < 16" "unat (poolSize - 16) = unat poolSize - 16"
    using assms(4) by (simp_all add: word_less_nat_alt unat_sub_if')
  have num: "unat ?num = n" using p(2) by (simp add: unat_div n_def s_def)
  show ?thesis
  proof (cases "n = 0")
    case True
    then have "?num = 0" using num by (simp add: unat_eq_zero)
    then show ?thesis using assms(1,5) p(1) w s True by (simp add: LOS_MemboxInit_def Let_def s_def n_def)
  next
    case False
    let ?M = "M\<lparr>uwBlkSize := ?w, uwBlkNum := ?num, uwBlkCnt := 0, stFreeList := pool + 16\<rparr>"
    have fit: "n * s \<le> unat poolSize - 16" by (simp add: n_def)
    have g: "box_geom pool ?M n" using assms(1-4) s fit num by (simp add: box_geom_def s_def)
    have nz: "?num \<noteq> 0" using num False by auto
    then have nn: "unat (?num - 1) = n - 1" using unat_minus_one [of ?num] num by simp
    let ?R = "membox_link (n - 1) (block pool (uwBlkSize ?M) 0) ?M"
    note l = membox_link_chain [OF g, of 0 "n - 1"]
    have c: "chain ((pstNext (snd ?R))(fst ?R := 0)) (block pool ?w 0) (map (block pool ?w) [0..<n])" using l(3) False by simp
    have eq: "LOS_MemboxInit pool poolSize blkSize M = (BOX_OK, set_next (fst ?R) 0 (snd ?R))"
      using assms(1,5) p(1) w nn nz by (simp add: LOS_MemboxInit_def Let_def block_def case_prod_beta)
    have "box_rep pool (set_next (fst ?R) 0 (snd ?R)) [0..<n] {}"
      unfolding box_rep_def using g c by (intro exI [of _ n]) (auto simp: membox_link_frame box_geom_def block_def atLeast0LessThan)
    moreover have "16 + Suc i * s \<le> unat poolSize" if "i < n" for i
    proof -
      have "Suc i * s \<le> n * s" using that by (intro mult_right_mono) auto
      then show ?thesis using fit assms(4) by linarith
    qed
    ultimately show ?thesis using s False unfolding eq by (simp add: membox_link_frame s_def n_def)
  qed
qed

section \<open>Properties\<close>

text \<open>
  Setting up a pool in memory that is there: the block size is the least multiple of four with room for
  the block and its header, there are as many blocks as fit, all of them free and inside the pool. A
  pool with room for none is refused.
\<close>

theorem membox_init_blocks:
  assumes "pool \<noteq> 0" "4 dvd unat pool" "unat pool + unat poolSize \<le> 2 ^ 32" "16 \<le> unat poolSize"
    and "blkSize \<noteq> 0" "unat blkSize + 7 < 2 ^ 32"
  shows "let (ret, N) = LOS_MemboxInit pool poolSize blkSize M; s = unat (uwBlkSize N); n = (unat poolSize - 16) div s
    in unat blkSize + 4 \<le> s \<and> s < unat blkSize + 8 \<and> 4 dvd s \<and>
      (if n = 0 then ret = BOX_NOK else ret = BOX_OK \<and> box_rep pool N [0..<n] {} \<and> (\<forall>i<n. 16 + Suc i * s \<le> unat poolSize))"
  using assms by (rule box_init)

text \<open>
  C20. A pool behaves as a set of blocks. Allocation takes the first free block, and fails exactly if there is none.
  Freeing a block in use makes it the first free block; freeing any other address, a block that is
  free already included, is refused and changes nothing.
\<close>

theorem membox_refines_set:
  assumes "box_rep pool M fs us"
  shows "(let (a, N) = LOS_MemboxAlloc pool M
      in case fs of [] \<Rightarrow> a = 0 \<and> N = M
       | i # rest \<Rightarrow> a = OS_MEMBOX_USER_ADDR (block pool (uwBlkSize M) i) \<and> a \<noteq> 0 \<and> box_rep pool N rest (insert i us)) \<and>
    (let (ret, N) = LOS_MemboxFree pool box M
      in if \<exists>i\<in>us. box = OS_MEMBOX_USER_ADDR (block pool (uwBlkSize M) i)
         then ret = BOX_OK \<and> (\<exists>i\<in>us. box = OS_MEMBOX_USER_ADDR (block pool (uwBlkSize M) i) \<and> box_rep pool N (i # fs) (us - {i}))
         else ret = BOX_NOK \<and> N = M)"
proof (rule conjI)
  show "let (a, N) = LOS_MemboxAlloc pool M in case fs of [] \<Rightarrow> a = 0 \<and> N = M
       | i # rest \<Rightarrow> a = OS_MEMBOX_USER_ADDR (block pool (uwBlkSize M) i) \<and> a \<noteq> 0 \<and> box_rep pool N rest (insert i us)"
  proof (cases fs)
    case Nil
    then show ?thesis using box_alloc_none assms by simp
  next
    case (Cons i rest)
    obtain n where n: "box_geom pool M n" "\<And>j. j \<in> set fs \<Longrightarrow> j < n" using assms by (rule box_repD) blast
    have "OS_MEMBOX_USER_ADDR (block pool (uwBlkSize M) i) \<noteq> 0" using block_facts(4) [OF n(1)] n(2) Cons by simp
    then show ?thesis using box_alloc_some(1,2) [of pool M i rest us] assms Cons by (simp add: case_prod_beta)
  qed
  show "let (ret, N) = LOS_MemboxFree pool box M
      in if \<exists>i\<in>us. box = OS_MEMBOX_USER_ADDR (block pool (uwBlkSize M) i)
         then ret = BOX_OK \<and> (\<exists>i\<in>us. box = OS_MEMBOX_USER_ADDR (block pool (uwBlkSize M) i) \<and> box_rep pool N (i # fs) (us - {i}))
         else ret = BOX_NOK \<and> N = M"
  proof (cases "\<exists>i\<in>us. box = OS_MEMBOX_USER_ADDR (block pool (uwBlkSize M) i)")
    case True
    then obtain i where i: "i \<in> us" "box = OS_MEMBOX_USER_ADDR (block pool (uwBlkSize M) i)" by blast
    from box_free_used(1,2) [OF assms i(1), folded i(2)] i True show ?thesis by (auto simp: case_prod_beta)
  next
    case False
    then show ?thesis using box_free_other [OF assms] by auto
  qed
qed


definition box_blank :: LOS_MEMBOX_INFO where
  "box_blank = \<lparr>uwBlkSize = 0, uwBlkNum = 0, uwBlkCnt = 0, stFreeList = 0, pstNext = (\<lambda>a. 0),
     userBytes = (\<lambda>a. 0), box_fault = False\<rparr>"

theorem membox_init_blocks_witness:
  "fst (LOS_MemboxInit 0x1000 64 10 box_blank) = BOX_OK \<and>
   box_rep 0x1000 (snd (LOS_MemboxInit 0x1000 64 10 box_blank)) [0, 1, 2] {}"
proof -
  let ?R = "LOS_MemboxInit 0x1000 64 10 box_blank"
  have s: "unat (uwBlkSize (snd ?R)) = 16"
    by (simp add: LOS_MemboxInit_def box_blank_def LOS_MEMBOX_ALIGNED_def Let_def case_prod_beta membox_link_frame)
  have "[0..<3] = [0, 1, 2 :: nat]" by (simp add: upt_rec numeral_2_eq_2)
  then show ?thesis using membox_init_blocks [where pool = "0x1000" and poolSize = 64 and blkSize = 10 and M = box_blank] s by (auto simp: Let_def case_prod_beta)
qed

text \<open>A pool of one block, in use: there is nothing to allocate, and the block can be freed.\<close>

definition box_full :: LOS_MEMBOX_INFO where
  "box_full = box_blank\<lparr>uwBlkSize := 16, uwBlkNum := 1, uwBlkCnt := 1, pstNext := (\<lambda>a. 0)(0x1010 := OS_MEMBOX_MAGIC)\<rparr>"

theorem membox_refines_set_witness:
  "LOS_MemboxAlloc 0x1000 box_full = (0, box_full) \<and> fst (LOS_MemboxFree 0x1000 0x1014 box_full) = BOX_OK \<and>
   fst (LOS_MemboxFree 0x1000 0x1018 box_full) = BOX_NOK"
proof -
  have rep: "box_rep 0x1000 box_full [] {0}"
    by (auto simp: box_rep_def box_geom_def box_full_def box_blank_def block_def intro!: exI [of _ "1::nat"])
  have a: "OS_MEMBOX_USER_ADDR (block 0x1000 (uwBlkSize box_full) 0) = 0x1014"
    by (simp add: OS_MEMBOX_USER_ADDR_def block_def)
  show ?thesis
    using membox_refines_set [OF rep, where box = "0x1014"] membox_refines_set [OF rep, where box = "0x1018"]
    by (auto simp: Let_def case_prod_beta a prod_eq_iff)
qed

end
