(* ===== verification/Swtmr.thy ===== *)
theory Swtmr
  imports Sched_Ops Membox
begin

text \<open>
  Software timers, \<^verbatim>\<open>kernel/base/core/los_swtmr.c\<close> and \<^verbatim>\<open>kernel/base/include/los_swtmr_pri.h\<close>: the control blocks, the list of free ones,
  the time queue of running timers, and the queue of expired handlers, whose items come from a pool of memory blocks.
  A timer is the index of its control block, which is also its node in the time queue. The
  statistics of \<open>LOSCFG_SWTMR_DEBUG\<close> and the hooks are not compiled.
\<close>

section \<open>State\<close>

abbreviation (input) LOS_ERRNO_SWTMR_PTR_NULL :: u32 where "LOS_ERRNO_SWTMR_PTR_NULL \<equiv> 0x02000300"
abbreviation (input) LOS_ERRNO_SWTMR_INTERVAL_NOT_SUITED :: u32 where "LOS_ERRNO_SWTMR_INTERVAL_NOT_SUITED \<equiv> 0x02000301"
abbreviation (input) LOS_ERRNO_SWTMR_MODE_INVALID :: u32 where "LOS_ERRNO_SWTMR_MODE_INVALID \<equiv> 0x02000302"
abbreviation (input) LOS_ERRNO_SWTMR_RET_PTR_NULL :: u32 where "LOS_ERRNO_SWTMR_RET_PTR_NULL \<equiv> 0x02000303"
abbreviation (input) LOS_ERRNO_SWTMR_MAXSIZE :: u32 where "LOS_ERRNO_SWTMR_MAXSIZE \<equiv> 0x02000304"
abbreviation (input) LOS_ERRNO_SWTMR_ID_INVALID :: u32 where "LOS_ERRNO_SWTMR_ID_INVALID \<equiv> 0x02000305"
abbreviation (input) LOS_ERRNO_SWTMR_NOT_CREATED :: u32 where "LOS_ERRNO_SWTMR_NOT_CREATED \<equiv> 0x02000306"
abbreviation (input) LOS_ERRNO_SWTMR_NO_MEMORY :: u32 where "LOS_ERRNO_SWTMR_NO_MEMORY \<equiv> 0x02000307"
abbreviation (input) LOS_ERRNO_SWTMR_HANDLER_POOL_NO_MEM :: u32 where "LOS_ERRNO_SWTMR_HANDLER_POOL_NO_MEM \<equiv> 0x0200030A"
abbreviation (input) LOS_ERRNO_SWTMR_NOT_STARTED :: u32 where "LOS_ERRNO_SWTMR_NOT_STARTED \<equiv> 0x0200030D"
abbreviation (input) LOS_ERRNO_SWTMR_STATUS_INVALID :: u32 where "LOS_ERRNO_SWTMR_STATUS_INVALID \<equiv> 0x0200030E"
abbreviation (input) LOS_ERRNO_SWTMR_TICK_PTR_NULL :: u32 where "LOS_ERRNO_SWTMR_TICK_PTR_NULL \<equiv> 0x02000310"

abbreviation (input) LOSCFG_BASE_CORE_SWTMR_LIMIT :: nat where "LOSCFG_BASE_CORE_SWTMR_LIMIT \<equiv> 1024"
abbreviation (input) SWTMR_LIMIT :: u16 where "SWTMR_LIMIT \<equiv> 1024"
abbreviation (input) OS_SWTMR_MAX_TIMERID :: u16 where "OS_SWTMR_MAX_TIMERID \<equiv> 64512"
abbreviation (input) SWTMR_HANDLER_ITEM_SIZE :: u32 where "SWTMR_HANDLER_ITEM_SIZE \<equiv> 16"

abbreviation (input) OS_SWTMR_STATUS_UNUSED :: u8 where "OS_SWTMR_STATUS_UNUSED \<equiv> 0"
abbreviation (input) OS_SWTMR_STATUS_CREATED :: u8 where "OS_SWTMR_STATUS_CREATED \<equiv> 1"
abbreviation (input) OS_SWTMR_STATUS_TICKING :: u8 where "OS_SWTMR_STATUS_TICKING \<equiv> 2"
abbreviation (input) LOS_SWTMR_MODE_ONCE :: u8 where "LOS_SWTMR_MODE_ONCE \<equiv> 0"
abbreviation (input) LOS_SWTMR_MODE_PERIOD :: u8 where "LOS_SWTMR_MODE_PERIOD \<equiv> 1"
abbreviation (input) LOS_SWTMR_MODE_NO_SELFDELETE :: u8 where "LOS_SWTMR_MODE_NO_SELFDELETE \<equiv> 2"
abbreviation (input) LOS_SWTMR_MODE_OPP :: u8 where "LOS_SWTMR_MODE_OPP \<equiv> 3"

text \<open>A handler is a code address, \<open>uwOwnerPid\<close> the process of the owner, \<open>None\<close> for \<open>OS_INVALID_VALUE\<close> and the initial zero.\<close>

record SWTMR_CTRL_S =
  ucState :: u8
  ucMode :: u8
  usTimerID :: u16
  uwOverrun :: u32
  uwInterval :: u32
  uwExpiry :: u32
  uwArg :: u32
  pfnHandler :: u32
  uwOwnerPid :: "nat option"
  swt_startTime :: u64

text \<open>
  \<open>ker\<close> is the state of the scheduler. \<open>handlerItem\<close> has the handler and the argument in the item at an address, \<open>handlerPool\<close>
  the pool at the address \<open>g_swtmrHandlerPool\<close>.
\<close>

record swtmr_sys =
  ker :: kstate
  g_swtmrCBArray :: "nat \<Rightarrow> SWTMR_CTRL_S"
  g_swtmrFreeList :: "nat list"
  swtmrSortLink :: sort_link
  swtmrTask :: "nat option"
  swtmrHandlerQueue :: "u32 list"
  handlerItem :: "u32 \<Rightarrow> u32 \<times> u32"
  g_swtmrHandlerPool :: u32
  handlerPool :: LOS_MEMBOX_INFO

definition upd_swtmr :: "nat \<Rightarrow> (SWTMR_CTRL_S \<Rightarrow> SWTMR_CTRL_S) \<Rightarrow> swtmr_sys \<Rightarrow> swtmr_sys" where
  "upd_swtmr i f s = s\<lparr>g_swtmrCBArray := (g_swtmrCBArray s)(i := f (g_swtmrCBArray s i))\<rparr>"

section \<open>Starting, stopping and deleting\<close>

definition AddSwtmr2TimeList :: "nat \<Rightarrow> u64 \<Rightarrow> swtmr_sys \<Rightarrow> swtmr_sys" where
  "AddSwtmr2TimeList node resp s = s\<lparr>swtmrSortLink := OsAdd2SortLink node resp (swtmrSortLink s)\<rparr>"

definition DeSwtmrFromTimeList :: "nat \<Rightarrow> swtmr_sys \<Rightarrow> swtmr_sys" where
  "DeSwtmrFromTimeList node s = s\<lparr>swtmrSortLink := OsDeleteFromSortLink node (swtmrSortLink s)\<rparr>"

definition SwtmrAdjustCheck :: "u64 \<Rightarrow> swtmr_sys \<Rightarrow> swtmr_sys" where
  "SwtmrAdjustCheck resp s = (case swtmrTask s of
     None \<Rightarrow> s
   | Some t \<Rightarrow>
       if \<not> OsTaskIsBlocked (tcb (ker s) t) then s
       else if resp \<ge> responseTime (timeoutQueue (ker s)) t then s
       else let (ret, k) = OsSchedTimeoutQueueAdjust t resp (ker s)
            in if ret \<noteq> 0 then s\<lparr>ker := k\<rparr> else s\<lparr>ker := OsSchedExpireTimeUpdate k\<rparr>)"

definition swtmr_ticks :: "SWTMR_CTRL_S \<Rightarrow> u32" where
  "swtmr_ticks c = (if uwOverrun c = 0 \<and> (ucMode c = LOS_SWTMR_MODE_ONCE \<or> ucMode c = LOS_SWTMR_MODE_OPP \<or>
       ucMode c = LOS_SWTMR_MODE_NO_SELFDELETE) then uwExpiry c else uwInterval c)"

definition SwtmrToStart :: "nat \<Rightarrow> swtmr_sys \<Rightarrow> u64 \<times> swtmr_sys" where
  "SwtmrToStart i s =
     (let c = g_swtmrCBArray s i;
          period = ucast (swtmr_ticks c) * ucast (OS_CYCLE_PER_TICK (ker s)) :: u64;
          resp = swt_startTime c + period;
          currTime = OsGetCurrSchedTimeCycle (ker s);
          start = (if resp < currTime
            then swt_startTime c + ucast (ucast ((currTime - swt_startTime c) div period) :: u32) * period
            else swt_startTime c);
          resp' = (if resp < currTime then start + period else resp)
      in (resp', AddSwtmr2TimeList i resp'
            (upd_swtmr i (\<lambda>c. c\<lparr>ucState := OS_SWTMR_STATUS_TICKING, swt_startTime := start\<rparr>) s)))"

definition SwtmrStart :: "nat \<Rightarrow> swtmr_sys \<Rightarrow> swtmr_sys" where
  "SwtmrStart i s =
     (let s1 = upd_swtmr i (\<lambda>c. c\<lparr>swt_startTime := OsGetCurrSchedTimeCycle (ker s)\<rparr>) s;
          (resp, s2) = SwtmrToStart i s1
      in SwtmrAdjustCheck resp s2)"

definition SwtmrDelete :: "nat \<Rightarrow> swtmr_sys \<Rightarrow> swtmr_sys" where
  "SwtmrDelete i s = upd_swtmr i (\<lambda>c. c\<lparr>ucState := OS_SWTMR_STATUS_UNUSED, uwOwnerPid := None\<rparr>)
     (s\<lparr>g_swtmrFreeList := g_swtmrFreeList s @ [i]\<rparr>)"

definition SwtmrStop :: "nat \<Rightarrow> swtmr_sys \<Rightarrow> swtmr_sys" where
  "SwtmrStop i s = DeSwtmrFromTimeList i (upd_swtmr i (\<lambda>c. c\<lparr>ucState := OS_SWTMR_STATUS_CREATED, uwOverrun := 0\<rparr>) s)"

section \<open>Expiry\<close>

text \<open>\<open>queue_handler\<close> is the first part of \<open>SwtmrWake\<close>: an item for the handler is put into the queue.\<close>

definition queue_handler :: "nat \<Rightarrow> swtmr_sys \<Rightarrow> swtmr_sys" where
  "queue_handler i s =
     (let (item, P) = LOS_MemboxAlloc (g_swtmrHandlerPool s) (handlerPool s);
          c = g_swtmrCBArray s i
      in s\<lparr>handlerPool := P, ker := LOS_ASSERT (item \<noteq> 0) (ker s),
           handlerItem := (handlerItem s)(item := (pfnHandler c, uwArg c)),
           swtmrHandlerQueue := swtmrHandlerQueue s @ [item]\<rparr>)"

definition SwtmrWake :: "u64 \<Rightarrow> nat \<Rightarrow> swtmr_sys \<Rightarrow> swtmr_sys" where
  "SwtmrWake start i s =
     (let s1 = queue_handler i s; c = g_swtmrCBArray s i
      in if ucMode c = LOS_SWTMR_MODE_ONCE
         then upd_swtmr i (\<lambda>c. c\<lparr>usTimerID :=
                  if usTimerID c < OS_SWTMR_MAX_TIMERID - SWTMR_LIMIT then usTimerID c + SWTMR_LIMIT
                  else usTimerID c mod SWTMR_LIMIT\<rparr>)
                (SwtmrDelete i s1)
         else if ucMode c = LOS_SWTMR_MODE_NO_SELFDELETE
         then upd_swtmr i (\<lambda>c. c\<lparr>ucState := OS_SWTMR_STATUS_CREATED\<rparr>) s1
         else snd (SwtmrToStart i (upd_swtmr i (\<lambda>c. c\<lparr>uwOverrun := uwOverrun c + 1, swt_startTime := start\<rparr>) s1)))"

text \<open>One turn of the loop of \<open>ScanSwtmrTimeList\<close> takes the first node out of the queue and wakes its timer.\<close>

definition scan_step :: "nat \<Rightarrow> swtmr_sys \<Rightarrow> swtmr_sys" where
  "scan_step i s = SwtmrWake (responseTime (swtmrSortLink s) i) i
     (s\<lparr>swtmrSortLink := OsDeleteNodeSortLink i (swtmrSortLink s)\<rparr>)"

partial_function (option) scan_loop :: "u64 \<Rightarrow> swtmr_sys \<Rightarrow> swtmr_sys option" where
  "scan_loop currTime s = (case sortLink (swtmrSortLink s) of
     [] \<Rightarrow> Some s
   | i # _ \<Rightarrow> if responseTime (swtmrSortLink s) i \<le> currTime then scan_loop currTime (scan_step i s) else Some s)"

definition ScanSwtmrTimeList :: "swtmr_sys \<Rightarrow> swtmr_sys option" where
  "ScanSwtmrTimeList s = scan_loop (OsGetCurrSchedTimeCycle (ker s)) s"

text \<open>
  The task of the timers sleeps until the next expiry, scans the time queue, and runs the handlers. \<open>SwtmrTask_sleep\<close> is the
  first part of its loop; \<open>SwtmrTask_handle\<close> takes the first item off the handler queue and returns the call.
\<close>

definition SwtmrTask_sleep :: "swtmr_sys \<Rightarrow> swtmr_sys" where
  "SwtmrTask_sleep s =
     (let waitTime = OsSortLinkGetNextExpireTime (OsGetCurrSchedTimeCycle (ker s)) (swtmrSortLink s)
      in if waitTime = 0 then s
         else (case swtmrTask s of
             None \<Rightarrow> s\<lparr>ker := (ker s)\<lparr>fault := True\<rparr>\<rparr>
           | Some t \<Rightarrow> s\<lparr>ker := snd (ops_delay t waitTime (ker s))\<rparr>))"

definition SwtmrTask_handle :: "swtmr_sys \<Rightarrow> ((u32 \<times> u32) \<times> swtmr_sys) option" where
  "SwtmrTask_handle s = (case swtmrHandlerQueue s of
     [] \<Rightarrow> None
   | item # rest \<Rightarrow> Some (handlerItem s item,
       s\<lparr>swtmrHandlerQueue := rest, handlerPool := snd (LOS_MemboxFree (g_swtmrHandlerPool s) item (handlerPool s))\<rparr>))"

section \<open>Initialisation and start of the scheduler\<close>

text \<open>\<open>cbs\<close> and \<open>pool\<close> are the results of the two calls of \<open>LOS_MemAlloc\<close>: whether the first succeeds, and the address of the pool.\<close>

definition swtmr_cb0 :: SWTMR_CTRL_S where
  "swtmr_cb0 = \<lparr>ucState = 0, ucMode = 0, usTimerID = 0, uwOverrun = 0, uwInterval = 0, uwExpiry = 0, uwArg = 0,
     pfnHandler = 0, uwOwnerPid = None, swt_startTime = 0\<rparr>"

definition SwtmrBaseInit :: "bool \<Rightarrow> u32 \<Rightarrow> swtmr_sys \<Rightarrow> u32 \<times> swtmr_sys" where
  "SwtmrBaseInit cbs pool s =
     (if \<not> cbs then (LOS_ERRNO_SWTMR_NO_MEMORY, s)
      else let s1 = s\<lparr>g_swtmrCBArray := (\<lambda>i. swtmr_cb0\<lparr>usTimerID := of_nat i\<rparr>),
                      g_swtmrFreeList := [0..<LOSCFG_BASE_CORE_SWTMR_LIMIT], g_swtmrHandlerPool := pool,
                      swtmrSortLink := (swtmrSortLink s)\<lparr>responseTime := (\<lambda>i. 0)\<rparr>\<rparr>;
               sz = MEMBOX_INFO_SIZE + LOS_MEMBOX_ALIGNED (SWTMR_HANDLER_ITEM_SIZE + OS_MEMBOX_NODE_HEAD_SIZE) * 1024
           in if pool = 0 then (LOS_ERRNO_SWTMR_NO_MEMORY, s1)
              else let (ret, P) = LOS_MemboxInit pool sz SWTMR_HANDLER_ITEM_SIZE (handlerPool s1);
                       s2 = s1\<lparr>handlerPool := P\<rparr>
                   in if ret \<noteq> 0 then (LOS_ERRNO_SWTMR_HANDLER_POOL_NO_MEM, s2)
                      else (0, s2\<lparr>swtmrSortLink := OsSortLinkInit (swtmrSortLink s2), swtmrHandlerQueue := [], swtmrTask := None\<rparr>))"

definition SwtmrRestart :: "u64 \<Rightarrow> nat \<Rightarrow> swtmr_sys \<Rightarrow> swtmr_sys" where
  "SwtmrRestart start i s = snd (SwtmrToStart i (upd_swtmr i (\<lambda>c. c\<lparr>swt_startTime := start\<rparr>) s))"

text \<open>\<open>pstNext_in xs n\<close> is the node behind \<open>n\<close>, \<open>None\<close> for the list head.\<close>

fun pstNext_in :: "nat list \<Rightarrow> nat \<Rightarrow> nat option" where
  "pstNext_in (x # y # ys) n = (if x = n then Some y else pstNext_in (y # ys) n)"
| "pstNext_in _ n = None"

partial_function (option) reset_loop :: "u64 \<Rightarrow> nat option \<Rightarrow> swtmr_sys \<Rightarrow> swtmr_sys option" where
  "reset_loop start listNext s = (case listNext of
     None \<Rightarrow> Some s
   | Some i \<Rightarrow>
       let s1 = SwtmrRestart start i (s\<lparr>swtmrSortLink := OsDeleteNodeSortLink i (swtmrSortLink s)\<rparr>)
       in reset_loop start (pstNext_in (sortLink (swtmrSortLink s1)) i) s1)"

definition OsSwtmrResponseTimeReset :: "u64 \<Rightarrow> swtmr_sys \<Rightarrow> swtmr_sys option" where
  "OsSwtmrResponseTimeReset start s = reset_loop start (sl_first (swtmrSortLink s)) s"

section \<open>The interface\<close>

text \<open>\<open>swtmrID\<close> says whether there is a place for the new identifier.\<close>

definition LOS_SwtmrCreate :: "u32 \<Rightarrow> u8 \<Rightarrow> u32 \<Rightarrow> bool \<Rightarrow> u32 \<Rightarrow> swtmr_sys \<Rightarrow> u32 \<times> u16 option \<times> swtmr_sys" where
  "LOS_SwtmrCreate interval mode handler swtmrID arg s =
     (if interval = 0 then (LOS_ERRNO_SWTMR_INTERVAL_NOT_SUITED, None, s)
      else if mode \<noteq> LOS_SWTMR_MODE_ONCE \<and> mode \<noteq> LOS_SWTMR_MODE_PERIOD \<and> mode \<noteq> LOS_SWTMR_MODE_NO_SELFDELETE
      then (LOS_ERRNO_SWTMR_MODE_INVALID, None, s)
      else if handler = 0 then (LOS_ERRNO_SWTMR_PTR_NULL, None, s)
      else if \<not> swtmrID then (LOS_ERRNO_SWTMR_RET_PTR_NULL, None, s)
      else (case g_swtmrFreeList s of
          [] \<Rightarrow> (LOS_ERRNO_SWTMR_MAXSIZE, None, s)
        | i # rest \<Rightarrow>
            let s1 = s\<lparr>g_swtmrFreeList := rest\<rparr>;
                owner = processCB (tcb (ker s) (currTask (ker s)));
                s2 = upd_swtmr i (\<lambda>c. c\<lparr>uwOwnerPid := Some owner, pfnHandler := handler, ucMode := mode,
                       uwOverrun := 0, uwInterval := interval, uwExpiry := interval, uwArg := arg,
                       ucState := OS_SWTMR_STATUS_CREATED\<rparr>) s1;
                s3 = s2\<lparr>swtmrSortLink := SET_SORTLIST_VALUE i OS_SORT_LINK_INVALID_TIME (swtmrSortLink s2)\<rparr>
            in (0, Some (usTimerID (g_swtmrCBArray s3 i)), s3)))"

definition swtmr_cbid :: "u16 \<Rightarrow> nat" where
  "swtmr_cbid swtmrID = unat (swtmrID mod SWTMR_LIMIT)"

definition LOS_SwtmrStart :: "u16 \<Rightarrow> swtmr_sys \<Rightarrow> u32 \<times> swtmr_sys" where
  "LOS_SwtmrStart swtmrID s =
     (if swtmrID \<ge> OS_SWTMR_MAX_TIMERID then (LOS_ERRNO_SWTMR_ID_INVALID, s)
      else let i = swtmr_cbid swtmrID; c = g_swtmrCBArray s i
           in if usTimerID c \<noteq> swtmrID then (LOS_ERRNO_SWTMR_ID_INVALID, s)
              else if ucState c = OS_SWTMR_STATUS_UNUSED then (LOS_ERRNO_SWTMR_NOT_CREATED, s)
              else if ucState c = OS_SWTMR_STATUS_TICKING then (0, SwtmrStart i (SwtmrStop i s))
              else if ucState c = OS_SWTMR_STATUS_CREATED then (0, SwtmrStart i s)
              else (LOS_ERRNO_SWTMR_STATUS_INVALID, s))"

definition LOS_SwtmrStop :: "u16 \<Rightarrow> swtmr_sys \<Rightarrow> u32 \<times> swtmr_sys" where
  "LOS_SwtmrStop swtmrID s =
     (if swtmrID \<ge> OS_SWTMR_MAX_TIMERID then (LOS_ERRNO_SWTMR_ID_INVALID, s)
      else let i = swtmr_cbid swtmrID; c = g_swtmrCBArray s i
           in if usTimerID c \<noteq> swtmrID then (LOS_ERRNO_SWTMR_ID_INVALID, s)
              else if ucState c = OS_SWTMR_STATUS_UNUSED then (LOS_ERRNO_SWTMR_NOT_CREATED, s)
              else if ucState c = OS_SWTMR_STATUS_CREATED then (LOS_ERRNO_SWTMR_NOT_STARTED, s)
              else if ucState c = OS_SWTMR_STATUS_TICKING then (0, SwtmrStop i s)
              else (LOS_ERRNO_SWTMR_STATUS_INVALID, s))"

definition OsSwtmrTimeGet :: "nat \<Rightarrow> swtmr_sys \<Rightarrow> u32" where
  "OsSwtmrTimeGet i s =
     (let time = OsSortLinkGetTargetExpireTime (OsGetCurrSchedTimeCycle (ker s)) (responseTime (swtmrSortLink s) i)
                   div ucast (OS_CYCLE_PER_TICK (ker s))
      in ucast (if time > ucast OS_INVALID_VALUE then ucast OS_INVALID_VALUE else time))"

definition OsSwtmrGetNextTimeout :: "swtmr_sys \<Rightarrow> u32" where
  "OsSwtmrGetNextTimeout s =
     (let time = OsSortLinkGetNextExpireTime (OsGetCurrSchedTimeCycle (ker s)) (swtmrSortLink s)
                   div ucast (OS_CYCLE_PER_TICK (ker s))
      in ucast (if time > ucast OS_INVALID_VALUE then ucast OS_INVALID_VALUE else time))"

definition LOS_SwtmrTimeGet :: "u16 \<Rightarrow> bool \<Rightarrow> swtmr_sys \<Rightarrow> u32 \<times> u32 option" where
  "LOS_SwtmrTimeGet swtmrID tick s =
     (if swtmrID \<ge> OS_SWTMR_MAX_TIMERID then (LOS_ERRNO_SWTMR_ID_INVALID, None)
      else if \<not> tick then (LOS_ERRNO_SWTMR_TICK_PTR_NULL, None)
      else let i = swtmr_cbid swtmrID; c = g_swtmrCBArray s i
           in if usTimerID c \<noteq> swtmrID then (LOS_ERRNO_SWTMR_ID_INVALID, None)
              else if ucState c = OS_SWTMR_STATUS_UNUSED then (LOS_ERRNO_SWTMR_NOT_CREATED, None)
              else if ucState c = OS_SWTMR_STATUS_CREATED then (LOS_ERRNO_SWTMR_NOT_STARTED, None)
              else if ucState c = OS_SWTMR_STATUS_TICKING then (0, Some (OsSwtmrTimeGet i s))
              else (LOS_ERRNO_SWTMR_STATUS_INVALID, None))"

definition LOS_SwtmrDelete :: "u16 \<Rightarrow> swtmr_sys \<Rightarrow> u32 \<times> swtmr_sys" where
  "LOS_SwtmrDelete swtmrID s =
     (if swtmrID \<ge> OS_SWTMR_MAX_TIMERID then (LOS_ERRNO_SWTMR_ID_INVALID, s)
      else let i = swtmr_cbid swtmrID; c = g_swtmrCBArray s i
           in if usTimerID c \<noteq> swtmrID then (LOS_ERRNO_SWTMR_ID_INVALID, s)
              else if ucState c = OS_SWTMR_STATUS_UNUSED then (LOS_ERRNO_SWTMR_NOT_CREATED, s)
              else if ucState c = OS_SWTMR_STATUS_TICKING then (0, SwtmrDelete i (SwtmrStop i s))
              else if ucState c = OS_SWTMR_STATUS_CREATED then (0, SwtmrDelete i s)
              else (LOS_ERRNO_SWTMR_STATUS_INVALID, s))"

definition recycle_one :: "nat \<Rightarrow> nat \<Rightarrow> swtmr_sys \<Rightarrow> swtmr_sys" where
  "recycle_one ownerID index s =
     (if uwOwnerPid (g_swtmrCBArray s index) = Some ownerID then snd (LOS_SwtmrDelete (of_nat index) s) else s)"

definition OsSwtmrRecycle :: "nat \<Rightarrow> swtmr_sys \<Rightarrow> swtmr_sys" where
  "OsSwtmrRecycle ownerID s = fold (recycle_one ownerID) [0..<LOSCFG_BASE_CORE_SWTMR_LIMIT] s"

text \<open>\<open>checkFunc\<close> with its argument is a predicate on the node.\<close>

definition SwtmrRunqueueFind :: "(nat \<Rightarrow> bool) \<Rightarrow> sort_link \<Rightarrow> bool" where
  "SwtmrRunqueueFind checkFunc q = list_ex checkFunc (sortLink q)"

definition OsSwtmrWorkQueueFind :: "(nat \<Rightarrow> bool) \<Rightarrow> swtmr_sys \<Rightarrow> bool" where
  "OsSwtmrWorkQueueFind checkFunc s = SwtmrRunqueueFind checkFunc (swtmrSortLink s)"


section \<open>Time queues with unused nodes\<close>

text \<open>
  The nodes of timers that were never created have the time zero, so a node with a valid time need not be linked here: the
  well-formedness of the time queue without that direction.
\<close>

definition sl_ok :: "sort_link \<Rightarrow> bool" where
  "sl_ok q \<longleftrightarrow> distinct (sortLink q) \<and> sorted (map (responseTime q) (sortLink q)) \<and> nodeNum q = of_nat (length (sortLink q)) \<and>
     (\<forall>n\<in>set (sortLink q). responseTime q n \<noteq> OS_SORT_LINK_INVALID_TIME) \<and> \<not> sl_fault q"

lemma sl_ok_add:
  assumes "sl_ok q" "n \<notin> set (sortLink q)" "t \<noteq> OS_SORT_LINK_INVALID_TIME"
  shows "sl_ok (OsAdd2SortLink n t q)" "set (sortLink (OsAdd2SortLink n t q)) = insert n (set (sortLink q))"
proof -
  let ?f = "(responseTime q)(n := t)" and ?q = "SET_SORTLIST_VALUE n t q"
  let ?xs = "sl_position ((responseTime q)(n := t)) n t (sortLink q)"
  have s: "sorted (map ?f (sortLink q))" "distinct (sortLink q)" using assms by (simp_all add: sl_ok_def)
  have eq: "OsAdd2SortLink n t q = ?q\<lparr>sortLink := ?xs, nodeNum := nodeNum q + 1\<rparr>"
    using AddNode_sortLink [of ?q n] s by (simp add: OsAdd2SortLink_def SET_SORTLIST_VALUE_def)
  have m: "mset ?xs = mset (n # sortLink q)" by (simp add: mset_sl_position)
  have "distinct ?xs" using s(2) assms(2) mset_eq_imp_distinct_iff [OF m] by simp
  moreover have "length ?xs = Suc (length (sortLink q))" using mset_eq_length [OF m] by simp
  moreover have "sorted (map ?f ?xs)" using s(1) by (rule sorted_sl_position) simp
  ultimately show "sl_ok (OsAdd2SortLink n t q)" using assms
    by (auto simp: sl_ok_def eq SET_SORTLIST_VALUE_def set_sl_position)
  show "set (sortLink (OsAdd2SortLink n t q)) = insert n (set (sortLink q))" by (simp add: eq set_sl_position)
qed

lemma sl_ok_del:
  assumes "sl_ok q" "n \<in> set (sortLink q)"
  shows "sl_ok (OsDeleteNodeSortLink n q)" "sortLink (OsDeleteNodeSortLink n q) = remove1 n (sortLink q)"
    "OsDeleteFromSortLink n q = OsDeleteNodeSortLink n q"
proof -
  have d: "distinct (sortLink q)" using assms(1) by (simp add: sl_ok_def)
  have "set (remove1 n (sortLink q)) = set (sortLink q) - {n}" using d by simp
  moreover have "of_nat (length (remove1 n (sortLink q))) = (of_nat (length (sortLink q)) - 1 :: u32)"
    using assms(2) by (cases "length (sortLink q)") (simp_all add: length_remove1)
  ultimately show "sl_ok (OsDeleteNodeSortLink n q)" using assms
    by (auto simp: sl_ok_def OsDeleteNodeSortLink_def SET_SORTLIST_VALUE_def sorted_map_remove1)
  show "sortLink (OsDeleteNodeSortLink n q) = remove1 n (sortLink q)"
    by (simp add: OsDeleteNodeSortLink_def SET_SORTLIST_VALUE_def)
  show "OsDeleteFromSortLink n q = OsDeleteNodeSortLink n q" using assms by (simp add: sl_ok_def OsDeleteFromSortLink_def)
qed

lemma sl_ok_first:
  assumes "sl_ok q" "sortLink q = i # is" "m \<in> set (sortLink q)"
  shows "responseTime q i \<le> responseTime q m"
  using assms by (auto simp: sl_ok_def)

section \<open>The invariant\<close>

text \<open>A timer is on the free list exactly if it is unused, and in the time queue exactly if it is ticking.\<close>

definition lists_match :: "nat list \<Rightarrow> nat list \<Rightarrow> (nat \<Rightarrow> u8) \<Rightarrow> bool" where
  "lists_match free link st \<longleftrightarrow> distinct free \<and> set free = {i. i < 1024 \<and> st i = OS_SWTMR_STATUS_UNUSED} \<and>
     set link = {i. i < 1024 \<and> st i = OS_SWTMR_STATUS_TICKING}"

lemma match_unlink: "lists_match f l st \<Longrightarrow> distinct l \<Longrightarrow> i \<in> set l \<Longrightarrow> lists_match f (remove1 i l) (st(i := OS_SWTMR_STATUS_CREATED))"
  by (simp add: lists_match_def set_eq_iff)

lemma match_link:
  "lists_match f l st \<Longrightarrow> i < 1024 \<Longrightarrow> st i = OS_SWTMR_STATUS_CREATED \<Longrightarrow> set m = insert i (set l) \<Longrightarrow>
   lists_match f m (st(i := OS_SWTMR_STATUS_TICKING))"
  by (simp add: lists_match_def set_eq_iff)

lemma match_free:
  "lists_match f l st \<Longrightarrow> i < 1024 \<Longrightarrow> st i = OS_SWTMR_STATUS_CREATED \<Longrightarrow>
   lists_match (f @ [i]) l (st(i := OS_SWTMR_STATUS_UNUSED))"
  by (simp add: lists_match_def set_eq_iff)

lemma match_alloc:
  assumes "lists_match (i # f) l st"
  shows "lists_match f l (st(i := OS_SWTMR_STATUS_CREATED))" "i < 1024" "st i = OS_SWTMR_STATUS_UNUSED"
proof -
  have m: "distinct f" "i \<notin> set f" "insert i (set f) = {i. i < 1024 \<and> st i = 0}" "set l = {i. i < 1024 \<and> st i = 2}"
    using assms unfolding lists_match_def by auto
  have "i \<in> {i. i < 1024 \<and> st i = 0}" using m(3) by blast
  then show i: "i < 1024" "st i = 0" by simp_all
  have "set f = {j. j < 1024 \<and> (st(i := 1)) j = 0}" using m(2,3) by (auto split: if_splits)
  moreover have "set l = {j. j < 1024 \<and> (st(i := 1)) j = 2}" unfolding m(4) using i(2) by auto
  ultimately show "lists_match f l (st(i := 1))" using m(1) unfolding lists_match_def by blast
qed

definition cb_ok :: "nat \<Rightarrow> SWTMR_CTRL_S \<Rightarrow> bool" where
  "cb_ok i c \<longleftrightarrow> ucState c \<in> {OS_SWTMR_STATUS_UNUSED, OS_SWTMR_STATUS_CREATED, OS_SWTMR_STATUS_TICKING} \<and>
     usTimerID c < OS_SWTMR_MAX_TIMERID \<and> swtmr_cbid (usTimerID c) = i \<and>
     (if ucState c = OS_SWTMR_STATUS_UNUSED then uwOwnerPid c = None
      else uwInterval c \<noteq> 0 \<and> uwExpiry c = uwInterval c \<and> pfnHandler c \<noteq> 0 \<and>
        ucMode c \<in> {LOS_SWTMR_MODE_ONCE, LOS_SWTMR_MODE_PERIOD, LOS_SWTMR_MODE_NO_SELFDELETE})"

text \<open>The items of the handler queue are the blocks of the pool that are in use.\<close>

definition handlers_ok :: "swtmr_sys \<Rightarrow> bool" where
  "handlers_ok s \<longleftrightarrow> (\<exists>fs us. box_rep (g_swtmrHandlerPool s) (handlerPool s) fs (set us) \<and> distinct us \<and>
     swtmrHandlerQueue s = map (\<lambda>i. OS_MEMBOX_USER_ADDR (block (g_swtmrHandlerPool s) (uwBlkSize (handlerPool s)) i)) us)"

definition swt_inv :: "swtmr_sys \<Rightarrow> bool" where
  "swt_inv s \<longleftrightarrow> sl_ok (swtmrSortLink s) \<and>
     lists_match (g_swtmrFreeList s) (sortLink (swtmrSortLink s)) (\<lambda>i. ucState (g_swtmrCBArray s i)) \<and>
     (\<forall>i<1024. cb_ok i (g_swtmrCBArray s i)) \<and> (asserted (ker s) \<or> handlers_ok s)"

text \<open>The clock is far from its end: a timer that is started now expires before it.\<close>

definition time_ok :: "kstate \<Rightarrow> bool" where
  "time_ok k \<longleftrightarrow> 0 < OS_CYCLE_PER_TICK k \<and> unat (now k) + 2 ^ 32 * unat (OS_CYCLE_PER_TICK k) < 2 ^ 64 - 1"

section \<open>What the operations keep\<close>

lemma upd_swtmr_simps [simp]:
  "ker (upd_swtmr i f s) = ker s" "g_swtmrFreeList (upd_swtmr i f s) = g_swtmrFreeList s"
  "swtmrSortLink (upd_swtmr i f s) = swtmrSortLink s" "swtmrTask (upd_swtmr i f s) = swtmrTask s"
  "swtmrHandlerQueue (upd_swtmr i f s) = swtmrHandlerQueue s" "handlerItem (upd_swtmr i f s) = handlerItem s"
  "g_swtmrHandlerPool (upd_swtmr i f s) = g_swtmrHandlerPool s" "handlerPool (upd_swtmr i f s) = handlerPool s"
  "g_swtmrCBArray (upd_swtmr i f s) = (g_swtmrCBArray s)(i := f (g_swtmrCBArray s i))"
  by (simp_all add: upd_swtmr_def)

lemma swtmr_cbid_nat: "swtmr_cbid w = unat w mod 1024"
  by (simp add: swtmr_cbid_def unat_mod)

lemma cbid_next:
  assumes "w < OS_SWTMR_MAX_TIMERID"
  defines "v \<equiv> (if w < OS_SWTMR_MAX_TIMERID - SWTMR_LIMIT then w + SWTMR_LIMIT else w mod SWTMR_LIMIT)"
  shows "v < OS_SWTMR_MAX_TIMERID" "swtmr_cbid v = swtmr_cbid w" "v \<noteq> w"
proof -
  have w: "unat w < 64512" using assms(1) by (simp add: word_less_nat_alt)
  have u: "unat v = (if unat w < 63488 then unat w + 1024 else unat w mod 1024)"
    using w by (auto simp: v_def word_less_nat_alt unat_word_ariths unat_mod)
  show "swtmr_cbid v = swtmr_cbid w" using u by (simp add: swtmr_cbid_nat)
  have "unat w mod 1024 < 1024" by simp
  then show "v < OS_SWTMR_MAX_TIMERID" "v \<noteq> w" using u w by (auto simp: word_less_nat_alt split: if_splits)
qed

lemma handlers_ok_cong:
  "swtmrHandlerQueue t = swtmrHandlerQueue s \<Longrightarrow> handlerPool t = handlerPool s \<Longrightarrow> g_swtmrHandlerPool t = g_swtmrHandlerPool s \<Longrightarrow>
   handlers_ok t = handlers_ok s"
  by (simp add: handlers_ok_def)

text \<open>The effect of starting: the new time of expiry is on the grid of periods from the start, later than the start, and not later than one period from now.\<close>

lemma to_start_time:
  assumes k: "time_ok (ker s)" and c: "swt_startTime (g_swtmrCBArray s i) \<le> now (ker s)" "swtmr_ticks (g_swtmrCBArray s i) \<noteq> 0"
  defines "st \<equiv> unat (swt_startTime (g_swtmrCBArray s i))" and "n \<equiv> unat (now (ker s))"
    and "p \<equiv> unat (swtmr_ticks (g_swtmrCBArray s i)) * unat (OS_CYCLE_PER_TICK (ker s))" and "resp \<equiv> fst (SwtmrToStart i s)"
  shows "unat resp = st + p + (if st + p < n then (n - st) div p mod 2 ^ 32 else 0) * p" "0 < p"
    "st + p \<le> unat resp" "unat resp \<le> n + p" "resp \<noteq> OS_SORT_LINK_INVALID_TIME" "n + p < 2 ^ 64 - 1"
proof -
  let ?c = "g_swtmrCBArray s i" and ?cy = "OS_CYCLE_PER_TICK (ker s)"
  let ?s = "swt_startTime ?c" and ?n = "now (ker s)"
  define P where "P = (ucast (swtmr_ticks ?c) * ucast ?cy :: u64)"
  define Q where "Q = (ucast (ucast ((?n - ?s) div P) :: u32) :: u64)"
  have t: "unat (swtmr_ticks ?c) < 2 ^ 32" using unat_bound [of "swtmr_ticks ?c"] by simp
  have cy: "0 < unat ?cy" "n + 2 ^ 32 * unat ?cy < 2 ^ 64 - 1" using k by (simp_all add: time_ok_def n_def word_less_nat_alt)
  have "p \<le> 2 ^ 32 * unat ?cy" using t unfolding p_def by (intro mult_right_mono) auto
  then show np: "n + p < 2 ^ 64 - 1" using cy(2) by linarith
  have "0 < unat (swtmr_ticks ?c)" using c(2) by (simp add: unat_gt_0)
  then show p0: "0 < p" using cy(1) by (simp add: p_def)
  have up: "unat P = p"
  proof -
    have "unat P = (unat (swtmr_ticks ?c) * unat ?cy) mod 2 ^ 64"
      by (simp add: P_def unat_word_ariths unat_ucast32_64)
    then show ?thesis using np by (simp add: p_def)
  qed
  have sn: "st \<le> n" using c(1) by (simp add: st_def n_def word_le_nat_alt)
  have r: "unat (?s + P) = st + p" using sn np up by (simp add: unat_word_ariths st_def)
  have lt: "?s + P < ?n \<longleftrightarrow> st + p < n" by (simp add: word_less_nat_alt r n_def)
  define q where "q = (n - st) div p mod 2 ^ 32"
  have "(n - st) div p * p \<le> n - st" by simp
  moreover have "q * p \<le> (n - st) div p * p" unfolding q_def by (intro mult_right_mono) auto
  ultimately have qp: "st + q * p \<le> n" using sn by linarith
  have uq: "unat Q = q"
  proof -
    have "unat ((?n - ?s) div P) = (n - st) div p" using c(1) up by (simp add: unat_div unat_sub n_def st_def)
    then show ?thesis unfolding Q_def unat_trunc32 q_def by simp
  qed
  have "unat (?s + Q * P) = st + q * p"
  proof -
    have "q * p \<le> n" using qp by simp
    then have "q * p < 2 ^ 64" "st + q * p < 2 ^ 64" using qp np by linarith+
    then show ?thesis by (simp add: unat_word_ariths uq up st_def)
  qed
  then have r2: "unat (?s + Q * P + P) = st + q * p + p"
    using qp np by (simp add: unat_word_ariths up)
  have e: "resp = (if ?s + P < ?n then ?s + Q * P + P else ?s + P)"
    by (simp add: resp_def SwtmrToStart_def Let_def OsGetCurrSchedTimeCycle_def P_def Q_def)
  show eq: "unat resp = st + p + (if st + p < n then (n - st) div p mod 2 ^ 32 else 0) * p"
    unfolding e lt using r r2 by (simp add: q_def)
  show "st + p \<le> unat resp" by (simp add: eq)
  show le: "unat resp \<le> n + p" using qp sn unfolding eq q_def by simp
  have "unat (OS_SORT_LINK_INVALID_TIME) = 2 ^ 64 - 1" by (simp add: OS_SORT_LINK_INVALID_TIME_def unsigned_minus_1_eq_mask mask_eq_exp_minus_1)
  then show "resp \<noteq> OS_SORT_LINK_INVALID_TIME" using le np by auto
qed

lemma swt_invD:
  assumes "swt_inv s"
  shows "sl_ok (swtmrSortLink s)" "distinct (sortLink (swtmrSortLink s))"
    "lists_match (g_swtmrFreeList s) (sortLink (swtmrSortLink s)) (\<lambda>i. ucState (g_swtmrCBArray s i))"
    "i < 1024 \<Longrightarrow> cb_ok i (g_swtmrCBArray s i)" "asserted (ker s) \<or> handlers_ok s"
    "i \<in> set (sortLink (swtmrSortLink s)) \<longleftrightarrow> i < 1024 \<and> ucState (g_swtmrCBArray s i) = OS_SWTMR_STATUS_TICKING"
    "i \<in> set (g_swtmrFreeList s) \<longleftrightarrow> i < 1024 \<and> ucState (g_swtmrCBArray s i) = OS_SWTMR_STATUS_UNUSED"
  using assms by (simp_all add: swt_inv_def sl_ok_def lists_match_def)

lemma upd_state: "(\<lambda>j. ucState (((g_swtmrCBArray s)(i := c)) j)) = (\<lambda>j. ucState (g_swtmrCBArray s j))(i := ucState c)"
  by auto

lemma swt_invI:
  assumes "sl_ok (swtmrSortLink s)" "lists_match (g_swtmrFreeList s) (sortLink (swtmrSortLink s)) (\<lambda>i. ucState (g_swtmrCBArray s i))"
    "\<And>i. i < 1024 \<Longrightarrow> cb_ok i (g_swtmrCBArray s i)" "asserted (ker s) \<or> handlers_ok s"
  shows "swt_inv s"
  using assms by (simp add: swt_inv_def)

lemma inv_upd:
  assumes inv: "swt_inv s" and "\<And>c. ucState (f c) = ucState c" "\<And>c. cb_ok i c \<Longrightarrow> cb_ok i (f c)"
  shows "swt_inv (upd_swtmr i f s)"
proof (rule swt_invI)
  have "(\<lambda>j. ucState (g_swtmrCBArray (upd_swtmr i f s) j)) = (\<lambda>j. ucState (g_swtmrCBArray s j))" using assms(2) by auto
  then show "lists_match (g_swtmrFreeList (upd_swtmr i f s)) (sortLink (swtmrSortLink (upd_swtmr i f s)))
      (\<lambda>j. ucState (g_swtmrCBArray (upd_swtmr i f s) j))"
    using swt_invD(3) [OF inv] by (simp only: upd_swtmr_simps)
  show "cb_ok j (g_swtmrCBArray (upd_swtmr i f s) j)" if "j < 1024" for j using swt_invD(4) [OF inv that] assms(3) by auto
  show "asserted (ker (upd_swtmr i f s)) \<or> handlers_ok (upd_swtmr i f s)" using swt_invD(5) [OF inv] by (simp add: handlers_ok_def)
qed (use swt_invD(1) [OF inv] in simp)

lemma cb_ok_ticks: "cb_ok i c \<Longrightarrow> ucState c \<noteq> OS_SWTMR_STATUS_UNUSED \<Longrightarrow> swtmr_ticks c \<noteq> 0"
  by (auto simp: cb_ok_def swtmr_ticks_def)

lemma to_start_frame:
  "swtmrSortLink (snd (SwtmrToStart i s)) = OsAdd2SortLink i (fst (SwtmrToStart i s)) (swtmrSortLink s)"
  "g_swtmrFreeList (snd (SwtmrToStart i s)) = g_swtmrFreeList s" "swtmrHandlerQueue (snd (SwtmrToStart i s)) = swtmrHandlerQueue s"
  "handlerPool (snd (SwtmrToStart i s)) = handlerPool s" "g_swtmrHandlerPool (snd (SwtmrToStart i s)) = g_swtmrHandlerPool s"
  "ker (snd (SwtmrToStart i s)) = ker s"
  by (simp_all add: SwtmrToStart_def Let_def AddSwtmr2TimeList_def)

lemma inv_to_start:
  assumes inv: "swt_inv s" and k: "time_ok (ker s)" and i: "i < 1024" "ucState (g_swtmrCBArray s i) = OS_SWTMR_STATUS_CREATED"
    and c: "swt_startTime (g_swtmrCBArray s i) \<le> now (ker s)"
  shows "swt_inv (snd (SwtmrToStart i s))" "ker (snd (SwtmrToStart i s)) = ker s"
proof -
  let ?r = "fst (SwtmrToStart i s)" and ?t = "snd (SwtmrToStart i s)" and ?q = "swtmrSortLink s"
  note D = swt_invD [OF inv]
  have ok: "cb_ok i (g_swtmrCBArray s i)" using D(4) i(1) .
  have r: "?r \<noteq> OS_SORT_LINK_INVALID_TIME" using to_start_time(5) [OF k c] cb_ok_ticks [OF ok] i(2) by simp
  have n: "i \<notin> set (sortLink ?q)" using D(6) i by simp
  note f = to_start_frame [of i s]
  show kk: "ker ?t = ker s" by (rule f(6))
  obtain st where cb: "g_swtmrCBArray ?t = (g_swtmrCBArray s)(i := (g_swtmrCBArray s i)
      \<lparr>ucState := OS_SWTMR_STATUS_TICKING, swt_startTime := st\<rparr>)"
    by (simp add: SwtmrToStart_def Let_def AddSwtmr2TimeList_def)
  show "swt_inv ?t"
  proof (rule swt_invI)
    show "sl_ok (swtmrSortLink ?t)" unfolding f(1) using D(1) n r by (rule sl_ok_add)
    show "lists_match (g_swtmrFreeList ?t) (sortLink (swtmrSortLink ?t)) (\<lambda>j. ucState (g_swtmrCBArray ?t j))"
      unfolding f(1,2) cb upd_state
      using match_link [OF D(3) i(1), OF i(2) sl_ok_add(2) [OF D(1) n r]] by simp
    show "cb_ok j (g_swtmrCBArray ?t j)" if "j < 1024" for j
      using D(4) [OF that] i(2) by (auto simp: cb cb_ok_def)
    show "asserted (ker ?t) \<or> handlers_ok ?t" using D(5) kk handlers_ok_cong [OF f(3-5)] by simp
  qed
qed

lemma inv_unlink:
  assumes inv: "swt_inv s" and i: "i \<in> set (sortLink (swtmrSortLink s))"
  shows "swt_inv (upd_swtmr i (\<lambda>c. c\<lparr>ucState := OS_SWTMR_STATUS_CREATED, uwOverrun := f c\<rparr>)
    (s\<lparr>swtmrSortLink := OsDeleteNodeSortLink i (swtmrSortLink s)\<rparr>))"
proof (rule swt_invI, goal_cases)
  note D = swt_invD [OF inv] and d = sl_ok_del [OF swt_invD(1) [OF inv] i]
  case 1
  then show ?case using d(1) by simp
next
  note D = swt_invD [OF inv] and d = sl_ok_del [OF swt_invD(1) [OF inv] i]
  case 2
  then show ?case using match_unlink [OF D(3,2) i] by (simp add: d(2) fun_upd_def if_distrib cong: if_cong)
next
  note D = swt_invD [OF inv]
  case (3 j)
  then show ?case using D(4) [of j] D(6) [of i] i by (auto simp: cb_ok_def)
next
  case 4
  then show ?case using swt_invD(5) [OF inv] by (simp add: handlers_ok_def)
qed

lemma inv_delete:
  assumes inv: "swt_inv s" and i: "i < 1024" "ucState (g_swtmrCBArray s i) = OS_SWTMR_STATUS_CREATED"
  shows "swt_inv (SwtmrDelete i s)"
proof (rule swt_invI, goal_cases)
  case 1
  then show ?case using swt_invD(1) [OF inv] by (simp add: SwtmrDelete_def)
next
  case 2
  then show ?case using match_free [OF swt_invD(3) [OF inv] i]
    by (simp add: SwtmrDelete_def fun_upd_def if_distrib cong: if_cong)
next
  case (3 j)
  then show ?case using swt_invD(4) [OF inv, of j] by (auto simp: cb_ok_def SwtmrDelete_def)
next
  case 4
  then show ?case using swt_invD(5) [OF inv] by (simp add: handlers_ok_def SwtmrDelete_def)
qed

text \<open>Queueing a handler takes a block of the pool; if there is none, the assertion fails.\<close>

lemma queue_handler_frame [simp]:
  "g_swtmrFreeList (queue_handler i s) = g_swtmrFreeList s" "swtmrSortLink (queue_handler i s) = swtmrSortLink s"
  "g_swtmrCBArray (queue_handler i s) = g_swtmrCBArray s" "g_swtmrHandlerPool (queue_handler i s) = g_swtmrHandlerPool s"
  "swtmrTask (queue_handler i s) = swtmrTask s" "now (ker (queue_handler i s)) = now (ker s)"
  "time_ok (ker (queue_handler i s)) = time_ok (ker s)"
  by (simp_all add: queue_handler_def Let_def case_prod_beta LOS_ASSERT_def time_ok_def OS_CYCLE_PER_TICK_def)

lemma queue_handler_pool:
  assumes rep: "box_rep (g_swtmrHandlerPool s) (handlerPool s) fs (set us)" and d: "distinct us"
    and q: "swtmrHandlerQueue s = map (\<lambda>i. OS_MEMBOX_USER_ADDR (block (g_swtmrHandlerPool s) (uwBlkSize (handlerPool s)) i)) us"
  shows "asserted (ker (queue_handler i s)) \<longleftrightarrow> asserted (ker s) \<or> fs = []" "fs \<noteq> [] \<Longrightarrow> handlers_ok (queue_handler i s)"
proof -
  let ?P = "g_swtmrHandlerPool s" and ?M = "handlerPool s" and ?N = "snd (LOS_MemboxAlloc (g_swtmrHandlerPool s) (handlerPool s))"
  have a: "asserted (ker (queue_handler i s)) \<longleftrightarrow> asserted (ker s) \<or> fst (LOS_MemboxAlloc ?P ?M) = 0"
    by (simp add: queue_handler_def Let_def case_prod_beta LOS_ASSERT_def)
  have f: "handlerPool (queue_handler i s) = ?N" "swtmrHandlerQueue (queue_handler i s) = swtmrHandlerQueue s @ [fst (LOS_MemboxAlloc ?P ?M)]"
    by (simp_all add: queue_handler_def Let_def case_prod_beta)
  show "asserted (ker (queue_handler i s)) \<longleftrightarrow> asserted (ker s) \<or> fs = []"
  proof (cases fs)
    case Nil
    then show ?thesis using box_alloc_none rep a by simp
  next
    case (Cons j rest)
    obtain n where "box_geom ?P ?M n" "\<And>j. j \<in> set fs \<Longrightarrow> j < n" using rep by (rule box_repD) blast
    then have "OS_MEMBOX_USER_ADDR (block ?P (uwBlkSize ?M) j) \<noteq> 0" using block_facts(4) Cons by auto
    then show ?thesis using box_alloc_some(1) [of ?P ?M j rest "set us"] rep a Cons by simp
  qed
  assume "fs \<noteq> []"
  then obtain j rest where fs: "fs = j # rest" by (cases fs) auto
  note al = box_alloc_some [OF rep [unfolded fs]]
  have "set fs \<inter> set us = {}" using rep by (rule box_repD)
  then have j: "j \<notin> set us" using fs by auto
  have "box_rep ?P ?N rest (set (us @ [j]))" using al(2) by simp
  moreover have "distinct (us @ [j])" using d j by simp
  moreover have "swtmrHandlerQueue (queue_handler i s) = map (\<lambda>i. OS_MEMBOX_USER_ADDR (block ?P (uwBlkSize ?N) i)) (us @ [j])"
    using f(2) q al(1,3) by simp
  ultimately show "handlers_ok (queue_handler i s)" unfolding handlers_ok_def f(1) queue_handler_frame by blast
qed

lemma inv_queue_handler:
  assumes "swt_inv s"
  shows "swt_inv (queue_handler i s)"
proof (rule swt_invI)
  note D = swt_invD [OF assms]
  show "asserted (ker (queue_handler i s)) \<or> handlers_ok (queue_handler i s)"
  proof (cases "asserted (ker s)")
    case True
    then show ?thesis by (simp add: queue_handler_def Let_def case_prod_beta LOS_ASSERT_def)
  next
    case False
    then obtain fs us where "box_rep (g_swtmrHandlerPool s) (handlerPool s) fs (set us)" "distinct us"
      "swtmrHandlerQueue s = map (\<lambda>i. OS_MEMBOX_USER_ADDR (block (g_swtmrHandlerPool s) (uwBlkSize (handlerPool s)) i)) us"
      using D(5) unfolding handlers_ok_def by blast
    then show ?thesis using queue_handler_pool by blast
  qed
qed (use swt_invD [OF assms] in simp_all)

lemma inv_next_id:
  assumes "swt_inv s"
  shows "swt_inv (upd_swtmr i (\<lambda>c. c\<lparr>usTimerID :=
    if usTimerID c < OS_SWTMR_MAX_TIMERID - SWTMR_LIMIT then usTimerID c + SWTMR_LIMIT else usTimerID c mod SWTMR_LIMIT\<rparr>) s)"
  using assms by (rule inv_upd) (use cbid_next(1,2) in \<open>auto simp: cb_ok_def\<close>)

text \<open>The state field is overwritten when a timer wakes: the result does not depend on it.\<close>

lemma upd_twice: "upd_swtmr i f (upd_swtmr i g s) = upd_swtmr i (\<lambda>c. f (g c)) s"
  by (simp add: upd_swtmr_def)

lemma to_start_state: "SwtmrToStart i (upd_swtmr i (\<lambda>c. c\<lparr>ucState := x\<rparr>) s) = SwtmrToStart i s"
proof -
  have t: "swtmr_ticks (c\<lparr>ucState := x\<rparr>) = swtmr_ticks c" for c by (auto simp: swtmr_ticks_def)
  show ?thesis by (simp add: SwtmrToStart_def Let_def upd_twice t)
qed

lemma wake_state_irrelevant:
  "SwtmrWake st i (upd_swtmr i (\<lambda>c. c\<lparr>ucState := x, uwOverrun := uwOverrun c\<rparr>) s) = SwtmrWake st i s"
proof -
  let ?f = "\<lambda>c :: SWTMR_CTRL_S. c\<lparr>ucState := x, uwOverrun := uwOverrun c\<rparr>"
  have q: "queue_handler i (upd_swtmr i ?f s) = upd_swtmr i ?f (queue_handler i s)"
    by (simp add: queue_handler_def Let_def case_prod_beta upd_swtmr_def)
  have d: "SwtmrDelete i (upd_swtmr i ?f t) = SwtmrDelete i t" for t by (simp add: SwtmrDelete_def upd_swtmr_def)
  have t: "SwtmrToStart i (upd_swtmr i (\<lambda>c. c\<lparr>uwOverrun := uwOverrun c + 1, swt_startTime := st\<rparr>) (upd_swtmr i ?f t)) =
      SwtmrToStart i (upd_swtmr i (\<lambda>c. c\<lparr>uwOverrun := uwOverrun c + 1, swt_startTime := st\<rparr>) t)" for t
  proof -
    have "upd_swtmr i (\<lambda>c. c\<lparr>uwOverrun := uwOverrun c + 1, swt_startTime := st\<rparr>) (upd_swtmr i ?f t) =
        upd_swtmr i (\<lambda>c. c\<lparr>ucState := x\<rparr>) (upd_swtmr i (\<lambda>c. c\<lparr>uwOverrun := uwOverrun c + 1, swt_startTime := st\<rparr>) t)"
    proof -
      have "(\<lambda>c. (?f c)\<lparr>uwOverrun := uwOverrun (?f c) + 1, swt_startTime := st\<rparr>) =
          (\<lambda>c. (c\<lparr>uwOverrun := uwOverrun c + 1, swt_startTime := st\<rparr>)\<lparr>ucState := x\<rparr>)"
      proof
        fix c :: SWTMR_CTRL_S
        show "(?f c)\<lparr>uwOverrun := uwOverrun (?f c) + 1, swt_startTime := st\<rparr> =
          (c\<lparr>uwOverrun := uwOverrun c + 1, swt_startTime := st\<rparr>)\<lparr>ucState := x\<rparr>" by (cases c) simp
      qed
      then show ?thesis unfolding upd_twice by (rule arg_cong)
    qed
    then show ?thesis by (simp only: to_start_state)
  qed
  show ?thesis unfolding SwtmrWake_def Let_def q d t
    by (simp add: upd_swtmr_def)
qed

text \<open>A time that is due wakes its timer: it is deleted, stopped, or started again.\<close>

definition unlinked :: "nat \<Rightarrow> swtmr_sys \<Rightarrow> swtmr_sys" where
  "unlinked i s = upd_swtmr i (\<lambda>c. c\<lparr>ucState := OS_SWTMR_STATUS_CREATED, uwOverrun := uwOverrun c\<rparr>)
     (s\<lparr>swtmrSortLink := OsDeleteNodeSortLink i (swtmrSortLink s)\<rparr>)"

lemma unlinked_simps [simp]:
  "ker (unlinked i s) = ker s" "g_swtmrCBArray (unlinked i s) i = (g_swtmrCBArray s i)\<lparr>ucState := OS_SWTMR_STATUS_CREATED\<rparr>"
  "swtmrSortLink (unlinked i s) = OsDeleteNodeSortLink i (swtmrSortLink s)"
  by (simp_all add: unlinked_def)

lemma scan_step_cases:
  assumes inv: "swt_inv s" and i: "i \<in> set (sortLink (swtmrSortLink s))"
  shows "scan_step i s = SwtmrWake (responseTime (swtmrSortLink s) i) i (unlinked i s)" "swt_inv (unlinked i s)" "i < 1024"
    "ucMode (g_swtmrCBArray s i) \<in> {LOS_SWTMR_MODE_ONCE, LOS_SWTMR_MODE_PERIOD, LOS_SWTMR_MODE_NO_SELFDELETE}"
proof -
  show "scan_step i s = SwtmrWake (responseTime (swtmrSortLink s) i) i (unlinked i s)"
    unfolding scan_step_def unlinked_def wake_state_irrelevant ..
  show "swt_inv (unlinked i s)" unfolding unlinked_def using inv i by (rule inv_unlink)
  show "i < 1024" using swt_invD(6) [OF inv] i by simp
  then show "ucMode (g_swtmrCBArray s i) \<in> {LOS_SWTMR_MODE_ONCE, LOS_SWTMR_MODE_PERIOD, LOS_SWTMR_MODE_NO_SELFDELETE}"
    using swt_invD(4,6) [OF inv, of i] i by (auto simp: cb_ok_def)
qed

lemma inv_wake:
  assumes inv: "swt_inv s" and k: "time_ok (ker s)" and i: "i < 1024" "ucState (g_swtmrCBArray s i) = OS_SWTMR_STATUS_CREATED"
    and st: "st \<le> now (ker s)"
  shows "swt_inv (SwtmrWake st i s)" "now (ker (SwtmrWake st i s)) = now (ker s)" "time_ok (ker (SwtmrWake st i s))"
proof -
  let ?s = "queue_handler i s"
  let ?t = "upd_swtmr i (\<lambda>c. c\<lparr>uwOverrun := uwOverrun c + 1, swt_startTime := st\<rparr>) ?s"
  have q: "swt_inv ?s" using inv by (rule inv_queue_handler)
  have c: "ucState (g_swtmrCBArray ?s i) = OS_SWTMR_STATUS_CREATED" using i(2) by simp
  have t: "swt_inv ?t" using q by (rule inv_upd) (auto simp: cb_ok_def)
  have p: "swt_inv (snd (SwtmrToStart i ?t))" "ker (snd (SwtmrToStart i ?t)) = ker ?s"
    using inv_to_start [OF t _ i(1)] k i(2) st by simp_all
  have u: "swt_inv (upd_swtmr i (\<lambda>c. c\<lparr>ucState := OS_SWTMR_STATUS_CREATED\<rparr>) ?s)"
  proof -
    have "upd_swtmr i (\<lambda>c. c\<lparr>ucState := OS_SWTMR_STATUS_CREATED\<rparr>) ?s = ?s" using i(2) by (simp add: upd_swtmr_def fun_upd_idem)
    then show ?thesis using q by simp
  qed
  show "swt_inv (SwtmrWake st i s)" unfolding SwtmrWake_def Let_def
    using p(1) u inv_next_id [OF inv_delete [OF q i(1) c]] by auto
  show "now (ker (SwtmrWake st i s)) = now (ker s)" "time_ok (ker (SwtmrWake st i s))"
    using p(2) k by (simp_all add: SwtmrWake_def Let_def SwtmrDelete_def)
qed

lemma inv_scan_step:
  assumes inv: "swt_inv s" and k: "time_ok (ker s)" and i: "i \<in> set (sortLink (swtmrSortLink s))"
    and due: "responseTime (swtmrSortLink s) i \<le> now (ker s)"
  shows "swt_inv (scan_step i s)" "now (ker (scan_step i s)) = now (ker s)" "time_ok (ker (scan_step i s))"
  using inv_wake [OF scan_step_cases(2) [OF inv i], of i "responseTime (swtmrSortLink s) i"] scan_step_cases(1,3) [OF inv i] k due
  by simp_all

lemma adjust_frame [simp]:
  "g_swtmrFreeList (SwtmrAdjustCheck r s) = g_swtmrFreeList s" "swtmrSortLink (SwtmrAdjustCheck r s) = swtmrSortLink s"
  "g_swtmrCBArray (SwtmrAdjustCheck r s) = g_swtmrCBArray s" "g_swtmrHandlerPool (SwtmrAdjustCheck r s) = g_swtmrHandlerPool s"
  "handlerPool (SwtmrAdjustCheck r s) = handlerPool s" "swtmrHandlerQueue (SwtmrAdjustCheck r s) = swtmrHandlerQueue s"
  by (simp_all add: SwtmrAdjustCheck_def case_prod_beta Let_def split: option.split)

lemma adjust_ker:
  "asserted (ker (SwtmrAdjustCheck r s)) = asserted (ker s)" "now (ker (SwtmrAdjustCheck r s)) = now (ker s)"
  "time_ok (ker (SwtmrAdjustCheck r s)) = time_ok (ker s)"
  by (simp_all add: SwtmrAdjustCheck_def case_prod_beta Let_def OsSchedTimeoutQueueAdjust_def OsSchedExpireTimeUpdate_def
      OsSchedRunqueuePendingSet_def set_schedFlag_def SchedNextExpireTimeSet_def HalClockTickTimerReload_def clr_schedFlag_def
      time_ok_def OS_CYCLE_PER_TICK_def split: option.split)

lemma inv_start:
  assumes inv: "swt_inv s" and k: "time_ok (ker s)" and i: "i < 1024" "ucState (g_swtmrCBArray s i) = OS_SWTMR_STATUS_CREATED"
  shows "swt_inv (SwtmrStart i s)"
proof -
  let ?s = "upd_swtmr i (\<lambda>c. c\<lparr>swt_startTime := now (ker s)\<rparr>) s"
  have "swt_inv ?s" using inv by (rule inv_upd) (auto simp: cb_ok_def)
  then have t: "swt_inv (snd (SwtmrToStart i ?s))" using inv_to_start(1) k i by simp
  have eq: "SwtmrStart i s = SwtmrAdjustCheck (fst (SwtmrToStart i ?s)) (snd (SwtmrToStart i ?s))"
    by (simp add: SwtmrStart_def Let_def case_prod_beta OsGetCurrSchedTimeCycle_def)
  show ?thesis unfolding eq using t by (simp add: swt_inv_def adjust_ker handlers_ok_def)
qed

lemma inv_stop:
  assumes inv: "swt_inv s" and i: "i < 1024" "ucState (g_swtmrCBArray s i) = OS_SWTMR_STATUS_TICKING"
  shows "swt_inv (SwtmrStop i s)" "ucState (g_swtmrCBArray (SwtmrStop i s) i) = OS_SWTMR_STATUS_CREATED" "ker (SwtmrStop i s) = ker s"
proof -
  have m: "i \<in> set (sortLink (swtmrSortLink s))" using swt_invD(6) [OF inv] i by simp
  have "SwtmrStop i s = upd_swtmr i (\<lambda>c. c\<lparr>ucState := OS_SWTMR_STATUS_CREATED, uwOverrun := 0\<rparr>)
      (s\<lparr>swtmrSortLink := OsDeleteNodeSortLink i (swtmrSortLink s)\<rparr>)"
    using sl_ok_del(3) [OF swt_invD(1) [OF inv] m] by (simp add: SwtmrStop_def DeSwtmrFromTimeList_def upd_swtmr_def)
  then show "swt_inv (SwtmrStop i s)" using inv_unlink [OF inv m] by simp
qed (simp_all add: SwtmrStop_def DeSwtmrFromTimeList_def)

lemma inv_create:
  assumes inv: "swt_inv s"
  shows "swt_inv (snd (snd (LOS_SwtmrCreate interval mode handler p arg s)))"
proof (cases "snd (snd (LOS_SwtmrCreate interval mode handler p arg s)) = s")
  case False
  then obtain i rest where f: "g_swtmrFreeList s = i # rest" and ok: "interval \<noteq> 0" "handler \<noteq> 0"
    "mode \<in> {LOS_SWTMR_MODE_ONCE, LOS_SWTMR_MODE_PERIOD, LOS_SWTMR_MODE_NO_SELFDELETE}"
    by (auto simp: LOS_SwtmrCreate_def split: list.splits if_splits)
  note D = swt_invD [OF inv]
  note m = match_alloc [OF D(3) [unfolded f]]
  have n: "i \<notin> set (sortLink (swtmrSortLink s))" using D(6) m(3) by simp
  have p: p using False by (auto simp: LOS_SwtmrCreate_def split: if_splits)
  let ?c = "(g_swtmrCBArray s i)\<lparr>uwOwnerPid := Some (processCB (tcb (ker s) (currTask (ker s)))), pfnHandler := handler, ucMode := mode,
    uwOverrun := 0, uwInterval := interval, uwExpiry := interval, uwArg := arg, ucState := OS_SWTMR_STATUS_CREATED\<rparr>"
  have eq: "snd (snd (LOS_SwtmrCreate interval mode handler p arg s)) = s\<lparr>g_swtmrFreeList := rest,
      g_swtmrCBArray := (g_swtmrCBArray s)(i := ?c),
      swtmrSortLink := SET_SORTLIST_VALUE i OS_SORT_LINK_INVALID_TIME (swtmrSortLink s)\<rparr>"
    using f ok p by (auto simp: LOS_SwtmrCreate_def Let_def upd_swtmr_def)
  show ?thesis unfolding eq
  proof (rule swt_invI, goal_cases)
    case 1
    then show ?case using D(1) n by (auto simp: sl_ok_def SET_SORTLIST_VALUE_def)
  next
    case 2
    then show ?case using m(1) by (simp add: SET_SORTLIST_VALUE_def fun_upd_def if_distrib cong: if_cong)
  next
    case (3 j)
    then show ?case using D(4) [OF 3] ok by (auto simp: cb_ok_def)
  next
    case 4
    then show ?case using D(5) by (simp add: handlers_ok_def)
  qed
qed (use inv in simp)

lemma cbid_lt: "swtmr_cbid w < 1024"
  by (simp add: swtmr_cbid_nat)

lemma inv_LOS_ops:
  assumes inv: "swt_inv s" and k: "time_ok (ker s)"
  shows "swt_inv (snd (LOS_SwtmrStart w s))" "swt_inv (snd (LOS_SwtmrStop w s))" "swt_inv (snd (LOS_SwtmrDelete w s))"
    "ker (snd (LOS_SwtmrStop w s)) = ker s" "ker (snd (LOS_SwtmrDelete w s)) = ker s"
proof -
  note st = inv_stop [OF inv cbid_lt [of w]]
  show "swt_inv (snd (LOS_SwtmrStart w s))"
    using inv k st inv_start [OF inv k cbid_lt [of w]] inv_start [OF st(1) _ cbid_lt [of w]]
    by (auto simp: LOS_SwtmrStart_def Let_def)
  show "swt_inv (snd (LOS_SwtmrStop w s))" "ker (snd (LOS_SwtmrStop w s)) = ker s"
    using inv st by (auto simp: LOS_SwtmrStop_def Let_def)
  show "swt_inv (snd (LOS_SwtmrDelete w s))"
    using inv st inv_delete [OF inv cbid_lt [of w]] inv_delete [OF st(1) cbid_lt [of w]] by (auto simp: LOS_SwtmrDelete_def Let_def)
  show "ker (snd (LOS_SwtmrDelete w s)) = ker s"
    by (simp add: LOS_SwtmrDelete_def Let_def SwtmrDelete_def SwtmrStop_def DeSwtmrFromTimeList_def)
qed

lemma inv_recycle:
  assumes "swt_inv s" "time_ok (ker s)"
  shows "swt_inv (fold (recycle_one p) is s) \<and> ker (fold (recycle_one p) is s) = ker s"
  using assms
proof (induction "is" arbitrary: s)
  case (Cons i "is")
  have "swt_inv (recycle_one p i s) \<and> ker (recycle_one p i s) = ker s" using Cons.prems inv_LOS_ops(3,5) by (auto simp: recycle_one_def)
  then show ?case using Cons by simp
qed simp

lemma inv_handle:
  assumes inv: "swt_inv s" and h: "SwtmrTask_handle s = Some (call, t)"
  shows "swt_inv t" "ker t = ker s"
proof -
  let ?P = "g_swtmrHandlerPool s" and ?M = "handlerPool s"
  let ?a = "\<lambda>i. OS_MEMBOX_USER_ADDR (block ?P (uwBlkSize ?M) i)"
  obtain item rest where q: "swtmrHandlerQueue s = item # rest"
    and t: "t = s\<lparr>swtmrHandlerQueue := rest, handlerPool := snd (LOS_MemboxFree ?P item ?M)\<rparr>"
    using h by (auto simp: SwtmrTask_handle_def split: list.splits)
  show "ker t = ker s" by (simp add: t)
  have "handlers_ok t" if ok: "handlers_ok s"
  proof -
    obtain fs us where rep: "box_rep ?P ?M fs (set us)" and d: "distinct us" and qs: "swtmrHandlerQueue s = map ?a us"
      using ok unfolding handlers_ok_def by blast
    obtain i us' where us: "us = i # us'" "item = ?a i" "rest = map ?a us'" using q qs by (cases us) auto
    note f = box_free_used [OF rep, of i, folded us(2)]
    have s: "set us - {i} = set us'" using d us(1) by auto
    have "box_rep ?P (handlerPool t) (i # fs) (set us')" using f(2) us(1) s by (simp add: t)
    moreover have "uwBlkSize (handlerPool t) = uwBlkSize ?M" using f(3) us(1) by (simp add: t)
    moreover have "distinct us'" using d us(1) by simp
    ultimately show ?thesis unfolding handlers_ok_def using us(3) t by (intro exI [of _ "i # fs"] exI [of _ us']) simp
  qed
  then show "swt_inv t" using inv by (auto simp: swt_inv_def t)
qed

section \<open>Steps\<close>

text \<open>
  The calls of tasks, the turns of the timer task, and \<open>do_kernel\<close> for everything else the kernel does, the sleep of the timer task included:
  the clock goes on, and an assertion that failed stays so. The turns of the scan may be interleaved with the rest.
\<close>

inductive swt_step :: "swtmr_sys \<Rightarrow> swtmr_sys \<Rightarrow> bool" where
  do_create: "swt_step s (snd (snd (LOS_SwtmrCreate interval mode handler p arg s)))"
| do_start: "swt_step s (snd (LOS_SwtmrStart w s))"
| do_stop: "swt_step s (snd (LOS_SwtmrStop w s))"
| do_delete: "swt_step s (snd (LOS_SwtmrDelete w s))"
| do_recycle: "swt_step s (OsSwtmrRecycle owner s)"
| do_wake: "sortLink (swtmrSortLink s) = i # rest \<Longrightarrow> responseTime (swtmrSortLink s) i \<le> now (ker s) \<Longrightarrow> swt_step s (scan_step i s)"
| do_handle: "SwtmrTask_handle s = Some (call, t) \<Longrightarrow> swt_step s t"
| do_kernel: "time_ok k \<Longrightarrow> now (ker s) \<le> now k \<Longrightarrow> (asserted (ker s) \<longrightarrow> asserted k) \<Longrightarrow> swt_step s (s\<lparr>ker := k\<rparr>)"

lemma swt_step_inv:
  assumes "swt_step s t" "swt_inv s \<and> time_ok (ker s)"
  shows "swt_inv t \<and> time_ok (ker t)"
  using assms
proof cases
  case (do_create interval mode handler p arg)
  have "ker (snd (snd (LOS_SwtmrCreate interval mode handler p arg s))) = ker s"
    by (simp add: LOS_SwtmrCreate_def Let_def split: list.split)
  then show ?thesis using do_create inv_create assms(2) by simp
next
  case (do_start w)
  have "time_ok (ker (SwtmrStart i u)) = time_ok (ker u)" for i u
    by (simp add: SwtmrStart_def Let_def case_prod_beta adjust_ker SwtmrToStart_def AddSwtmr2TimeList_def)
  then have "time_ok (ker (snd (LOS_SwtmrStart w s))) = time_ok (ker s)"
    by (simp add: LOS_SwtmrStart_def Let_def SwtmrStop_def DeSwtmrFromTimeList_def)
  then show ?thesis using do_start inv_LOS_ops(1) assms(2) by simp
next
  case (do_recycle owner)
  then show ?thesis using inv_recycle assms(2) by (simp add: OsSwtmrRecycle_def)
next
  case (do_wake i rest)
  then show ?thesis using inv_scan_step [of s i] assms(2) by simp
next
  case (do_handle call)
  then show ?thesis using inv_handle [OF _ do_handle] assms(2) by simp
next
  case (do_kernel k)
  then show ?thesis using assms(2) by (auto simp: swt_inv_def handlers_ok_def)
qed (use inv_LOS_ops assms(2) in simp_all)

lemma init_eq:
  fixes s :: swtmr_sys
  assumes "pool \<noteq> 0" "4 dvd unat pool" "unat pool + 20496 \<le> 2 ^ 32"
  defines "R \<equiv> LOS_MemboxInit pool 20496 16 (handlerPool s)"
  shows "box_rep pool (snd R) [0..<1024] {}"
    "SwtmrBaseInit True pool s = (0, s\<lparr>g_swtmrCBArray := (\<lambda>i. swtmr_cb0\<lparr>usTimerID := of_nat i\<rparr>),
      g_swtmrFreeList := [0..<1024], g_swtmrHandlerPool := pool, handlerPool := snd R,
      swtmrSortLink := OsSortLinkInit ((swtmrSortLink s)\<lparr>responseTime := (\<lambda>i. 0)\<rparr>), swtmrHandlerQueue := [], swtmrTask := None\<rparr>)"
proof -
  have al: "LOS_MEMBOX_ALIGNED 20 = 20" by (simp add: LOS_MEMBOX_ALIGNED_def)
  have b: "let z = unat (uwBlkSize (snd R)); n = (unat (20496 :: u32) - 16) div z in 20 \<le> z \<and> z < 24 \<and> 4 dvd z \<and>
      (if n = 0 then fst R = BOX_NOK else fst R = BOX_OK \<and> box_rep pool (snd R) [0..<n] {})"
    using box_init [of pool 20496 16 "handlerPool s"] assms by (auto simp: Let_def case_prod_beta)
  then have z: "unat (uwBlkSize (snd R)) = 20" by (auto simp: Let_def elim!: dvdE)
  then have box: "fst R = 0" "box_rep pool (snd R) [0..<1024] {}" using b by (simp_all add: Let_def)
  then show "box_rep pool (snd R) [0..<1024] {}" by simp
  show "SwtmrBaseInit True pool s = (0, s\<lparr>g_swtmrCBArray := (\<lambda>i. swtmr_cb0\<lparr>usTimerID := of_nat i\<rparr>),
      g_swtmrFreeList := [0..<1024], g_swtmrHandlerPool := pool, handlerPool := snd R,
      swtmrSortLink := OsSortLinkInit ((swtmrSortLink s)\<lparr>responseTime := (\<lambda>i. 0)\<rparr>), swtmrHandlerQueue := [], swtmrTask := None\<rparr>)"
    using assms(1) box(1) by (simp add: SwtmrBaseInit_def Let_def al case_prod_beta R_def)
qed

lemma inv_init:
  assumes p: "pool \<noteq> 0" "4 dvd unat pool" "unat pool + 20496 \<le> 2 ^ 32" and q: "\<not> sl_fault (swtmrSortLink s)"
  shows "fst (SwtmrBaseInit True pool s) = 0" "swt_inv (snd (SwtmrBaseInit True pool s))" "ker (snd (SwtmrBaseInit True pool s)) = ker s"
proof -
  let ?s = "snd (SwtmrBaseInit True pool s)"
  note eq = init_eq(2) [OF p, of s]
  show "fst (SwtmrBaseInit True pool s) = 0" "ker ?s = ker s" by (simp_all add: eq)
  show "swt_inv ?s"
  proof (rule swt_invI)
    show "sl_ok (swtmrSortLink ?s)" using q by (simp add: eq sl_ok_def OsSortLinkInit_def)
    show "lists_match (g_swtmrFreeList ?s) (sortLink (swtmrSortLink ?s)) (\<lambda>i. ucState (g_swtmrCBArray ?s i))"
      by (auto simp: eq lists_match_def OsSortLinkInit_def swtmr_cb0_def)
    show "cb_ok i (g_swtmrCBArray ?s i)" if "i < 1024" for i
      using that by (simp add: eq cb_ok_def swtmr_cb0_def swtmr_cbid_nat word_less_nat_alt unat_of_nat take_bit_nat_eq_self)
    have "box_rep (g_swtmrHandlerPool ?s) (handlerPool ?s) [0..<1024] (set [])" using init_eq(1) [OF p, of s] by (simp add: eq)
    then show "asserted (ker ?s) \<or> handlers_ok ?s" unfolding handlers_ok_def by (intro disjI2 exI [of _ "[0..<1024]"] exI [of _ "[]"]) (simp add: eq)
  qed
qed

section \<open>Expiry times\<close>

text \<open>The time queue after a timer was woken.\<close>

lemma wake_link:
  assumes k: "time_ok (ker s)" and ok: "cb_ok i (g_swtmrCBArray s i)" "ucState (g_swtmrCBArray s i) = OS_SWTMR_STATUS_CREATED"
    and st: "st \<le> now (ker s)"
  defines "p \<equiv> unat (uwInterval (g_swtmrCBArray s i)) * unat (OS_CYCLE_PER_TICK (ker s))" and "n \<equiv> unat (now (ker s))"
  shows "ucMode (g_swtmrCBArray s i) \<noteq> LOS_SWTMR_MODE_PERIOD \<Longrightarrow> swtmrSortLink (SwtmrWake st i s) = swtmrSortLink s"
    "ucMode (g_swtmrCBArray s i) = LOS_SWTMR_MODE_PERIOD \<Longrightarrow> \<exists>r. swtmrSortLink (SwtmrWake st i s) = OsAdd2SortLink i r (swtmrSortLink s) \<and>
      unat r = unat st + p + (if unat st + p < n then (n - unat st) div p mod 2 ^ 32 else 0) * p \<and> 0 < p \<and>
      r \<noteq> OS_SORT_LINK_INVALID_TIME \<and> unat r \<le> n + p"
proof -
  let ?c = "g_swtmrCBArray s i"
  let ?s = "upd_swtmr i (\<lambda>c. c\<lparr>uwOverrun := uwOverrun c + 1, swt_startTime := st\<rparr>) (queue_handler i s)"
  show "swtmrSortLink (SwtmrWake st i s) = swtmrSortLink s" if "ucMode ?c \<noteq> LOS_SWTMR_MODE_PERIOD"
  proof -
    have "ucMode ?c = LOS_SWTMR_MODE_ONCE \<or> ucMode ?c = LOS_SWTMR_MODE_NO_SELFDELETE" using that ok by (auto simp: cb_ok_def)
    then show ?thesis unfolding SwtmrWake_def Let_def SwtmrDelete_def by (elim disjE) simp_all
  qed
  assume m: "ucMode ?c = LOS_SWTMR_MODE_PERIOD"
  then have "SwtmrWake st i s = snd (SwtmrToStart i ?s)" unfolding SwtmrWake_def Let_def by simp
  then have eq: "swtmrSortLink (SwtmrWake st i s) = OsAdd2SortLink i (fst (SwtmrToStart i ?s)) (swtmrSortLink s)"
    by (simp only: to_start_frame(1) upd_swtmr_simps(3) queue_handler_frame(2))
  have c: "swt_startTime (g_swtmrCBArray ?s i) = st" "swtmr_ticks (g_swtmrCBArray ?s i) = uwInterval ?c"
    using m by (simp_all add: swtmr_ticks_def)
  have t: "uwInterval ?c \<noteq> 0" using ok by (auto simp: cb_ok_def)
  have cy: "OS_CYCLE_PER_TICK (ker ?s) = OS_CYCLE_PER_TICK (ker s)"
    by (simp add: queue_handler_def Let_def case_prod_beta LOS_ASSERT_def OS_CYCLE_PER_TICK_def)
  have a: "time_ok (ker ?s)" "swt_startTime (g_swtmrCBArray ?s i) \<le> now (ker ?s)" "swtmr_ticks (g_swtmrCBArray ?s i) \<noteq> 0"
    using k st t unfolding c by simp_all
  have e: "unat (swtmr_ticks (g_swtmrCBArray ?s i)) * unat (OS_CYCLE_PER_TICK (ker ?s)) = p" "unat (now (ker ?s)) = n"
    unfolding c cy p_def n_def by simp_all
  note f = to_start_time [OF a, unfolded e c(1)]
  show "\<exists>r. swtmrSortLink (SwtmrWake st i s) = OsAdd2SortLink i r (swtmrSortLink s) \<and>
      unat r = unat st + p + (if unat st + p < n then (n - unat st) div p mod 2 ^ 32 else 0) * p \<and> 0 < p \<and>
      r \<noteq> OS_SORT_LINK_INVALID_TIME \<and> unat r \<le> n + p"
    by (intro exI [of _ "fst (SwtmrToStart i ?s)"] conjI) (fact eq f)+
qed

lemma scan_link:
  assumes inv: "swt_inv s" and k: "time_ok (ker s)" and i: "i \<in> set (sortLink (swtmrSortLink s))"
    and due: "responseTime (swtmrSortLink s) i \<le> now (ker s)"
  defines "q \<equiv> swtmrSortLink s" and "c \<equiv> g_swtmrCBArray s i" and "n \<equiv> unat (now (ker s))"
  defines "p \<equiv> unat (uwInterval c) * unat (OS_CYCLE_PER_TICK (ker s))" and "st \<equiv> unat (responseTime q i)"
  shows "ucMode c \<noteq> LOS_SWTMR_MODE_PERIOD \<Longrightarrow> swtmrSortLink (scan_step i s) = OsDeleteNodeSortLink i q"
    "ucMode c = LOS_SWTMR_MODE_PERIOD \<Longrightarrow> \<exists>r. swtmrSortLink (scan_step i s) = OsAdd2SortLink i r (OsDeleteNodeSortLink i q) \<and>
      unat r = st + p + (if st + p < n then (n - st) div p mod 2 ^ 32 else 0) * p \<and> 0 < p \<and>
      r \<noteq> OS_SORT_LINK_INVALID_TIME \<and> unat r \<le> n + p"
proof -
  note u = scan_step_cases [OF inv i]
  have ok: "cb_ok i (g_swtmrCBArray (unlinked i s) i)" using swt_invD(4) [OF u(2,3)] .
  have e: "uwInterval (g_swtmrCBArray (unlinked i s) i) = uwInterval c" "ucMode (g_swtmrCBArray (unlinked i s) i) = ucMode c"
    "ucState (g_swtmrCBArray (unlinked i s) i) = OS_SWTMR_STATUS_CREATED" by (simp_all add: c_def)
  have t: "time_ok (ker (unlinked i s))" "responseTime q i \<le> now (ker (unlinked i s))" using k due by (simp_all add: q_def)
  note w = wake_link [OF t(1) ok e(3) t(2), unfolded e unlinked_simps(1,3), folded q_def st_def p_def n_def]
  show "swtmrSortLink (scan_step i s) = OsDeleteNodeSortLink i q" if "ucMode c \<noteq> LOS_SWTMR_MODE_PERIOD"
    using w(1) [OF that] unfolding u(1) q_def [symmetric] .
  show "\<exists>r. swtmrSortLink (scan_step i s) = OsAdd2SortLink i r (OsDeleteNodeSortLink i q) \<and>
      unat r = st + p + (if st + p < n then (n - st) div p mod 2 ^ 32 else 0) * p \<and> 0 < p \<and>
      r \<noteq> OS_SORT_LINK_INVALID_TIME \<and> unat r \<le> n + p" if "ucMode c = LOS_SWTMR_MODE_PERIOD"
    using w(2) [OF that] unfolding u(1) q_def [symmetric] .
qed

text \<open>Every turn of the scan moves a time that is due closer to the present, or takes it away: the loop ends.\<close>

definition lag :: "nat \<Rightarrow> sort_link \<Rightarrow> nat" where
  "lag n q = (\<Sum>j\<in>set (sortLink q). Suc n - unat (responseTime q j))"

lemma scan_lag:
  assumes inv: "swt_inv s" and k: "time_ok (ker s)" and i: "i \<in> set (sortLink (swtmrSortLink s))"
    and due: "responseTime (swtmrSortLink s) i \<le> now (ker s)"
  shows "lag (unat (now (ker s))) (swtmrSortLink (scan_step i s)) < lag (unat (now (ker s))) (swtmrSortLink s)"
proof -
  let ?q = "swtmrSortLink s" and ?n = "unat (now (ker s))"
  let ?w = "\<lambda>j. Suc ?n - unat (responseTime ?q j)" and ?X = "set (sortLink ?q)"
  note ok = swt_invD(1) [OF inv]
  note d = sl_ok_del [OF ok i]
  have D: "set (sortLink (OsDeleteNodeSortLink i ?q)) = ?X - {i}" using d(2) ok by (simp add: sl_ok_def)
  have R: "responseTime (OsDeleteNodeSortLink i ?q) j = responseTime ?q j" if "j \<noteq> i" for j
    using that by (simp add: OsDeleteNodeSortLink_def SET_SORTLIST_VALUE_def)
  have S: "lag ?n ?q = ?w i + (\<Sum>j\<in>?X - {i}. ?w j)" using i by (simp add: lag_def sum.remove)
  have w: "0 < ?w i" using due by (simp add: word_le_nat_alt)
  have rest: "(\<Sum>j\<in>?X - {i}. Suc ?n - unat (f j)) = (\<Sum>j\<in>?X - {i}. ?w j)" if "\<And>j. j \<noteq> i \<Longrightarrow> f j = responseTime ?q j" for f
    using that by (intro sum.cong) auto
  show ?thesis
  proof (cases "ucMode (g_swtmrCBArray s i) = LOS_SWTMR_MODE_PERIOD")
    case False
    then have "lag ?n (swtmrSortLink (scan_step i s)) = (\<Sum>j\<in>?X - {i}. ?w j)"
      using scan_link(1) [OF inv k i due] rest [of "responseTime (OsDeleteNodeSortLink i ?q)"] R by (simp add: lag_def D)
    then show ?thesis using S w by simp
  next
    case True
    then obtain r where r: "swtmrSortLink (scan_step i s) = OsAdd2SortLink i r (OsDeleteNodeSortLink i ?q)"
      "unat (responseTime ?q i) < unat r" "r \<noteq> OS_SORT_LINK_INVALID_TIME"
      using scan_link(2) [OF inv k i due] by (auto split: if_splits)
    have l: "set (sortLink (OsAdd2SortLink i r (OsDeleteNodeSortLink i ?q))) = insert i (?X - {i})"
      using sl_ok_add(2) [OF d(1) _ r(3)] D by simp
    have "lag ?n (swtmrSortLink (scan_step i s)) = (Suc ?n - unat r) + (\<Sum>j\<in>?X - {i}. ?w j)"
    proof -
      let ?f = "(responseTime (OsDeleteNodeSortLink i ?q))(i := r)"
      have "(\<Sum>j\<in>insert i (?X - {i}). Suc ?n - unat (?f j)) = (Suc ?n - unat (?f i)) + (\<Sum>j\<in>?X - {i}. Suc ?n - unat (?f j))"
        by (rule sum.insert) auto
      moreover have "(\<Sum>j\<in>?X - {i}. Suc ?n - unat (?f j)) = (\<Sum>j\<in>?X - {i}. ?w j)" using R by (intro rest) simp
      ultimately show ?thesis unfolding lag_def r(1) l responseTime_add(2) by (simp only: fun_upd_same)
    qed
    then show ?thesis using S w r(2) by simp
  qed
qed

lemma scan_loop_ends:
  assumes "swt_inv s" "time_ok (ker s)"
  shows "\<exists>t. scan_loop (now (ker s)) s = Some t \<and> swt_inv t \<and> now (ker t) = now (ker s) \<and>
    (\<forall>j\<in>set (sortLink (swtmrSortLink t)). now (ker s) < responseTime (swtmrSortLink t) j)"
  using assms
proof (induction "lag (unat (now (ker s))) (swtmrSortLink s)" arbitrary: s rule: less_induct)
  case less
  show ?case
  proof (cases "sortLink (swtmrSortLink s)")
    case Nil
    then show ?thesis using less.prems by (simp add: scan_loop.simps)
  next
    case (Cons i rest)
    show ?thesis
    proof (cases "responseTime (swtmrSortLink s) i \<le> now (ker s)")
      case True
      have i: "i \<in> set (sortLink (swtmrSortLink s))" using Cons by simp
      note n = inv_scan_step [OF less.prems i True]
      have "scan_loop (now (ker s)) s = scan_loop (now (ker s)) (scan_step i s)"
        using True Cons by (subst scan_loop.simps) simp
      moreover have "\<exists>t. scan_loop (now (ker s)) (scan_step i s) = Some t \<and> swt_inv t \<and> now (ker t) = now (ker s) \<and>
          (\<forall>j\<in>set (sortLink (swtmrSortLink t)). now (ker s) < responseTime (swtmrSortLink t) j)"
        using less.hyps [OF _ n(1,3)] scan_lag [OF less.prems i True] unfolding n(2) by blast
      ultimately show ?thesis by simp
    next
      case False
      have "now (ker s) < responseTime (swtmrSortLink s) j" if "j \<in> set (sortLink (swtmrSortLink s))" for j
        using sl_ok_first [OF swt_invD(1) [OF less.prems(1)] Cons that] False by order
      moreover have "scan_loop (now (ker s)) s = Some s" using False Cons by (subst scan_loop.simps) simp
      ultimately show ?thesis using less.prems by blast
    qed
  qed
qed

section \<open>Properties\<close>

text \<open>
  C19. From the initialisation on, in every state that the calls, the expiries and the rest of the kernel lead to: a
  timer is on the free list exactly if it is unused and in the time queue exactly if it is ticking, the queue is in the order
  of the times, the identifier of a timer leads to its control block, and the items that wait for the timer task are exactly the blocks of the pool in use.
\<close>

theorem swtmr_reachable:
  assumes "pool \<noteq> 0" "4 dvd unat pool" "unat pool + 20496 \<le> 2 ^ 32" "\<not> sl_fault (swtmrSortLink s)" "time_ok (ker s)"
    and "swt_step\<^sup>*\<^sup>* (snd (SwtmrBaseInit True pool s)) t"
  shows "fst (SwtmrBaseInit True pool s) = 0 \<and> swt_inv t"
proof -
  note i = inv_init [OF assms(1-4)]
  have "swt_inv t \<and> time_ok (ker t)" using assms(6)
  proof (induction rule: rtranclp_induct)
    case (step t u)
    then show ?case using swt_step_inv by blast
  qed (use i assms(5) in simp)
  then show ?thesis using i(1) by simp
qed

definition swtmr_off :: swtmr_sys where
  "swtmr_off = \<lparr>ker = k_boot, g_swtmrCBArray = (\<lambda>i. swtmr_cb0), g_swtmrFreeList = [],
     swtmrSortLink = \<lparr>sortLink = [], nodeNum = 0, responseTime = (\<lambda>i. 0), sl_fault = False\<rparr>, swtmrTask = None,
     swtmrHandlerQueue = [], handlerItem = (\<lambda>a. (0, 0)), g_swtmrHandlerPool = 0, handlerPool = box_blank\<rparr>"

lemma time_ok_boot: "time_ok k_boot"
  by (simp add: time_ok_def k_boot_def OS_CYCLE_PER_TICK_def)

text \<open>A timer of ten ticks is created and started.\<close>

definition swtmr_on :: swtmr_sys where
  "swtmr_on = snd (SwtmrBaseInit True 0x1000 swtmr_off)"

theorem swtmr_reachable_witness:
  "swt_inv (snd (LOS_SwtmrStart 0 (snd (snd (LOS_SwtmrCreate 10 LOS_SWTMR_MODE_ONCE 77 True 5 swtmr_on)))))"
proof -
  have "swt_step\<^sup>*\<^sup>* swtmr_on (snd (LOS_SwtmrStart 0 (snd (snd (LOS_SwtmrCreate 10 LOS_SWTMR_MODE_ONCE 77 True 5 swtmr_on)))))"
    by (rule rtranclp_trans) (rule r_into_rtranclp, rule do_create, rule r_into_rtranclp, rule do_start)
  moreover have "\<not> sl_fault (swtmrSortLink swtmr_off)" "time_ok (ker swtmr_off)" by (simp_all add: swtmr_off_def time_ok_boot)
  ultimately show ?thesis using swtmr_reachable [where pool = "0x1000" and s = swtmr_off] by (simp add: swtmr_on_def)
qed

text \<open>
  C31. The scan of the time queue ends, whatever timers are due and however late it comes, and then no timer is due.
\<close>

theorem swtmr_scan_ends:
  assumes "swt_inv s" "time_ok (ker s)"
  shows "\<exists>t. ScanSwtmrTimeList s = Some t \<and> swt_inv t \<and>
    (\<forall>j\<in>set (sortLink (swtmrSortLink t)). now (ker s) < responseTime (swtmrSortLink t) j)"
  using scan_loop_ends [OF assms] unfolding ScanSwtmrTimeList_def OsGetCurrSchedTimeCycle_def by blast

lemma swtmr_on_inv: "swt_inv swtmr_on" "time_ok (ker swtmr_on)"
  using inv_init [of "0x1000" swtmr_off] by (simp_all add: swtmr_on_def swtmr_off_def time_ok_boot)

theorem swtmr_scan_ends_witness: "\<exists>t. ScanSwtmrTimeList swtmr_on = Some t"
  using swtmr_scan_ends [OF swtmr_on_inv] by blast

text \<open>A timer of ten ticks is created and started, and its time passes.\<close>

definition swtmr_late :: "u8 \<Rightarrow> swtmr_sys" where
  "swtmr_late mode = (snd (LOS_SwtmrStart 0 (snd (snd (LOS_SwtmrCreate 10 mode 77 True 5 swtmr_on)))))\<lparr>ker := k_boot\<lparr>now := 9000000\<rparr>\<rparr>"

lemma swtmr_late_facts:
  assumes "mode \<in> {LOS_SWTMR_MODE_ONCE, LOS_SWTMR_MODE_PERIOD}"
  shows "swt_inv (swtmr_late mode)" "time_ok (ker (swtmr_late mode))" "sortLink (swtmrSortLink (swtmr_late mode)) = [0]"
    "responseTime (swtmrSortLink (swtmr_late mode)) 0 = 2401000" "ucMode (g_swtmrCBArray (swtmr_late mode) 0) = mode"
    "uwInterval (g_swtmrCBArray (swtmr_late mode) 0) = 10" "ker (swtmr_late mode) = k_boot\<lparr>now := 9000000\<rparr>"
    "usTimerID (g_swtmrCBArray (swtmr_late mode) 0) = 0" "g_swtmrCBArray (swtmr_late mode) 5 = swtmr_cb0\<lparr>usTimerID := 5\<rparr>"
    "uwOwnerPid (g_swtmrCBArray (swtmr_late mode) 0) = Some (processCB (tcb k_boot (currTask k_boot)))"
proof -
  have t: "time_ok (k_boot\<lparr>now := 9000000\<rparr>)" by (simp add: time_ok_def k_boot_def OS_CYCLE_PER_TICK_def)
  let ?a = "snd (snd (LOS_SwtmrCreate 10 mode 77 True 5 swtmr_on))"
  show "time_ok (ker (swtmr_late mode))" using t by (simp add: swtmr_late_def)
  define rest where "rest = [1..<1024 :: nat]"
  have "g_swtmrFreeList swtmr_on = [0..<1024]" using init_eq(2) [of "0x1000" swtmr_off] by (simp add: swtmr_on_def)
  moreover have "[0..<1024] = 0 # [1..<1024 :: nat]" using upt_conv_Cons [of 0 1024] by (simp only: One_nat_def zero_less_numeral)
  ultimately have f1: "g_swtmrFreeList swtmr_on = 0 # rest" by (simp only: rest_def)
  have f: "g_swtmrCBArray swtmr_on = (\<lambda>i. swtmr_cb0\<lparr>usTimerID := of_nat i\<rparr>)"
    "swtmrSortLink swtmr_on = \<lparr>sortLink = [], nodeNum = 0, responseTime = (\<lambda>i. 0), sl_fault = False\<rparr>" "swtmrTask swtmr_on = None" "ker swtmr_on = k_boot"
    using init_eq(2) [of "0x1000" swtmr_off] by (simp_all add: swtmr_on_def swtmr_off_def OsSortLinkInit_def)
  have k: "now k_boot = 1000" "OS_CYCLE_PER_TICK k_boot = 240000" by (simp_all add: k_boot_def OS_CYCLE_PER_TICK_def)
  have a: "g_swtmrCBArray ?a 0 = swtmr_cb0\<lparr>usTimerID := 0, uwOwnerPid := Some (processCB (tcb k_boot (currTask k_boot))), pfnHandler := 77, ucMode := mode,
      uwOverrun := 0, uwInterval := 10, uwExpiry := 10, uwArg := 5, ucState := OS_SWTMR_STATUS_CREATED\<rparr>"
    "swtmrSortLink ?a = SET_SORTLIST_VALUE 0 OS_SORT_LINK_INVALID_TIME (swtmrSortLink swtmr_on)" "ker ?a = k_boot" "swtmrTask ?a = None"
    "g_swtmrCBArray ?a 5 = swtmr_cb0\<lparr>usTimerID := 5\<rparr>"
    using assms by (auto simp: LOS_SwtmrCreate_def Let_def f f1)
  let ?u = "upd_swtmr 0 (\<lambda>c. c\<lparr>swt_startTime := 1000\<rparr>) ?a" and ?b = "snd (LOS_SwtmrStart 0 ?a)"
  have i: "swtmr_cbid 0 = 0" by (simp add: swtmr_cbid_nat)
  have tk: "swtmr_ticks (g_swtmrCBArray ?u 0) = 10" by (simp add: a(1) swtmr_ticks_def)
  have "SwtmrToStart 0 ?u = (2401000, AddSwtmr2TimeList 0 2401000 (upd_swtmr 0 (\<lambda>c. c\<lparr>ucState := OS_SWTMR_STATUS_TICKING, swt_startTime := 1000\<rparr>) ?u))"
    unfolding SwtmrToStart_def Let_def tk by (simp add: a(3) k OsGetCurrSchedTimeCycle_def)
  then have b: "?b = AddSwtmr2TimeList 0 2401000 (upd_swtmr 0 (\<lambda>c. c\<lparr>ucState := OS_SWTMR_STATUS_TICKING, swt_startTime := 1000\<rparr>) ?u)"
    unfolding LOS_SwtmrStart_def Let_def i SwtmrStart_def a(1)
    by (simp add: a k OsGetCurrSchedTimeCycle_def SwtmrAdjustCheck_def AddSwtmr2TimeList_def)
  show "sortLink (swtmrSortLink (swtmr_late mode)) = [0]" "responseTime (swtmrSortLink (swtmr_late mode)) 0 = 2401000"
    by (simp_all add: swtmr_late_def b AddSwtmr2TimeList_def a(2) f(2) OsAdd2SortLink_def AddNode2SortLink_def SET_SORTLIST_VALUE_def)
  show "ucMode (g_swtmrCBArray (swtmr_late mode) 0) = mode" "uwInterval (g_swtmrCBArray (swtmr_late mode) 0) = 10"
    "ker (swtmr_late mode) = k_boot\<lparr>now := 9000000\<rparr>" "usTimerID (g_swtmrCBArray (swtmr_late mode) 0) = 0"
    "g_swtmrCBArray (swtmr_late mode) 5 = swtmr_cb0\<lparr>usTimerID := 5\<rparr>"
    "uwOwnerPid (g_swtmrCBArray (swtmr_late mode) 0) = Some (processCB (tcb k_boot (currTask k_boot)))"
    by (simp_all add: swtmr_late_def b AddSwtmr2TimeList_def a(1,5))
  have "swt_inv ?b" using inv_LOS_ops(1) [OF inv_create [OF swtmr_on_inv(1)]] by (simp add: a(3) time_ok_boot)
  moreover have "ker ?b = k_boot" by (simp add: b AddSwtmr2TimeList_def a(3))
  ultimately show "swt_inv (swtmr_late mode)"
    using swt_step_inv [OF do_kernel [OF t, of ?b]] by (simp add: swtmr_late_def time_ok_boot k)
qed

text \<open>
  A periodic timer does not drift: when it expires, its handler is queued with its argument, and its next time is a whole number
  of periods after the last one, the first of these that is not in the past (unless it is more than \<open>2 ^ 32\<close> periods late).
\<close>

theorem swtmr_period:
  assumes "swt_inv s" "time_ok (ker s)" "sortLink (swtmrSortLink s) = i # rest" "ucMode (g_swtmrCBArray s i) = LOS_SWTMR_MODE_PERIOD"
  defines "r \<equiv> unat (responseTime (swtmrSortLink s) i)" and "n \<equiv> unat (now (ker s))" and "t \<equiv> scan_step i s"
    and "p \<equiv> unat (uwInterval (g_swtmrCBArray s i)) * unat (OS_CYCLE_PER_TICK (ker s))"
  assumes "r \<le> n" "(n - r) div p < 2 ^ 32"
  shows "i \<in> set (sortLink (swtmrSortLink t)) \<and>
    (\<exists>m. unat (responseTime (swtmrSortLink t) i) = r + Suc m * p \<and> r + m * p \<le> n \<and> n \<le> r + Suc m * p) \<and>
    handlerItem t (last (swtmrHandlerQueue t)) = (pfnHandler (g_swtmrCBArray s i), uwArg (g_swtmrCBArray s i))"
proof -
  let ?q = "swtmrSortLink s"
  have i: "i \<in> set (sortLink ?q)" using assms(3) by simp
  have due: "responseTime ?q i \<le> now (ker s)" using assms(9) by (simp add: r_def n_def word_le_nat_alt)
  obtain w where w: "swtmrSortLink t = OsAdd2SortLink i w (OsDeleteNodeSortLink i ?q)"
    "unat w = r + p + (if r + p < n then (n - r) div p mod 2 ^ 32 else 0) * p" "0 < p" "w \<noteq> OS_SORT_LINK_INVALID_TIME"
    using scan_link(2) [OF assms(1,2) i due assms(4)] unfolding t_def r_def n_def p_def by blast
  note d = sl_ok_del [OF swt_invD(1) [OF assms(1)] i]
  have "i \<notin> set (sortLink (OsDeleteNodeSortLink i ?q))" using d(2) swt_invD(2) [OF assms(1)] by simp
  then have m: "i \<in> set (sortLink (swtmrSortLink t))" using sl_ok_add(2) [OF d(1) _ w(4)] w(1) by simp
  have rt: "responseTime (swtmrSortLink t) i = w" by (simp add: w(1))
  define k where "k = (if r + p < n then (n - r) div p else 0)"
  have "(n - r) div p mod 2 ^ 32 = (n - r) div p" using assms(10) by simp
  then have u: "unat w = r + Suc k * p" using w(2) by (simp add: k_def)
  have "k * p \<le> n - r" by (simp add: k_def)
  moreover have "n \<le> r + Suc k * p"
  proof (cases "r + p < n")
    case True
    have "n - r < Suc ((n - r) div p) * p" using dividend_less_div_times [OF w(3), of "n - r"] by simp
    then show ?thesis using True assms(9) by (simp add: k_def)
  qed (simp add: k_def)
  ultimately have "unat (responseTime (swtmrSortLink t) i) = r + Suc k * p \<and> r + k * p \<le> n \<and> n \<le> r + Suc k * p"
    using u rt assms(9) by simp
  moreover have "handlerItem t (last (swtmrHandlerQueue t)) = (pfnHandler (g_swtmrCBArray s i), uwArg (g_swtmrCBArray s i))"
    unfolding t_def scan_step_def using assms(4)
    by (simp add: SwtmrWake_def Let_def SwtmrToStart_def AddSwtmr2TimeList_def queue_handler_def case_prod_beta)
  ultimately show ?thesis using m by blast
qed

theorem swtmr_period_witness:
  "\<exists>m. unat (responseTime (swtmrSortLink (scan_step 0 (swtmr_late LOS_SWTMR_MODE_PERIOD))) 0) = 2401000 + Suc m * 2400000 \<and>
    2401000 + m * 2400000 \<le> 9000000 \<and> 9000000 \<le> 2401000 + Suc m * 2400000"
proof -
  note f = swtmr_late_facts [of LOS_SWTMR_MODE_PERIOD, simplified]
  have p: "unat (uwInterval (g_swtmrCBArray (swtmr_late 1) 0)) * unat (OS_CYCLE_PER_TICK (ker (swtmr_late 1))) = 2400000"
    by (simp add: f k_boot_def OS_CYCLE_PER_TICK_def)
  have n: "unat (now (ker (swtmr_late 1))) = 9000000" "unat (responseTime (swtmrSortLink (swtmr_late 1)) 0) = 2401000"
    by (simp_all add: f)
  show ?thesis using swtmr_period [OF f(1-3,5), unfolded p n] by simp
qed

text \<open>
  A one-shot timer that expires is deleted and its control block gets another identifier: a call with the old one is refused
  and changes nothing.
\<close>

theorem swtmr_once:
  assumes "swt_inv s" "time_ok (ker s)" "sortLink (swtmrSortLink s) = i # rest" "responseTime (swtmrSortLink s) i \<le> now (ker s)"
    and "ucMode (g_swtmrCBArray s i) = LOS_SWTMR_MODE_ONCE"
  defines "w \<equiv> usTimerID (g_swtmrCBArray s i)" and "t \<equiv> scan_step i s"
  shows "i \<in> set (g_swtmrFreeList t) \<and> i \<notin> set (sortLink (swtmrSortLink t)) \<and>
    LOS_SwtmrStart w t = (LOS_ERRNO_SWTMR_ID_INVALID, t) \<and> LOS_SwtmrStop w t = (LOS_ERRNO_SWTMR_ID_INVALID, t) \<and>
    LOS_SwtmrDelete w t = (LOS_ERRNO_SWTMR_ID_INVALID, t) \<and> fst (LOS_SwtmrTimeGet w True t) = LOS_ERRNO_SWTMR_ID_INVALID"
proof -
  have i: "i \<in> set (sortLink (swtmrSortLink s))" using assms(3) by simp
  have i2: "i < 1024" using swt_invD(6) [OF assms(1)] i by simp
  have ok: "w < OS_SWTMR_MAX_TIMERID" "swtmr_cbid w = i" using swt_invD(4) [OF assms(1) i2] by (simp_all add: cb_ok_def w_def)
  have inv: "swt_inv t" unfolding t_def using inv_scan_step(1) [OF assms(1,2) i assms(4)] .
  have c: "ucState (g_swtmrCBArray t i) = OS_SWTMR_STATUS_UNUSED"
    "usTimerID (g_swtmrCBArray t i) = (if w < OS_SWTMR_MAX_TIMERID - SWTMR_LIMIT then w + SWTMR_LIMIT else w mod SWTMR_LIMIT)"
    using assms(5) by (simp_all add: t_def w_def scan_step_def SwtmrWake_def Let_def SwtmrDelete_def)
  then have "usTimerID (g_swtmrCBArray t (swtmr_cbid w)) \<noteq> w" using cbid_next(3) [OF ok(1)] ok(2) by simp
  then show ?thesis using swt_invD(6,7) [OF inv, of i] c(1) i2
    by (simp add: LOS_SwtmrStart_def LOS_SwtmrStop_def LOS_SwtmrDelete_def LOS_SwtmrTimeGet_def Let_def)
qed

theorem swtmr_once_witness:
  "LOS_SwtmrDelete 0 (scan_step 0 (swtmr_late LOS_SWTMR_MODE_ONCE)) = (LOS_ERRNO_SWTMR_ID_INVALID, scan_step 0 (swtmr_late LOS_SWTMR_MODE_ONCE))"
proof -
  note f = swtmr_late_facts [of LOS_SWTMR_MODE_ONCE, simplified]
  show ?thesis using swtmr_once [OF f(1-3) _ f(5)] by (simp add: f)
qed

section \<open>Calls\<close>

lemma start_result:
  assumes inv: "swt_inv s" and k: "time_ok (ker s)" and i: "i < 1024" "ucState (g_swtmrCBArray s i) = OS_SWTMR_STATUS_CREATED"
  shows "ucState (g_swtmrCBArray (SwtmrStart i s) i) = OS_SWTMR_STATUS_TICKING"
    "unat (responseTime (swtmrSortLink (SwtmrStart i s)) i) =
      unat (now (ker s)) + unat (uwInterval (g_swtmrCBArray s i)) * unat (OS_CYCLE_PER_TICK (ker s))"
proof -
  let ?c = "g_swtmrCBArray s i" and ?s = "upd_swtmr i (\<lambda>c. c\<lparr>swt_startTime := now (ker s)\<rparr>) s"
  have eq: "SwtmrStart i s = SwtmrAdjustCheck (fst (SwtmrToStart i ?s)) (snd (SwtmrToStart i ?s))"
    by (simp add: SwtmrStart_def Let_def case_prod_beta OsGetCurrSchedTimeCycle_def)
  have ok: "cb_ok i ?c" using swt_invD(4) [OF inv i(1)] .
  have t: "swtmr_ticks (g_swtmrCBArray ?s i) = uwInterval ?c" using ok i(2) by (simp add: swtmr_ticks_def cb_ok_def)
  have z: "uwInterval ?c \<noteq> 0" using ok i(2) by (simp add: cb_ok_def)
  have r: "unat (fst (SwtmrToStart i ?s)) = unat (now (ker s)) + unat (uwInterval ?c) * unat (OS_CYCLE_PER_TICK (ker s))"
    using to_start_time(1) [of ?s i] k z by (simp add: t [simplified])
  show "ucState (g_swtmrCBArray (SwtmrStart i s) i) = OS_SWTMR_STATUS_TICKING"
    unfolding eq adjust_frame by (simp add: SwtmrToStart_def Let_def AddSwtmr2TimeList_def)
  show "unat (responseTime (swtmrSortLink (SwtmrStart i s)) i) =
      unat (now (ker s)) + unat (uwInterval ?c) * unat (OS_CYCLE_PER_TICK (ker s))"
    unfolding eq adjust_frame to_start_frame using r by simp
qed

lemma stop_result:
  assumes inv: "swt_inv s" and i: "i < 1024" "ucState (g_swtmrCBArray s i) = OS_SWTMR_STATUS_TICKING"
  shows "set (sortLink (swtmrSortLink (SwtmrStop i s))) = set (sortLink (swtmrSortLink s)) - {i}"
    "uwInterval (g_swtmrCBArray (SwtmrStop i s) i) = uwInterval (g_swtmrCBArray s i)" "g_swtmrFreeList (SwtmrStop i s) = g_swtmrFreeList s"
proof -
  have m: "i \<in> set (sortLink (swtmrSortLink s))" using swt_invD(6) [OF inv] i by simp
  show "set (sortLink (swtmrSortLink (SwtmrStop i s))) = set (sortLink (swtmrSortLink s)) - {i}"
    using sl_ok_del(2,3) [OF swt_invD(1) [OF inv] m] swt_invD(2) [OF inv]
    by (simp add: SwtmrStop_def DeSwtmrFromTimeList_def)
qed (simp_all add: SwtmrStop_def DeSwtmrFromTimeList_def)

lemma delete_result:
  "set (sortLink (swtmrSortLink (SwtmrDelete i s))) = set (sortLink (swtmrSortLink s))"
  "g_swtmrFreeList (SwtmrDelete i s) = g_swtmrFreeList s @ [i]"
  "g_swtmrCBArray (SwtmrDelete i s) = (g_swtmrCBArray s)
     (i := (g_swtmrCBArray s i)\<lparr>ucState := OS_SWTMR_STATUS_UNUSED, uwOwnerPid := None\<rparr>)"
  by (simp_all add: SwtmrDelete_def)

text \<open>
  C30. What the calls do to a timer, and their errors. An identifier that is out of range or not the present one of its control block is
  refused. Starting a timer that is created or ticking makes it expire its interval from now; stopping takes a ticking timer out of the time
  queue; deleting a timer that is in use returns its control block to the free list. A call with an error changes nothing.
\<close>

theorem swtmr_calls:
  assumes "swt_inv s" "time_ok (ker s)"
  shows "let i = swtmr_cbid w; c = g_swtmrCBArray s i; known = (w < OS_SWTMR_MAX_TIMERID \<and> usTimerID c = w);
      error = (if \<not> known then LOS_ERRNO_SWTMR_ID_INVALID else LOS_ERRNO_SWTMR_NOT_CREATED)
    in (let (ret, t) = LOS_SwtmrStart w s
        in if known \<and> ucState c \<noteq> OS_SWTMR_STATUS_UNUSED
           then ret = 0 \<and> ucState (g_swtmrCBArray t i) = OS_SWTMR_STATUS_TICKING \<and>
             unat (responseTime (swtmrSortLink t) i) = unat (now (ker s)) + unat (uwInterval c) * unat (OS_CYCLE_PER_TICK (ker s))
           else ret = error \<and> t = s) \<and>
       (let (ret, t) = LOS_SwtmrStop w s
        in if known \<and> ucState c = OS_SWTMR_STATUS_TICKING
           then ret = 0 \<and> ucState (g_swtmrCBArray t i) = OS_SWTMR_STATUS_CREATED \<and>
             set (sortLink (swtmrSortLink t)) = set (sortLink (swtmrSortLink s)) - {i}
           else ret = (if known \<and> ucState c = OS_SWTMR_STATUS_CREATED then LOS_ERRNO_SWTMR_NOT_STARTED else error) \<and> t = s) \<and>
       (let (ret, t) = LOS_SwtmrDelete w s
        in if known \<and> ucState c \<noteq> OS_SWTMR_STATUS_UNUSED
           then ret = 0 \<and> ucState (g_swtmrCBArray t i) = OS_SWTMR_STATUS_UNUSED \<and> g_swtmrFreeList t = g_swtmrFreeList s @ [i] \<and>
             set (sortLink (swtmrSortLink t)) = set (sortLink (swtmrSortLink s)) - {i}
           else ret = error \<and> t = s)"
proof -
  let ?i = "swtmr_cbid w"
  let ?c = "g_swtmrCBArray s ?i"
  have st: "ucState ?c = 0 \<or> ucState ?c = 1 \<or> ucState ?c = 2" using swt_invD(4) [OF assms(1) cbid_lt [of w]] by (simp add: cb_ok_def)
  show ?thesis
  proof (cases "w < OS_SWTMR_MAX_TIMERID \<and> usTimerID ?c = w")
    case False
    then show ?thesis by (auto simp: LOS_SwtmrStart_def LOS_SwtmrStop_def LOS_SwtmrDelete_def Let_def not_le)
  next
    case k: True
    consider "ucState ?c = 0" | "ucState ?c = 1" | "ucState ?c = 2" using st by blast
    then show ?thesis
    proof cases
      case 1
      then show ?thesis using k by (simp add: LOS_SwtmrStart_def LOS_SwtmrStop_def LOS_SwtmrDelete_def Let_def not_le)
    next
      case 2
      have "?i \<notin> set (sortLink (swtmrSortLink s))" using swt_invD(6) [OF assms(1)] 2 by simp
      then show ?thesis using k 2 start_result [OF assms cbid_lt 2]
        by (simp add: LOS_SwtmrStart_def LOS_SwtmrStop_def LOS_SwtmrDelete_def Let_def not_le delete_result)
    next
      case 3
      note p = inv_stop [OF assms(1) cbid_lt 3] and q = stop_result [OF assms(1) cbid_lt 3]
      show ?thesis using k 3 p(2) q start_result [OF p(1) _ cbid_lt p(2)] assms(2) p(3)
        by (simp add: LOS_SwtmrStart_def LOS_SwtmrStop_def LOS_SwtmrDelete_def Let_def not_le delete_result)
    qed
  qed
qed

theorem swtmr_calls_witness:
  "fst (LOS_SwtmrStop 0 (swtmr_late LOS_SWTMR_MODE_ONCE)) = 0 \<and> fst (LOS_SwtmrStart 5 (swtmr_late LOS_SWTMR_MODE_ONCE)) = 0x02000306"
proof -
  note f = swtmr_late_facts [of LOS_SWTMR_MODE_ONCE, simplified]
  have "ucState (g_swtmrCBArray (swtmr_late 0) 0) = 2" using swt_invD(6) [OF f(1), of 0] f(3) by simp
  then show ?thesis using swtmr_calls [OF f(1,2), of 0] swtmr_calls [OF f(1,2), of 5] f(8,9)
    by (auto simp: Let_def case_prod_beta swtmr_cbid_nat swtmr_cb0_def)
qed

section \<open>Recycling and the start of the scheduler\<close>

lemma recycle_one_cb:
  assumes inv: "swt_inv s" and i: "i < 1024"
  shows "g_swtmrCBArray (recycle_one p i s) = (g_swtmrCBArray s)(i := (let c = g_swtmrCBArray s i
    in if uwOwnerPid c = Some p \<and> usTimerID c = of_nat i
       then c\<lparr>uwOverrun := (if ucState c = OS_SWTMR_STATUS_TICKING then 0 else uwOverrun c), ucState := OS_SWTMR_STATUS_UNUSED, uwOwnerPid := None\<rparr> else c))"
proof -
  let ?c = "g_swtmrCBArray s i"
  have ok: "cb_ok i ?c" using swt_invD(4) [OF inv i] .
  have w: "swtmr_cbid (of_nat i) = i" "of_nat i < (OS_SWTMR_MAX_TIMERID :: u16)"
    using i by (simp_all add: swtmr_cbid_nat word_less_nat_alt unat_of_nat take_bit_nat_eq_self)
  have d: "g_swtmrCBArray (snd (LOS_SwtmrDelete (of_nat i) s)) = (g_swtmrCBArray s)(i := (if usTimerID ?c = of_nat i
       then ?c\<lparr>uwOverrun := (if ucState ?c = OS_SWTMR_STATUS_TICKING then 0 else uwOverrun ?c), ucState := OS_SWTMR_STATUS_UNUSED, uwOwnerPid := None\<rparr> else ?c))"
    if "uwOwnerPid ?c = Some p"
  proof -
    have st: "ucState ?c = OS_SWTMR_STATUS_CREATED \<or> ucState ?c = OS_SWTMR_STATUS_TICKING" using ok that by (auto simp: cb_ok_def split: if_splits)
    have "\<not> of_nat i \<ge> (OS_SWTMR_MAX_TIMERID :: u16)" using w(2) by simp
    then show ?thesis using st by (elim disjE) (simp_all add: LOS_SwtmrDelete_def Let_def w(1) SwtmrDelete_def SwtmrStop_def DeSwtmrFromTimeList_def)
  qed
  then show ?thesis by (simp add: recycle_one_def Let_def)
qed

lemma recycle_fold_cb:
  assumes "swt_inv s" "time_ok (ker s)" "distinct is" "\<forall>i\<in>set is. i < 1024"
  shows "g_swtmrCBArray (fold (recycle_one p) is s) i = (let c = g_swtmrCBArray s i
    in if i \<in> set is \<and> uwOwnerPid c = Some p \<and> usTimerID c = of_nat i
       then c\<lparr>uwOverrun := (if ucState c = OS_SWTMR_STATUS_TICKING then 0 else uwOverrun c), ucState := OS_SWTMR_STATUS_UNUSED, uwOwnerPid := None\<rparr> else c)"
  using assms
proof (induction "is" arbitrary: s)
  case (Cons j "is")
  have n: "swt_inv (recycle_one p j s)" "time_ok (ker (recycle_one p j s))"
    using inv_recycle [OF Cons.prems(1,2), of p "[j]"] Cons.prems(2) by simp_all
  have ih: "g_swtmrCBArray (fold (recycle_one p) is (recycle_one p j s)) i = (let c = g_swtmrCBArray (recycle_one p j s) i
    in if i \<in> set is \<and> uwOwnerPid c = Some p \<and> usTimerID c = of_nat i
       then c\<lparr>uwOverrun := (if ucState c = OS_SWTMR_STATUS_TICKING then 0 else uwOverrun c), ucState := OS_SWTMR_STATUS_UNUSED, uwOwnerPid := None\<rparr> else c)"
    using Cons.IH [OF n] Cons.prems(3,4) by simp
  show ?case using ih Cons.prems(3) recycle_one_cb [OF Cons.prems(1), of j p] Cons.prems(4) by (auto simp: Let_def)
qed simp

text \<open>
  C39. When a process ends, \<open>OsSwtmrRecycle\<close> deletes exactly those of its timers whose identifier is the index of their control block. It calls
  \<open>LOS_SwtmrDelete\<close> with the index, which is refused for a control block that was used by a one-shot timer before, because
  its identifier has changed: the timers of the process in such control blocks stay, and keep running.
\<close>

theorem swtmr_recycle:
  assumes "swt_inv s" "time_ok (ker s)" "i < 1024"
  shows "let c = g_swtmrCBArray s i; c' = g_swtmrCBArray (OsSwtmrRecycle p s) i
    in if uwOwnerPid c = Some p \<and> usTimerID c = of_nat i
       then ucState c' = OS_SWTMR_STATUS_UNUSED \<and> i \<in> set (g_swtmrFreeList (OsSwtmrRecycle p s))
       else c' = c"
proof -
  have "swt_inv (OsSwtmrRecycle p s)" using inv_recycle [OF assms(1,2)] by (simp add: OsSwtmrRecycle_def)
  note fr = swt_invD(7) [OF this, of i]
  have "distinct [0..<1024 :: nat]" "\<forall>i\<in>set [0..<1024 :: nat]. i < 1024" by auto
  from recycle_fold_cb [OF assms(1,2) this, of p i] show ?thesis using assms(3) fr by (auto simp: OsSwtmrRecycle_def Let_def)
qed

text \<open>After a one-shot timer has expired, its control block is at the end of the free list. Here it is in use again.\<close>

definition swtmr_reused :: swtmr_sys where
  "swtmr_reused = upd_swtmr 0 (\<lambda>c. c\<lparr>usTimerID := if usTimerID c < OS_SWTMR_MAX_TIMERID - SWTMR_LIMIT then usTimerID c + SWTMR_LIMIT
     else usTimerID c mod SWTMR_LIMIT\<rparr>) (swtmr_late LOS_SWTMR_MODE_PERIOD)"

theorem swtmr_recycle_witness:
  "let p = processCB (tcb k_boot (currTask k_boot))
   in uwOwnerPid (g_swtmrCBArray swtmr_reused 0) = Some p \<and>
     g_swtmrCBArray (OsSwtmrRecycle p swtmr_reused) 0 = g_swtmrCBArray swtmr_reused 0 \<and>
     ucState (g_swtmrCBArray (OsSwtmrRecycle p swtmr_reused) 0) = OS_SWTMR_STATUS_TICKING"
proof -
  note f = swtmr_late_facts [of LOS_SWTMR_MODE_PERIOD, simplified]
  have inv: "swt_inv swtmr_reused" unfolding swtmr_reused_def using f(1) by (rule inv_next_id)
  have k: "time_ok (ker swtmr_reused)" using f(2) by (simp add: swtmr_reused_def)
  have u: "usTimerID (g_swtmrCBArray swtmr_reused 0) = 1024" by (simp add: swtmr_reused_def f(8))
  have o: "uwOwnerPid (g_swtmrCBArray swtmr_reused 0) = Some (processCB (tcb k_boot (currTask k_boot)))" by (simp add: swtmr_reused_def f(10))
  have s: "ucState (g_swtmrCBArray swtmr_reused 0) = 2" using swt_invD(6) [OF inv, of 0] f(3) by (simp add: swtmr_reused_def)
  show ?thesis using swtmr_recycle [OF inv k, of 0 "processCB (tcb k_boot (currTask k_boot))"] u s o by (simp add: Let_def)
qed

lemma pstNext_last: "i \<notin> set xs \<Longrightarrow> pstNext_in (xs @ [i]) i = None"
proof (induction xs)
  case (Cons x xs)
  then show ?case by (cases xs) auto
qed simp

lemma restart_link:
  assumes inv: "swt_inv s" and k: "time_ok (ker s)" and l: "sortLink (swtmrSortLink s) = i # rest" and st: "st \<le> now (ker s)"
  defines "p \<equiv> unat (uwInterval (g_swtmrCBArray s i)) * unat (OS_CYCLE_PER_TICK (ker s))"
  assumes "unat (now (ker s)) \<le> unat st + p" and late: "\<forall>j\<in>set rest. unat (responseTime (swtmrSortLink s) j) < unat st + p" and "rest \<noteq> []"
  defines "t \<equiv> SwtmrRestart st i (s\<lparr>swtmrSortLink := OsDeleteNodeSortLink i (swtmrSortLink s)\<rparr>)"
  shows "sortLink (swtmrSortLink t) = rest @ [i]" "unat (responseTime (swtmrSortLink t) i) = unat st + p"
    "\<forall>j\<in>set rest. responseTime (swtmrSortLink t) j = responseTime (swtmrSortLink s) j \<and> g_swtmrCBArray t j = g_swtmrCBArray s j"
proof -
  let ?q = "OsDeleteNodeSortLink i (swtmrSortLink s)"
  let ?s = "upd_swtmr i (\<lambda>c. c\<lparr>swt_startTime := st\<rparr>) (s\<lparr>swtmrSortLink := ?q\<rparr>)" and ?c = "g_swtmrCBArray s i"
  have m: "i \<in> set (sortLink (swtmrSortLink s))" using l by simp
  note d = sl_ok_del [OF swt_invD(1) [OF inv] m]
  have dist: "distinct (i # rest)" using swt_invD(2) [OF inv] l by simp
  have q: "sortLink ?q = rest" using d(2) l by simp
  have i: "i < 1024" "ucState ?c = OS_SWTMR_STATUS_TICKING" using swt_invD(6) [OF inv] m by simp_all
  have ok: "cb_ok i ?c" using swt_invD(4) [OF inv i(1)] .
  have tk: "swtmr_ticks (?c\<lparr>swt_startTime := st\<rparr>) = uwInterval ?c" "uwInterval ?c \<noteq> 0"
    using ok i(2) by (simp_all add: swtmr_ticks_def cb_ok_def)
  let ?r = "fst (SwtmrToStart i ?s)"
  have r: "unat ?r = unat st + p" using to_start_time(1) [of ?s i] k st tk assms(6) by (simp add: p_def)
  have t: "t = snd (SwtmrToStart i ?s)" by (simp add: t_def SwtmrRestart_def)
  have link: "swtmrSortLink t = OsAdd2SortLink i ?r ?q" unfolding t to_start_frame(1) by simp
  have rt: "responseTime ?q j = responseTime (swtmrSortLink s) j" if "j \<in> set rest" for j
    using that dist by (auto simp: OsDeleteNodeSortLink_def SET_SORTLIST_VALUE_def)
  have lt: "responseTime ?q j < ?r" if "j \<in> set rest" for j using late rt that r by (simp add: word_less_nat_alt)
  have "sl_position ((responseTime ?q)(i := ?r)) i ?r rest = rest @ [i]"
  proof -
    obtain x xs where x: "rest = x # xs" using \<open>rest \<noteq> []\<close> by (cases rest) auto
    have "[y \<leftarrow> rest. ((responseTime ?q)(i := ?r)) y \<le> ?r] = rest" using lt dist by (intro filter_True) (auto intro: less_imp_le)
    moreover have "[y \<leftarrow> rest. ?r < ((responseTime ?q)(i := ?r)) y] = []" using lt dist by (intro filter_False) (auto simp: not_less intro: less_imp_le)
    moreover have "((responseTime ?q)(i := ?r)) x \<noteq> ?r" using lt [of x] x dist by auto
    ultimately show ?thesis unfolding sl_position_def x by (simp only: list.case if_False)
  qed
  moreover have "OsAdd2SortLink i ?r ?q = (SET_SORTLIST_VALUE i ?r ?q)\<lparr>sortLink := sl_position ((responseTime ?q)(i := ?r)) i ?r rest, nodeNum := nodeNum ?q + 1\<rparr>"
  proof -
    have "distinct rest" "sorted (map ((responseTime ?q)(i := ?r)) rest)" using d(1) q dist by (simp_all add: sl_ok_def)
    then show ?thesis using AddNode_sortLink [of "SET_SORTLIST_VALUE i ?r ?q" i] q by (simp add: OsAdd2SortLink_def SET_SORTLIST_VALUE_def)
  qed
  ultimately show "sortLink (swtmrSortLink t) = rest @ [i]" by (simp add: link)
  show "unat (responseTime (swtmrSortLink t) i) = unat st + p" by (simp add: link r)
  have "g_swtmrCBArray t j = g_swtmrCBArray s j" if "j \<noteq> i" for j using that by (simp add: t SwtmrToStart_def Let_def AddSwtmr2TimeList_def)
  then show "\<forall>j\<in>set rest. responseTime (swtmrSortLink t) j = responseTime (swtmrSortLink s) j \<and> g_swtmrCBArray t j = g_swtmrCBArray s j"
    using rt dist by (auto simp: link)
qed

text \<open>
  C40. \<open>OsSwtmrResponseTimeReset\<close>, called when the scheduler starts, is to count the time of all running timers from that moment. But it follows
  the list from the new place of the timer it has just moved: if the first timer goes to the end of the list, all the others are skipped and keep their old times.
\<close>

theorem swtmr_reset_skips:
  assumes "swt_inv s" "time_ok (ker s)" "sortLink (swtmrSortLink s) = i # rest" "st \<le> now (ker s)" "rest \<noteq> []"
    and "unat (now (ker s)) \<le> unat st + unat (uwInterval (g_swtmrCBArray s i)) * unat (OS_CYCLE_PER_TICK (ker s))"
    and "\<forall>j\<in>set rest. unat (responseTime (swtmrSortLink s) j) <
      unat st + unat (uwInterval (g_swtmrCBArray s i)) * unat (OS_CYCLE_PER_TICK (ker s))"
  shows "\<exists>t. OsSwtmrResponseTimeReset st s = Some t \<and> sortLink (swtmrSortLink t) = rest @ [i] \<and>
    (\<forall>j\<in>set rest. responseTime (swtmrSortLink t) j = responseTime (swtmrSortLink s) j \<and> g_swtmrCBArray t j = g_swtmrCBArray s j)"
proof -
  let ?t = "SwtmrRestart st i (s\<lparr>swtmrSortLink := OsDeleteNodeSortLink i (swtmrSortLink s)\<rparr>)"
  note r = restart_link [OF assms(1-4,6,7,5)]
  have "i \<notin> set rest" using swt_invD(2) [OF assms(1)] assms(3) by simp
  then have n: "pstNext_in (sortLink (swtmrSortLink ?t)) i = None" using r(1) pstNext_last by simp
  have "OsSwtmrResponseTimeReset st s = reset_loop st (Some i) s" using assms(3) by (simp add: OsSwtmrResponseTimeReset_def sl_first_def)
  also have "\<dots> = reset_loop st None ?t" by (subst reset_loop.simps) (simp add: Let_def n)
  also have "\<dots> = Some ?t" by (subst reset_loop.simps) simp
  finally show ?thesis using r by blast
qed

text \<open>Two timers of ten and eleven ticks were started at time zero; the scheduler starts at time 2500000.\<close>

definition swtmr_two :: swtmr_sys where
  "swtmr_two = swtmr_on\<lparr>ker := k_boot\<lparr>now := 2500000\<rparr>, g_swtmrFreeList := [i \<leftarrow> [0..<1024]. 2 \<le> i],
     g_swtmrCBArray := (\<lambda>i. if i < 2 then swtmr_cb0\<lparr>usTimerID := of_nat i, ucState := OS_SWTMR_STATUS_TICKING, ucMode := LOS_SWTMR_MODE_PERIOD,
         uwInterval := 10 + of_nat i, uwExpiry := 10 + of_nat i, pfnHandler := 77\<rparr>
       else swtmr_cb0\<lparr>usTimerID := of_nat i\<rparr>),
     swtmrSortLink := \<lparr>sortLink = [0, 1], nodeNum = 2, responseTime = (\<lambda>i. 0)(0 := 2400000, 1 := 2640000), sl_fault = False\<rparr>\<rparr>"

lemma swtmr_two_inv: "swt_inv swtmr_two"
proof (rule swt_invI)
  show "sl_ok (swtmrSortLink swtmr_two)" by (simp add: swtmr_two_def sl_ok_def OS_SORT_LINK_INVALID_TIME_def)
  show "lists_match (g_swtmrFreeList swtmr_two) (sortLink (swtmrSortLink swtmr_two)) (\<lambda>i. ucState (g_swtmrCBArray swtmr_two i))"
    by (auto simp: swtmr_two_def lists_match_def swtmr_cb0_def)
  show "cb_ok i (g_swtmrCBArray swtmr_two i)" if "i < 1024" for i
  proof (cases "i < 2")
    case True
    then have "i = 0 \<or> i = 1" by linarith
    then show ?thesis by (elim disjE) (simp_all add: swtmr_two_def cb_ok_def swtmr_cb0_def swtmr_cbid_nat)
  next
    case False
    then show ?thesis using that
      by (simp add: swtmr_two_def cb_ok_def swtmr_cb0_def swtmr_cbid_nat word_less_nat_alt unat_of_nat take_bit_nat_eq_self)
  qed
  have "\<not> asserted k_boot" by (simp add: k_boot_def)
  moreover have "ker swtmr_on = k_boot" using init_eq(2) [of "0x1000" swtmr_off] by (simp add: swtmr_on_def swtmr_off_def)
  ultimately have "handlers_ok swtmr_on" using swt_invD(5) [OF swtmr_on_inv(1)] by simp
  then show "asserted (ker swtmr_two) \<or> handlers_ok swtmr_two" by (simp add: swtmr_two_def handlers_ok_def)
qed

theorem swtmr_reset_skips_witness:
  "\<exists>t. OsSwtmrResponseTimeReset 2500000 swtmr_two = Some t \<and> sortLink (swtmrSortLink t) = [1, 0] \<and> responseTime (swtmrSortLink t) 1 = 2640000"
proof -
  have k: "time_ok (ker swtmr_two)" "OS_CYCLE_PER_TICK (ker swtmr_two) = 240000" "now (ker swtmr_two) = 2500000"
    by (simp_all add: swtmr_two_def time_ok_def k_boot_def OS_CYCLE_PER_TICK_def)
  have l: "sortLink (swtmrSortLink swtmr_two) = 0 # [1]" "uwInterval (g_swtmrCBArray swtmr_two 0) = 10"
    "responseTime (swtmrSortLink swtmr_two) 1 = 2640000" by (simp_all add: swtmr_two_def swtmr_cb0_def)
  show ?thesis using swtmr_reset_skips [OF swtmr_two_inv k(1) l(1), of 2500000] by (simp add: k l l(3) [simplified]) blast
qed

end
