(* ===== verification/Cir_Buf.thy ===== *)
theory Cir_Buf
  imports Kernel_Prelude
begin

text \<open>
  The circular buffer of \<^verbatim>\<open>lib/libscrew/src/los_cir_buf.c\<close>: a byte array with a start and an end index and
  the number of free bytes. It refines a bounded sequence of bytes, written at the end and read at the
  front. \<open>memcpy_s\<close> is the function of the C library (Annex K): it copies if the count is at most the size of the
  destination, and refuses a destination larger than its bound \<open>RSIZE_MAX\<close>, a parameter here. The
  spin lock is not there on one processor.
\<close>

section \<open>Operations\<close>

datatype CirBufStatus = CBUF_UNUSED | CBUF_USED

record CirBuf =
  startIdx :: u32
  endIdx :: u32
  bufSize :: u32
  remain :: u32
  status :: CirBufStatus
  fifo :: "(nat \<Rightarrow> u8) option"

definition memcpy_s_ok :: "u32 \<Rightarrow> u32 \<Rightarrow> u32 \<Rightarrow> bool" where
  "memcpy_s_ok RSIZE_MAX destMax cnt \<longleftrightarrow> destMax \<le> RSIZE_MAX \<and> cnt \<le> destMax"

definition fifo_copy_in :: "nat \<Rightarrow> u8 list \<Rightarrow> CirBuf \<Rightarrow> CirBuf" where
  "fifo_copy_in i bs c = c\<lparr>fifo := map_option (mem_write i bs) (fifo c)\<rparr>"

definition fifo_copy_out :: "nat \<Rightarrow> nat \<Rightarrow> CirBuf \<Rightarrow> u8 list" where
  "fifo_copy_out i n c = (case fifo c of None \<Rightarrow> [] | Some m \<Rightarrow> mem_read i n m)"

definition LOS_CirBufUsedSize :: "CirBuf \<Rightarrow> u32" where
  "LOS_CirBufUsedSize c = bufSize c - remain c"

definition OsCirBufWriteLinear :: "u32 \<Rightarrow> u8 list \<Rightarrow> u32 \<Rightarrow> CirBuf \<Rightarrow> u32 \<times> CirBuf" where
  "OsCirBufWriteLinear RSIZE_MAX buf sz c =
     (let cpSize = (if remain c < sz then remain c else sz)
      in if cpSize = 0 then (0, c)
         else if \<not> memcpy_s_ok RSIZE_MAX (remain c) cpSize then (0, c)
         else (cpSize, (fifo_copy_in (unat (endIdx c)) (take (unat cpSize) buf) c)
                 \<lparr>remain := remain c - cpSize, endIdx := endIdx c + cpSize\<rparr>))"

definition OsCirBufWriteLoop :: "u32 \<Rightarrow> u8 list \<Rightarrow> u32 \<Rightarrow> CirBuf \<Rightarrow> u32 \<times> CirBuf" where
  "OsCirBufWriteLoop RSIZE_MAX buf sz c =
     (let right = bufSize c - endIdx c;
          cpSize = (if right < sz then right else sz)
      in if \<not> memcpy_s_ok RSIZE_MAX right cpSize then (0, c)
         else let c1 = (fifo_copy_in (unat (endIdx c)) (take (unat cpSize) buf) c)
                    \<lparr>remain := remain c - cpSize, endIdx := endIdx c + cpSize\<rparr>;
                  c2 = (if endIdx c1 = bufSize c1 then c1\<lparr>endIdx := 0\<rparr> else c1)
              in if cpSize = sz then (sz, c2)
                 else let (n, c3) = OsCirBufWriteLinear RSIZE_MAX (drop (unat cpSize) buf) (sz - cpSize) c2
                      in (cpSize + n, c3))"

definition LOS_CirBufWrite :: "u32 \<Rightarrow> CirBuf option \<Rightarrow> u8 list option \<Rightarrow> u32 \<Rightarrow> u32 \<times> CirBuf option" where
  "LOS_CirBufWrite RSIZE_MAX cirbufCB buf sz = (case (cirbufCB, buf) of
     (Some c, Some bs) \<Rightarrow>
       if sz = 0 \<or> status c \<noteq> CBUF_USED then (0, cirbufCB)
       else if fifo c = None \<or> remain c = 0 then (0, cirbufCB)
       else let (n, c1) = (if startIdx c \<le> endIdx c then OsCirBufWriteLoop RSIZE_MAX bs sz c
                           else OsCirBufWriteLinear RSIZE_MAX bs sz c)
            in (n, Some c1)
   | _ \<Rightarrow> (0, cirbufCB))"

text \<open>The functions that read also return the buffer of the caller.\<close>

definition OsCirBufReadLinear :: "u32 \<Rightarrow> u8 list \<Rightarrow> u32 \<Rightarrow> CirBuf \<Rightarrow> u32 \<times> u8 list \<times> CirBuf" where
  "OsCirBufReadLinear RSIZE_MAX buf sz c =
     (let rest = endIdx c - startIdx c;
          cpSize = (if rest < sz then rest else sz)
      in if cpSize = 0 then (0, buf, c)
         else if \<not> memcpy_s_ok RSIZE_MAX sz cpSize then (0, buf, c)
         else (cpSize, fifo_copy_out (unat (startIdx c)) (unat cpSize) c @ drop (unat cpSize) buf,
               c\<lparr>remain := remain c + cpSize, startIdx := startIdx c + cpSize\<rparr>))"

definition OsCirBufReadLoop :: "u32 \<Rightarrow> u8 list \<Rightarrow> u32 \<Rightarrow> CirBuf \<Rightarrow> u32 \<times> u8 list \<times> CirBuf" where
  "OsCirBufReadLoop RSIZE_MAX buf sz c =
     (let right = bufSize c - startIdx c;
          cpSize = (if right < sz then right else sz)
      in if \<not> memcpy_s_ok RSIZE_MAX sz cpSize then (0, buf, c)
         else let bytes = fifo_copy_out (unat (startIdx c)) (unat cpSize) c;
                  c1 = c\<lparr>remain := remain c + cpSize, startIdx := startIdx c + cpSize\<rparr>;
                  c2 = (if startIdx c1 = bufSize c1 then c1\<lparr>startIdx := 0\<rparr> else c1)
              in if cpSize < sz
                 then let (n, rest, c3) = OsCirBufReadLinear RSIZE_MAX (drop (unat cpSize) buf) (sz - cpSize) c2
                      in (cpSize + n, bytes @ rest, c3)
                 else (cpSize, bytes @ drop (unat cpSize) buf, c2))"

definition LOS_CirBufRead :: "u32 \<Rightarrow> CirBuf option \<Rightarrow> u8 list option \<Rightarrow> u32 \<Rightarrow> u32 \<times> u8 list option \<times> CirBuf option" where
  "LOS_CirBufRead RSIZE_MAX cirbufCB buf sz = (case (cirbufCB, buf) of
     (Some c, Some bs) \<Rightarrow>
       if sz = 0 \<or> status c \<noteq> CBUF_USED then (0, buf, cirbufCB)
       else if fifo c = None \<or> remain c = bufSize c then (0, buf, cirbufCB)
       else let (n, bs1, c1) = (if startIdx c \<ge> endIdx c then OsCirBufReadLoop RSIZE_MAX bs sz c
                                else OsCirBufReadLinear RSIZE_MAX bs sz c)
            in (n, Some bs1, Some c1)
   | _ \<Rightarrow> (0, buf, cirbufCB))"

definition LOS_CirBufInit :: "CirBuf option \<Rightarrow> (nat \<Rightarrow> u8) option \<Rightarrow> u32 \<Rightarrow> u32 \<times> CirBuf option" where
  "LOS_CirBufInit cirbufCB m sz = (case (cirbufCB, m) of
     (Some c, Some _) \<Rightarrow> (0, Some (c\<lparr>startIdx := 0, endIdx := 0, bufSize := sz, remain := sz, status := CBUF_USED, fifo := m\<rparr>))
   | _ \<Rightarrow> (1, cirbufCB))"

definition LOS_CirBufDeinit :: "CirBuf \<Rightarrow> CirBuf" where
  "LOS_CirBufDeinit c = c\<lparr>startIdx := 0, endIdx := 0, bufSize := 0, remain := 0, status := CBUF_UNUSED, fifo := None\<rparr>"

section \<open>The bytes in the ring\<close>

definition ring :: "(nat \<Rightarrow> u8) \<Rightarrow> nat \<Rightarrow> nat \<Rightarrow> nat \<Rightarrow> u8 list" where
  "ring m z s u = map (\<lambda>i. m ((s + i) mod z)) [0..<u]"

lemma length_ring [simp]: "length (ring m z s u) = u"
  by (simp add: ring_def)

lemma ring_mod: "ring m z (s mod z) u = ring m z s u"
  by (simp add: ring_def mod_add_left_eq)

lemma ring_write:
  assumes "s < z" "u + length bs \<le> z" "(s + u) mod z + length bs \<le> z"
  shows "ring (mem_write ((s + u) mod z) bs m) z s (u + length bs) = ring m z s u @ bs"
proof (rule nth_equalityI)
  fix i assume "i < length (ring (mem_write ((s + u) mod z) bs m) z s (u + length bs))"
  then have i: "i < u + length bs" by simp
  let ?e = "(s + u) mod z"
  show "ring (mem_write ?e bs m) z s (u + length bs) ! i = (ring m z s u @ bs) ! i"
  proof (cases "i < u")
    case True
    have "\<not> (?e \<le> (s + i) mod z \<and> (s + i) mod z < ?e + length bs)"
    proof
      assume a: "?e \<le> (s + i) mod z \<and> (s + i) mod z < ?e + length bs"
      define j where "j = (s + i) mod z - ?e"
      have j: "j < length bs" "?e + j = (s + i) mod z" using a by (auto simp: j_def)
      have "(s + (u + j)) mod z = (?e + j) mod z" by (simp add: mod_add_left_eq add.assoc)
      then have "(s + (u + j)) mod z = (s + i) mod z" using j(2) by simp
      then have "u + j = i" using ring_distance [of "u + j" z i s] j(1) i assms(2) by simp
      then show False using True by simp
    qed
    then show ?thesis using True i by (auto simp: ring_def mem_write_def nth_append)
  next
    case False
    define j where "j = i - u"
    have j: "i = u + j" "j < length bs" using False i by (auto simp: j_def)
    have "(s + i) mod z = (?e + j) mod z" by (simp add: j(1) mod_add_left_eq add.assoc)
    also have "\<dots> = ?e + j" using j(2) assms(3) by simp
    finally show ?thesis using j i by (simp add: ring_def mem_write_def nth_append)
  qed
qed simp

lemma ring_read:
  assumes "s + n \<le> z" "n \<le> u"
  shows "take n (ring m z s u) = mem_read s n m" "drop n (ring m z s u) = ring m z (s + n) (u - n)"
proof -
  show "take n (ring m z s u) = mem_read s n m"
    using assms by (intro nth_equalityI) (auto simp: ring_def mem_read_def)
  show "drop n (ring m z s u) = ring m z (s + n) (u - n)"
    using assms(2) by (intro nth_equalityI) (auto simp: ring_def add.assoc)
qed

section \<open>The buffer as a sequence\<close>

text \<open>\<open>cb_rep c xs\<close>: the buffer is set up and holds the bytes \<open>xs\<close>.\<close>

definition cb_rep :: "CirBuf \<Rightarrow> u8 list \<Rightarrow> bool" where
  "cb_rep c xs \<longleftrightarrow> status c = CBUF_USED \<and> length xs \<le> unat (bufSize c) \<and> unat (remain c) = unat (bufSize c) - length xs \<and>
     (if bufSize c = 0 then startIdx c = 0 \<and> endIdx c = 0
      else unat (startIdx c) < unat (bufSize c) \<and> unat (endIdx c) = (unat (startIdx c) + length xs) mod unat (bufSize c)) \<and>
     (\<exists>m. fifo c = Some m \<and> xs = ring m (unat (bufSize c)) (unat (startIdx c)) (length xs))"

lemma cb_repD:
  assumes "cb_rep c xs" "bufSize c \<noteq> 0"
  obtains m where "status c = CBUF_USED" "length xs \<le> unat (bufSize c)" "unat (remain c) = unat (bufSize c) - length xs"
    "unat (startIdx c) < unat (bufSize c)" "unat (endIdx c) = (unat (startIdx c) + length xs) mod unat (bufSize c)"
    "fifo c = Some m" "xs = ring m (unat (bufSize c)) (unat (startIdx c)) (length xs)"
  using assms unfolding cb_rep_def by auto

text \<open>The ends of a buffer that is not full: in order while the bytes do not pass the end of the array.\<close>

lemma cb_order:
  assumes "cb_rep c xs" "bufSize c \<noteq> 0"
  defines "z \<equiv> unat (bufSize c)" and "s \<equiv> unat (startIdx c)" and "e \<equiv> unat (endIdx c)" and "u \<equiv> length xs"
  shows "e < z" "s + u < z \<Longrightarrow> e = s + u" "z \<le> s + u \<Longrightarrow> e + z = s + u"
    "u < z \<Longrightarrow> startIdx c \<le> endIdx c \<longleftrightarrow> s + u < z" "0 < u \<Longrightarrow> endIdx c \<le> startIdx c \<longleftrightarrow> z \<le> s + u" "s < z"
proof -
  obtain m where D: "u \<le> z" "s < z" "e = (s + u) mod z"
    using assms(1,2) unfolding z_def s_def e_def u_def by (rule cb_repD) blast
  show e: "e < z" "s < z" using D by simp_all
  show a: "e = s + u" if "s + u < z" using D(3) that by simp
  show b: "e + z = s + u" if "z \<le> s + u"
  proof -
    have "s + u - z < z" using D(1,2) by simp
    then show ?thesis using D(3) that by (simp add: le_mod_geq)
  qed
  show "startIdx c \<le> endIdx c \<longleftrightarrow> s + u < z" if "u < z"
    using a b that D(2) unfolding word_le_nat_alt s_def [symmetric] e_def [symmetric] by (cases "s + u < z") auto
  show "endIdx c \<le> startIdx c \<longleftrightarrow> z \<le> s + u" if "0 < u"
    using a b that D(1,2) unfolding word_le_nat_alt s_def [symmetric] e_def [symmetric] by (cases "s + u < z") auto
qed

text \<open>One copy into the array, up to its end, and one copy out of it.\<close>

definition put :: "u32 \<Rightarrow> u8 list \<Rightarrow> CirBuf \<Rightarrow> CirBuf" where
  "put n buf c = (let c1 = (fifo_copy_in (unat (endIdx c)) (take (unat n) buf) c)\<lparr>remain := remain c - n, endIdx := endIdx c + n\<rparr>
     in if endIdx c1 = bufSize c1 then c1\<lparr>endIdx := 0\<rparr> else c1)"

definition get :: "u32 \<Rightarrow> CirBuf \<Rightarrow> CirBuf" where
  "get n c = (let c1 = c\<lparr>remain := remain c + n, startIdx := startIdx c + n\<rparr>
     in if startIdx c1 = bufSize c1 then c1\<lparr>startIdx := 0\<rparr> else c1)"

lemma put_get_size [simp]: "bufSize (put n buf c) = bufSize c" "bufSize (get n c) = bufSize c"
  by (simp_all add: put_def get_def fifo_copy_in_def Let_def)

lemma wrap_mod: "(a :: nat) + n \<le> z \<Longrightarrow> 0 < z \<Longrightarrow> (a + n) mod z = (if a + n = z then 0 else a + n)"
  by simp

lemma cb_put:
  assumes rep: "cb_rep c xs" and z: "bufSize c \<noteq> 0" and n: "length xs + unat n \<le> unat (bufSize c)"
    "unat (endIdx c) + unat n \<le> unat (bufSize c)" "unat n \<le> length buf"
  shows "cb_rep (put n buf c) (xs @ take (unat n) buf)"
proof -
  let ?z = "unat (bufSize c)" and ?s = "unat (startIdx c)" and ?bs = "take (unat n) buf" and ?c = "put n buf c"
  obtain m where D: "status c = CBUF_USED" "length xs \<le> ?z" "unat (remain c) = ?z - length xs"
    "?s < ?z" "unat (endIdx c) = (?s + length xs) mod ?z" "fifo c = Some m" "xs = ring m ?z ?s (length xs)"
    using rep z by (rule cb_repD)
  have l: "length ?bs = unat n" using n(3) by simp
  have e: "unat (endIdx c + n) = unat (endIdx c) + unat n" using unat_add_le n(2) .
  have eq: "endIdx c + n = bufSize c \<longleftrightarrow> unat (endIdx c) + unat n = ?z" by (simp add: word_unat_eq_iff e)
  have "unat (endIdx ?c) = (unat (endIdx c) + unat n) mod ?z"
    using D(4) n(2) e by (simp add: put_def Let_def fifo_copy_in_def eq)
  then have en: "unat (endIdx ?c) = (?s + length (xs @ ?bs)) mod ?z" using n(3) by (simp add: D(5) mod_add_left_eq add.assoc min_absorb2)
  have "ring (mem_write (unat (endIdx c)) ?bs m) ?z ?s (length (xs @ ?bs)) = xs @ ?bs"
    using ring_write [of ?s ?z "length xs" ?bs m] D(4,5,7) n(1,2) l by simp
  moreover have "fifo ?c = Some (mem_write (unat (endIdx c)) ?bs m)" by (simp add: put_def Let_def fifo_copy_in_def D(6))
  moreover have "unat (remain c - n) = ?z - length (xs @ ?bs)" using D(3) n(1) l by (simp add: unat_sub_if')
  moreover have "remain ?c = remain c - n" "status ?c = status c" "startIdx ?c = startIdx c"
    by (simp_all add: put_def Let_def fifo_copy_in_def)
  ultimately show ?thesis unfolding cb_rep_def using en D(1,4) z n(1) l by simp
qed

lemma cb_get:
  assumes rep: "cb_rep c xs" and z: "bufSize c \<noteq> 0" and n: "unat n \<le> length xs" "unat (startIdx c) + unat n \<le> unat (bufSize c)"
  shows "cb_rep (get n c) (drop (unat n) xs)" "fifo_copy_out (unat (startIdx c)) (unat n) c = take (unat n) xs"
proof -
  let ?z = "unat (bufSize c)" and ?s = "unat (startIdx c)" and ?c = "get n c"
  obtain m where D: "status c = CBUF_USED" "length xs \<le> ?z" "unat (remain c) = ?z - length xs"
    "?s < ?z" "unat (endIdx c) = (?s + length xs) mod ?z" "fifo c = Some m" "xs = ring m ?z ?s (length xs)"
    using rep z by (rule cb_repD)
  note r = ring_read [OF n(2,1), of m]
  show "fifo_copy_out ?s (unat n) c = take (unat n) xs" using r(1) D(6,7) by (simp add: fifo_copy_out_def)
  have e: "unat (startIdx c + n) = ?s + unat n" using unat_add_le n(2) .
  have eq: "startIdx c + n = bufSize c \<longleftrightarrow> ?s + unat n = ?z" by (simp add: word_unat_eq_iff e)
  have s: "unat (startIdx ?c) = (?s + unat n) mod ?z" using D(4) n(2) e by (simp add: get_def Let_def eq)
  have "drop (unat n) xs = ring m ?z (unat (startIdx ?c)) (length (drop (unat n) xs))"
    using r(2) D(7) by (simp add: s ring_mod)
  moreover have "unat (endIdx c) = (unat (startIdx ?c) + length (drop (unat n) xs)) mod ?z"
  proof -
    have "((?s + unat n) mod ?z + (length xs - unat n)) mod ?z = (?s + unat n + (length xs - unat n)) mod ?z" by (rule mod_add_left_eq)
    then show ?thesis using n(1) by (simp add: s D(5))
  qed
  moreover have "unat (remain c + n) = ?z - length (drop (unat n) xs)"
  proof -
    have "unat (remain c) + unat n \<le> ?z" using D(2,3) n(1) by simp
    then show ?thesis using unat_add_le [of "remain c" n "bufSize c"] D(2,3) n(1) by simp
  qed
  moreover have "remain ?c = remain c + n" "status ?c = status c" "endIdx ?c = endIdx c" "fifo ?c = Some m"
    using D(6) by (simp_all add: get_def Let_def)
  ultimately show "cb_rep ?c (drop (unat n) xs)" unfolding cb_rep_def using D(1,2,4) z s by simp
qed

section \<open>Writing and reading\<close>

lemma write_linear:
  assumes rep: "cb_rep c xs" and z: "bufSize c \<noteq> 0" and room: "unat (endIdx c) + unat (remain c) < unat (bufSize c)"
    and bound: "bufSize c \<le> R" and buf: "unat sz \<le> length buf"
  defines "n \<equiv> min (remain c) sz"
  shows "fst (OsCirBufWriteLinear R buf sz c) = n" "cb_rep (snd (OsCirBufWriteLinear R buf sz c)) (xs @ take (unat n) buf)"
proof -
  obtain m where D: "length xs \<le> unat (bufSize c)" "unat (remain c) = unat (bufSize c) - length xs"
    using rep z by (rule cb_repD) blast
  have cp: "(if remain c < sz then remain c else sz) = n" by (auto simp: n_def min_def)
  have n: "n \<le> remain c" "n \<le> sz" by (simp_all add: n_def)
  have "remain c \<le> bufSize c" using D(2) by (simp add: word_le_nat_alt)
  then have ok: "memcpy_s_ok R (remain c) n" using bound n(1) by (auto simp: memcpy_s_ok_def)
  have un: "unat n \<le> unat (remain c)" "unat n \<le> unat sz" using n by (simp_all add: word_le_nat_alt)
  have lt: "unat (endIdx c) + unat n < unat (bufSize c)" using un(1) room by simp
  then have "unat (endIdx c + n) \<noteq> unat (bufSize c)" using unat_add_le [of "endIdx c" n "bufSize c"] by simp
  then have p: "OsCirBufWriteLinear R buf sz c = (if n = 0 then (0, c) else (n, put n buf c))"
    using ok by (auto simp: OsCirBufWriteLinear_def cp put_def Let_def fifo_copy_in_def)
  have "cb_rep (put n buf c) (xs @ take (unat n) buf)"
    using cb_put [OF rep z, of n buf] un lt D buf by simp
  then show "fst (OsCirBufWriteLinear R buf sz c) = n" "cb_rep (snd (OsCirBufWriteLinear R buf sz c)) (xs @ take (unat n) buf)"
    using rep by (auto simp: p)
qed

lemma write_loop:
  assumes rep: "cb_rep c xs" and z: "bufSize c \<noteq> 0" and le: "startIdx c \<le> endIdx c" and room: "remain c \<noteq> 0"
    and bound: "bufSize c \<le> R" and buf: "unat sz \<le> length buf"
  defines "n \<equiv> min (remain c) sz"
  shows "fst (OsCirBufWriteLoop R buf sz c) = n" "cb_rep (snd (OsCirBufWriteLoop R buf sz c)) (xs @ take (unat n) buf)"
proof -
  let ?z = "unat (bufSize c)" and ?e = "unat (endIdx c)" and ?s = "unat (startIdx c)" and ?right = "bufSize c - endIdx c"
  obtain m where D: "length xs \<le> ?z" "unat (remain c) = ?z - length xs" "?s < ?z" using rep z by (rule cb_repD) blast
  note o = cb_order [OF rep z]
  have "0 < unat (remain c)" using room by (simp add: unat_gt_0)
  then have u: "length xs < ?z" using D by simp
  then have su: "?s + length xs < ?z" "?e = ?s + length xs" using o(2,4) le by auto
  have right: "unat ?right = ?z - ?e" using o(1) by (simp add: unat_sub_if')
  have rr: "?right \<le> remain c" using right D(2) su by (simp add: word_le_nat_alt)
  have "?right \<le> bufSize c" using right by (simp add: word_le_nat_alt)
  then have ok: "memcpy_s_ok R ?right (min ?right sz)" using bound by (auto simp: memcpy_s_ok_def)
  define p where "p = min ?right sz"
  have cp: "(if ?right < sz then ?right else sz) = p" by (auto simp: p_def min_def)
  have "p \<le> ?right" "p \<le> sz" by (simp_all add: p_def)
  then have up: "unat p \<le> ?z - ?e" "unat p \<le> unat sz" using right by (simp_all add: word_le_nat_alt)
  have rep1: "cb_rep (put p buf c) (xs @ take (unat p) buf)" using cb_put [OF rep z, of p buf] up su D buf by simp
  have eq: "OsCirBufWriteLoop R buf sz c = (if p = sz then (sz, put p buf c)
      else case OsCirBufWriteLinear R (drop (unat p) buf) (sz - p) (put p buf c) of (k, c3) \<Rightarrow> (p + k, c3))"
    using ok unfolding OsCirBufWriteLoop_def Let_def cp p_def [symmetric] put_def by simp
  show "fst (OsCirBufWriteLoop R buf sz c) = n" "cb_rep (snd (OsCirBufWriteLoop R buf sz c)) (xs @ take (unat n) buf)"
  proof (atomize (full), cases "p = sz")
    case True
    then have "n = p" using rr by (auto simp: n_def p_def min_def split: if_splits)
    then show "fst (OsCirBufWriteLoop R buf sz c) = n \<and> cb_rep (snd (OsCirBufWriteLoop R buf sz c)) (xs @ take (unat n) buf)"
      using rep1 True by (simp add: eq)
  next
    case False
    then have pr: "p = ?right" "?right < sz" by (auto simp: p_def min_def split: if_splits)
    let ?c = "put p buf c" and ?k = "min (remain (put p buf c)) (sz - p)"
    have c: "endIdx ?c = 0" "remain ?c = remain c - p" by (simp_all add: put_def Let_def fifo_copy_in_def pr(1))
    have "unat (remain c - p) = ?s" unfolding pr(1) unat_sub [OF rr] right using D su by simp
    then have rem: "unat (remain ?c) = ?s" by (simp only: c(2))
    have sub: "unat (sz - p) = unat sz - unat p" using pr by (simp add: unat_sub order_less_imp_le)
    have l: "unat (sz - p) \<le> length (drop (unat p) buf)" using sub buf by simp
    note w = write_linear [OF rep1, of R "sz - p" "drop (unat p) buf", unfolded put_get_size, OF z _ bound l]
    have room2: "unat (endIdx ?c) + unat (remain ?c) < ?z" using D(3) by (simp add: c(1) rem)
    have np: "n = p + ?k" unfolding n_def c(2) by (rule min_part) (use rr pr in auto)
    have "?k \<le> sz - p" by simp
    then have "unat p + unat ?k \<le> unat sz" using sub up(2) by (simp add: word_le_nat_alt)
    then have "unat n = unat p + unat ?k" unfolding np by (rule unat_add_le)
    then have "take (unat p) buf @ take (unat ?k) (drop (unat p) buf) = take (unat n) buf" by (simp add: take_add)
    then show "fst (OsCirBufWriteLoop R buf sz c) = n \<and> cb_rep (snd (OsCirBufWriteLoop R buf sz c)) (xs @ take (unat n) buf)"
      using w [OF room2] False np by (simp add: eq case_prod_beta)
  qed
qed

lemma read_linear:
  assumes rep: "cb_rep c xs" and z: "bufSize c \<noteq> 0" and lin: "unat (startIdx c) + length xs < unat (bufSize c)"
    and bound: "sz \<le> R" and buf: "length buf = unat sz"
  defines "n \<equiv> min (LOS_CirBufUsedSize c) sz"
  shows "fst (OsCirBufReadLinear R buf sz c) = n"
    "fst (snd (OsCirBufReadLinear R buf sz c)) = take (unat n) xs @ drop (unat n) buf"
    "cb_rep (snd (snd (OsCirBufReadLinear R buf sz c))) (drop (unat n) xs)"
proof -
  let ?z = "unat (bufSize c)" and ?s = "unat (startIdx c)"
  obtain m where D: "length xs \<le> ?z" "unat (remain c) = ?z - length xs" "?s < ?z" using rep z by (rule cb_repD) blast
  have e: "unat (endIdx c) = ?s + length xs" using cb_order(2) [OF rep z lin] .
  have u: "unat (LOS_CirBufUsedSize c) = length xs" using D(1,2) by (simp add: LOS_CirBufUsedSize_def unat_sub_if')
  have "unat (endIdx c - startIdx c) = length xs" using e by (simp add: unat_sub_if')
  then have "endIdx c - startIdx c = LOS_CirBufUsedSize c" using u by (simp add: word_unat_eq_iff)
  then have cp: "(if endIdx c - startIdx c < sz then endIdx c - startIdx c else sz) = n" by (auto simp: n_def min_def)
  have "n \<le> LOS_CirBufUsedSize c" "n \<le> sz" by (simp_all add: n_def)
  then have un: "unat n \<le> length xs" and ok: "memcpy_s_ok R sz n" using u bound by (simp_all add: word_le_nat_alt memcpy_s_ok_def)
  have lt: "?s + unat n < ?z" using un lin by simp
  then have "unat (startIdx c + n) \<noteq> ?z" using unat_add_le [of "startIdx c" n "bufSize c"] by simp
  then have p: "OsCirBufReadLinear R buf sz c = (if n = 0 then (0, buf, c)
      else (n, fifo_copy_out ?s (unat n) c @ drop (unat n) buf, get n c))"
    using ok by (auto simp: OsCirBufReadLinear_def cp get_def Let_def)
  note g = cb_get [OF rep z un less_imp_le [OF lt]]
  show "fst (OsCirBufReadLinear R buf sz c) = n"
    "fst (snd (OsCirBufReadLinear R buf sz c)) = take (unat n) xs @ drop (unat n) buf"
    "cb_rep (snd (snd (OsCirBufReadLinear R buf sz c))) (drop (unat n) xs)"
    using rep g by (auto simp: p)
qed

lemma read_loop:
  assumes rep: "cb_rep c xs" and z: "bufSize c \<noteq> 0" and lin: "unat (bufSize c) \<le> unat (startIdx c) + length xs"
    and bound: "sz \<le> R" and buf: "length buf = unat sz"
  defines "n \<equiv> min (LOS_CirBufUsedSize c) sz"
  shows "fst (OsCirBufReadLoop R buf sz c) = n"
    "fst (snd (OsCirBufReadLoop R buf sz c)) = take (unat n) xs @ drop (unat n) buf"
    "cb_rep (snd (snd (OsCirBufReadLoop R buf sz c))) (drop (unat n) xs)"
proof -
  let ?z = "unat (bufSize c)" and ?s = "unat (startIdx c)" and ?right = "bufSize c - startIdx c"
  obtain m where D: "length xs \<le> ?z" "unat (remain c) = ?z - length xs" "?s < ?z" using rep z by (rule cb_repD) blast
  have u: "unat (LOS_CirBufUsedSize c) = length xs" using D(1,2) by (simp add: LOS_CirBufUsedSize_def unat_sub_if')
  have right: "unat ?right = ?z - ?s" using D(3) by (simp add: unat_sub_if')
  have ru: "?right \<le> LOS_CirBufUsedSize c" using right u lin by (simp add: word_le_nat_alt)
  define p where "p = min ?right sz"
  have cp: "(if ?right < sz then ?right else sz) = p" by (auto simp: p_def min_def)
  have p: "p \<le> ?right" "p \<le> sz" by (simp_all add: p_def)
  then have up: "?s + unat p \<le> ?z" "unat p \<le> length xs" "unat p \<le> unat sz" and ok: "memcpy_s_ok R sz p"
    using right D lin bound by (simp_all add: word_le_nat_alt memcpy_s_ok_def)
  note g = cb_get [OF rep z up(2,1)]
  have eq: "OsCirBufReadLoop R buf sz c = (if p < sz
      then case OsCirBufReadLinear R (drop (unat p) buf) (sz - p) (get p c) of (k, rest, c3) \<Rightarrow> (p + k, take (unat p) xs @ rest, c3)
      else (p, take (unat p) xs @ drop (unat p) buf, get p c))"
    using ok unfolding OsCirBufReadLoop_def Let_def cp g(2) get_def by simp
  show "fst (OsCirBufReadLoop R buf sz c) = n"
    "fst (snd (OsCirBufReadLoop R buf sz c)) = take (unat n) xs @ drop (unat n) buf"
    "cb_rep (snd (snd (OsCirBufReadLoop R buf sz c))) (drop (unat n) xs)"
  proof (atomize (full), cases "p < sz")
    case False
    then have "p = sz" using p(2) by simp
    then have "n = p" using ru p by (auto simp: n_def min_def)
    then show "fst (OsCirBufReadLoop R buf sz c) = n \<and> fst (snd (OsCirBufReadLoop R buf sz c)) = take (unat n) xs @ drop (unat n) buf \<and>
      cb_rep (snd (snd (OsCirBufReadLoop R buf sz c))) (drop (unat n) xs)"
      using g(1) False by (simp add: eq)
  next
    case True
    then have pr: "p = ?right" "?right < sz" by (auto simp: p_def min_def split: if_splits)
    let ?c = "get p c" and ?k = "min (LOS_CirBufUsedSize (get p c)) (sz - p)" and ?ys = "drop (unat p) xs"
    have c: "startIdx ?c = 0" "LOS_CirBufUsedSize ?c = LOS_CirBufUsedSize c - p"
      by (simp_all add: get_def Let_def LOS_CirBufUsedSize_def pr(1))
    have sub: "unat (sz - p) = unat sz - unat p" using p(2) by (rule unat_sub)
    have lin2: "unat (startIdx ?c) + length ?ys < unat (bufSize c)" 
    proof -
      have "unat p = ?z - ?s" by (simp only: pr(1) right)
      moreover have "unat (startIdx ?c) = 0" by (simp only: c(1) unat_0)
      ultimately show ?thesis using D lin by simp
    qed
    have l: "length (drop (unat p) buf) = unat (sz - p)" using sub buf by simp
    have b: "sz - p \<le> R" using bound sub by (simp add: word_le_nat_alt)
    note w = read_linear [OF g(1), of "sz - p" R "drop (unat p) buf", unfolded put_get_size, OF z lin2 b l]
    have np: "n = p + ?k" unfolding n_def c(2) by (rule min_part) (use ru pr in auto)
    have "?k \<le> sz - p" by simp
    then have "unat p + unat ?k \<le> unat sz" using sub up(3) by (simp add: word_le_nat_alt)
    then have un: "unat n = unat p + unat ?k" unfolding np by (rule unat_add_le)
    show "fst (OsCirBufReadLoop R buf sz c) = n \<and> fst (snd (OsCirBufReadLoop R buf sz c)) = take (unat n) xs @ drop (unat n) buf \<and>
      cb_rep (snd (snd (OsCirBufReadLoop R buf sz c))) (drop (unat n) xs)"
      using w True np un by (simp add: eq case_prod_beta take_add add.commute)
  qed
qed

lemma cb_repE:
  assumes "cb_rep c xs"
  obtains m where "length xs \<le> unat (bufSize c)" "unat (remain c) = unat (bufSize c) - length xs" "fifo c = Some m" "status c = CBUF_USED"
  using assms by (auto simp: cb_rep_def)

lemma used_size: "cb_rep c xs \<Longrightarrow> unat (LOS_CirBufUsedSize c) = length xs"
  by (elim cb_repE) (simp add: LOS_CirBufUsedSize_def unat_sub_if')

lemma cirbuf_write:
  assumes rep: "cb_rep c xs" and bound: "bufSize c \<le> R" and buf: "length buf = unat sz"
  shows "let (n, d) = LOS_CirBufWrite R (Some c) (Some buf) sz
     in unat n = min (unat sz) (unat (bufSize c) - length xs) \<and> (\<exists>c'. d = Some c' \<and> cb_rep c' (xs @ take (unat n) buf))"
proof -
  obtain m where D: "length xs \<le> unat (bufSize c)" "unat (remain c) = unat (bufSize c) - length xs" "fifo c = Some m" "status c = CBUF_USED"
    using rep by (rule cb_repE)
  show ?thesis
  proof (cases "sz = 0 \<or> remain c = 0")
    case True
    then have "unat sz = 0 \<or> unat (bufSize c) - length xs = 0" using D(2) by auto
    then show ?thesis using True rep by (auto simp: LOS_CirBufWrite_def)
  next
    case False
    then have "0 < unat (remain c)" by (simp add: unat_gt_0)
    then have f: "length xs < unat (bufSize c)" using D(2) by simp
    then have z: "bufSize c \<noteq> 0" by auto
    note o = cb_order [OF rep z]
    show ?thesis
    proof (cases "startIdx c \<le> endIdx c")
      case True
      then show ?thesis using write_loop [OF rep z True _ bound, of sz buf] False D buf
        by (simp add: LOS_CirBufWrite_def case_prod_beta unat_min min.commute)
    next
      case ne: False
      then have "unat (endIdx c) + unat (remain c) < unat (bufSize c)" using o(1,3,4,6) D f by (auto simp: word_le_nat_alt)
      then show ?thesis using write_linear [OF rep z _ bound, of sz buf] False ne D buf
        by (simp add: LOS_CirBufWrite_def case_prod_beta unat_min min.commute)
    qed
  qed
qed

lemma cirbuf_read:
  assumes rep: "cb_rep c xs" and bound: "sz \<le> R" and buf: "length buf = unat sz"
  shows "let (n, buf', d) = LOS_CirBufRead R (Some c) (Some buf) sz
     in unat n = min (unat sz) (length xs) \<and> buf' = Some (take (unat n) xs @ drop (unat n) buf) \<and>
        (\<exists>c'. d = Some c' \<and> cb_rep c' (drop (unat n) xs))"
proof -
  obtain m where D: "length xs \<le> unat (bufSize c)" "unat (remain c) = unat (bufSize c) - length xs" "fifo c = Some m" "status c = CBUF_USED"
    using rep by (rule cb_repE)
  show ?thesis
  proof (cases "sz = 0 \<or> remain c = bufSize c")
    case True
    moreover have "length xs = 0" if "remain c = bufSize c" using D(1,2) unfolding that by linarith
    ultimately have "unat sz = 0 \<or> length xs = 0" by auto
    then show ?thesis using True rep by (auto simp: LOS_CirBufRead_def)
  next
    case False
    then have "unat (remain c) \<noteq> unat (bufSize c)" by (simp add: word_unat_eq_iff)
    then have f: "0 < length xs" and z: "bufSize c \<noteq> 0" using D(1,2) by auto
    note o = cb_order [OF rep z]
    show ?thesis
    proof (cases "endIdx c \<le> startIdx c")
      case True
      then show ?thesis using read_loop [OF rep z _ bound buf] o(5) f False D
        by (simp add: LOS_CirBufRead_def case_prod_beta unat_min used_size [OF rep] min.commute)
    next
      case ne: False
      then show ?thesis using read_linear [OF rep z _ bound buf] o(5) f False D
        by (simp add: LOS_CirBufRead_def case_prod_beta unat_min used_size [OF rep] min.commute)
    qed
  qed
qed

section \<open>Properties\<close>

text \<open>
  C21. The circular buffer is a bounded queue of bytes. A write appends as many bytes of the caller as there is
  room for and returns their number; a read takes as many bytes from the front as there are, or as are asked for, puts
  them at the start of the caller's buffer and leaves the rest of it; the size in use is the number of bytes held.
\<close>

theorem cirbuf_refines_queue:
  assumes "cb_rep c xs" "bufSize c \<le> RSIZE_MAX" "sz \<le> RSIZE_MAX" "length buf = unat sz"
  shows "unat (LOS_CirBufUsedSize c) = length xs \<and>
    (let (n, d) = LOS_CirBufWrite RSIZE_MAX (Some c) (Some buf) sz
     in unat n = min (unat sz) (unat (bufSize c) - length xs) \<and> (\<exists>c'. d = Some c' \<and> cb_rep c' (xs @ take (unat n) buf))) \<and>
    (let (n, buf', d) = LOS_CirBufRead RSIZE_MAX (Some c) (Some buf) sz
     in unat n = min (unat sz) (length xs) \<and> buf' = Some (take (unat n) xs @ drop (unat n) buf) \<and>
        (\<exists>c'. d = Some c' \<and> cb_rep c' (drop (unat n) xs)))"
  using used_size [OF assms(1)] cirbuf_write [OF assms(1,2,4)] cirbuf_read [OF assms(1,3,4)] by blast

text \<open>A buffer of four bytes that holds the three bytes 7, 8, 9, the last of them at the start of the array.\<close>

definition cb_example :: CirBuf where
  "cb_example = \<lparr>startIdx = 2, endIdx = 1, bufSize = 4, remain = 1, status = CBUF_USED,
     fifo = Some ((\<lambda>i. 0)(2 := 7, 3 := 8, 0 := 9))\<rparr>"

theorem cirbuf_refines_queue_witness:
  "cb_rep cb_example [7, 8, 9] \<and> unat (fst (LOS_CirBufWrite 100 (Some cb_example) (Some [1, 2]) 2)) = 1 \<and>
   fst (snd (LOS_CirBufRead 100 (Some cb_example) (Some [1, 2]) 2)) = Some [7, 8]"
proof -
  have rep: "cb_rep cb_example [7, 8, 9]" by (simp add: cb_rep_def cb_example_def ring_def upt_rec)
  have s: "bufSize cb_example = 4" by (simp add: cb_example_def)
  show ?thesis using cirbuf_refines_queue [OF rep, of 100 2 "[1, 2]"] rep by (auto simp: s case_prod_beta)
qed

lemma cirbuf_init: "fst (LOS_CirBufInit (Some c) (Some m) sz) = 0 \<and> (\<exists>d. snd (LOS_CirBufInit (Some c) (Some m) sz) = Some d \<and> cb_rep d [] \<and> bufSize d = sz)"
  by (auto simp: LOS_CirBufInit_def cb_rep_def ring_def unat_gt_0 split: if_splits)

end
