(* ===== verification/Crc32.thy ===== *)
theory Crc32
  imports Kernel_Prelude
begin

text \<open>
  The checksums of \<^verbatim>\<open>lib/libscrew/src/los_crc32.c\<close>. The table \<open>crc32_tab\<close> is not part of the sources and a parameter.
  A pointer to the source is the list of the bytes from it to the end of the memory that may be read, \<open>None\<close> for the null
  pointer; a read past its end has the result \<open>None\<close>. The length is an \<open>INT32\<close>.
\<close>

section \<open>The code\<close>

definition COUNT1 :: "(u32 \<Rightarrow> u32) \<Rightarrow> u32 \<times> u8 list \<Rightarrow> (u32 \<times> u8 list) option" where
  "COUNT1 crc32_tab vs = (case vs of
     (val, []) \<Rightarrow> None
   | (val, b # src) \<Rightarrow> Some (crc32_tab ((val XOR ucast b) AND 0xff) XOR drop_bit 8 val, src))"

definition COUNT2 :: "(u32 \<Rightarrow> u32) \<Rightarrow> u32 \<times> u8 list \<Rightarrow> (u32 \<times> u8 list) option" where
  "COUNT2 crc32_tab vs = Option.bind (COUNT1 crc32_tab vs) (COUNT1 crc32_tab)"

definition COUNT4 :: "(u32 \<Rightarrow> u32) \<Rightarrow> u32 \<times> u8 list \<Rightarrow> (u32 \<times> u8 list) option" where
  "COUNT4 crc32_tab vs = Option.bind (COUNT2 crc32_tab vs) (COUNT2 crc32_tab)"

definition COUNT8 :: "(u32 \<Rightarrow> u32) \<Rightarrow> u32 \<times> u8 list \<Rightarrow> (u32 \<times> u8 list) option" where
  "COUNT8 crc32_tab vs = Option.bind (COUNT4 crc32_tab vs) (COUNT4 crc32_tab)"

abbreviation (input) ACCRATIO :: int where "ACCRATIO \<equiv> 8"

text \<open>The loop over blocks of eight bytes returns the length that is left; the second loop counts it down to zero.\<close>

function crc_blocks :: "(u32 \<Rightarrow> u32) \<Rightarrow> int \<Rightarrow> u32 \<times> u8 list \<Rightarrow> (int \<times> u32 \<times> u8 list) option" where
  "crc_blocks crc32_tab len vs =
     (if len \<ge> ACCRATIO
      then (case COUNT8 crc32_tab vs of None \<Rightarrow> None | Some vs' \<Rightarrow> crc_blocks crc32_tab (len - ACCRATIO) vs')
      else Some (len, vs))"
  by pat_completeness auto
termination by (relation "measure (\<lambda>(tab, len, vs). nat len)") auto

fun crc_bytes :: "(u32 \<Rightarrow> u32) \<Rightarrow> int \<Rightarrow> u32 \<Rightarrow> u8 list \<Rightarrow> u32 option" where
  "crc_bytes crc32_tab len val [] = (if len = 0 then Some val else None)"
| "crc_bytes crc32_tab len val (b # src) =
     (if len = 0 then Some val
      else (case COUNT1 crc32_tab (val, b # src) of
          None \<Rightarrow> None
        | Some (val', src') \<Rightarrow> crc_bytes crc32_tab (len - 1) val' src))"

definition crc_loops :: "(u32 \<Rightarrow> u32) \<Rightarrow> u32 \<Rightarrow> u8 list \<Rightarrow> int \<Rightarrow> u32 option" where
  "crc_loops crc32_tab val src len = (case crc_blocks crc32_tab len (val, src) of
     None \<Rightarrow> None
   | Some (len', val', src') \<Rightarrow> crc_bytes crc32_tab len' val' src')"

definition LOS_EtherCrc32Accumulate :: "(u32 \<Rightarrow> u32) \<Rightarrow> u32 \<Rightarrow> u8 list option \<Rightarrow> int \<Rightarrow> u32 option" where
  "LOS_EtherCrc32Accumulate crc32_tab val src len = (case src of
     None \<Rightarrow> Some 0
   | Some bs \<Rightarrow> map_option (\<lambda>v. v XOR 0xffffffff) (crc_loops crc32_tab (val XOR 0xffffffff) bs len))"

definition LOS_Crc32Accumulate :: "(u32 \<Rightarrow> u32) \<Rightarrow> u32 \<Rightarrow> u8 list option \<Rightarrow> int \<Rightarrow> u32 option" where
  "LOS_Crc32Accumulate crc32_tab val src len = crc_loops crc32_tab val (case src of None \<Rightarrow> [] | Some bs \<Rightarrow> bs) len"

section \<open>One byte at a time\<close>

text \<open>The reference: the table-driven checksum of a sequence of bytes.\<close>

definition crc_step :: "(u32 \<Rightarrow> u32) \<Rightarrow> u32 \<Rightarrow> u8 \<Rightarrow> u32" where
  "crc_step tab v b = tab ((v XOR ucast b) AND 0xff) XOR drop_bit 8 v"

definition crc :: "(u32 \<Rightarrow> u32) \<Rightarrow> u32 \<Rightarrow> u8 list \<Rightarrow> u32" where
  "crc tab = foldl (crc_step tab)"

lemma crc_simps [simp]: "crc tab v [] = v" "crc tab v (b # bs) = crc tab (crc_step tab v b) bs"
  "crc tab v (bs @ cs) = crc tab (crc tab v bs) cs"
  by (simp_all add: crc_def)

text \<open>\<open>counts n f\<close>: the macro \<open>f\<close> takes \<open>n\<close> bytes.\<close>

definition counts :: "(u32 \<Rightarrow> u32) \<Rightarrow> nat \<Rightarrow> (u32 \<times> u8 list \<Rightarrow> (u32 \<times> u8 list) option) \<Rightarrow> bool" where
  "counts tab n f \<longleftrightarrow> (\<forall>v bs. f (v, bs) = (if n \<le> length bs then Some (crc tab v (take n bs), drop n bs) else None))"

lemma counts_one: "counts tab 1 (COUNT1 tab)"
  by (auto simp: counts_def COUNT1_def crc_step_def split: list.splits)

lemma counts_twice:
  assumes "counts tab n f" "\<And>vs. g vs = Option.bind (f vs) f"
  shows "counts tab (n + n) g"
proof -
  have "crc tab (crc tab v (take n bs)) (take n (drop n bs)) = crc tab v (take (n + n) bs)" for v bs
    by (simp add: take_add)
  then show ?thesis using assms by (auto simp: counts_def)
qed

lemma counts_eight: "counts tab 8 (COUNT8 tab)"
proof -
  have "counts tab (1 + 1) (COUNT2 tab)" using counts_one by (rule counts_twice) (rule COUNT2_def)
  then have "counts tab (1 + 1 + (1 + 1)) (COUNT4 tab)" by (rule counts_twice) (rule COUNT4_def)
  then have "counts tab (1 + 1 + (1 + 1) + (1 + 1 + (1 + 1))) (COUNT8 tab)" by (rule counts_twice) (rule COUNT8_def)
  then show ?thesis by (simp add: eval_nat_numeral)
qed

lemma crc_bytes_eq:
  "crc_bytes tab len v bs = (if 0 \<le> len \<and> nat len \<le> length bs then Some (crc tab v (take (nat len) bs)) else None)"
proof (induction bs arbitrary: len v)
  case (Cons b bs)
  have c: "COUNT1 tab (v, b # bs) = Some (crc_step tab v b, bs)" by (simp add: COUNT1_def crc_step_def)
  show ?case
  proof (cases "len \<le> 0")
    case False
    then have "nat len = Suc (nat (len - 1))" by simp
    then show ?thesis using False by (simp add: c Cons.IH)
  qed (auto simp: c Cons.IH)
qed auto

declare crc_blocks.simps [simp del]

lemma crc_loops_eq:
  "crc_loops tab v bs len = (if 0 \<le> len \<and> nat len \<le> length bs then Some (crc tab v (take (nat len) bs)) else None)"
proof (induction "nat len" arbitrary: len v bs rule: less_induct)
  case less
  show ?case
  proof (cases "len \<ge> 8")
    case False
    then show ?thesis by (simp add: crc_loops_def crc_blocks.simps crc_bytes_eq)
  next
    case True
    have c: "COUNT8 tab (v, bs) = (if 8 \<le> length bs then Some (crc tab v (take 8 bs), drop 8 bs) else None)"
      using counts_eight [of tab] by (simp add: counts_def)
    have n: "nat len = 8 + nat (len - 8)" using True by simp
    show ?thesis
    proof (cases "8 \<le> length bs")
      case False
      then show ?thesis using True n by (simp add: crc_loops_def crc_blocks.simps c)
    next
      case l: True
      have "crc_loops tab v bs len = crc_loops tab (crc tab v (take 8 bs)) (drop 8 bs) (len - 8)"
        using True l by (simp add: crc_loops_def crc_blocks.simps [of tab len] c)
      also have "\<dots> = (if 0 \<le> len - 8 \<and> nat (len - 8) \<le> length (drop 8 bs)
          then Some (crc tab (crc tab v (take 8 bs)) (take (nat (len - 8)) (drop 8 bs))) else None)"
        using True by (intro less) simp
      also have "crc tab (crc tab v (take 8 bs)) (take (nat (len - 8)) (drop 8 bs)) = crc tab v (take (nat len) bs)"
        unfolding n by (simp add: take_add)
      finally show ?thesis using True l n by auto
    qed
  qed
qed

section \<open>Properties\<close>

text \<open>
  C22. The loops unrolled eight times compute the checksum of the bytes one by one: the result is that of
  the reference on the first \<open>len\<close> bytes, and a length that is negative or larger than the memory leads to a read outside of it. The
  Ethernet variant complements the value before and after; so a checksum can be computed in pieces.
\<close>

theorem crc32_equiv_bytewise:
  "LOS_Crc32Accumulate tab val (Some src) len =
     (if 0 \<le> len \<and> nat len \<le> length src then Some (crc tab val (take (nat len) src)) else None) \<and>
   LOS_EtherCrc32Accumulate tab val (Some src) len =
     (if 0 \<le> len \<and> nat len \<le> length src then Some (NOT (crc tab (NOT val) (take (nat len) src))) else None) \<and>
   Option.bind (LOS_EtherCrc32Accumulate tab val (Some as) (int (length as)))
       (\<lambda>v. LOS_EtherCrc32Accumulate tab v (Some bs) (int (length bs))) =
     LOS_EtherCrc32Accumulate tab val (Some (as @ bs)) (int (length (as @ bs)))"
proof -
  have x: "v XOR 0xffffffff = NOT v" for v :: u32
  proof -
    have m: "(0xffffffff :: u32) = - 1" by simp
    show ?thesis unfolding m by (rule bit_word_eqI) (simp add: bit_simps)
  qed
  show ?thesis by (simp add: LOS_Crc32Accumulate_def LOS_EtherCrc32Accumulate_def crc_loops_eq x nat_add_distrib)
qed

end
