(* ===== verification/Capability.thy ===== *)
theory Capability
  imports Kernel_Prelude
begin

text \<open>
  The capabilities of processes, \<^verbatim>\<open>security/cap/capability.c\<close>: a word of flags in every process. The state has the
  fields of the process control blocks that the code uses, the current process, and the number of control blocks.
\<close>

section \<open>Operations\<close>

abbreviation (input) CAPABILITY_INIT_STAT :: u32 where "CAPABILITY_INIT_STAT \<equiv> 0xffffffff"
abbreviation (input) CAPABILITY_MAX :: u32 where "CAPABILITY_MAX \<equiv> 31"
abbreviation (input) CAP_CAPSET :: u32 where "CAP_CAPSET \<equiv> 17"
abbreviation (input) CAP_OK :: u32 where "CAP_OK \<equiv> 0"
abbreviation (input) CAP_EPERM :: u32 where "CAP_EPERM \<equiv> - 1"
abbreviation (input) CAP_ESRCH :: u32 where "CAP_ESRCH \<equiv> - 3"
abbreviation (input) CAP_EFAULT :: u32 where "CAP_EFAULT \<equiv> - 14"
abbreviation (input) CAP_EINVAL :: u32 where "CAP_EINVAL \<equiv> - 22"

record cap_state =
  capability :: "nat \<Rightarrow> u32"
  processInactive :: "nat \<Rightarrow> bool"
  currProcess :: nat
  g_processMaxNum :: u32

definition CAPABILITY_GET_CAP_MASK :: "u32 \<Rightarrow> u32" where
  "CAPABILITY_GET_CAP_MASK x = push_bit (unat (x AND 31)) 1"

definition VALID_CAPS :: "u32 \<Rightarrow> u32 \<Rightarrow> bool" where
  "VALID_CAPS a b \<longleftrightarrow> a AND NOT b \<noteq> 0"

definition IsCapPermit :: "u32 \<Rightarrow> cap_state \<Rightarrow> u32" where
  "IsCapPermit capIndex s =
     (if capIndex > CAPABILITY_MAX then 0
      else capability s (currProcess s) AND CAPABILITY_GET_CAP_MASK capIndex)"

definition OsInitCapability :: "nat \<Rightarrow> cap_state \<Rightarrow> cap_state" where
  "OsInitCapability p s = s\<lparr>capability := (capability s)(p := CAPABILITY_INIT_STAT)\<rparr>"

definition OsCopyCapability :: "nat \<Rightarrow> nat \<Rightarrow> cap_state \<Rightarrow> cap_state" where
  "OsCopyCapability from to s = s\<lparr>capability := (capability s)(to := capability s from)\<rparr>"

definition SysCapSet :: "u32 \<Rightarrow> cap_state \<Rightarrow> u32 \<times> cap_state" where
  "SysCapSet caps s =
     (if IsCapPermit CAP_CAPSET s = 0 then (CAP_EPERM, s)
      else if VALID_CAPS caps (capability s (currProcess s)) then (CAP_EPERM, s)
      else (CAP_OK, s\<lparr>capability := (capability s)(currProcess s := caps)\<rparr>))"

text \<open>\<open>copied\<close>: the copy of the result to the memory of the caller is possible.\<close>

definition SysCapGet :: "bool \<Rightarrow> int \<Rightarrow> cap_state \<Rightarrow> u32 \<times> u32 option" where
  "SysCapGet copied pid s =
     (if (word_of_int pid :: u32) \<ge> g_processMaxNum s then (CAP_EINVAL, None)
      else let p = (if pid = 0 then currProcess s else nat pid)
           in if processInactive s p then (CAP_ESRCH, None)
              else if copied then (CAP_OK, Some (capability s p)) else (CAP_EFAULT, None))"

section \<open>Steps\<close>

text \<open>A process changes its capabilities or makes a child, and another process may run next.\<close>

inductive cap_step :: "cap_state \<Rightarrow> cap_state \<Rightarrow> bool" where
  do_set: "cap_step s (snd (SysCapSet caps s))"
| do_fork: "cap_step s (OsCopyCapability (currProcess s) child s)"
| do_switch: "cap_step s (s\<lparr>currProcess := p\<rparr>)"

lemma cap_permit_iff: "IsCapPermit i s \<noteq> 0 \<longleftrightarrow> i \<le> 31 \<and> bit (capability s (currProcess s)) (unat i)"
proof (cases "i \<le> 31")
  case True
  have "i AND 31 = i"
  proof -
    have m: "(31 :: u32) = mask 5" by (simp add: mask_eq_exp_minus_1)
    have "unat i < 2 ^ 5" using True by (simp add: word_le_nat_alt)
    then have "unat (take_bit 5 i) = unat i" by (simp add: unsigned_take_bit_eq take_bit_nat_eq_self)
    then show ?thesis unfolding m take_bit_eq_mask [symmetric] by (simp add: word_unat_eq_iff)
  qed
  moreover have "unat i < 32" using True by (simp add: word_le_nat_alt)
  ultimately show ?thesis using True by (auto simp: IsCapPermit_def CAPABILITY_GET_CAP_MASK_def and_nonzero_iff bit_simps not_less)
qed (simp add: IsCapPermit_def not_le)

lemma valid_caps_iff: "VALID_CAPS a b \<longleftrightarrow> (\<exists>i. bit a i \<and> \<not> bit b i)"
proof -
  have "i < 32" if "bit a i" for i using bit_imp_le_length [OF that] by simp
  then show ?thesis by (auto simp: VALID_CAPS_def and_nonzero_iff bit_simps)
qed

lemma cap_set_cases:
  "SysCapSet caps s = (if bit (capability s (currProcess s)) 17 \<and> (\<forall>i. bit caps i \<longrightarrow> bit (capability s (currProcess s)) i)
     then (CAP_OK, s\<lparr>capability := (capability s)(currProcess s := caps)\<rparr>) else (CAP_EPERM, s))"
  using cap_permit_iff [of 17 s] by (auto simp: SysCapSet_def valid_caps_iff)


lemma cap_step_bit:
  assumes "cap_step s t" "bit (capability t p) i"
  shows "bit (capability s p) i \<or> bit (capability s (currProcess s)) i"
  using assms by cases (auto simp: cap_set_cases OsCopyCapability_def split: if_splits)

section \<open>Properties\<close>


definition cap_boot :: cap_state where
  "cap_boot = \<lparr>capability = (\<lambda>p. 0)(1 := CAPABILITY_INIT_STAT), processInactive = (\<lambda>p. False), currProcess = 1, g_processMaxNum = 64\<rparr>"


text \<open>
  A process may change its own capabilities only: it needs the capability to do so, and the new ones must be among those it has; otherwise
  the call reports an error and nothing changes. A read returns the word of an active process.
\<close>

theorem cap_set_get:
  "SysCapSet caps s = (if bit (capability s (currProcess s)) 17 \<and> (\<forall>i. bit caps i \<longrightarrow> bit (capability s (currProcess s)) i)
     then (CAP_OK, s\<lparr>capability := (capability s)(currProcess s := caps)\<rparr>) else (CAP_EPERM, s)) \<and>
   (fst (SysCapSet caps s) = CAP_OK \<and> \<not> processInactive s (currProcess s) \<and> 0 < g_processMaxNum s \<longrightarrow>
     SysCapGet True 0 (snd (SysCapSet caps s)) = (CAP_OK, Some caps))"
  by (auto simp: cap_set_cases SysCapGet_def not_le split: if_splits)

theorem cap_set_get_witness: "SysCapGet True 0 (snd (SysCapSet 0x20001 cap_boot)) = (CAP_OK, Some 0x20001)"
proof -
  have "fst (SysCapSet 0x20001 cap_boot) = CAP_OK"
    by (simp add: SysCapSet_def IsCapPermit_def CAPABILITY_GET_CAP_MASK_def VALID_CAPS_def cap_boot_def push_bit_eq_mult)
  moreover have "\<not> processInactive cap_boot (currProcess cap_boot)" "0 < g_processMaxNum cap_boot" by (simp_all add: cap_boot_def)
  ultimately show ?thesis using cap_set_get [THEN conjunct2, of "0x20001" cap_boot] by blast
qed

end
