(* ===== verification/Buddy.thy ===== *)
theory Buddy
  imports Kernel_Prelude
begin

text \<open>
  The geometry of a buddy system, on page frame numbers: \<open>ord f\<close> is the order of the free block that starts at the frame \<open>f\<close>, and
  \<open>VM_LIST_ORDER_MAX\<close> if there is none. The allocator of physical pages refines it.
\<close>

abbreviation (input) VM_LIST_ORDER_MAX :: nat where "VM_LIST_ORDER_MAX \<equiv> 9"

definition blk :: "nat \<Rightarrow> nat \<Rightarrow> nat set" where
  "blk f k = {f ..< f + 2 ^ k}"

text \<open>Free blocks lie inside the segment, start at multiples of their size, and are disjoint.\<close>

definition geom :: "nat \<Rightarrow> nat \<Rightarrow> (nat \<Rightarrow> nat) \<Rightarrow> bool" where
  "geom lo hi ord \<longleftrightarrow> (\<forall>f. ord f < VM_LIST_ORDER_MAX \<longrightarrow> lo \<le> f \<and> f + 2 ^ ord f \<le> hi \<and> 2 ^ ord f dvd f) \<and>
     (\<forall>f g. ord f < VM_LIST_ORDER_MAX \<longrightarrow> ord g < VM_LIST_ORDER_MAX \<longrightarrow> f < g \<longrightarrow> f + 2 ^ ord f \<le> g)"

definition frees :: "(nat \<Rightarrow> nat) \<Rightarrow> nat set" where
  "frees ord = (\<Union>f\<in>{f. ord f < VM_LIST_ORDER_MAX}. blk f (ord f))"

lemma geomD:
  assumes "geom lo hi ord" "ord f < VM_LIST_ORDER_MAX"
  shows "lo \<le> f" "f + 2 ^ ord f \<le> hi" "2 ^ ord f dvd f" "ord g < VM_LIST_ORDER_MAX \<Longrightarrow> f < g \<Longrightarrow> f + 2 ^ ord f \<le> g"
  using assms by (simp_all add: geom_def)

lemma frees_iff: "x \<in> frees ord \<longleftrightarrow> (\<exists>f. ord f < VM_LIST_ORDER_MAX \<and> f \<le> x \<and> x < f + 2 ^ ord f)"
  by (auto simp: frees_def blk_def)

lemma frees_head: "ord f < VM_LIST_ORDER_MAX \<Longrightarrow> blk f (ord f) \<subseteq> frees ord"
  by (auto simp: frees_def)

lemma blk_first: "f \<in> blk f k"
  by (simp add: blk_def)

lemma frees_bounds: "geom lo hi ord \<Longrightarrow> frees ord \<subseteq> {lo..<hi}"
  by (fastforce simp: geom_def frees_iff)

lemma geom_add:
  assumes g: "geom lo hi ord" and f: "lo \<le> f" "f + 2 ^ k \<le> hi" "2 ^ k dvd f" "k < VM_LIST_ORDER_MAX" and d: "blk f k \<inter> frees ord = {}"
  shows "geom lo hi (ord(f := k))" "frees (ord(f := k)) = frees ord \<union> blk f k" "\<not> ord f < VM_LIST_ORDER_MAX"
proof -
  show n: "\<not> ord f < VM_LIST_ORDER_MAX" using frees_head [of ord f] d blk_first by fastforce
  have sep: "x + 2 ^ ord x \<le> f \<or> f + 2 ^ k \<le> x" if "ord x < VM_LIST_ORDER_MAX" for x
  proof (rule ccontr)
    assume a: "\<not> (x + 2 ^ ord x \<le> f \<or> f + 2 ^ k \<le> x)"
    have "max x f \<in> blk x (ord x)" "max x f \<in> blk f k" using a by (auto simp: blk_def max_def)
    then show False using d frees_head [of ord x] that by blast
  qed
  show "geom lo hi (ord(f := k))" unfolding geom_def
  proof (intro conjI allI impI)
    fix x y
    assume x: "(ord(f := k)) x < VM_LIST_ORDER_MAX"
    show "lo \<le> x" "x + 2 ^ (ord(f := k)) x \<le> hi" "2 ^ (ord(f := k)) x dvd x"
      using x f geomD [OF g, of x] by (auto split: if_splits)
    assume y: "(ord(f := k)) y < VM_LIST_ORDER_MAX" and xy: "x < y"
    show "x + 2 ^ (ord(f := k)) x \<le> y"
      using x y xy geomD(4) [OF g, of x y] sep [of x] sep [of y] by (auto split: if_splits)
  qed
  show "frees (ord(f := k)) = frees ord \<union> blk f k"
    using n f(4) by (auto simp: frees_def split: if_splits)
qed

lemma geom_del:
  assumes g: "geom lo hi ord" and f: "ord f < VM_LIST_ORDER_MAX"
  shows "geom lo hi (ord(f := VM_LIST_ORDER_MAX))" "frees (ord(f := VM_LIST_ORDER_MAX)) = frees ord - blk f (ord f)"
proof -
  show "geom lo hi (ord(f := VM_LIST_ORDER_MAX))" using g by (auto simp: geom_def)
  have sep: "blk x (ord x) \<inter> blk f (ord f) = {}" if "ord x < VM_LIST_ORDER_MAX" "x \<noteq> f" for x
    using geomD(4) [OF g f that(1)] geomD(4) [OF g that(1) f] that(2) by (cases "x < f") (auto simp: blk_def)
  show "frees (ord(f := VM_LIST_ORDER_MAX)) = frees ord - blk f (ord f)"
  proof (intro equalityI subsetI)
    fix y assume "y \<in> frees (ord(f := VM_LIST_ORDER_MAX))"
    then obtain x where x: "(ord(f := VM_LIST_ORDER_MAX)) x < VM_LIST_ORDER_MAX" "y \<in> blk x ((ord(f := VM_LIST_ORDER_MAX)) x)"
      unfolding frees_def by blast
    then have "x \<noteq> f" "ord x < VM_LIST_ORDER_MAX" "y \<in> blk x (ord x)" by (auto split: if_splits)
    then show "y \<in> frees ord - blk f (ord f)" using sep frees_head [of ord x] by blast
  next
    fix y assume "y \<in> frees ord - blk f (ord f)"
    then obtain x where x: "ord x < VM_LIST_ORDER_MAX" "y \<in> blk x (ord x)" "x \<noteq> f" unfolding frees_def by blast
    then show "y \<in> frees (ord(f := VM_LIST_ORDER_MAX))" using frees_head [of "ord(f := VM_LIST_ORDER_MAX)" x] by auto
  qed
qed

section \<open>Buddies\<close>

definition buddy :: "nat \<Rightarrow> nat \<Rightarrow> nat" where
  "buddy f k = (if odd (f div 2 ^ k) then f - 2 ^ k else f + 2 ^ k)"

definition merged :: "nat \<Rightarrow> nat \<Rightarrow> nat" where
  "merged f k = f div 2 ^ Suc k * 2 ^ Suc k"

lemma buddy_merge:
  assumes "2 ^ k dvd f"
  shows "blk f k \<union> blk (buddy f k) k = blk (merged f k) (Suc k)" "blk f k \<inter> blk (buddy f k) k = {}"
    "merged f k = min f (buddy f k)" "2 ^ Suc k dvd merged f k" "2 ^ k dvd buddy f k" "merged (buddy f k) k = merged f k"
proof -
  obtain m where m: "f = 2 ^ k * m" using assms by (elim dvdE)
  have d: "f div 2 ^ Suc k = m div 2" by (simp add: m)
  have q: "f div 2 ^ k = m" by (simp add: m)
  show "2 ^ Suc k dvd merged f k" by (simp add: merged_def)
  consider j where "m = 2 * j" | j where "m = Suc (2 * j)" by (metis evenE oddE Suc_eq_plus1)
  then have "blk f k \<union> blk (buddy f k) k = blk (merged f k) (Suc k) \<and> blk f k \<inter> blk (buddy f k) k = {} \<and>
    merged f k = min f (buddy f k) \<and> 2 ^ k dvd buddy f k \<and> merged (buddy f k) k = merged f k"
  proof cases
    case 1
    have b: "buddy f k = f + 2 ^ k" "merged f k = f" by (simp_all add: buddy_def merged_def d q m 1 algebra_simps)
    have "(f + 2 ^ k) div 2 ^ Suc k = j"
    proof -
      have "f + 2 ^ k = j * 2 ^ Suc k + 2 ^ k" by (simp add: m 1 algebra_simps)
      then show ?thesis by simp
    qed
    then have "merged (f + 2 ^ k) k = f" by (simp add: merged_def m 1)
    then show ?thesis using b assms by (auto simp: blk_def)
  next
    case 2
    have b: "buddy f k = f - 2 ^ k" "merged f k = f - 2 ^ k" by (simp_all add: buddy_def merged_def d q m 2 algebra_simps)
    have le: "2 ^ k \<le> f" by (simp add: m 2)
    have "f - 2 ^ k = j * 2 ^ Suc k" by (simp add: m 2 algebra_simps)
    then have "merged (f - 2 ^ k) k = f - 2 ^ k" by (simp add: merged_def)
    then show ?thesis using b le assms by (auto simp: blk_def)
  qed
  then show "blk f k \<union> blk (buddy f k) k = blk (merged f k) (Suc k)" "blk f k \<inter> blk (buddy f k) k = {}"
    "merged f k = min f (buddy f k)" "2 ^ k dvd buddy f k" "merged (buddy f k) k = merged f k" by blast+
qed

end
