(* ===== verification/Vm_Phys.thy ===== *)
theory Vm_Phys
  imports Bitmap Buddy
begin

text \<open>
  The allocator of physical pages, \<^verbatim>\<open>kernel/base/vm/los_vm_phys.c\<close> and \<^verbatim>\<open>kernel/base/vm/los_vm_page.c\<close>: segments of memory with a
  buddy system of nine orders each. A page is its index in \<open>g_vmPageArray\<close>, addresses are 32-bit words. The spin locks
  are void on one processor. \<open>vm_panic\<close> records a call of \<open>LOS_Panic\<close>, which does not return, \<open>vm_assert\<close> an assertion that does not hold,
  \<open>vm_fault\<close> an access through the null pointer or the unlinking of a page that is not linked, \<open>vm_diverged\<close> a loop that does not end. The addresses
  where the physical memory and the kernel's address space start come from the board.
\<close>

section \<open>State\<close>

abbreviation (input) VM_PHYS_SEG_MAX :: nat where "VM_PHYS_SEG_MAX \<equiv> 32"
abbreviation (input) PAGE_SHIFT :: nat where "PAGE_SHIFT \<equiv> 12"
abbreviation (input) PAGE_SIZE :: u32 where "PAGE_SIZE \<equiv> 4096"
abbreviation (input) VM_NR_LRU_LISTS :: nat where "VM_NR_LRU_LISTS \<equiv> 5"

record LosVmPage =
  physAddr :: u32
  refCounts :: int
  pg_flags :: u32
  pg_order :: nat
  segID :: nat
  pg_nPages :: u16

record VmPhysSeg =
  seg_start :: u32
  seg_size :: u32
  pageBase :: nat
  freeList :: "nat \<Rightarrow> nat list"
  listCnt :: "nat \<Rightarrow> u32"
  lruSize :: "nat \<Rightarrow> u32"
  lruList :: "nat \<Rightarrow> nat list"

record VmPhysArea =
  area_start :: u32
  area_size :: u32

record vm_phys =
  g_vmPage :: "nat \<Rightarrow> LosVmPage"
  g_vmPhysSeg :: "nat \<Rightarrow> VmPhysSeg"
  g_vmPhysSegNum :: nat
  g_physArea :: "VmPhysArea list"
  KERNEL_ASPACE_BASE :: u32
  SYS_MEM_BASE :: u32
  g_vmBootMemBase :: u32
  g_kHeapInited :: bool
  g_vmPageArray :: u32
  g_vmPageArraySize :: u32
  vm_panic :: bool
  vm_assert :: bool
  vm_fault :: bool
  vm_diverged :: bool

definition upd_page :: "nat \<Rightarrow> (LosVmPage \<Rightarrow> LosVmPage) \<Rightarrow> vm_phys \<Rightarrow> vm_phys" where
  "upd_page p f s = s\<lparr>g_vmPage := (g_vmPage s)(p := f (g_vmPage s p))\<rparr>"

definition upd_seg :: "nat \<Rightarrow> (VmPhysSeg \<Rightarrow> VmPhysSeg) \<Rightarrow> vm_phys \<Rightarrow> vm_phys" where
  "upd_seg g f s = s\<lparr>g_vmPhysSeg := (g_vmPhysSeg s)(g := f (g_vmPhysSeg s g))\<rparr>"

abbreviation page_order :: "vm_phys \<Rightarrow> nat \<Rightarrow> nat" where
  "page_order s p \<equiv> pg_order (g_vmPage s p)"

definition VM_PAGE_TO_PHYS :: "nat \<Rightarrow> vm_phys \<Rightarrow> u32" where
  "VM_PAGE_TO_PHYS p s = physAddr (g_vmPage s p)"

definition VM_ORDER_TO_PAGES :: "nat \<Rightarrow> nat" where
  "VM_ORDER_TO_PAGES order = 2 ^ order"

definition VM_ORDER_TO_PHYS :: "nat \<Rightarrow> u32" where
  "VM_ORDER_TO_PHYS order = push_bit (PAGE_SHIFT + order) 1"

definition VM_PHYS_TO_ORDER :: "u32 \<Rightarrow> nat" where
  "VM_PHYS_TO_ORDER phys = min (LOS_LowBitGet (drop_bit PAGE_SHIFT phys)) (VM_LIST_ORDER_MAX - 1)"

lemma sub_power: "\<not> n < 2 ^ k \<Longrightarrow> n - 2 ^ k < (n :: nat)" "2 ^ k < n \<Longrightarrow> n - 2 * 2 ^ k < n - (2 ^ k :: nat)"
  "m < n \<Longrightarrow> n - (m + 2 ^ k) < n - (m :: nat)"
  using zero_less_power [of "2 :: nat" k] by linarith+

section \<open>Segments\<close>

definition OsVmPhysLruInit :: "VmPhysSeg \<Rightarrow> VmPhysSeg" where
  "OsVmPhysLruInit S = S\<lparr>lruSize := (\<lambda>i. if i < VM_NR_LRU_LISTS then 0 else lruSize S i),
     lruList := (\<lambda>i. if i < VM_NR_LRU_LISTS then [] else lruList S i)\<rparr>"

text \<open>The loop of \<open>OsVmPhysSegCreate\<close> moves the segments that start behind the new one up by one; the result is the place that is free then.\<close>

fun seg_shift :: "u32 \<Rightarrow> nat \<Rightarrow> vm_phys \<Rightarrow> nat \<times> vm_phys" where
  "seg_shift limit 0 s = (0, s)"
| "seg_shift limit (Suc g) s =
     (if seg_start (g_vmPhysSeg s g) > limit then seg_shift limit g (upd_seg (Suc g) (\<lambda>_. g_vmPhysSeg s g) s)
      else (Suc g, s))"

definition OsVmPhysSegCreate :: "u32 \<Rightarrow> u32 \<Rightarrow> vm_phys \<Rightarrow> int \<times> vm_phys" where
  "OsVmPhysSegCreate start sz s =
     (if g_vmPhysSegNum s \<ge> VM_PHYS_SEG_MAX then (- 1, s)
      else let (g, s1) = seg_shift (start + sz) (g_vmPhysSegNum s) (s\<lparr>g_vmPhysSegNum := g_vmPhysSegNum s + 1\<rparr>)
           in (0, upd_seg g (\<lambda>S. S\<lparr>seg_start := start, seg_size := sz\<rparr>) s1))"

definition OsVmPhysSegAdd :: "vm_phys \<Rightarrow> vm_phys" where
  "OsVmPhysSegAdd s = fold (\<lambda>a s. snd (OsVmPhysSegCreate (area_start a) (area_size a) s)) (g_physArea s)
     (s\<lparr>vm_assert := vm_assert s \<or> \<not> g_vmPhysSegNum s < VM_PHYS_SEG_MAX\<rparr>)"

text \<open>There is at least one area (\<open>g_physArea\<close> is not empty).\<close>

definition OsVmPhysAreaSizeAdjust :: "u32 \<Rightarrow> vm_phys \<Rightarrow> vm_phys" where
  "OsVmPhysAreaSizeAdjust sz s = (case g_physArea s of
     [] \<Rightarrow> s\<lparr>vm_fault := True\<rparr>
   | a # as \<Rightarrow> s\<lparr>g_physArea := a\<lparr>area_start := area_start a + sz, area_size := area_size a - sz\<rparr> # as\<rparr>)"

definition OsVmPhysPageNumGet :: "vm_phys \<Rightarrow> u32" where
  "OsVmPhysPageNumGet s = fold (\<lambda>a n. n + drop_bit PAGE_SHIFT (area_size a)) (g_physArea s) 0"

definition OsVmPhysFreeListInit :: "VmPhysSeg \<Rightarrow> VmPhysSeg" where
  "OsVmPhysFreeListInit S = S\<lparr>freeList := (\<lambda>i. if i < VM_LIST_ORDER_MAX then [] else freeList S i),
     listCnt := (\<lambda>i. if i < VM_LIST_ORDER_MAX then 0 else listCnt S i)\<rparr>"

fun phys_init :: "nat list \<Rightarrow> u32 \<Rightarrow> vm_phys \<Rightarrow> vm_phys" where
  "phys_init [] nPages s = s"
| "phys_init (g # gs) nPages s =
     phys_init gs (nPages + drop_bit PAGE_SHIFT (seg_size (g_vmPhysSeg s g)))
       (upd_seg g (\<lambda>S. OsVmPhysLruInit (OsVmPhysFreeListInit (S\<lparr>pageBase := unat nPages\<rparr>))) s)"

definition OsVmPhysInit :: "vm_phys \<Rightarrow> vm_phys" where
  "OsVmPhysInit s = phys_init [0..<g_vmPhysSegNum s] 0 s"

section \<open>Free lists\<close>

definition OsVmPhysFreeListAddUnsafe :: "nat \<Rightarrow> nat \<Rightarrow> vm_phys \<Rightarrow> vm_phys" where
  "OsVmPhysFreeListAddUnsafe page order s =
     (let g = segID (g_vmPage s page)
      in if g \<ge> VM_PHYS_SEG_MAX then s\<lparr>vm_panic := True\<rparr>
         else upd_seg g (\<lambda>S. S\<lparr>freeList := (freeList S)(order := freeList S order @ [page]),
                               listCnt := (listCnt S)(order := listCnt S order + 1)\<rparr>)
                (upd_page page (\<lambda>p. p\<lparr>pg_order := order\<rparr>) s))"

definition OsVmPhysFreeListDelUnsafe :: "nat \<Rightarrow> vm_phys \<Rightarrow> vm_phys" where
  "OsVmPhysFreeListDelUnsafe page s =
     (let g = segID (g_vmPage s page); order = page_order s page
      in if g \<ge> VM_PHYS_SEG_MAX \<or> order \<ge> VM_LIST_ORDER_MAX then s\<lparr>vm_panic := True\<rparr>
         else upd_page page (\<lambda>p. p\<lparr>pg_order := VM_LIST_ORDER_MAX\<rparr>)
                (upd_seg g (\<lambda>S. S\<lparr>freeList := (freeList S)(order := remove1 page (freeList S order)),
                                  listCnt := (listCnt S)(order := listCnt S order - 1)\<rparr>)
                   (s\<lparr>vm_fault := vm_fault s \<or> page \<notin> set (freeList (g_vmPhysSeg s g) order)\<rparr>)))"

fun OsVmPhysPagesSpiltUnsafe :: "nat \<Rightarrow> nat \<Rightarrow> nat \<Rightarrow> vm_phys \<Rightarrow> vm_phys" where
  "OsVmPhysPagesSpiltUnsafe page oldOrder 0 s = s"
| "OsVmPhysPagesSpiltUnsafe page oldOrder (Suc order) s =
     (if Suc order > oldOrder
      then let buddyPage = page + VM_ORDER_TO_PAGES order;
               s1 = s\<lparr>vm_assert := vm_assert s \<or> page_order s buddyPage \<noteq> VM_LIST_ORDER_MAX\<rparr>
           in OsVmPhysPagesSpiltUnsafe page oldOrder order (OsVmPhysFreeListAddUnsafe buddyPage order s1)
      else s)"

text \<open>\<open>OsVmPhysToPage\<close> panics if the segment is out of range: \<open>seg_check\<close>.\<close>

definition seg_check :: "nat \<Rightarrow> vm_phys \<Rightarrow> vm_phys" where
  "seg_check g s = (if g \<ge> VM_PHYS_SEG_MAX then s\<lparr>vm_panic := True\<rparr> else s)"

definition OsVmPhysToPage :: "u32 \<Rightarrow> nat \<Rightarrow> vm_phys \<Rightarrow> nat option" where
  "OsVmPhysToPage pa g s =
     (let S = g_vmPhysSeg s g
      in if pa < seg_start S \<or> pa \<ge> seg_start S + seg_size S then None
         else Some (pageBase S + unat (drop_bit PAGE_SHIFT (pa - seg_start S))))"

fun first_page :: "u32 \<Rightarrow> nat list \<Rightarrow> vm_phys \<Rightarrow> nat option" where
  "first_page pa [] s = None"
| "first_page pa (g # gs) s = (case OsVmPhysToPage pa g s of Some p \<Rightarrow> Some p | None \<Rightarrow> first_page pa gs s)"

definition OsVmPaddrToPage :: "u32 \<Rightarrow> vm_phys \<Rightarrow> nat option" where
  "OsVmPaddrToPage paddr s = first_page paddr [0..<g_vmPhysSegNum s] s"

definition LOS_VmPageGet :: "u32 \<Rightarrow> vm_phys \<Rightarrow> nat option" where
  "LOS_VmPageGet paddr s = first_page paddr [0..<g_vmPhysSegNum s] s"

definition OsVmPageToVaddr :: "nat \<Rightarrow> vm_phys \<Rightarrow> u32" where
  "OsVmPageToVaddr page s = KERNEL_ASPACE_BASE s + physAddr (g_vmPage s page) - SYS_MEM_BASE s"

text \<open>\<open>LOS_PaddrQuery\<close> asks the memory management unit and is a parameter.\<close>

definition OsVmVaddrToPage :: "(u32 \<Rightarrow> u32) \<Rightarrow> u32 \<Rightarrow> vm_phys \<Rightarrow> nat option" where
  "OsVmVaddrToPage LOS_PaddrQuery ptr s = first_page (LOS_PaddrQuery ptr) [0..<g_vmPhysSegNum s] s"

section \<open>Freeing\<close>

text \<open>
  The loop of \<open>OsVmPhysPagesFree\<close> merges the block with its buddy while that is free. The first argument is the number of orders above,
  the result the page and the order of the block that is free in the end.
\<close>

fun free_merge :: "nat \<Rightarrow> nat \<Rightarrow> u32 \<Rightarrow> nat \<Rightarrow> vm_phys \<Rightarrow> nat \<times> nat \<times> vm_phys" where
  "free_merge 0 order pa page s = (page, order, s)"
| "free_merge (Suc k) order pa page s =
     (let g = segID (g_vmPage s page);
          pa1 = pa XOR VM_ORDER_TO_PHYS order
      in case OsVmPhysToPage pa1 g s of
           None \<Rightarrow> (page, order, seg_check g s)
         | Some buddyPage \<Rightarrow>
             if page_order s buddyPage \<noteq> order then (page, order, seg_check g s)
             else let s1 = OsVmPhysFreeListDelUnsafe buddyPage (seg_check g s);
                      pa2 = pa1 AND NOT (VM_ORDER_TO_PHYS (order + 1) - 1)
                  in case OsVmPhysToPage pa2 g s1 of
                       None \<Rightarrow> (page, order + 1, s1\<lparr>vm_fault := True\<rparr>)
                     | Some page1 \<Rightarrow> free_merge k (order + 1) pa2 page1 s1)"

definition OsVmPhysPagesFree :: "nat option \<Rightarrow> nat \<Rightarrow> vm_phys \<Rightarrow> vm_phys" where
  "OsVmPhysPagesFree page order s = (case page of
     None \<Rightarrow> s
   | Some p \<Rightarrow>
       if order \<ge> VM_LIST_ORDER_MAX then s
       else let (p1, order1, s1) =
                  (if order < VM_LIST_ORDER_MAX - 1
                   then free_merge (VM_LIST_ORDER_MAX - 1 - order) order (VM_PAGE_TO_PHYS p s) p s else (p, order, s))
            in OsVmPhysFreeListAddUnsafe p1 order1 s1)"

text \<open>The two loops of \<open>OsVmPhysPagesFreeContiguous\<close>.\<close>

function free_aligned :: "nat \<Rightarrow> nat \<Rightarrow> vm_phys \<Rightarrow> nat \<times> nat \<times> vm_phys" where
  "free_aligned page nPages s =
     (let order = VM_PHYS_TO_ORDER (VM_PAGE_TO_PHYS page s); n = VM_ORDER_TO_PAGES order
      in if n > nPages then (page, nPages, s)
         else free_aligned (page + n) (nPages - n) (OsVmPhysPagesFree (Some page) order s))"
  by pat_completeness auto
termination by (relation "measure (\<lambda>(page, nPages, s). nPages)") (auto simp: VM_ORDER_TO_PAGES_def sub_power)

function free_rest :: "nat \<Rightarrow> nat \<Rightarrow> vm_phys \<Rightarrow> vm_phys" where
  "free_rest page nPages s =
     (if nPages > 0
      then let order = LOS_HighBitGet (of_nat nPages); n = VM_ORDER_TO_PAGES order
           in free_rest (page + n) (nPages - n) (OsVmPhysPagesFree (Some page) order s)
      else s)"
  by pat_completeness auto
termination by (relation "measure (\<lambda>(page, nPages, s). nPages)") (auto simp: VM_ORDER_TO_PAGES_def)

definition OsVmPhysPagesFreeContiguous :: "nat \<Rightarrow> nat \<Rightarrow> vm_phys \<Rightarrow> vm_phys" where
  "OsVmPhysPagesFreeContiguous page nPages s = (let (p, n, s1) = free_aligned page nPages s in free_rest p n s1)"

definition OsVmRecycleExtraPages :: "nat \<Rightarrow> nat \<Rightarrow> nat \<Rightarrow> vm_phys \<Rightarrow> vm_phys" where
  "OsVmRecycleExtraPages page startPage endPage s =
     (if startPage \<ge> endPage then s else OsVmPhysPagesFreeContiguous page (endPage - startPage) s)"

section \<open>Allocation\<close>

text \<open>The shift in \<open>VM_ORDER_TO_PAGES\<close> is one of an \<open>int\<close>: the definition is that of the code for up to \<open>2^31\<close> pages.\<close>

function pages_to_order :: "nat \<Rightarrow> nat \<Rightarrow> nat" where
  "pages_to_order nPages order = (if VM_ORDER_TO_PAGES order < nPages then pages_to_order nPages (order + 1) else order)"
  by pat_completeness auto
termination by (relation "measure (\<lambda>(nPages, order). nPages - 2 ^ order)") (auto simp: VM_ORDER_TO_PAGES_def sub_power)

definition OsVmPagesToOrder :: "nat \<Rightarrow> nat" where
  "OsVmPagesToOrder nPages = pages_to_order nPages 0"

text \<open>
  The inner loop of \<open>OsVmPhysLargeAlloc\<close>: are the blocks behind the first one free, up to \<open>paEnd\<close>? After 4096 turns the address would
  be the first again, and the loop would never end (\<open>None\<close>).
\<close>

fun large_fit :: "nat \<Rightarrow> vm_phys \<Rightarrow> VmPhysSeg \<Rightarrow> u32 \<Rightarrow> u32 \<Rightarrow> bool option" where
  "large_fit 0 s S paEnd paStart = None"
| "large_fit (Suc k) s S paEnd paStart =
     (let pa = paStart + push_bit (VM_LIST_ORDER_MAX - 1) PAGE_SIZE
      in if pa \<ge> paEnd \<or> pa < seg_start S \<or> pa \<ge> seg_start S + seg_size S then Some (pa \<ge> paEnd)
         else if page_order s (pageBase S + unat (drop_bit PAGE_SHIFT (pa - seg_start S))) \<noteq> VM_LIST_ORDER_MAX - 1
         then Some (pa \<ge> paEnd)
         else large_fit k s S paEnd pa)"

fun large_scan :: "vm_phys \<Rightarrow> VmPhysSeg \<Rightarrow> u32 \<Rightarrow> nat list \<Rightarrow> nat option option" where
  "large_scan s S sz [] = Some None"
| "large_scan s S sz (page # rest) =
     (let paStart = physAddr (g_vmPage s page); paEnd = paStart + sz
      in if paEnd > seg_start S + seg_size S then large_scan s S sz rest
         else (case large_fit 4096 s S paEnd paStart of
             None \<Rightarrow> None
           | Some True \<Rightarrow> Some (Some page)
           | Some False \<Rightarrow> large_scan s S sz rest))"

definition OsVmPhysLargeAlloc :: "nat \<Rightarrow> nat \<Rightarrow> vm_phys \<Rightarrow> nat option option" where
  "OsVmPhysLargeAlloc g nPages s = (let S = g_vmPhysSeg s g
     in large_scan s S (push_bit PAGE_SHIFT (of_nat nPages)) (freeList S (VM_LIST_ORDER_MAX - 1)))"

text \<open>\<open>find_order\<close> is the loop over the lists of the orders that are large enough; \<open>del_blocks\<close> takes the blocks of the result off the list.\<close>

definition find_order :: "nat \<Rightarrow> VmPhysSeg \<Rightarrow> nat option" where
  "find_order order S = find (\<lambda>newOrder. freeList S newOrder \<noteq> []) [order..<VM_LIST_ORDER_MAX]"

function del_blocks :: "nat \<Rightarrow> nat \<Rightarrow> nat \<Rightarrow> vm_phys \<Rightarrow> vm_phys" where
  "del_blocks tmp end newOrder s =
     (if tmp < end then del_blocks (tmp + 2 ^ newOrder) end newOrder (OsVmPhysFreeListDelUnsafe tmp s) else s)"
  by pat_completeness auto
termination by (relation "measure (\<lambda>(tmp, end, newOrder, s). end - tmp)") (auto simp: sub_power)

definition ROUNDUP :: "nat \<Rightarrow> nat \<Rightarrow> nat" where
  "ROUNDUP a b = (a + (b - 1)) div b * b"

definition take_pages :: "nat \<Rightarrow> nat \<Rightarrow> nat \<Rightarrow> nat \<Rightarrow> vm_phys \<Rightarrow> vm_phys" where
  "take_pages page nPages order newOrder s =
     (let s1 = del_blocks page (page + nPages) newOrder s;
          s2 = OsVmPhysPagesSpiltUnsafe page order newOrder s1
      in OsVmRecycleExtraPages (page + nPages) nPages (ROUNDUP nPages (2 ^ min order newOrder)) s2)"

definition OsVmPhysPagesAlloc :: "nat \<Rightarrow> nat \<Rightarrow> vm_phys \<Rightarrow> nat option \<times> vm_phys" where
  "OsVmPhysPagesAlloc g nPages s =
     (let order = OsVmPagesToOrder nPages; S = g_vmPhysSeg s g
      in if order < VM_LIST_ORDER_MAX
         then (case find_order order S of
             None \<Rightarrow> (None, s)
           | Some newOrder \<Rightarrow>
               let page = hd (freeList S newOrder) in (Some page, take_pages page nPages order newOrder s))
         else (case OsVmPhysLargeAlloc g nPages s of
             None \<Rightarrow> (None, s\<lparr>vm_diverged := True\<rparr>)
           | Some None \<Rightarrow> (None, s)
           | Some (Some page) \<Rightarrow> (Some page, take_pages page nPages order (VM_LIST_ORDER_MAX - 1) s)))"

fun pages_get :: "nat \<Rightarrow> nat list \<Rightarrow> vm_phys \<Rightarrow> nat option \<times> vm_phys" where
  "pages_get nPages [] s = (None, s)"
| "pages_get nPages (g # gs) s = (case OsVmPhysPagesAlloc g nPages s of
     (Some page, s1) \<Rightarrow> (Some page, upd_page page (\<lambda>p. p\<lparr>refCounts := 0, pg_nPages := of_nat nPages\<rparr>) s1)
   | (None, s1) \<Rightarrow> pages_get nPages gs s1)"

definition OsVmPhysPagesGet :: "nat \<Rightarrow> vm_phys \<Rightarrow> nat option \<times> vm_phys" where
  "OsVmPhysPagesGet nPages s = pages_get nPages [0..<g_vmPhysSegNum s] s"

section \<open>The interface\<close>

definition LOS_PhysPagesAllocContiguous :: "nat \<Rightarrow> vm_phys \<Rightarrow> u32 \<times> vm_phys" where
  "LOS_PhysPagesAllocContiguous nPages s =
     (if nPages = 0 then (0, s)
      else (case OsVmPhysPagesGet nPages s of
          (None, s1) \<Rightarrow> (0, s1)
        | (Some page, s1) \<Rightarrow> (OsVmPageToVaddr page s1, s1)))"

definition LOS_PhysPagesFreeContiguous :: "(u32 \<Rightarrow> u32) \<Rightarrow> u32 \<Rightarrow> nat \<Rightarrow> vm_phys \<Rightarrow> vm_phys" where
  "LOS_PhysPagesFreeContiguous LOS_PaddrQuery ptr nPages s =
     (if ptr = 0 then s
      else (case OsVmVaddrToPage LOS_PaddrQuery ptr s of
          None \<Rightarrow> s
        | Some page \<Rightarrow> OsVmPhysPagesFreeContiguous page nPages (upd_page page (\<lambda>p. p\<lparr>pg_nPages := 0\<rparr>) s)))"

definition OsKVaddrToPaddr :: "u32 \<Rightarrow> vm_phys \<Rightarrow> u32" where
  "OsKVaddrToPaddr kvaddr s = (if kvaddr = 0 then 0 else kvaddr - KERNEL_ASPACE_BASE s + SYS_MEM_BASE s)"

definition LOS_PaddrToKVaddr :: "u32 \<Rightarrow> vm_phys \<Rightarrow> u32" where
  "LOS_PaddrToKVaddr paddr s =
     (if paddr = 0 then 0
      else if \<exists>g\<in>set [0..<g_vmPhysSegNum s]. paddr \<ge> seg_start (g_vmPhysSeg s g) \<and>
             paddr < seg_start (g_vmPhysSeg s g) + seg_size (g_vmPhysSeg s g)
      then paddr - SYS_MEM_BASE s + KERNEL_ASPACE_BASE s
      else paddr - SYS_MEM_BASE s + KERNEL_ASPACE_BASE s)"

definition LOS_PhysPageFree :: "nat option \<Rightarrow> vm_phys \<Rightarrow> vm_phys" where
  "LOS_PhysPageFree page s = (case page of
     None \<Rightarrow> s
   | Some p \<Rightarrow>
       let s1 = upd_page p (\<lambda>c. c\<lparr>refCounts := refCounts c - 1\<rparr>) s
       in if refCounts (g_vmPage s1 p) \<le> 0
          then upd_page p (\<lambda>c. c\<lparr>refCounts := 0\<rparr>) (OsVmPhysPagesFreeContiguous p 1 s1)
          else s1)"

definition LOS_PhysPageAlloc :: "vm_phys \<Rightarrow> nat option \<times> vm_phys" where
  "LOS_PhysPageAlloc s = OsVmPhysPagesGet 1 s"

text \<open>The list of the caller is returned with the pages appended.\<close>

fun LOS_PhysPagesAlloc_loop :: "nat \<Rightarrow> nat list \<Rightarrow> vm_phys \<Rightarrow> nat \<times> nat list \<times> vm_phys" where
  "LOS_PhysPagesAlloc_loop 0 lst s = (0, lst, s)"
| "LOS_PhysPagesAlloc_loop (Suc n) lst s = (case OsVmPhysPagesGet 1 s of
     (None, s1) \<Rightarrow> (0, lst, s1)
   | (Some page, s1) \<Rightarrow> (let (cnt, lst1, s2) = LOS_PhysPagesAlloc_loop n (lst @ [page]) s1 in (cnt + 1, lst1, s2)))"

definition LOS_PhysPagesAlloc :: "nat \<Rightarrow> nat list option \<Rightarrow> vm_phys \<Rightarrow> nat \<times> nat list option \<times> vm_phys" where
  "LOS_PhysPagesAlloc nPages lst s = (case lst of
     None \<Rightarrow> (0, None, s)
   | Some ps \<Rightarrow> if nPages = 0 then (0, lst, s)
       else (let (cnt, ps1, s1) = LOS_PhysPagesAlloc_loop nPages ps s in (cnt, Some ps1, s1)))"

fun LOS_PhysPagesFree_loop :: "nat list \<Rightarrow> vm_phys \<Rightarrow> vm_phys" where
  "LOS_PhysPagesFree_loop [] s = s"
| "LOS_PhysPagesFree_loop (p # ps) s = LOS_PhysPagesFree_loop ps (LOS_PhysPageFree (Some p) s)"

definition LOS_PhysPagesFree :: "nat list option \<Rightarrow> vm_phys \<Rightarrow> nat \<times> nat list option \<times> vm_phys" where
  "LOS_PhysPagesFree lst s = (case lst of
     None \<Rightarrow> (0, None, s) | Some ps \<Rightarrow> (length ps, Some [], LOS_PhysPagesFree_loop ps s))"

text \<open>
  The first result is the new value of \<open>*newPaddr\<close>, the second the page copy that is made, from the second kernel address to the first. The contents of
  memory are not modelled.
\<close>

definition OsPhysSharePageCopy :: "u32 \<Rightarrow> u32 option \<Rightarrow> nat option \<Rightarrow> vm_phys \<Rightarrow> u32 option \<times> (u32 \<times> u32) option \<times> vm_phys" where
  "OsPhysSharePageCopy oldPaddr newPaddr newPage s = (case (newPage, newPaddr) of
     (Some np, Some npa) \<Rightarrow>
       (case LOS_VmPageGet oldPaddr s of
          None \<Rightarrow> (newPaddr, None, s)
        | Some oldPage \<Rightarrow>
            if refCounts (g_vmPage s oldPage) = 1 then (Some oldPaddr, None, s)
            else let newMem = LOS_PaddrToKVaddr npa s; oldMem = LOS_PaddrToKVaddr oldPaddr s
                 in if newMem = 0 \<or> oldMem = 0 then (newPaddr, None, s)
                    else (newPaddr, Some (newMem, oldMem),
                          upd_page oldPage (\<lambda>c. c\<lparr>refCounts := refCounts c - 1\<rparr>) (upd_page np (\<lambda>c. c\<lparr>refCounts := refCounts c + 1\<rparr>) s)))
   | _ \<Rightarrow> (newPaddr, None, s))"

definition OsVmPhysSegGet :: "nat option \<Rightarrow> vm_phys \<Rightarrow> nat option" where
  "OsVmPhysSegGet page s = (case page of
     None \<Rightarrow> None
   | Some p \<Rightarrow> if segID (g_vmPage s p) \<ge> VM_PHYS_SEG_MAX then None else Some (segID (g_vmPage s p)))"

section \<open>Start-up\<close>

definition OsVmPageInit :: "nat \<Rightarrow> u32 \<Rightarrow> nat \<Rightarrow> vm_phys \<Rightarrow> vm_phys" where
  "OsVmPageInit page pa g s = upd_page page
     (\<lambda>p. p\<lparr>pg_flags := 0, refCounts := 0, physAddr := pa, segID := g, pg_order := VM_LIST_ORDER_MAX, pg_nPages := 0\<rparr>) s"

text \<open>\<open>VMPAGEINIT\<close>, repeated eight times in the loop over \<open>nPage >> 3\<close> and once in the loop over the rest.\<close>

fun page_init_loop :: "nat \<Rightarrow> nat \<Rightarrow> u32 \<Rightarrow> nat \<Rightarrow> vm_phys \<Rightarrow> nat \<times> u32 \<times> vm_phys" where
  "page_init_loop 0 page pa g s = (page, pa, s)"
| "page_init_loop (Suc n) page pa g s = page_init_loop n (page + 1) (pa + PAGE_SIZE) g (OsVmPageInit page pa g s)"

definition seg_startup :: "nat \<Rightarrow> vm_phys \<Rightarrow> vm_phys" where
  "seg_startup g s =
     (let S = g_vmPhysSeg s g;
          nPage = drop_bit PAGE_SHIFT (seg_size S);
          (page1, pa1, s1) = page_init_loop (unat (drop_bit 3 nPage) * 8) (pageBase S) (seg_start S) g s;
          (page2, pa2, s2) = page_init_loop (unat (nPage AND 7)) page1 pa1 g s1
      in OsVmPhysPagesFreeContiguous (pageBase S) (unat nPage) s2)"

text \<open>Memory before the kernel heap exists; \<open>page_roundup\<close> is \<open>ROUNDUP\<close> to the size of a page, on words.\<close>

definition LOS_Align :: "u32 \<Rightarrow> u32 \<Rightarrow> u32" where
  "LOS_Align addr boundary =
     (if addr + boundary - 1 > addr then (addr + boundary - 1) AND NOT (boundary - 1) else addr AND NOT (boundary - 1))"

definition OsVmBootMemAlloc :: "u32 \<Rightarrow> vm_phys \<Rightarrow> u32 \<times> vm_phys" where
  "OsVmBootMemAlloc len s =
     (if g_kHeapInited s then (0, s)
      else let ptr = LOS_Align (g_vmBootMemBase s) 4 in (ptr, s\<lparr>g_vmBootMemBase := ptr + LOS_Align len 4\<rparr>))"

definition page_roundup :: "u32 \<Rightarrow> u32" where
  "page_roundup x = (x + (PAGE_SIZE - 1)) AND NOT (PAGE_SIZE - 1)"

text \<open>A page structure has 24 bytes.\<close>

definition OsVmPageStartup :: "vm_phys \<Rightarrow> vm_phys" where
  "OsVmPageStartup s =
     (let s1 = OsVmPhysAreaSizeAdjust (page_roundup (g_vmBootMemBase s - KERNEL_ASPACE_BASE s)) s;
          nPage = OsVmPhysPageNumGet s1 * PAGE_SIZE div (24 + PAGE_SIZE);
          (array, s2) = OsVmBootMemAlloc (nPage * 24) (s1\<lparr>g_vmPageArraySize := nPage * 24\<rparr>);
          s3 = OsVmPhysAreaSizeAdjust (page_roundup (g_vmPageArraySize s2)) (s2\<lparr>g_vmPageArray := array\<rparr>);
          s4 = OsVmPhysInit (OsVmPhysSegAdd s3)
      in fold seg_startup [0..<g_vmPhysSegNum s4] s4)"

declare free_aligned.simps [simp del] free_rest.simps [simp del] pages_to_order.simps [simp del] del_blocks.simps [simp del]

section \<open>Frames and addresses\<close>

text \<open>The first page frame of a segment, the number of its pages, and the page structure of a frame.\<close>

definition seg_pfn :: "nat \<Rightarrow> vm_phys \<Rightarrow> nat" where
  "seg_pfn g s = unat (seg_start (g_vmPhysSeg s g)) div 4096"

definition seg_pages :: "nat \<Rightarrow> vm_phys \<Rightarrow> nat" where
  "seg_pages g s = unat (seg_size (g_vmPhysSeg s g)) div 4096"

definition page_at :: "nat \<Rightarrow> vm_phys \<Rightarrow> nat \<Rightarrow> nat" where
  "page_at g s f = pageBase (g_vmPhysSeg s g) + (f - seg_pfn g s)"

abbreviation (input) seg_frames :: "nat \<Rightarrow> vm_phys \<Rightarrow> nat set" where
  "seg_frames g s \<equiv> {seg_pfn g s ..< seg_pfn g s + seg_pages g s}"

definition frame_addr :: "nat \<Rightarrow> u32" where
  "frame_addr f = of_nat (4096 * f)"

definition seg_static :: "nat \<Rightarrow> vm_phys \<Rightarrow> bool" where
  "seg_static g s \<longleftrightarrow> g < VM_PHYS_SEG_MAX \<and> 4096 dvd unat (seg_start (g_vmPhysSeg s g)) \<and> 4096 dvd unat (seg_size (g_vmPhysSeg s g)) \<and>
     unat (seg_start (g_vmPhysSeg s g)) + unat (seg_size (g_vmPhysSeg s g)) < 2 ^ 32 \<and>
     (\<forall>f\<in>seg_frames g s. physAddr (g_vmPage s (page_at g s f)) = frame_addr f \<and> segID (g_vmPage s (page_at g s f)) = g)"

lemma seg_addr:
  assumes "seg_static g s"
  shows "unat (seg_start (g_vmPhysSeg s g)) = 4096 * seg_pfn g s" "unat (seg_size (g_vmPhysSeg s g)) = 4096 * seg_pages g s"
    "4096 * (seg_pfn g s + seg_pages g s) < 2 ^ 32"
  using assms by (auto simp: seg_static_def seg_pfn_def seg_pages_def)

lemma unat_frame: "f < 2 ^ 20 \<Longrightarrow> unat (frame_addr f) = 4096 * f"
  unfolding frame_addr_def unat_of_nat by (simp add: take_bit_nat_eq_self)

lemma to_page:
  assumes st: "seg_static g s" and f: "f < 2 ^ 20"
  shows "OsVmPhysToPage (frame_addr f) g s = (if f \<in> seg_frames g s then Some (page_at g s f) else None)"
proof -
  let ?S = "g_vmPhysSeg s g" and ?a = "frame_addr f"
  note a = seg_addr [OF st]
  have e: "unat (seg_start ?S + seg_size ?S) = 4096 * (seg_pfn g s + seg_pages g s)" using a by (simp add: unat_word_ariths)
  have lt: "?a < seg_start ?S \<longleftrightarrow> f < seg_pfn g s" "?a \<ge> seg_start ?S + seg_size ?S \<longleftrightarrow> f \<ge> seg_pfn g s + seg_pages g s"
    unfolding word_less_nat_alt word_le_nat_alt unat_frame [OF f] a(1) e by (simp_all only: mult_less_cancel1 mult_le_cancel1 zero_less_numeral simp_thms)
  have "unat (drop_bit 12 (?a - seg_start ?S)) = f - seg_pfn g s" if "\<not> f < seg_pfn g s"
  proof -
    have "seg_start ?S \<le> ?a" using that unat_frame [OF f] a(1) by (simp add: word_le_nat_alt)
    then have "unat (?a - seg_start ?S) = 4096 * (f - seg_pfn g s)" using unat_frame [OF f] a(1) by (simp add: unat_sub diff_mult_distrib2)
    then show ?thesis by (simp add: unat_drop_bit_eq drop_bit_eq_div unat_div)
  qed
  then show ?thesis unfolding OsVmPhysToPage_def Let_def lt by (auto simp: page_at_def)
qed

lemma frame_lt: "seg_static g s \<Longrightarrow> f \<in> seg_frames g s \<Longrightarrow> f < 2 ^ 20"
  using seg_addr(3) [of g s] by auto

lemma dvd_add_le:
  fixes a b d :: nat
  assumes "d dvd a" "d dvd b" "a < b"
  shows "a + d \<le> b"
proof -
  obtain x y where "a = d * x" "b = d * y" using assms(1,2) by (elim dvdE)
  moreover have "Suc x \<le> y" using assms(3) calculation by auto
  then have "d * Suc x \<le> d * y" by (rule mult_le_mono2)
  ultimately show ?thesis by simp
qed

lemma buddy_bound: "2 ^ k dvd f \<Longrightarrow> k \<le> 8 \<Longrightarrow> f < 2 ^ 20 \<Longrightarrow> buddy f k < 2 ^ 20"
proof -
  assume a: "2 ^ k dvd f" "k \<le> 8" "f < 2 ^ 20"
  have "(2 :: nat) ^ Suc k dvd 2 ^ 20" using a(2) by (intro le_imp_power_dvd) simp
  moreover have "merged f k < 2 ^ 20" using buddy_merge(3) [OF a(1)] a(3) by simp
  ultimately have "merged f k + 2 ^ Suc k \<le> 2 ^ 20" using dvd_add_le buddy_merge(4) [OF a(1)] by blast
  moreover have "buddy f k \<in> blk (merged f k) (Suc k)" using buddy_merge(1) [OF a(1)] blk_first [of "buddy f k" k] by blast
  ultimately show ?thesis by (simp add: blk_def)
qed

lemma xor_buddy:
  assumes "2 ^ k dvd f" "k \<le> 8"
  shows "frame_addr f XOR VM_ORDER_TO_PHYS k = frame_addr (buddy f k)"
proof -
  let ?w = "frame_addr f" and ?e = "2 ^ (12 + k) :: u32"
  have x: "?w XOR VM_ORDER_TO_PHYS k = flip_bit (12 + k) ?w" by (simp add: VM_ORDER_TO_PHYS_def flip_bit_eq_xor)
  have "(4096 * f) div 2 ^ (12 + k) = f div 2 ^ k" by (simp add: power_add)
  moreover have "bit ?w (12 + k) \<longleftrightarrow> bit (4096 * f) (12 + k)"
  proof -
    have "possible_bit TYPE(u32) (12 + k)" using assms(2) by simp
    then show ?thesis unfolding frame_addr_def by (simp only: bit_of_nat_iff simp_thms)
  qed
  ultimately have b: "bit ?w (12 + k) \<longleftrightarrow> odd (f div 2 ^ k)" by (simp only: bit_iff_odd)
  have e: "?e = of_nat (4096 * 2 ^ k)" by (simp add: power_add)
  show ?thesis
  proof (cases "odd (f div 2 ^ k)")
    case True
    then have le: "2 ^ k \<le> f" by (metis div_less even_zero not_le)
    have "flip_bit (12 + k) ?w = ?w - ?e" using True b by (simp add: flip_bit_eq_if unset_bit_eq)
    also have "\<dots> = of_nat (4096 * f - 4096 * 2 ^ k)" unfolding frame_addr_def e using le by (intro of_nat_diff [symmetric]) simp
    also have "4096 * f - 4096 * 2 ^ k = 4096 * (f - 2 ^ k)" by (simp add: diff_mult_distrib2)
    finally show ?thesis unfolding x using True by (simp only: buddy_def frame_addr_def if_True not_False_eq_True)
  next
    case False
    then have "flip_bit (12 + k) ?w = ?w + ?e" using b by (simp add: flip_bit_eq_if set_bit_eq)
    also have "\<dots> = of_nat (4096 * f + 4096 * 2 ^ k)" unfolding frame_addr_def e by (simp only: of_nat_add)
    also have "4096 * f + 4096 * 2 ^ k = 4096 * (f + 2 ^ k)" by (simp add: distrib_left)
    finally show ?thesis unfolding x using False by (simp only: buddy_def frame_addr_def if_False)
  qed
qed

lemma mask_merged:
  assumes "f < 2 ^ 20"
  shows "frame_addr f AND NOT (VM_ORDER_TO_PHYS (k + 1) - 1) = frame_addr (merged f k)"
proof -
  have m: "VM_ORDER_TO_PHYS (k + 1) - 1 = mask (13 + k)" by (simp add: VM_ORDER_TO_PHYS_def mask_eq_exp_minus_1 push_bit_eq_mult)
  have "(2 :: nat) ^ (13 + k) = 4096 * 2 ^ Suc k" by (simp add: power_add)
  then have "unat (frame_addr f AND NOT (mask (13 + k))) = 4096 * merged f k"
    unfolding unat_clear_low unat_frame [OF assms] by (simp add: merged_def)
  moreover have "merged f k < 2 ^ 20" using assms div_times_less_eq_dividend [of f "2 ^ Suc k"] unfolding merged_def by linarith
  ultimately show ?thesis unfolding m by (simp add: word_unat_eq_iff unat_frame)
qed

section \<open>The lists of a segment\<close>

definition ord_of :: "nat \<Rightarrow> vm_phys \<Rightarrow> nat \<Rightarrow> nat" where
  "ord_of g s f = (if f \<in> seg_frames g s then page_order s (page_at g s f) else VM_LIST_ORDER_MAX)"

definition on_list :: "nat \<Rightarrow> vm_phys \<Rightarrow> nat \<Rightarrow> nat set" where
  "on_list g s k = page_at g s ` {f \<in> seg_frames g s. page_order s (page_at g s f) = k}"

definition seg_lists :: "nat \<Rightarrow> vm_phys \<Rightarrow> bool" where
  "seg_lists g s \<longleftrightarrow> (\<forall>f\<in>seg_frames g s. page_order s (page_at g s f) \<le> VM_LIST_ORDER_MAX) \<and>
     (\<forall>k<VM_LIST_ORDER_MAX. distinct (freeList (g_vmPhysSeg s g) k) \<and>
       set (freeList (g_vmPhysSeg s g) k) = on_list g s k \<and>
       listCnt (g_vmPhysSeg s g) k = of_nat (length (freeList (g_vmPhysSeg s g) k)))"

definition vm_clean :: "vm_phys \<Rightarrow> bool" where
  "vm_clean s \<longleftrightarrow> \<not> vm_panic s \<and> \<not> vm_assert s \<and> \<not> vm_fault s \<and> \<not> vm_diverged s"

definition seg_ok :: "nat \<Rightarrow> vm_phys \<Rightarrow> bool" where
  "seg_ok g s \<longleftrightarrow> seg_static g s \<and> seg_lists g s \<and> geom (seg_pfn g s) (seg_pfn g s + seg_pages g s) (ord_of g s) \<and> vm_clean s"

text \<open>What the operations on a segment leave alone: everything but its free lists and the orders of its pages.\<close>

definition vm_frame :: "nat \<Rightarrow> vm_phys \<Rightarrow> vm_phys \<Rightarrow> bool" where
  "vm_frame g s t \<longleftrightarrow> (\<forall>h. h \<noteq> g \<longrightarrow> g_vmPhysSeg t h = g_vmPhysSeg s h) \<and>
     seg_start (g_vmPhysSeg t g) = seg_start (g_vmPhysSeg s g) \<and> seg_size (g_vmPhysSeg t g) = seg_size (g_vmPhysSeg s g) \<and>
     pageBase (g_vmPhysSeg t g) = pageBase (g_vmPhysSeg s g) \<and> g_vmPhysSegNum t = g_vmPhysSegNum s \<and>
     KERNEL_ASPACE_BASE t = KERNEL_ASPACE_BASE s \<and> SYS_MEM_BASE t = SYS_MEM_BASE s \<and> g_vmPageArraySize t = g_vmPageArraySize s \<and>
     (\<forall>p. p \<notin> page_at g s ` seg_frames g s \<longrightarrow> g_vmPage t p = g_vmPage s p) \<and>
     (\<forall>p. (g_vmPage t p)\<lparr>pg_order := 0\<rparr> = (g_vmPage s p)\<lparr>pg_order := 0\<rparr>)"

lemma vm_frame_refl [simp]: "vm_frame g s s"
  by (simp add: vm_frame_def)

lemma vm_frame_view:
  assumes "vm_frame g s t"
  shows "seg_pfn g t = seg_pfn g s" "seg_pages g t = seg_pages g s" "page_at g t = page_at g s"
  using assms by (auto simp: vm_frame_def seg_pfn_def seg_pages_def page_at_def)

lemma vm_frame_page:
  assumes "vm_frame g s t"
  shows "physAddr (g_vmPage t p) = physAddr (g_vmPage s p)" "segID (g_vmPage t p) = segID (g_vmPage s p)"
    "refCounts (g_vmPage t p) = refCounts (g_vmPage s p)"
proof -
  have "(g_vmPage t p)\<lparr>pg_order := 0\<rparr> = (g_vmPage s p)\<lparr>pg_order := 0\<rparr>" using assms by (simp add: vm_frame_def)
  then have "physAddr ((g_vmPage t p)\<lparr>pg_order := 0\<rparr>) = physAddr ((g_vmPage s p)\<lparr>pg_order := 0\<rparr>)"
    "segID ((g_vmPage t p)\<lparr>pg_order := 0\<rparr>) = segID ((g_vmPage s p)\<lparr>pg_order := 0\<rparr>)"
    "refCounts ((g_vmPage t p)\<lparr>pg_order := 0\<rparr>) = refCounts ((g_vmPage s p)\<lparr>pg_order := 0\<rparr>)" by simp_all
  then show "physAddr (g_vmPage t p) = physAddr (g_vmPage s p)" "segID (g_vmPage t p) = segID (g_vmPage s p)"
    "refCounts (g_vmPage t p) = refCounts (g_vmPage s p)" by simp_all
qed

lemma vm_frame_trans: "vm_frame g s t \<Longrightarrow> vm_frame g t u \<Longrightarrow> vm_frame g s u"
  using vm_frame_view [of g s t] by (simp add: vm_frame_def)

lemma vm_frame_static:
  assumes "vm_frame g s t"
  shows "seg_static g t = seg_static g s"
proof -
  have "seg_start (g_vmPhysSeg t g) = seg_start (g_vmPhysSeg s g)" "seg_size (g_vmPhysSeg t g) = seg_size (g_vmPhysSeg s g)"
    using assms by (simp_all add: vm_frame_def)
  then show ?thesis by (simp add: seg_static_def vm_frame_view [OF assms] vm_frame_page [OF assms])
qed

lemma page_at_inj: "f \<in> seg_frames g s \<Longrightarrow> f' \<in> seg_frames g s \<Longrightarrow> page_at g s f = page_at g s f' \<longleftrightarrow> f = f'"
  by (auto simp: page_at_def)

lemma seg_listsD:
  assumes "seg_lists g s" "k < VM_LIST_ORDER_MAX"
  shows "distinct (freeList (g_vmPhysSeg s g) k)" "set (freeList (g_vmPhysSeg s g) k) = on_list g s k"
    "listCnt (g_vmPhysSeg s g) k = of_nat (length (freeList (g_vmPhysSeg s g) k))"
  using assms by (simp_all add: seg_lists_def)

lemma on_list_iff: "f \<in> seg_frames g s \<Longrightarrow> page_at g s f \<in> on_list g s k \<longleftrightarrow> page_order s (page_at g s f) = k"
  using page_at_inj by (auto simp: on_list_def image_iff)

lemma seg_listsI:
  assumes "\<And>f. f \<in> seg_frames g s \<Longrightarrow> page_order s (page_at g s f) \<le> VM_LIST_ORDER_MAX"
    and "\<And>k. k < VM_LIST_ORDER_MAX \<Longrightarrow> distinct (freeList (g_vmPhysSeg s g) k)"
    and "\<And>k. k < VM_LIST_ORDER_MAX \<Longrightarrow> set (freeList (g_vmPhysSeg s g) k) = on_list g s k"
    and "\<And>k. k < VM_LIST_ORDER_MAX \<Longrightarrow> listCnt (g_vmPhysSeg s g) k = of_nat (length (freeList (g_vmPhysSeg s g) k))"
  shows "seg_lists g s"
  using assms unfolding seg_lists_def by blast

lemma list_add:
  assumes st: "seg_static g s" and f: "f \<in> seg_frames g s" and l: "seg_lists g s" and n: "page_order s (page_at g s f) = VM_LIST_ORDER_MAX"
    and k: "k < VM_LIST_ORDER_MAX"
  defines "t \<equiv> OsVmPhysFreeListAddUnsafe (page_at g s f) k s"
  shows "vm_frame g s t" "seg_lists g t" "ord_of g t = (ord_of g s)(f := k)" "vm_clean t = vm_clean s"
proof -
  let ?p = "page_at g s f" and ?S = "g_vmPhysSeg s g"
  have g: "segID (g_vmPage s ?p) = g" "g < 32" using st f by (simp_all add: seg_static_def)
  have t: "t = upd_seg g (\<lambda>S. S\<lparr>freeList := (freeList S)(k := freeList S k @ [?p]), listCnt := (listCnt S)(k := listCnt S k + 1)\<rparr>)
      (upd_page ?p (\<lambda>p. p\<lparr>pg_order := k\<rparr>) s)"
    using g by (simp add: t_def OsVmPhysFreeListAddUnsafe_def Let_def)
  show fr: "vm_frame g s t" using f by (auto simp: vm_frame_def t upd_seg_def upd_page_def)
  note v = vm_frame_view [OF fr]
  have o: "page_order t (page_at g s x) = (if x = f then k else page_order s (page_at g s x))" if "x \<in> seg_frames g s" for x
    using page_at_inj [OF that f] by (simp add: t upd_seg_def upd_page_def)
  show "ord_of g t = (ord_of g s)(f := k)" using o f by (auto simp: ord_of_def v)
  show "vm_clean t = vm_clean s" by (simp add: t vm_clean_def upd_seg_def upd_page_def)
  have fl: "freeList (g_vmPhysSeg t g) j = (if j = k then freeList ?S k @ [?p] else freeList ?S j)"
    "listCnt (g_vmPhysSeg t g) j = (if j = k then listCnt ?S k + 1 else listCnt ?S j)" for j
    by (simp_all add: t upd_seg_def upd_page_def)
  have np: "?p \<notin> set (freeList ?S k)" unfolding seg_listsD(2) [OF l k] on_list_iff [OF f] using n k by simp
  have ol: "on_list g t j = (if j = k then insert ?p (on_list g s k) else on_list g s j)" if "j < 9" for j
  proof -
    have "{x \<in> seg_frames g s. page_order t (page_at g s x) = j} =
        (if j = k then insert f {x \<in> seg_frames g s. page_order s (page_at g s x) = k} else {x \<in> seg_frames g s. page_order s (page_at g s x) = j})"
      using o f n that by (auto split: if_splits)
    then show ?thesis by (simp add: on_list_def v)
  qed
  show "seg_lists g t"
  proof (rule seg_listsI)
    show "page_order t (page_at g t x) \<le> 9" if "x \<in> seg_frames g t" for x
      using o [of x] that l k unfolding v seg_lists_def by (simp split: if_splits)
    fix j :: nat assume j: "j < 9"
    show "distinct (freeList (g_vmPhysSeg t g) j)" using seg_listsD(1) [OF l j] np by (cases "j = k") (simp_all add: fl)
    show "set (freeList (g_vmPhysSeg t g) j) = on_list g t j" unfolding fl ol [OF j] using seg_listsD(2) [OF l j] by (cases "j = k") simp_all
    show "listCnt (g_vmPhysSeg t g) j = of_nat (length (freeList (g_vmPhysSeg t g) j))"
      unfolding fl using seg_listsD(3) [OF l j] by (cases "j = k") simp_all
  qed
qed

lemma list_del:
  assumes st: "seg_static g s" and f: "f \<in> seg_frames g s" and l: "seg_lists g s" and n: "page_order s (page_at g s f) < VM_LIST_ORDER_MAX"
  defines "t \<equiv> OsVmPhysFreeListDelUnsafe (page_at g s f) s"
  shows "vm_frame g s t" "seg_lists g t" "ord_of g t = (ord_of g s)(f := VM_LIST_ORDER_MAX)" "vm_clean t = vm_clean s"
proof -
  let ?p = "page_at g s f" and ?S = "g_vmPhysSeg s g"
  define k where "k = page_order s ?p"
  have g: "segID (g_vmPage s ?p) = g" "g < 32" using st f by (simp_all add: seg_static_def)
  have m: "?p \<in> set (freeList ?S k)" unfolding seg_listsD(2) [OF l n [folded k_def]] on_list_iff [OF f] by (simp add: k_def)
  have t: "t = upd_page ?p (\<lambda>p. p\<lparr>pg_order := VM_LIST_ORDER_MAX\<rparr>)
      (upd_seg g (\<lambda>S. S\<lparr>freeList := (freeList S)(k := remove1 ?p (freeList S k)), listCnt := (listCnt S)(k := listCnt S k - 1)\<rparr>) s)"
    using g n m by (simp add: t_def OsVmPhysFreeListDelUnsafe_def Let_def k_def)
  show fr: "vm_frame g s t" using f by (auto simp: vm_frame_def t upd_seg_def upd_page_def)
  note v = vm_frame_view [OF fr]
  have o: "page_order t (page_at g s x) = (if x = f then 9 else page_order s (page_at g s x))" if "x \<in> seg_frames g s" for x
    using page_at_inj [OF that f] by (simp add: t upd_seg_def upd_page_def)
  show "ord_of g t = (ord_of g s)(f := VM_LIST_ORDER_MAX)" using o f by (auto simp: ord_of_def v)
  show "vm_clean t = vm_clean s" by (simp add: t vm_clean_def upd_seg_def upd_page_def)
  have fl: "freeList (g_vmPhysSeg t g) j = (if j = k then remove1 ?p (freeList ?S k) else freeList ?S j)"
    "listCnt (g_vmPhysSeg t g) j = (if j = k then listCnt ?S k - 1 else listCnt ?S j)" for j
    by (simp_all add: t upd_seg_def upd_page_def)
  have inj: "inj_on (page_at g s) (seg_frames g s)" using page_at_inj by (auto simp: inj_on_def)
  have ol: "on_list g t j = (if j = k then on_list g s k - {?p} else on_list g s j)" if "j < 9" for j
  proof -
    have "{x \<in> seg_frames g s. page_order t (page_at g s x) = j} =
        (if j = k then {x \<in> seg_frames g s. page_order s (page_at g s x) = k} - {f} else {x \<in> seg_frames g s. page_order s (page_at g s x) = j})"
      using o f n that by (auto simp: k_def split: if_splits)
    moreover have "page_at g s ` ({x \<in> seg_frames g s. page_order s (page_at g s x) = k} - {f}) =
        page_at g s ` {x \<in> seg_frames g s. page_order s (page_at g s x) = k} - page_at g s ` {f}"
      by (rule inj_on_image_set_diff [OF inj]) (use f in auto)
    ultimately show ?thesis by (simp add: on_list_def v)
  qed
  have len: "of_nat (length (remove1 ?p (freeList ?S k))) = (of_nat (length (freeList ?S k)) - 1 :: u32)"
    using m by (cases "length (freeList ?S k)") (simp_all add: length_remove1)
  show "seg_lists g t"
  proof (rule seg_listsI)
    show "page_order t (page_at g t x) \<le> 9" if "x \<in> seg_frames g t" for x
      using o [of x] that l unfolding v seg_lists_def by (simp split: if_splits)
    fix j :: nat assume j: "j < 9"
    show "distinct (freeList (g_vmPhysSeg t g) j)" using seg_listsD(1) [OF l j] by (cases "j = k") (simp_all add: fl)
    show "set (freeList (g_vmPhysSeg t g) j) = on_list g t j"
      unfolding fl ol [OF j] using seg_listsD(1,2) [OF l j] by (cases "j = k") simp_all
    show "listCnt (g_vmPhysSeg t g) j = of_nat (length (freeList (g_vmPhysSeg t g) j))"
      unfolding fl using seg_listsD(3) [OF l j] len by (cases "j = k") simp_all
  qed
qed

end
