(* ===== verification/Vm_Alloc.thy ===== *)
theory Vm_Alloc
  imports Vm_Phys
begin

text \<open>
  The allocator of physical pages keeps a set of free frames. A segment is in order (\<open>seg_ok\<close>) if its free lists, their counters and the orders
  of its pages describe disjoint aligned blocks inside it and no panic, assertion or fault has happened; \<open>all_free\<close> is the set of the frames in these blocks.
  Merging, splitting, allocation and freeing are followed on that set, for blocks, for contiguous pages of any number, and for all segments; start-up makes
  every frame free.
\<close>

unbundle bit_operations_syntax

section \<open>Blocks\<close>

abbreviation (input) vm_free :: "nat \<Rightarrow> vm_phys \<Rightarrow> nat set" where
  "vm_free g s \<equiv> frees (ord_of g s)"

text \<open>A step of the allocator that leaves the frames \<open>A\<close> of the segment free.\<close>

definition seg_to :: "nat \<Rightarrow> vm_phys \<Rightarrow> nat set \<Rightarrow> vm_phys \<Rightarrow> bool" where
  "seg_to g s A t \<longleftrightarrow> seg_ok g t \<and> vm_frame g s t \<and> vm_free g t = A"

definition blk_in :: "nat \<Rightarrow> vm_phys \<Rightarrow> nat \<Rightarrow> nat \<Rightarrow> bool" where
  "blk_in g s f k \<longleftrightarrow> seg_pfn g s \<le> f \<and> f + 2 ^ k \<le> seg_pfn g s + seg_pages g s \<and> 2 ^ k dvd f \<and> k < VM_LIST_ORDER_MAX"

lemma seg_toD:
  assumes "seg_to g s A t"
  shows "seg_ok g t" "vm_frame g s t" "vm_free g t = A" "page_at g t = page_at g s" "blk_in g t = blk_in g s"
    "seg_pfn g t = seg_pfn g s" "seg_pages g t = seg_pages g s"
  using assms vm_frame_view [of g s t] by (auto simp: seg_to_def blk_in_def fun_eq_iff)

lemma seg_to_trans: "seg_to g s A t \<Longrightarrow> seg_to g t B u \<Longrightarrow> seg_to g s B u"
  using vm_frame_trans by (auto simp: seg_to_def)

lemma blk_in_frame: "blk_in g s f k \<Longrightarrow> f \<in> seg_frames g s"
  by (auto simp: blk_in_def intro: less_le_trans [of f "f + 2 ^ k"])

lemma blk_in_lt: "seg_static g s \<Longrightarrow> blk_in g s f k \<Longrightarrow> f < 2 ^ 20"
  using frame_lt blk_in_frame by blast

lemma seg_okD:
  assumes "seg_ok g s"
  shows "seg_static g s" "seg_lists g s" "geom (seg_pfn g s) (seg_pfn g s + seg_pages g s) (ord_of g s)" "vm_clean s"
  using assms by (simp_all add: seg_ok_def)

lemma ord_of_frame: "f \<in> seg_frames g s \<Longrightarrow> ord_of g s f = page_order s (page_at g s f)"
  by (simp add: ord_of_def)

lemma add_ok:
  assumes ok: "seg_ok g s" and b: "blk_in g s f k" and d: "blk f k \<inter> vm_free g s = {}"
  shows "seg_to g s (vm_free g s \<union> blk f k) (OsVmPhysFreeListAddUnsafe (page_at g s f) k s)"
proof -
  note k = seg_okD [OF ok]
  have i: "seg_pfn g s \<le> f" "f + 2 ^ k \<le> seg_pfn g s + seg_pages g s" "2 ^ k dvd f" "k < 9" using b by (simp_all add: blk_in_def)
  note f = blk_in_frame [OF b]
  have "\<not> ord_of g s f < 9" by (rule geom_add(3) [OF k(3) i d])
  moreover have "page_order s (page_at g s f) \<le> 9" using k(2) f by (auto simp: seg_lists_def)
  ultimately have n: "page_order s (page_at g s f) = 9" using ord_of_frame [OF f] by simp
  note l = list_add [OF k(1) f k(2) n i(4)]
  show ?thesis unfolding seg_to_def seg_ok_def vm_frame_static [OF l(1)] vm_frame_view [OF l(1)] l(3,4)
    using l(1,2) k(1,4) geom_add(1,2) [OF k(3) i d] by simp
qed

lemma free_head_in:
  assumes ok: "seg_ok g s" and k: "ord_of g s f = k" "k < VM_LIST_ORDER_MAX"
  shows "blk_in g s f k" "f \<in> seg_frames g s" "page_order s (page_at g s f) = k" "blk f k \<subseteq> vm_free g s"
proof -
  show b: "blk_in g s f k" using geomD(1-3) [OF seg_okD(3) [OF ok], of f] k by (simp add: blk_in_def)
  show f: "f \<in> seg_frames g s" by (rule blk_in_frame [OF b])
  show "page_order s (page_at g s f) = k" using k ord_of_frame [OF f] by simp
  show "blk f k \<subseteq> vm_free g s" using frees_head [of "ord_of g s" f] k by simp
qed

lemma del_ok:
  assumes ok: "seg_ok g s" and k: "ord_of g s f = k" "k < VM_LIST_ORDER_MAX"
  shows "seg_to g s (vm_free g s - blk f k) (OsVmPhysFreeListDelUnsafe (page_at g s f) s)"
proof -
  note o = seg_okD [OF ok] and h = free_head_in [OF ok k]
  have n: "page_order s (page_at g s f) < 9" using h(3) k(2) by simp
  note l = list_del [OF o(1) h(2) o(2) n]
  have kk: "ord_of g s f < 9" using k by simp
  show ?thesis unfolding seg_to_def seg_ok_def vm_frame_static [OF l(1)] vm_frame_view [OF l(1)] l(3,4)
    using l(1,2) o(1,4) geom_del [OF o(3) kk] k(1) by simp
qed

section \<open>Merging\<close>

lemma seg_check_ok [simp]: "seg_static g s \<Longrightarrow> seg_check g s = s"
  by (simp add: seg_check_def seg_static_def)

lemma merged_in:
  assumes b: "blk_in g s f k" "blk_in g s (buddy f k) k" and k: "k < 8"
  shows "blk_in g s (merged f k) (Suc k)"
proof -
  have d: "2 ^ k dvd f" using b by (simp add: blk_in_def)
  note m = buddy_merge [OF d]
  have "merged f k + 2 ^ Suc k = max f (buddy f k) + 2 ^ k"
  proof -
    have "buddy f k = f + 2 ^ k \<or> (buddy f k + 2 ^ k = f)"
    proof (cases "odd (f div 2 ^ k)")
      case True
      then have "2 ^ k \<le> f" by (metis div_less even_zero not_le)
      then show ?thesis using True by (simp add: buddy_def)
    qed (simp add: buddy_def)
    then show ?thesis using m(3) by (auto simp: min_def max_def)
  qed
  then show ?thesis using b m(3,4) k by (auto simp: blk_in_def min_def max_def split: if_splits)
qed

lemma free_merge_ok:
  assumes "seg_ok g s" "blk_in g s f order" "blk f order \<inter> vm_free g s = {}" "k + order = 8"
    "free_merge k order (frame_addr f) (page_at g s f) s = (p, o', t)"
  shows "\<exists>f'. p = page_at g s f' \<and> blk_in g s f' o' \<and> blk f' o' \<inter> vm_free g t = {} \<and> vm_free g t \<union> blk f' o' = vm_free g s \<union> blk f order \<and>
    seg_to g s (vm_free g t) t"
  using assms
proof (induction k arbitrary: order f s)
  case 0
  then show ?case by (intro exI [of _ f]) (auto simp: seg_to_def)
next
  case (Suc k)
  let ?b = "buddy f order"
  note st = seg_okD(1) [OF Suc.prems(1)] and f = blk_in_frame [OF Suc.prems(2)]
  have d: "2 ^ order dvd f" "order < 8" using Suc.prems(2,4) by (simp_all add: blk_in_def)
  have lt: "?b < 2 ^ 20" using buddy_bound [OF d(1) _ blk_in_lt [OF st Suc.prems(2)]] d(2) by simp
  have sg: "segID (g_vmPage s (page_at g s f)) = g" using st f by (simp add: seg_static_def)
  have x: "frame_addr f XOR VM_ORDER_TO_PHYS order = frame_addr ?b" using xor_buddy [OF d(1)] d(2) by simp
  note tp = to_page [OF st lt]
  show ?case
  proof (cases "?b \<in> seg_frames g s \<and> page_order s (page_at g s ?b) = order")
    case False
    then have "(p, o', t) = (page_at g s f, order, s)" using Suc.prems(5) st tp by (auto simp: sg x Let_def split: if_splits)
    then show ?thesis using Suc.prems(1-3) by (intro exI [of _ f]) (simp add: seg_to_def)
  next
    case True
    let ?t = "OsVmPhysFreeListDelUnsafe (page_at g s ?b) s"
    have o: "ord_of g s ?b = order" "order < 9" using True d(2) by (simp_all add: ord_of_def)
    note h = free_head_in [OF Suc.prems(1) o] and u = del_ok [OF Suc.prems(1) o]
    note v = seg_toD [OF u] and m = buddy_merge [OF d(1)]
    have mi: "blk_in g s (merged f order) (Suc order)" by (rule merged_in [OF Suc.prems(2) h(1) d(2)])
    have ml: "merged f order < 2 ^ 20" by (rule blk_in_lt [OF st mi])
    have pa: "frame_addr ?b AND NOT (VM_ORDER_TO_PHYS (order + 1) - 1) = frame_addr (merged f order)"
      unfolding mask_merged [OF lt] m(6) ..
    have tp2: "OsVmPhysToPage (frame_addr (merged f order)) g ?t = Some (page_at g ?t (merged f order))"
      using to_page [OF seg_okD(1) [OF v(1)] ml] blk_in_frame [OF mi] v(6,7) by simp
    have e: "free_merge k (Suc order) (frame_addr (merged f order)) (page_at g ?t (merged f order)) ?t = (p, o', t)"
      using Suc.prems(5) st tp True by (simp add: sg x pa [simplified] tp2 Let_def)
    have dis: "blk (merged f order) (Suc order) \<inter> vm_free g ?t = {}" unfolding m(1) [symmetric] v(3) using Suc.prems(3) by blast
    obtain f' where f': "p = page_at g ?t f'" "blk_in g ?t f' o'" "blk f' o' \<inter> vm_free g t = {}"
      "vm_free g t \<union> blk f' o' = vm_free g ?t \<union> blk (merged f order) (Suc order)" "seg_to g ?t (vm_free g t) t"
      using Suc.IH [OF v(1) _ dis _ e] mi v(5) Suc.prems(4) by auto
    have "vm_free g ?t \<union> blk (merged f order) (Suc order) = vm_free g s \<union> blk f order"
      unfolding m(1) [symmetric] v(3) using h(4) by blast
    then show ?thesis using f' v(4,5) seg_to_trans [OF u f'(5)] by (intro exI [of _ f']) simp
  qed
qed

lemma pages_free:
  assumes ok: "seg_ok g s" and b: "blk_in g s f k" and d: "blk f k \<inter> vm_free g s = {}"
  shows "seg_to g s (vm_free g s \<union> blk f k) (OsVmPhysPagesFree (Some (page_at g s f)) k s)"
proof -
  note st = seg_okD(1) [OF ok] and f = blk_in_frame [OF b]
  have k: "k < 9" using b by (simp add: blk_in_def)
  have pa: "VM_PAGE_TO_PHYS (page_at g s f) s = frame_addr f" using st f by (simp add: VM_PAGE_TO_PHYS_def seg_static_def)
  obtain p o' t where e: "free_merge (8 - k) k (frame_addr f) (page_at g s f) s = (p, o', t)" by (cases "free_merge (8 - k) k (frame_addr f) (page_at g s f) s")
  have r: "OsVmPhysPagesFree (Some (page_at g s f)) k s = OsVmPhysFreeListAddUnsafe p o' t"
  proof (cases "k < 8")
    case False
    then have "k = 8" using k by simp
    then show ?thesis using e by (auto simp: OsVmPhysPagesFree_def)
  qed (use e k pa in \<open>simp add: OsVmPhysPagesFree_def\<close>)
  obtain f' where f': "p = page_at g s f'" "blk_in g s f' o'" "blk f' o' \<inter> vm_free g t = {}" "vm_free g t \<union> blk f' o' = vm_free g s \<union> blk f k"
    "seg_to g s (vm_free g t) t" using free_merge_ok [OF ok b d _ e] k by auto
  note v = seg_toD [OF f'(5)]
  have "seg_to g t (vm_free g t \<union> blk f' o') (OsVmPhysFreeListAddUnsafe (page_at g t f') o' t)"
    using add_ok [OF v(1), of f' o'] f'(2,3) v(5) by simp
  then show ?thesis using seg_to_trans [OF f'(5)] unfolding r f'(1,4) v(4) by blast
qed

section \<open>Contiguous pages\<close>

lemma low_order:
  assumes "f < 2 ^ 20"
  defines "k \<equiv> VM_PHYS_TO_ORDER (frame_addr f)"
  shows "k \<le> 8" "2 ^ k dvd f"
proof -
  show "k \<le> 8" by (simp add: k_def VM_PHYS_TO_ORDER_def)
  let ?w = "drop_bit 12 (frame_addr f)"
  have u: "unat ?w = f" using unat_frame [OF assms(1)] by (simp add: unat_drop_bit_eq drop_bit_eq_div unat_div)
  show "2 ^ k dvd f"
  proof (cases "f = 0")
    case False
    then have nz: "?w \<noteq> 0" using u by (metis unsigned_0)
    have fin: "finite {i. bit ?w i}" by (rule finite_subset [of _ "{..<32}"]) (auto dest: bit_imp_le_length)
    have ge: "LOS_LowBitGet ?w \<le> i" if "bit ?w i" for i
      unfolding LOS_LowBitGet_eq [OF nz] using fin that by simp
    have "\<not> bit f i" if "i < k" for i
    proof -
      have "i < LOS_LowBitGet ?w" using that unfolding k_def VM_PHYS_TO_ORDER_def by (rule less_le_trans [OF _ min.cobounded1])
      then have "\<not> bit ?w i" using ge [of i] by linarith
      then show ?thesis using bit_unat [of ?w i] unfolding u by blast
    qed
    then have "take_bit k f = 0" by (intro bit_eqI) (simp add: bit_take_bit_iff)
    then show ?thesis by (simp add: take_bit_eq_0_iff)
  qed simp
qed

lemma page_at_add: "seg_pfn g s \<le> f \<Longrightarrow> page_at g s f + n = page_at g s (f + n)"
  by (simp add: page_at_def)

lemma blk_range: "blk f k = {f ..< f + 2 ^ k}"
  by (simp add: blk_def)

lemma phys_frame: "seg_static g s \<Longrightarrow> f \<in> seg_frames g s \<Longrightarrow> VM_PAGE_TO_PHYS (page_at g s f) s = frame_addr f"
  by (simp add: VM_PAGE_TO_PHYS_def seg_static_def)

lemma frames_join: "m \<le> n \<Longrightarrow> A \<union> {f ..< f + m} \<union> {f + m ..< f + m + (n - m)} = A \<union> {f ..< f + n}" for n :: nat
  by auto

lemma disj_sub: "A \<inter> B = {} \<Longrightarrow> C \<subseteq> A \<Longrightarrow> C \<inter> D = {} \<Longrightarrow> C \<inter> (B \<union> D) = {}"
  by blast

lemma free_aligned_ok:
  assumes "seg_ok g s" "seg_pfn g s \<le> f" "f + n \<le> seg_pfn g s + seg_pages g s" "{f ..< f + n} \<inter> vm_free g s = {}"
  shows "\<exists>m t j. free_aligned (page_at g s f) n s = (page_at g s (f + m), n - m, t) \<and> m \<le> n \<and>
    seg_to g s (vm_free g s \<union> {f ..< f + m}) t \<and> j \<le> 8 \<and> n - m < 2 ^ j \<and> (n - m = 0 \<or> 2 ^ j dvd f + m)"
  using assms
proof (induction n arbitrary: f s rule: less_induct)
  case (less n)
  define k where "k = VM_PHYS_TO_ORDER (VM_PAGE_TO_PHYS (page_at g s f) s)"
  note e = free_aligned.simps [of "page_at g s f" n s, folded k_def, unfolded Let_def VM_ORDER_TO_PAGES_def]
  show ?case
  proof (cases "n < 2 ^ k")
    case True
    have "n = 0 \<or> 2 ^ k dvd f \<and> k \<le> 8"
    proof (cases "n = 0")
      case False
      then have f: "f \<in> seg_frames g s" using less.prems(2,3) by simp
      note st = seg_okD(1) [OF less.prems(1)]
      show ?thesis using low_order [OF frame_lt [OF st f]] by (simp add: k_def phys_frame [OF st f])
    qed simp
    then have "\<exists>j \<le> 8. n < 2 ^ j \<and> (n = 0 \<or> 2 ^ j dvd f)" using True by (metis le0 less_numeral_extra(1) power_0)
    then obtain j where "j \<le> 8" "n < 2 ^ j" "n = 0 \<or> 2 ^ j dvd f" by blast
    then show ?thesis using True less.prems(1) by (intro exI [of _ 0] exI [of _ s] exI [of _ j]) (simp add: e seg_to_def)
  next
    case False
    let ?t = "OsVmPhysPagesFree (Some (page_at g s f)) k s"
    have n: "0 < n" "2 ^ k \<le> n" "n - 2 ^ k < n" using False sub_power(1) [OF False] by (auto intro: gr0I)
    then have f: "f \<in> seg_frames g s" using less.prems(2,3) by simp
    note st = seg_okD(1) [OF less.prems(1)]
    have k: "k \<le> 8" "2 ^ k dvd f" using low_order [OF frame_lt [OF st f]] by (simp_all add: k_def phys_frame [OF st f])
    have b: "blk_in g s f k" using k n(2) less.prems(2,3) by (simp add: blk_in_def)
    have d: "blk f k \<inter> vm_free g s = {}" using disj_sub [OF less.prems(4), of "blk f k" "{}"] n(2) by (auto simp: blk_range)
    note u = pages_free [OF less.prems(1) b d] note v = seg_toD [OF u]
    have r: "f + 2 ^ k + (n - 2 ^ k) = f + n" using n(2) by simp
    have d': "{f + 2 ^ k ..< f + 2 ^ k + (n - 2 ^ k)} \<inter> vm_free g ?t = {}"
      unfolding v(3) r blk_range by (rule disj_sub [OF less.prems(4)]) auto
    obtain m t j where mt: "free_aligned (page_at g ?t (f + 2 ^ k)) (n - 2 ^ k) ?t = (page_at g ?t (f + 2 ^ k + m), n - 2 ^ k - m, t)"
      "m \<le> n - 2 ^ k" "seg_to g ?t (vm_free g ?t \<union> {f + 2 ^ k ..< f + 2 ^ k + m}) t" "j \<le> 8" "n - 2 ^ k - m < 2 ^ j"
      "n - 2 ^ k - m = 0 \<or> 2 ^ j dvd f + 2 ^ k + m"
      using less.IH [OF n(3) v(1) _ _ d'] less.prems(2,3) v(6,7) r by auto
    have A: "vm_free g ?t \<union> {f + 2 ^ k ..< f + 2 ^ k + m} = vm_free g s \<union> {f ..< f + (2 ^ k + m)}"
      unfolding v(3) blk_range by auto
    have "free_aligned (page_at g s f) n s = (page_at g s (f + (2 ^ k + m)), n - (2 ^ k + m), t)"
      using mt(1) False by (simp add: e v(4) page_at_add [OF less.prems(2)] add.assoc)
    moreover have "seg_to g s (vm_free g s \<union> {f ..< f + (2 ^ k + m)}) t" using seg_to_trans [OF u mt(3)] unfolding A .
    ultimately show ?thesis using mt(2,4-6) n(2) by (intro exI [of _ "2 ^ k + m"] exI [of _ t] exI [of _ j]) (simp add: add.assoc)
  qed
qed

lemma free_rest_ok:
  assumes "seg_ok g s" "seg_pfn g s \<le> f" "f + n \<le> seg_pfn g s + seg_pages g s" "{f ..< f + n} \<inter> vm_free g s = {}"
    "j \<le> 8" "n < 2 ^ j" "n = 0 \<or> 2 ^ j dvd f"
  shows "seg_to g s (vm_free g s \<union> {f ..< f + n}) (free_rest (page_at g s f) n s)"
  using assms
proof (induction n arbitrary: f s j rule: less_induct)
  case (less n)
  show ?case
  proof (cases "n = 0")
    case True
    then show ?thesis using less.prems(1) by (subst free_rest.simps) (simp add: seg_to_def)
  next
    case False
    define k where "k = LOS_HighBitGet (of_nat n)"
    let ?t = "OsVmPhysPagesFree (Some (page_at g s f)) k s"
    have "(2 :: nat) ^ j \<le> 2 ^ 8" using less.prems(5) by (intro power_increasing) simp_all
    then have n: "2 ^ k \<le> n" "n < 2 ^ Suc k" using high_order [of n] False less.prems(6) by (simp_all add: k_def)
    have "(2 :: nat) ^ k < 2 ^ j" by (rule le_less_trans [OF n(1) less.prems(6)])
    then have kj: "k < j" by (rule power_less_imp_less_exp [rotated]) simp
    then have dv: "2 ^ k dvd f" using less.prems(7) False power_le_dvd [of 2 j f k] by auto
    have b: "blk_in g s f k" using kj dv n(1) less.prems(2,3,5) by (simp add: blk_in_def)
    have d: "blk f k \<inter> vm_free g s = {}" using disj_sub [OF less.prems(4), of "blk f k" "{}"] n(1) by (auto simp: blk_range)
    note u = pages_free [OF less.prems(1) b d] note v = seg_toD [OF u]
    have r: "f + 2 ^ k + (n - 2 ^ k) = f + n" using n(1) by simp
    have d': "{f + 2 ^ k ..< f + 2 ^ k + (n - 2 ^ k)} \<inter> vm_free g ?t = {}"
      unfolding v(3) r blk_range by (rule disj_sub [OF less.prems(4)]) auto
    have "seg_to g ?t (vm_free g ?t \<union> {f + 2 ^ k ..< f + 2 ^ k + (n - 2 ^ k)}) (free_rest (page_at g ?t (f + 2 ^ k)) (n - 2 ^ k) ?t)"
      by (rule less.IH [OF _ v(1) _ _ d', of k]) (use n less.prems(2,3,5) v(6,7) r kj dv False in auto)
    moreover have "free_rest (page_at g s f) n s = free_rest (page_at g ?t (f + 2 ^ k)) (n - 2 ^ k) ?t"
      using False by (subst free_rest.simps) (simp add: k_def [symmetric] Let_def VM_ORDER_TO_PAGES_def v(4) page_at_add [OF less.prems(2)])
    moreover have "vm_free g ?t \<union> {f + 2 ^ k ..< f + 2 ^ k + (n - 2 ^ k)} = vm_free g s \<union> {f ..< f + n}"
      unfolding v(3) blk_range r using n(1) by auto
    ultimately show ?thesis using seg_to_trans [OF u] by simp
  qed
qed

lemma free_contiguous:
  assumes ok: "seg_ok g s" and r: "seg_pfn g s \<le> f" "f + n \<le> seg_pfn g s + seg_pages g s" and d: "{f ..< f + n} \<inter> vm_free g s = {}"
  shows "seg_to g s (vm_free g s \<union> {f ..< f + n}) (OsVmPhysPagesFreeContiguous (page_at g s f) n s)"
proof -
  obtain m t j where m: "free_aligned (page_at g s f) n s = (page_at g s (f + m), n - m, t)" "m \<le> n"
    "seg_to g s (vm_free g s \<union> {f ..< f + m}) t" "j \<le> 8" "n - m < 2 ^ j" "n - m = 0 \<or> 2 ^ j dvd f + m"
    using free_aligned_ok [OF assms] by blast
  note v = seg_toD [OF m(3)]
  have fm: "f + m + (n - m) = f + n" using m(2) by simp
  have d': "{f + m ..< f + m + (n - m)} \<inter> vm_free g t = {}" unfolding v(3) fm by (rule disj_sub [OF d]) auto
  have "seg_to g t (vm_free g t \<union> {f + m ..< f + m + (n - m)}) (free_rest (page_at g t (f + m)) (n - m) t)"
    by (rule free_rest_ok [OF v(1) _ _ d' m(4-6)]) (use r v(6,7) fm in simp_all)
  then show ?thesis using seg_to_trans [OF m(3)] frames_join [OF m(2), of "vm_free g s" f]
    unfolding OsVmPhysPagesFreeContiguous_def m(1) by (simp add: v(3,4))
qed

section \<open>Allocation\<close>

lemma not_free_order:
  assumes ok: "seg_ok g s" and f: "f \<in> seg_frames g s" "f \<notin> vm_free g s"
  shows "page_order s (page_at g s f) = VM_LIST_ORDER_MAX"
proof -
  have "page_order s (page_at g s f) \<le> 9" using seg_okD(2) [OF ok] f(1) by (auto simp: seg_lists_def)
  moreover have "\<not> ord_of g s f < 9" using frees_head [of "ord_of g s" f] blk_first f(2) by blast
  ultimately show ?thesis using ord_of_frame [OF f(1)] by simp
qed

lemma del_ord:
  assumes ok: "seg_ok g s" and k: "ord_of g s f = k" "k < VM_LIST_ORDER_MAX"
  shows "ord_of g (OsVmPhysFreeListDelUnsafe (page_at g s f) s) = (ord_of g s)(f := VM_LIST_ORDER_MAX)"
  using list_del(3) [OF seg_okD(1) [OF ok] free_head_in(2) [OF ok k] seg_okD(2) [OF ok]] free_head_in(3) [OF ok k] k(2) by simp

lemma del_blocks_step: "tmp < end \<Longrightarrow> del_blocks tmp end k s = del_blocks (tmp + 2 ^ k) end k (OsVmPhysFreeListDelUnsafe tmp s)"
  by (subst del_blocks.simps) simp

lemma del_blocks_end: "end \<le> tmp \<Longrightarrow> del_blocks tmp end k s = s"
  by (subst del_blocks.simps) simp

lemma del_blocks_ok:
  assumes "seg_ok g s" "k < VM_LIST_ORDER_MAX" "\<forall>i<m. ord_of g s (f + i * 2 ^ k) = k" "n \<le> m * 2 ^ k" "m * 2 ^ k < n + 2 ^ k" "seg_pfn g s \<le> f"
  shows "seg_to g s (vm_free g s - {f ..< f + m * 2 ^ k}) (del_blocks (page_at g s f) (page_at g s f + n) k s)"
  using assms
proof (induction m arbitrary: f n s)
  case 0
  then show ?case by (subst del_blocks.simps) (simp add: seg_to_def)
next
  case (Suc m)
  have o: "ord_of g s f = k" using Suc.prems(3) by auto
  let ?t = "OsVmPhysFreeListDelUnsafe (page_at g s f) s"
  note u = del_ok [OF Suc.prems(1) o Suc.prems(2)] note v = seg_toD [OF u]
  have n: "0 < n" "m * 2 ^ k < n" using Suc.prems(5) by simp_all
  have e: "del_blocks (page_at g s f) (page_at g s f + n) k s =
      del_blocks (page_at g ?t (f + 2 ^ k)) (page_at g ?t (f + 2 ^ k) + (n - 2 ^ k)) k ?t"
    using n(1) del_blocks_step [of "page_at g s f" "page_at g s f + n" k s]
    by (cases "n \<le> 2 ^ k") (simp_all add: v(4) page_at_add [OF Suc.prems(6), symmetric] del_blocks_end)
  have "seg_to g ?t (vm_free g ?t - {f + 2 ^ k ..< f + 2 ^ k + m * 2 ^ k})
      (del_blocks (page_at g ?t (f + 2 ^ k)) (page_at g ?t (f + 2 ^ k) + (n - 2 ^ k)) k ?t)"
  proof (rule Suc.IH [OF v(1) Suc.prems(2)])
    show "\<forall>i<m. ord_of g ?t (f + 2 ^ k + i * 2 ^ k) = k"
    proof (intro allI impI)
      fix i assume "i < m"
      then have "ord_of g s (f + Suc i * 2 ^ k) = k" using Suc.prems(3) by blast
      then show "ord_of g ?t (f + 2 ^ k + i * 2 ^ k) = k" using del_ord [OF Suc.prems(1) o Suc.prems(2)] by (simp add: add.assoc)
    qed
  qed (use Suc.prems(4-6) v(6) n in auto)
  moreover have "vm_free g ?t - {f + 2 ^ k ..< f + 2 ^ k + m * 2 ^ k} = vm_free g s - {f ..< f + Suc m * 2 ^ k}"
    unfolding v(3) blk_range by auto
  ultimately show ?case unfolding e using seg_to_trans [OF u] by simp
qed

lemma ivl_grow: "a \<le> b \<Longrightarrow> b \<le> c \<Longrightarrow> A \<union> {b ..< c} \<union> {a ..< b} = A \<union> {a ..< c}" for a :: nat
  by auto

lemma split_ok:
  assumes "seg_ok g s" "blk_in g s f new" "blk f new \<inter> vm_free g s = {}" "old \<le> new"
  shows "seg_to g s (vm_free g s \<union> {f + 2 ^ old ..< f + 2 ^ new}) (OsVmPhysPagesSpiltUnsafe (page_at g s f) old new s)"
  using assms
proof (induction new arbitrary: s)
  case 0
  then show ?case by (simp add: seg_to_def)
next
  case (Suc k)
  show ?case
  proof (cases "Suc k > old")
    case False
    then have e: "old = Suc k" using Suc.prems(4) by simp
    show ?thesis using Suc.prems(1) by (simp add: e seg_to_def)
  next
    case True
    let ?b = "f + 2 ^ k"
    have i: "seg_pfn g s \<le> f" "f + 2 * 2 ^ k \<le> seg_pfn g s + seg_pages g s" "2 * 2 ^ k dvd f" "Suc k < 9"
      using Suc.prems(2) by (simp_all add: blk_in_def)
    have dk: "2 ^ k dvd f" using i(3) by (metis dvd_mult_right)
    have b: "blk_in g s ?b k" "blk_in g s f k" using i dk by (simp_all add: blk_in_def)
    have D: "{f ..< f + 2 * 2 ^ k} \<inter> vm_free g s = {}" using Suc.prems(3) by (simp add: blk_range)
    have db: "blk ?b k \<inter> vm_free g s = {}" using disj_sub [OF D, of "blk ?b k" "{}"] by (auto simp: blk_range)
    have "?b \<notin> vm_free g s" using db blk_first [of ?b k] by blast
    then have o: "page_order s (page_at g s ?b) = 9" by (rule not_free_order [OF Suc.prems(1) blk_in_frame [OF b(1)]])
    let ?t = "OsVmPhysFreeListAddUnsafe (page_at g s ?b) k s"
    note u = add_ok [OF Suc.prems(1) b(1) db] note v = seg_toD [OF u]
    have "blk f k \<inter> vm_free g ?t = {}" unfolding v(3) by (rule disj_sub [OF D]) (auto simp: blk_range)
    then have "seg_to g ?t (vm_free g ?t \<union> {f + 2 ^ old ..< f + 2 ^ k}) (OsVmPhysPagesSpiltUnsafe (page_at g ?t f) old k ?t)"
      using Suc.IH [OF v(1)] b(2) v(5) True by simp
    moreover have "OsVmPhysPagesSpiltUnsafe (page_at g s f) old (Suc k) s = OsVmPhysPagesSpiltUnsafe (page_at g ?t f) old k ?t"
      using True o by (simp add: VM_ORDER_TO_PAGES_def page_at_add [OF i(1)] v(4))
    moreover have "vm_free g ?t \<union> {f + 2 ^ old ..< f + 2 ^ k} = vm_free g s \<union> {f + 2 ^ old ..< f + 2 ^ Suc k}"
    proof -
      have "(2 :: nat) ^ old \<le> 2 ^ k" using True by (intro power_increasing) simp_all
      then show ?thesis unfolding v(3) blk_range using ivl_grow [of "f + 2 ^ old" "f + 2 ^ k" "f + 2 ^ k + 2 ^ k" "vm_free g s"]
        by (simp add: mult_2 add.assoc)
    qed
    ultimately show ?thesis using seg_to_trans [OF u] by simp
  qed
qed

lemma roundup_eq:
  assumes "n \<le> m * b" "m * b < n + b" "0 < b"
  shows "ROUNDUP n b = m * b"
proof -
  have "(n + (b - 1)) div b = m" using assms by (intro div_nat_eqI) (auto simp: algebra_simps)
  then show ?thesis by (simp add: ROUNDUP_def)
qed

lemma recycle_ok:
  assumes ok: "seg_ok g s" and r: "seg_pfn g s \<le> f" "f + m \<le> seg_pfn g s + seg_pages g s" and n: "n \<le> m" and d: "{f ..< f + m} \<inter> vm_free g s = {}"
  shows "seg_to g s (vm_free g s \<union> {f + n ..< f + m}) (OsVmRecycleExtraPages (page_at g s f + n) n m s)"
proof (cases "n = m")
  case True
  then show ?thesis using ok by (simp add: OsVmRecycleExtraPages_def seg_to_def)
next
  case False
  have e: "f + n + (m - n) = f + m" using n by simp
  have "seg_to g s (vm_free g s \<union> {f + n ..< f + n + (m - n)}) (OsVmPhysPagesFreeContiguous (page_at g s (f + n)) (m - n) s)"
  proof (rule free_contiguous [OF ok])
    show "{f + n ..< f + n + (m - n)} \<inter> vm_free g s = {}" using disj_sub [OF d, of "{f + n ..< f + m}" "{}"] unfolding e by auto
  qed (use r e in simp_all)
  then show ?thesis using False n unfolding e by (simp add: OsVmRecycleExtraPages_def page_at_add [OF r(1)])
qed

lemma heads_in:
  assumes ok: "seg_ok g s" and k: "k < VM_LIST_ORDER_MAX" and h: "\<forall>i<m. ord_of g s (f + i * 2 ^ k) = k" and m: "0 < m"
  shows "seg_pfn g s \<le> f" "f + m * 2 ^ k \<le> seg_pfn g s + seg_pages g s" "{f ..< f + m * 2 ^ k} \<subseteq> vm_free g s" "f \<in> seg_frames g s"
proof -
  note b = free_head_in [OF ok h [rule_format] k]
  show "seg_pfn g s \<le> f" "f \<in> seg_frames g s" using b(1,2) [of 0] m by (simp_all add: blk_in_def)
  obtain m' where m': "m = Suc m'" using m by (cases m) simp_all
  show "f + m * 2 ^ k \<le> seg_pfn g s + seg_pages g s" using b(1) [of m'] by (simp add: m' blk_in_def algebra_simps)
  show "{f ..< f + m * 2 ^ k} \<subseteq> vm_free g s"
  proof
    fix x assume x: "x \<in> {f ..< f + m * 2 ^ k}"
    define i where "i = (x - f) div 2 ^ k"
    have "i < m" using x unfolding i_def by (intro less_mult_imp_div_less) (use x in \<open>auto simp: algebra_simps\<close>)
    moreover have "i * 2 ^ k + (x - f) mod 2 ^ k = x - f" "(x - f) mod 2 ^ k < 2 ^ k"
      unfolding i_def by (rule div_mult_mod_eq) simp
    then have "f + i * 2 ^ k \<le> x" "x < f + i * 2 ^ k + 2 ^ k" using x by (auto simp del: mod_less_divisor)
    ultimately show "x \<in> vm_free g s" using b(4) [of i] by (auto simp: blk_range)
  qed
qed

lemma split_none: "new \<le> old \<Longrightarrow> OsVmPhysPagesSpiltUnsafe p old new s = s"
  by (cases new) simp_all

lemma ivl_take: "a \<le> b \<Longrightarrow> b \<le> c \<Longrightarrow> c \<le> d \<Longrightarrow> {a ..< d} \<subseteq> A \<Longrightarrow> A - {a ..< d} \<union> {c ..< d} \<union> {b ..< c} = A - {a ..< b}" for a :: nat
  by (auto dest: subsetD)

lemma ivl_apart: "b \<le> c \<Longrightarrow> {a ..< b} \<inter> (A - {a ..< c} \<union> {b ..< c}) = {}" for a :: nat
  by auto

lemma take_small:
  assumes ok: "seg_ok g s" and o: "ord_of g s f = k" "k < VM_LIST_ORDER_MAX" and n: "0 < n" "n \<le> 2 ^ order" "order \<le> k"
  shows "seg_to g s (vm_free g s - {f ..< f + n}) (take_pages (page_at g s f) n order k s)"
proof -
  have w: "(2 :: nat) ^ order \<le> 2 ^ k" using n(3) by (intro power_increasing) simp_all
  have h: "\<forall>i<1. ord_of g s (f + i * 2 ^ k) = k" using o by simp
  note hi = heads_in [OF ok o(2) h, simplified]
  have rng: "f + 2 ^ order \<le> seg_pfn g s + seg_pages g s" using hi w by linarith
  let ?s1 = "del_blocks (page_at g s f) (page_at g s f + n) k s"
  have u1: "seg_to g s (vm_free g s - {f ..< f + 2 ^ k}) ?s1" using del_blocks_ok [OF ok o(2) h, of n] n w hi(1) by simp
  note v1 = seg_toD [OF u1]
  let ?s2 = "OsVmPhysPagesSpiltUnsafe (page_at g s f) order k ?s1"
  have b: "blk_in g ?s1 f k" using free_head_in(1) [OF ok o] v1(5) by simp
  have u2: "seg_to g ?s1 (vm_free g ?s1 \<union> {f + 2 ^ order ..< f + 2 ^ k}) ?s2"
    using split_ok [OF v1(1) b _ n(3)] v1(3,4) by (auto simp: blk_range)
  note v2 = seg_toD [OF u2]
  have rd: "ROUNDUP n (2 ^ min order k) = 2 ^ order" using roundup_eq [of n 1 "2 ^ order"] n by (simp add: min_def)
  have u3: "seg_to g ?s2 (vm_free g ?s2 \<union> {f + n ..< f + 2 ^ order}) (OsVmRecycleExtraPages (page_at g ?s2 f + n) n (2 ^ order) ?s2)"
  proof (rule recycle_ok [OF v2(1)])
    show "{f ..< f + 2 ^ order} \<inter> vm_free g ?s2 = {}" unfolding v2(3) v1(3) by (rule ivl_apart) (use w in simp)
  qed (use hi(1) rng n v1(6,7) v2(6,7) in simp_all)
  have "vm_free g ?s2 \<union> {f + n ..< f + 2 ^ order} = vm_free g s - {f ..< f + n}"
    unfolding v2(3) v1(3) by (rule ivl_take) (use hi(3) n w in simp_all)
  then show ?thesis using seg_to_trans [OF u1 seg_to_trans [OF u2 u3]]
    by (simp add: take_pages_def Let_def rd v1(4) v2(4))
qed

lemma take_large:
  assumes ok: "seg_ok g s" and k: "k < VM_LIST_ORDER_MAX" "k \<le> order" and h: "\<forall>i<m. ord_of g s (f + i * 2 ^ k) = k"
    and n: "0 < n" "n \<le> m * 2 ^ k" "m * 2 ^ k < n + 2 ^ k"
  shows "seg_to g s (vm_free g s - {f ..< f + n}) (take_pages (page_at g s f) n order k s)"
proof -
  have m: "0 < m" using n(1,2) by (intro gr0I) simp
  note hi = heads_in [OF ok k(1) h m]
  let ?s1 = "del_blocks (page_at g s f) (page_at g s f + n) k s"
  note u1 = del_blocks_ok [OF ok k(1) h n(2,3) hi(1)] note v1 = seg_toD [OF u1]
  have rd: "ROUNDUP n (2 ^ min order k) = m * 2 ^ k" using roundup_eq [OF n(2,3)] k(2) by (simp add: min_absorb2)
  have u2: "seg_to g ?s1 (vm_free g ?s1 \<union> {f + n ..< f + m * 2 ^ k}) (OsVmRecycleExtraPages (page_at g ?s1 f + n) n (m * 2 ^ k) ?s1)"
  proof (rule recycle_ok [OF v1(1)])
    show "{f ..< f + m * 2 ^ k} \<inter> vm_free g ?s1 = {}" unfolding v1(3) by auto
  qed (use hi n v1(6,7) in simp_all)
  have "vm_free g ?s1 \<union> {f + n ..< f + m * 2 ^ k} = vm_free g s - {f ..< f + n}"
    unfolding v1(3) using hi(3) n by (auto dest: subsetD)
  then show ?thesis using seg_to_trans [OF u1 u2] by (simp add: take_pages_def Let_def rd v1(4) split_none [OF k(2)])
qed

lemma pages_to_order_least:
  "n \<le> 2 ^ pages_to_order n k \<and> k \<le> pages_to_order n k \<and> (k < pages_to_order n k \<longrightarrow> 2 ^ (pages_to_order n k - 1) < n)"
proof (induction n k rule: pages_to_order.induct)
  case (1 n k)
  show ?case
  proof (cases "2 ^ k < n")
    case True
    then have "pages_to_order n k = pages_to_order n (k + 1)" by (subst pages_to_order.simps) (simp add: VM_ORDER_TO_PAGES_def)
    then show ?thesis using 1 True by (cases "pages_to_order n (k + 1) = k + 1") (auto simp: VM_ORDER_TO_PAGES_def)
  next
    case False
    then show ?thesis by (subst (1 2 3 4) pages_to_order.simps) (simp add: VM_ORDER_TO_PAGES_def)
  qed
qed

lemma order_le:
  assumes "0 < n"
  shows "OsVmPagesToOrder n \<le> k \<longleftrightarrow> n \<le> 2 ^ k"
proof
  assume "OsVmPagesToOrder n \<le> k"
  then have "(2 :: nat) ^ OsVmPagesToOrder n \<le> 2 ^ k" by (intro power_increasing) simp_all
  then show "n \<le> 2 ^ k" using pages_to_order_least [of n 0, folded OsVmPagesToOrder_def] by linarith
next
  assume n: "n \<le> 2 ^ k"
  show "OsVmPagesToOrder n \<le> k"
  proof (rule ccontr)
    assume a: "\<not> OsVmPagesToOrder n \<le> k"
    then have "(2 :: nat) ^ k \<le> 2 ^ (OsVmPagesToOrder n - 1)" by (intro power_increasing) simp_all
    then show False using a n pages_to_order_least [of n 0, folded OsVmPagesToOrder_def] by linarith
  qed
qed

lemma list_head:
  assumes ok: "seg_ok g s" and k: "k < VM_LIST_ORDER_MAX" and p: "p \<in> set (freeList (g_vmPhysSeg s g) k)"
  shows "\<exists>f. p = page_at g s f \<and> ord_of g s f = k"
  using p unfolding seg_listsD(2) [OF seg_okD(2) [OF ok] k] on_list_def by (auto simp: ord_of_def)

lemma head_list:
  assumes ok: "seg_ok g s" and k: "ord_of g s f = k" "k < VM_LIST_ORDER_MAX"
  shows "page_at g s f \<in> set (freeList (g_vmPhysSeg s g) k)"
  using free_head_in(2,3) [OF ok k] unfolding seg_listsD(2) [OF seg_okD(2) [OF ok] k(2)] by (simp add: on_list_iff)

lemma frame_addr_add: "frame_addr a + push_bit 8 4096 = frame_addr (a + 256)"
  by (simp add: frame_addr_def)

lemma frame_addr_le: "a < 2 ^ 20 \<Longrightarrow> b < 2 ^ 20 \<Longrightarrow> frame_addr a \<le> frame_addr b \<longleftrightarrow> a \<le> b"
  unfolding word_le_nat_alt unat_frame by simp

lemma seg_addr_frames:
  assumes st: "seg_static g s"
  shows "seg_start (g_vmPhysSeg s g) = frame_addr (seg_pfn g s)"
    "seg_start (g_vmPhysSeg s g) + seg_size (g_vmPhysSeg s g) = frame_addr (seg_pfn g s + seg_pages g s)"
    "seg_pfn g s < 2 ^ 20" "seg_pfn g s + seg_pages g s < 2 ^ 20"
proof -
  note a = seg_addr [OF st]
  show lt: "seg_pfn g s + seg_pages g s < 2 ^ 20" using a(3) by simp
  then show lt': "seg_pfn g s < 2 ^ 20" by simp
  show "seg_start (g_vmPhysSeg s g) = frame_addr (seg_pfn g s)" using a(1) unat_frame [OF lt'] by (simp add: word_unat_eq_iff)
  have "unat (seg_start (g_vmPhysSeg s g) + seg_size (g_vmPhysSeg s g)) = 4096 * (seg_pfn g s + seg_pages g s)" using a by (simp add: unat_word_ariths)
  then show "seg_start (g_vmPhysSeg s g) + seg_size (g_vmPhysSeg s g) = frame_addr (seg_pfn g s + seg_pages g s)"
    using unat_frame [OF lt] by (simp add: word_unat_eq_iff)
qed

text \<open>A run of free blocks of the largest order from the frame \<open>f\<close> on that covers \<open>n\<close> frames.\<close>

definition run_of :: "nat \<Rightarrow> vm_phys \<Rightarrow> nat \<Rightarrow> nat \<Rightarrow> bool" where
  "run_of g s n f \<longleftrightarrow> (\<forall>i. 256 * i < n \<longrightarrow> ord_of g s (f + 256 * i) = 8)"

lemma run_of_step:
  "256 < n \<Longrightarrow> run_of g s n f \<longleftrightarrow> ord_of g s f = 8 \<and> run_of g s (n - 256) (f + 256)"
proof
  assume n: "256 < n" and r: "run_of g s n f"
  show "ord_of g s f = 8 \<and> run_of g s (n - 256) (f + 256)"
  proof
    show "ord_of g s f = 8" using r n unfolding run_of_def by (metis add_0_right less_trans mult_0_right zero_less_numeral)
    show "run_of g s (n - 256) (f + 256)" unfolding run_of_def
    proof (intro allI impI)
      fix i assume "256 * i < n - 256"
      then have "256 * Suc i < n" by simp
      then have "ord_of g s (f + 256 * Suc i) = 8" using r unfolding run_of_def by blast
      then show "ord_of g s (f + 256 + 256 * i) = 8" by (simp add: add.assoc)
    qed
  qed
next
  assume n: "256 < n" and r: "ord_of g s f = 8 \<and> run_of g s (n - 256) (f + 256)"
  show "run_of g s n f" unfolding run_of_def
  proof (intro allI impI)
    fix i assume i: "256 * i < n"
    show "ord_of g s (f + 256 * i) = 8"
    proof (cases i)
      case (Suc j)
      then have "256 * j < n - 256" using i by simp
      then have "ord_of g s (f + 256 + 256 * j) = 8" using r unfolding run_of_def by blast
      then show ?thesis by (simp add: Suc add.assoc)
    qed (use r in simp)
  qed
qed

lemma run_of_one: "0 < n \<Longrightarrow> n \<le> 256 \<Longrightarrow> run_of g s n f \<longleftrightarrow> ord_of g s f = 8"
proof -
  assume n: "0 < n" "n \<le> 256"
  have "256 * i < n \<longleftrightarrow> i = 0" for i using n by (cases i) simp_all
  then show ?thesis by (simp add: run_of_def)
qed

lemma large_fit_ok:
  assumes "seg_ok g s" "ord_of g s a = 8" "0 < n" "a + n \<le> seg_pfn g s + seg_pages g s" "n \<le> 256 * k"
  shows "large_fit k s (g_vmPhysSeg s g) (frame_addr (a + n)) (frame_addr a) = Some (run_of g s n a)"
  using assms
proof (induction k arbitrary: a n)
  case 0
  then show ?case by simp
next
  case (Suc k)
  note st = seg_okD(1) [OF Suc.prems(1)] note A = seg_addr_frames [OF st]
  have h: "blk_in g s a 8" by (rule free_head_in(1) [OF Suc.prems(1,2)]) simp
  have lt: "a + 256 < 2 ^ 20" "a + n < 2 ^ 20" using h A(4) Suc.prems(4) by (simp_all add: blk_in_def)
  have le: "frame_addr (a + n) \<le> frame_addr (a + 256) \<longleftrightarrow> n \<le> 256" using frame_addr_le [OF lt(2,1)] by simp
  have fa: "frame_addr a + push_bit (9 - 1) 4096 = frame_addr (a + 256)" using frame_addr_add by simp
  show ?case
  proof (cases "n \<le> 256")
    case True
    then show ?thesis using run_of_one [OF Suc.prems(3) True] Suc.prems(2) by (simp only: large_fit.simps fa Let_def le) simp
  next
    case False
    then have f: "a + 256 \<in> seg_frames g s" using Suc.prems(4) h by (auto simp: blk_in_def)
    have tp: "OsVmPhysToPage (frame_addr (a + 256)) g s = Some (page_at g s (a + 256))" using to_page [OF st lt(1)] f by simp
    then have ns: "\<not> frame_addr (a + 256) < seg_start (g_vmPhysSeg s g)"
      "\<not> frame_addr (a + 256) \<ge> seg_start (g_vmPhysSeg s g) + seg_size (g_vmPhysSeg s g)"
      "pageBase (g_vmPhysSeg s g) + unat (drop_bit 12 (frame_addr (a + 256) - seg_start (g_vmPhysSeg s g))) = page_at g s (a + 256)"
      by (simp_all add: OsVmPhysToPage_def Let_def split: if_splits)
    have o: "page_order s (page_at g s (a + 256)) = ord_of g s (a + 256)" by (rule ord_of_frame [OF f, symmetric])
    have e: "large_fit (Suc k) s (g_vmPhysSeg s g) (frame_addr (a + n)) (frame_addr a) =
        (if ord_of g s (a + 256) \<noteq> 8 then Some False else large_fit k s (g_vmPhysSeg s g) (frame_addr (a + n)) (frame_addr (a + 256)))"
      unfolding large_fit.simps fa Let_def le ns(3) o using False ns(1,2) by simp
    have r: "run_of g s n a \<longleftrightarrow> run_of g s (n - 256) (a + 256)" using run_of_step [of n g s a] False Suc.prems(2) by simp
    show ?thesis
    proof (cases "ord_of g s (a + 256) = 8")
      case True
      have "large_fit k s (g_vmPhysSeg s g) (frame_addr (a + 256 + (n - 256))) (frame_addr (a + 256)) = Some (run_of g s (n - 256) (a + 256))"
        by (rule Suc.IH [OF Suc.prems(1) True]) (use False Suc.prems(4,5) in simp_all)
      then show ?thesis unfolding e using True False r by simp
    next
      case False
      then have "\<not> run_of g s (n - 256) (a + 256)" using \<open>\<not> n \<le> 256\<close> unfolding run_of_def by (auto intro: exI [of _ 0])
      then show ?thesis unfolding e using False r by simp
    qed
  qed
qed

definition cover :: "nat \<Rightarrow> nat" where
  "cover n = (n + 255) div 256"

lemma cover: "0 < n \<Longrightarrow> n \<le> cover n * 256" "cover n * 256 < n + 256" "0 < n \<Longrightarrow> 0 < cover n" "i < cover n \<Longrightarrow> 256 * i < n"
  by (simp_all add: cover_def)

lemma run_heads: "run_of g s n f \<Longrightarrow> \<forall>i<cover n. ord_of g s (f + i * 2 ^ 8) = 8"
  using cover(4) by (simp add: run_of_def mult.commute)

lemma run_in:
  assumes ok: "seg_ok g s" and n: "0 < n" and r: "run_of g s n f"
  shows "f + n \<le> seg_pfn g s + seg_pages g s" "{f ..< f + n} \<subseteq> vm_free g s" "seg_pfn g s \<le> f"
proof -
  have h: "seg_pfn g s \<le> f" "f + cover n * 2 ^ 8 \<le> seg_pfn g s + seg_pages g s" "{f ..< f + cover n * 2 ^ 8} \<subseteq> vm_free g s"
    by (rule heads_in [OF ok _ run_heads [OF r] cover(3) [OF n]]; simp)+
  then show "f + n \<le> seg_pfn g s + seg_pages g s" "seg_pfn g s \<le> f" using cover(1) [OF n] by simp_all
  show "{f ..< f + n} \<subseteq> vm_free g s" using h(3) cover(1) [OF n] by (auto dest: subsetD)
qed

lemma large_scan_ok:
  assumes ok: "seg_ok g s" and n: "0 < n" "seg_pfn g s + seg_pages g s + n \<le> 2 ^ 20"
    and ps: "set ps \<subseteq> set (freeList (g_vmPhysSeg s g) 8)"
  shows "\<exists>r. large_scan s (g_vmPhysSeg s g) (push_bit 12 (of_nat n)) ps = Some r \<and>
    (case r of None \<Rightarrow> \<forall>f. page_at g s f \<in> set ps \<longrightarrow> ord_of g s f = 8 \<longrightarrow> \<not> run_of g s n f
     | Some p \<Rightarrow> \<exists>f. p = page_at g s f \<and> run_of g s n f)"
  using ps
proof (induction ps)
  case (Cons p ps)
  note st = seg_okD(1) [OF ok] note A = seg_addr_frames [OF st]
  obtain f where f: "p = page_at g s f" "ord_of g s f = 8" using list_head [OF ok, of 8 p] Cons.prems by auto
  note h = free_head_in [OF ok f(2)]
  have fs: "f \<in> seg_frames g s" using h(2) by simp
  have pa: "physAddr (g_vmPage s p) = frame_addr f" using st fs f(1) by (simp add: seg_static_def)
  have en: "frame_addr f + push_bit 12 (of_nat n) = frame_addr (f + n)" by (simp add: frame_addr_def push_bit_eq_mult)
  have gt: "frame_addr (f + n) > seg_start (g_vmPhysSeg s g) + seg_size (g_vmPhysSeg s g) \<longleftrightarrow> \<not> f + n \<le> seg_pfn g s + seg_pages g s"
    unfolding A(2) linorder_not_le [symmetric] using frame_addr_le [OF _ A(4), of "f + n"] n fs by simp
  note IH = Cons.IH [OF order_trans [OF _ Cons.prems]]
  have lift: "\<exists>r. large_scan s (g_vmPhysSeg s g) (push_bit 12 (of_nat n)) ps = Some r \<and>
    (case r of None \<Rightarrow> \<forall>f. page_at g s f \<in> set (p # ps) \<longrightarrow> ord_of g s f = 8 \<longrightarrow> \<not> run_of g s n f
     | Some p \<Rightarrow> \<exists>f. p = page_at g s f \<and> run_of g s n f)" if no: "\<not> run_of g s n f"
  proof -
    obtain r where r: "large_scan s (g_vmPhysSeg s g) (push_bit 12 (of_nat n)) ps = Some r"
      "case r of None \<Rightarrow> \<forall>f. page_at g s f \<in> set ps \<longrightarrow> ord_of g s f = 8 \<longrightarrow> \<not> run_of g s n f | Some p \<Rightarrow> \<exists>f. p = page_at g s f \<and> run_of g s n f"
      using IH by auto
    have "x = f" if "page_at g s x = p" "ord_of g s x = 8" for x
      using page_at_inj [of x g s f] free_head_in(2) [OF ok that(2)] fs that(1) f(1) by simp
    then show ?thesis using r no by (intro exI [of _ r]) (auto split: option.splits)
  qed
  show ?case
  proof (cases "f + n \<le> seg_pfn g s + seg_pages g s")
    case False
    then have "\<not> run_of g s n f" using run_in(1) [OF ok n(1)] by blast
    then show ?thesis using lift False gt by (simp add: Let_def pa en)
  next
    case True
    have "n \<le> 256 * 4096" using n by simp
    then have "large_fit 4096 s (g_vmPhysSeg s g) (frame_addr (f + n)) (frame_addr f) = Some (run_of g s n f)"
      by (rule large_fit_ok [OF ok f(2) n(1) True])
    then have e: "large_scan s (g_vmPhysSeg s g) (push_bit 12 (of_nat n)) (p # ps) =
        (if run_of g s n f then Some (Some p) else large_scan s (g_vmPhysSeg s g) (push_bit 12 (of_nat n)) ps)"
      unfolding large_scan.simps Let_def pa en gt using True by (simp split: bool.splits)
    show ?thesis unfolding e using lift f(1) by (cases "run_of g s n f") auto
  qed
qed simp

text \<open>What a segment can serve: a block of at least \<open>n\<close> pages, or, beyond the largest order, a run of largest blocks.\<close>

definition seg_serves :: "nat \<Rightarrow> vm_phys \<Rightarrow> nat \<Rightarrow> bool" where
  "seg_serves g s n \<longleftrightarrow> (if n \<le> 256 then \<exists>f. ord_of g s f < VM_LIST_ORDER_MAX \<and> n \<le> 2 ^ ord_of g s f else \<exists>f. run_of g s n f)"

lemma find_order_ok:
  assumes ok: "seg_ok g s" and n: "0 < n"
  shows "case find_order (OsVmPagesToOrder n) (g_vmPhysSeg s g) of
      None \<Rightarrow> \<not> (\<exists>f. ord_of g s f < VM_LIST_ORDER_MAX \<and> n \<le> 2 ^ ord_of g s f)
    | Some k \<Rightarrow> k < VM_LIST_ORDER_MAX \<and> OsVmPagesToOrder n \<le> k \<and> (\<exists>f. hd (freeList (g_vmPhysSeg s g) k) = page_at g s f \<and> ord_of g s f = k)"
proof (cases "find_order (OsVmPagesToOrder n) (g_vmPhysSeg s g)")
  case None
  have "\<not> n \<le> 2 ^ ord_of g s f" if "ord_of g s f < 9" for f
  proof -
    have "freeList (g_vmPhysSeg s g) (ord_of g s f) \<noteq> []" using head_list [OF ok refl that] by auto
    then show ?thesis using None that order_le [OF n, of "ord_of g s f"] by (auto simp: find_order_def find_None_iff)
  qed
  then show ?thesis using None by auto
next
  case (Some k)
  then have k: "k < 9" "OsVmPagesToOrder n \<le> k" "freeList (g_vmPhysSeg s g) k \<noteq> []"
    unfolding find_order_def by (auto simp: find_Some_iff)
  then have "hd (freeList (g_vmPhysSeg s g) k) \<in> set (freeList (g_vmPhysSeg s g) k)" by simp
  then show ?thesis using Some k list_head [OF ok k(1)] by auto
qed

lemma pages_alloc:
  assumes ok: "seg_ok g s" and n: "0 < n" "seg_pfn g s + seg_pages g s + n \<le> 2 ^ 20"
  shows "case OsVmPhysPagesAlloc g n s of
      (None, t) \<Rightarrow> t = s \<and> \<not> seg_serves g s n
    | (Some p, t) \<Rightarrow> seg_serves g s n \<and> (\<exists>f. p = page_at g s f \<and> {f ..< f + n} \<subseteq> vm_free g s \<and> seg_to g s (vm_free g s - {f ..< f + n}) t)"
proof (cases "n \<le> 256")
  case True
  then have o: "OsVmPagesToOrder n < 9" using order_le [OF n(1), of 8] by simp
  show ?thesis
  proof (cases "find_order (OsVmPagesToOrder n) (g_vmPhysSeg s g)")
    case None
    then show ?thesis using o True find_order_ok [OF ok n(1)] by (simp add: OsVmPhysPagesAlloc_def Let_def seg_serves_def)
  next
    case (Some k)
    then obtain f where f: "hd (freeList (g_vmPhysSeg s g) k) = page_at g s f" "ord_of g s f = k" "k < 9" "OsVmPagesToOrder n \<le> k"
      using find_order_ok [OF ok n(1)] by auto
    have le: "n \<le> 2 ^ k" using f(4) order_le [OF n(1)] by simp
    have "n \<le> 2 ^ OsVmPagesToOrder n" using order_le [OF n(1)] by blast
    note t = take_small [OF ok f(2,3) n(1) this f(4)] and h = free_head_in [OF ok f(2,3)]
    have "{f ..< f + n} \<subseteq> vm_free g s" using h(4) le by (auto simp: blk_range dest: subsetD)
    moreover have "seg_serves g s n" using True f(2,3) le by (auto simp: seg_serves_def)
    ultimately show ?thesis using t o Some f(1) by (auto simp: OsVmPhysPagesAlloc_def Let_def)
  qed
next
  case False
  then have o: "\<not> OsVmPagesToOrder n < 9" using order_le [OF n(1), of 8] by simp
  obtain r where r: "OsVmPhysLargeAlloc g n s = Some r"
    "case r of None \<Rightarrow> \<forall>f. page_at g s f \<in> set (freeList (g_vmPhysSeg s g) 8) \<longrightarrow> ord_of g s f = 8 \<longrightarrow> \<not> run_of g s n f
     | Some p \<Rightarrow> \<exists>f. p = page_at g s f \<and> run_of g s n f"
    using large_scan_ok [OF ok n order_refl] by (auto simp: OsVmPhysLargeAlloc_def Let_def)
  show ?thesis
  proof (cases r)
    case None
    have "\<not> run_of g s n f" for f
    proof
      assume a: "run_of g s n f"
      then have "ord_of g s f = 8" using False run_of_step [of n g s f] by simp
      moreover have "page_at g s f \<in> set (freeList (g_vmPhysSeg s g) 8)" by (rule head_list [OF ok calculation]) simp
      ultimately show False using r(2) None a by auto
    qed
    then show ?thesis using None r(1) o False by (simp add: OsVmPhysPagesAlloc_def Let_def seg_serves_def)
  next
    case (Some p)
    then obtain f where f: "p = page_at g s f" "run_of g s n f" using r(2) by auto
    have "seg_to g s (vm_free g s - {f ..< f + n}) (take_pages (page_at g s f) n (OsVmPagesToOrder n) 8 s)"
      by (rule take_large [OF ok _ _ run_heads [OF f(2)] n(1)]) (use o cover(1) [OF n(1)] cover(2) [of n] in simp_all)
    moreover have "seg_serves g s n" using False f(2) by (auto simp: seg_serves_def)
    ultimately show ?thesis using Some f(1) r(1) o run_in(2) [OF ok n(1) f(2)] by (auto simp: OsVmPhysPagesAlloc_def Let_def)
  qed
qed

section \<open>All segments\<close>

abbreviation (input) page_range :: "nat \<Rightarrow> vm_phys \<Rightarrow> nat set" where
  "page_range g s \<equiv> page_at g s ` seg_frames g s"

definition vm_ok :: "vm_phys \<Rightarrow> bool" where
  "vm_ok s \<longleftrightarrow> (\<forall>g < g_vmPhysSegNum s. seg_ok g s) \<and>
     (\<forall>g < g_vmPhysSegNum s. \<forall>h < g_vmPhysSegNum s. g \<noteq> h \<longrightarrow> page_range g s \<inter> page_range h s = {} \<and> seg_frames g s \<inter> seg_frames h s = {})"

definition all_free :: "vm_phys \<Rightarrow> nat set" where
  "all_free s = (\<Union>g \<in> {..<g_vmPhysSegNum s}. vm_free g s)"

lemma vm_okD:
  assumes "vm_ok s" "g < g_vmPhysSegNum s"
  shows "seg_ok g s" "h < g_vmPhysSegNum s \<Longrightarrow> g \<noteq> h \<Longrightarrow> page_range g s \<inter> page_range h s = {}"
    "h < g_vmPhysSegNum s \<Longrightarrow> g \<noteq> h \<Longrightarrow> seg_frames g s \<inter> seg_frames h s = {}"
  using assms unfolding vm_ok_def by blast+

text \<open>A segment whose description and pages are as before is in order as before.\<close>

lemma seg_same:
  assumes S: "g_vmPhysSeg t h = g_vmPhysSeg s h" and p: "\<And>p. p \<in> page_range h s \<Longrightarrow> page_order t p = page_order s p \<and>
      physAddr (g_vmPage t p) = physAddr (g_vmPage s p) \<and> segID (g_vmPage t p) = segID (g_vmPage s p)" and c: "vm_clean t = vm_clean s"
  shows "seg_ok h t = seg_ok h s" "ord_of h t = ord_of h s" "seg_pfn h t = seg_pfn h s" "seg_pages h t = seg_pages h s" "page_at h t = page_at h s"
proof -
  show v: "seg_pfn h t = seg_pfn h s" "seg_pages h t = seg_pages h s" "page_at h t = page_at h s"
    using S by (simp_all add: seg_pfn_def seg_pages_def page_at_def fun_eq_iff)
  have q: "page_order t (page_at h s f) = page_order s (page_at h s f)" "physAddr (g_vmPage t (page_at h s f)) = physAddr (g_vmPage s (page_at h s f))"
    "segID (g_vmPage t (page_at h s f)) = segID (g_vmPage s (page_at h s f))" if "f \<in> seg_frames h s" for f
    using p [OF imageI [OF that]] by simp_all
  show o: "ord_of h t = ord_of h s" unfolding ord_of_def v fun_eq_iff using q(1) by simp
  have "{f \<in> seg_frames h s. page_order t (page_at h s f) = k} = {f \<in> seg_frames h s. page_order s (page_at h s f) = k}" for k using q(1) by auto
  then have l: "on_list h t = on_list h s" unfolding on_list_def v fun_eq_iff by simp
  have b: "(\<forall>f \<in> seg_frames h s. page_order t (page_at h s f) \<le> 9) = (\<forall>f \<in> seg_frames h s. page_order s (page_at h s f) \<le> 9)"
    using q(1) by (intro ball_cong) simp_all
  have "seg_lists h t = seg_lists h s" unfolding seg_lists_def v S b l ..
  moreover have "seg_static h t = seg_static h s"
  proof -
    have "(\<forall>f \<in> seg_frames h s. physAddr (g_vmPage t (page_at h s f)) = frame_addr f \<and> segID (g_vmPage t (page_at h s f)) = h) =
        (\<forall>f \<in> seg_frames h s. physAddr (g_vmPage s (page_at h s f)) = frame_addr f \<and> segID (g_vmPage s (page_at h s f)) = h)"
      using q(2,3) by (intro ball_cong) simp_all
    then show ?thesis unfolding seg_static_def v S by simp
  qed
  ultimately show "seg_ok h t = seg_ok h s" by (simp add: seg_ok_def v o c)
qed

lemma vm_ok_same:
  assumes ok: "vm_ok s" and n: "g_vmPhysSegNum t = g_vmPhysSegNum s"
    and k: "\<And>g. g < g_vmPhysSegNum s \<Longrightarrow> seg_ok g t \<and> seg_pfn g t = seg_pfn g s \<and> seg_pages g t = seg_pages g s \<and> page_at g t = page_at g s"
  shows "vm_ok t"
  using ok k unfolding vm_ok_def n by simp

lemma vm_step:
  assumes ok: "vm_ok s" and g: "g < g_vmPhysSegNum s" and to: "seg_to g s A t"
  shows "vm_ok t" "g_vmPhysSegNum t = g_vmPhysSegNum s" "h < g_vmPhysSegNum s \<Longrightarrow> vm_free h t = (if h = g then A else vm_free h s)"
    "h < g_vmPhysSegNum s \<Longrightarrow> seg_pfn h t = seg_pfn h s \<and> seg_pages h t = seg_pages h s \<and> page_at h t = page_at h s"
proof -
  note v = seg_toD [OF to]
  show n: "g_vmPhysSegNum t = g_vmPhysSegNum s" using v(2) by (simp add: vm_frame_def)
  have c: "vm_clean t = vm_clean s" using seg_okD(4) [OF v(1)] seg_okD(4) [OF vm_okD(1) [OF ok g]] by simp
  have o: "seg_ok h t = seg_ok h s" "ord_of h t = ord_of h s" "seg_pfn h t = seg_pfn h s" "seg_pages h t = seg_pages h s" "page_at h t = page_at h s"
    if h: "h < g_vmPhysSegNum s" "h \<noteq> g" for h
  proof -
    have e: "g_vmPhysSeg t h = g_vmPhysSeg s h" using v(2) h(2) by (simp add: vm_frame_def)
    have "g_vmPage t p = g_vmPage s p" if "p \<in> page_range h s" for p
    proof -
      have "p \<notin> page_range g s" using vm_okD(2) [OF ok g h(1)] h(2) that by blast
      then show ?thesis using v(2) by (simp add: vm_frame_def)
    qed
    show "seg_ok h t = seg_ok h s" "ord_of h t = ord_of h s" "seg_pfn h t = seg_pfn h s" "seg_pages h t = seg_pages h s" "page_at h t = page_at h s"
      by (rule seg_same [OF e _ c]; use \<open>\<And>p. p \<in> page_range h s \<Longrightarrow> g_vmPage t p = g_vmPage s p\<close> in simp)+
  qed
  show p: "seg_pfn h t = seg_pfn h s \<and> seg_pages h t = seg_pages h s \<and> page_at h t = page_at h s" if "h < g_vmPhysSegNum s" for h
    using o(3-5) [OF that] v(4,6,7) by (cases "h = g") simp_all
  show "vm_free h t = (if h = g then A else vm_free h s)" if "h < g_vmPhysSegNum s" for h
    using o(2) [OF that] v(3) by simp
  show "vm_ok t"
  proof (rule vm_ok_same [OF ok n])
    fix h assume h: "h < g_vmPhysSegNum s"
    have "seg_ok h t" using o(1) [OF h] v(1) vm_okD(1) [OF ok h] by (cases "h = g") simp_all
    then show "seg_ok h t \<and> seg_pfn h t = seg_pfn h s \<and> seg_pages h t = seg_pages h s \<and> page_at h t = page_at h s" using p [OF h] by simp
  qed
qed

lemma free_in_frames: "seg_ok g s \<Longrightarrow> vm_free g s \<subseteq> seg_frames g s"
  using frees_bounds [OF seg_okD(3)] by blast

lemma all_free_step:
  assumes ok: "vm_ok s" and g: "g < g_vmPhysSegNum s" and to: "seg_to g s A t"
  shows "all_free t = (\<Union>h \<in> {..<g_vmPhysSegNum s} - {g}. vm_free h s) \<union> A" "all_free s = (\<Union>h \<in> {..<g_vmPhysSegNum s} - {g}. vm_free h s) \<union> vm_free g s"
    "(\<Union>h \<in> {..<g_vmPhysSegNum s} - {g}. vm_free h s) \<inter> seg_frames g s = {}"
proof -
  note v = vm_step [OF ok g to]
  have "all_free t = (\<Union>h \<in> {..<g_vmPhysSegNum s}. if h = g then A else vm_free h s)" unfolding all_free_def v(2) using v(3) by simp
  then show "all_free t = (\<Union>h \<in> {..<g_vmPhysSegNum s} - {g}. vm_free h s) \<union> A" using g by (auto split: if_splits)
  show "all_free s = (\<Union>h \<in> {..<g_vmPhysSegNum s} - {g}. vm_free h s) \<union> vm_free g s" unfolding all_free_def using g by auto
  have "vm_free h s \<inter> seg_frames g s = {}" if "h < g_vmPhysSegNum s" "h \<noteq> g" for h
    using free_in_frames [OF vm_okD(1) [OF ok that(1)]] vm_okD(3) [OF ok that(1) g that(2)] by blast
  then show "(\<Union>h \<in> {..<g_vmPhysSegNum s} - {g}. vm_free h s) \<inter> seg_frames g s = {}" by blast
qed

text \<open>Bookkeeping fields of a page do not matter.\<close>

lemma meta_ok:
  assumes u: "\<And>c. pg_order (u c) = pg_order c" "\<And>c. physAddr (u c) = physAddr c" "\<And>c. segID (u c) = segID c"
  shows "vm_ok (upd_page p u s) = vm_ok s" "all_free (upd_page p u s) = all_free s" "seg_ok g (upd_page p u s) = seg_ok g s"
    "ord_of g (upd_page p u s) = ord_of g s" "seg_pfn g (upd_page p u s) = seg_pfn g s" "seg_pages g (upd_page p u s) = seg_pages g s"
    "page_at g (upd_page p u s) = page_at g s" "g_vmPhysSegNum (upd_page p u s) = g_vmPhysSegNum s"
proof -
  have q: "seg_ok h (upd_page p u s) = seg_ok h s" "ord_of h (upd_page p u s) = ord_of h s" "seg_pfn h (upd_page p u s) = seg_pfn h s"
    "seg_pages h (upd_page p u s) = seg_pages h s" "page_at h (upd_page p u s) = page_at h s" for h
    by (rule seg_same; simp add: upd_page_def u vm_clean_def)+
  show n: "g_vmPhysSegNum (upd_page p u s) = g_vmPhysSegNum s" by (simp add: upd_page_def)
  show "vm_ok (upd_page p u s) = vm_ok s" unfolding vm_ok_def n q ..
  show "all_free (upd_page p u s) = all_free s" unfolding all_free_def n q ..
  show "seg_ok g (upd_page p u s) = seg_ok g s" "ord_of g (upd_page p u s) = ord_of g s" "seg_pfn g (upd_page p u s) = seg_pfn g s"
    "seg_pages g (upd_page p u s) = seg_pages g s" "page_at g (upd_page p u s) = page_at g s" by (fact q)+
qed

section \<open>The interface\<close>

definition fits32 :: "nat \<Rightarrow> vm_phys \<Rightarrow> bool" where
  "fits32 n s \<longleftrightarrow> (\<forall>g < g_vmPhysSegNum s. seg_pfn g s + seg_pages g s + n \<le> 2 ^ 20)"

definition page_taken :: "nat \<Rightarrow> vm_phys \<Rightarrow> nat \<Rightarrow> nat \<Rightarrow> nat \<Rightarrow> vm_phys \<Rightarrow> bool" where
  "page_taken n s g f p t \<longleftrightarrow> seg_serves g s n \<and> p = page_at g s f \<and> f \<in> seg_frames g s \<and> f + n \<le> seg_pfn g s + seg_pages g s \<and> {f ..< f + n} \<subseteq> all_free s \<and>
     vm_ok t \<and> all_free t = all_free s - {f ..< f + n} \<and> seg_pfn g t = seg_pfn g s \<and> seg_pages g t = seg_pages g s \<and>
     page_at g t = page_at g s \<and> g_vmPhysSegNum t = g_vmPhysSegNum s \<and> KERNEL_ASPACE_BASE t = KERNEL_ASPACE_BASE s \<and> SYS_MEM_BASE t = SYS_MEM_BASE s"

lemma alloc_all:
  assumes ok: "vm_ok s" and g: "g < g_vmPhysSegNum s" and n: "0 < n" "fits32 n s"
  shows "case OsVmPhysPagesAlloc g n s of (None, t) \<Rightarrow> t = s \<and> \<not> seg_serves g s n | (Some p, t) \<Rightarrow> \<exists>f. page_taken n s g f p t"
proof -
  note so = vm_okD(1) [OF ok g]
  note a = pages_alloc [OF so n(1)]
  have b: "seg_pfn g s + seg_pages g s + n \<le> 2 ^ 20" using n(2) g by (simp add: fits32_def)
  show ?thesis
  proof (cases "OsVmPhysPagesAlloc g n s")
    case (Pair r t)
    show ?thesis
    proof (cases r)
      case None
      then show ?thesis using Pair a [OF b] by simp
    next
      case (Some p)
      then obtain f where f: "p = page_at g s f" "{f ..< f + n} \<subseteq> vm_free g s" "seg_to g s (vm_free g s - {f ..< f + n}) t" "seg_serves g s n"
        using Pair a [OF b] by auto
      note v = vm_step [OF ok g f(3)] and w = all_free_step [OF ok g f(3)]
      have sub: "{f ..< f + n} \<subseteq> seg_frames g s" using free_in_frames [OF so] f(2) by blast
      have "f \<in> {f ..< f + n}" "f + n - 1 \<in> {f ..< f + n}" using n(1) by simp_all
      then have r: "f \<in> seg_frames g s" "f + n - 1 \<in> seg_frames g s" using sub by blast+
      have "all_free t = all_free s - {f ..< f + n}" unfolding w(1,2) using w(3) sub by blast
      moreover have "{f ..< f + n} \<subseteq> all_free s" unfolding w(2) using f(2) by blast
      moreover have "KERNEL_ASPACE_BASE t = KERNEL_ASPACE_BASE s" "SYS_MEM_BASE t = SYS_MEM_BASE s"
        using seg_toD(2) [OF f(3)] by (simp_all add: vm_frame_def)
      moreover have "f + n \<le> seg_pfn g s + seg_pages g s" using r(2) n(1) by simp linarith
      ultimately have "page_taken n s g f p t" using f(1,4) r v(1,2) v(4) [OF g] n(1) by (simp add: page_taken_def)
      then show ?thesis using Pair Some by auto
    qed
  qed
qed

lemma page_taken_meta:
  assumes "page_taken n s g f p t" "\<And>c. pg_order (u c) = pg_order c" "\<And>c. physAddr (u c) = physAddr c" "\<And>c. segID (u c) = segID c"
  shows "page_taken n s g f p (upd_page q u t)"
proof -
  have "KERNEL_ASPACE_BASE (upd_page q u t) = KERNEL_ASPACE_BASE t" "SYS_MEM_BASE (upd_page q u t) = SYS_MEM_BASE t"
    by (simp_all add: upd_page_def)
  then show ?thesis using assms(1) meta_ok [OF assms(2-4)] by (simp add: page_taken_def)
qed

lemma pages_get_ok:
  assumes ok: "vm_ok s" and n: "0 < n" "fits32 n s" and gs: "set gs \<subseteq> {..<g_vmPhysSegNum s}"
  shows "case pages_get n gs s of (None, t) \<Rightarrow> t = s \<and> (\<forall>g \<in> set gs. \<not> seg_serves g s n)
    | (Some p, t) \<Rightarrow> \<exists>g \<in> set gs. \<exists>f. page_taken n s g f p t \<and> refCounts (g_vmPage t p) = 0 \<and> pg_nPages (g_vmPage t p) = of_nat n"
  using gs
proof (induction gs)
  case (Cons g gs)
  have g: "g < g_vmPhysSegNum s" using Cons.prems by simp
  note a = alloc_all [OF ok g n]
  show ?case
  proof (cases "OsVmPhysPagesAlloc g n s")
    case (Pair r t)
    show ?thesis
    proof (cases r)
      case None
      then have "t = s" "\<not> seg_serves g s n" using a Pair by simp_all
      then show ?thesis using Cons.IH Cons.prems Pair None by (auto split: prod.splits option.splits)
    next
      case (Some p)
      then obtain f where f: "page_taken n s g f p t" using a Pair by auto
      have "page_taken n s g f p (upd_page p (\<lambda>c. c\<lparr>refCounts := 0, pg_nPages := of_nat n\<rparr>) t)" by (rule page_taken_meta [OF f]) simp_all
      then show ?thesis using Pair Some by (auto simp: upd_page_def)
    qed
  qed
qed simp

lemma first_page_ok:
  assumes ok: "vm_ok s" and g: "g < g_vmPhysSegNum s" and f: "f \<in> seg_frames g s"
    and gs: "set gs \<subseteq> {..<g_vmPhysSegNum s}" "g \<in> set gs"
  shows "first_page (frame_addr f) gs s = Some (page_at g s f)"
  using gs
proof (induction gs)
  case (Cons h gs)
  note st = seg_okD(1) [OF vm_okD(1) [OF ok]]
  have lt: "f < 2 ^ 20" by (rule frame_lt [OF st [OF g] f])
  have h: "h < g_vmPhysSegNum s" using Cons.prems(1) by simp
  note tp = to_page [OF st [OF h] lt]
  show ?case
  proof (cases "h = g")
    case True
    then show ?thesis using tp f by simp
  next
    case False
    then have "f \<notin> seg_frames h s" using vm_okD(3) [OF ok h g] f by blast
    then have "OsVmPhysToPage (frame_addr f) h s = None" using tp by metis
    then show ?thesis using Cons False by simp
  qed
qed simp

lemma free_all:
  assumes ok: "vm_ok s" and g: "g < g_vmPhysSegNum s" and r: "seg_pfn g s \<le> f" "f + n \<le> seg_pfn g s + seg_pages g s"
    and d: "{f ..< f + n} \<inter> all_free s = {}"
  shows "vm_ok (OsVmPhysPagesFreeContiguous (page_at g s f) n s)"
    "all_free (OsVmPhysPagesFreeContiguous (page_at g s f) n s) = all_free s \<union> {f ..< f + n}"
proof -
  have "vm_free g s \<subseteq> all_free s" using g by (auto simp: all_free_def)
  then have "{f ..< f + n} \<inter> vm_free g s = {}" using d by blast
  note u = free_contiguous [OF vm_okD(1) [OF ok g] r this]
  show "vm_ok (OsVmPhysPagesFreeContiguous (page_at g s f) n s)" by (rule vm_step(1) [OF ok g u])
  show "all_free (OsVmPhysPagesFreeContiguous (page_at g s f) n s) = all_free s \<union> {f ..< f + n}" using all_free_step(1,2) [OF ok g u] by blast
qed

lemma vm_free_contiguous:
  assumes ok: "vm_ok s" and g: "g < g_vmPhysSegNum s" and r: "f \<in> seg_frames g s" "f + n \<le> seg_pfn g s + seg_pages g s"
    and d: "{f ..< f + n} \<inter> all_free s = {}" and q: "query ptr = frame_addr f" "ptr \<noteq> 0"
  shows "vm_ok (LOS_PhysPagesFreeContiguous query ptr n s)" "all_free (LOS_PhysPagesFreeContiguous query ptr n s) = all_free s \<union> {f ..< f + n}"
proof -
  let ?u = "\<lambda>c. c\<lparr>pg_nPages := 0\<rparr>" and ?p = "page_at g s f"
  have fp: "OsVmVaddrToPage query ptr s = Some ?p" unfolding OsVmVaddrToPage_def q(1) by (rule first_page_ok [OF ok g r(1)]) (use g in auto)
  have e: "LOS_PhysPagesFreeContiguous query ptr n s = OsVmPhysPagesFreeContiguous ?p n (upd_page ?p ?u s)"
    using q(2) by (simp add: LOS_PhysPagesFreeContiguous_def fp)
  have m: "vm_ok (upd_page ?p ?u s)" "all_free (upd_page ?p ?u s) = all_free s" "seg_pfn g (upd_page ?p ?u s) = seg_pfn g s"
    "seg_pages g (upd_page ?p ?u s) = seg_pages g s" "page_at g (upd_page ?p ?u s) = page_at g s" "g_vmPhysSegNum (upd_page ?p ?u s) = g_vmPhysSegNum s"
    using meta_ok [of ?u] ok by simp_all
  note x = free_all [OF m(1), of g f n, unfolded m(2-6), OF g _ r(2) d]
  show "vm_ok (LOS_PhysPagesFreeContiguous query ptr n s)" "all_free (LOS_PhysPagesFreeContiguous query ptr n s) = all_free s \<union> {f ..< f + n}"
    unfolding e using x r(1) by simp_all
qed

lemma alloc_contiguous:
  assumes ok: "vm_ok s" and n: "0 < n" "fits32 n s"
  shows "case LOS_PhysPagesAllocContiguous n s of (va, t) \<Rightarrow>
    if \<exists>g < g_vmPhysSegNum s. seg_serves g s n
    then \<exists>g f p. g < g_vmPhysSegNum s \<and> page_taken n s g f p t \<and> va = KERNEL_ASPACE_BASE s + frame_addr f - SYS_MEM_BASE s \<and>
      refCounts (g_vmPage t p) = 0 \<and> pg_nPages (g_vmPage t p) = of_nat n
    else va = 0 \<and> t = s"
proof -
  have gs: "set [0..<g_vmPhysSegNum s] \<subseteq> {..<g_vmPhysSegNum s}" by auto
  note a = pages_get_ok [OF ok n gs, folded OsVmPhysPagesGet_def]
  show ?thesis
  proof (cases "OsVmPhysPagesGet n s")
    case (Pair r t)
    show ?thesis
    proof (cases r)
      case None
      then show ?thesis using a Pair n(1) by (auto simp: LOS_PhysPagesAllocContiguous_def)
    next
      case (Some p)
      then obtain g f where t: "g < g_vmPhysSegNum s" "page_taken n s g f p t" "refCounts (g_vmPage t p) = 0" "pg_nPages (g_vmPage t p) = of_nat n"
        using a Pair by auto
      have "seg_ok g t" using t(1,2) vm_okD(1) [of t g] by (simp add: page_taken_def)
      then have "physAddr (g_vmPage t p) = frame_addr f" using seg_okD(1) [of g t] t(2) by (auto simp: seg_static_def page_taken_def)
      then have va: "LOS_PhysPagesAllocContiguous n s = (KERNEL_ASPACE_BASE s + frame_addr f - SYS_MEM_BASE s, t)"
        using Pair Some n(1) t(2) by (simp add: LOS_PhysPagesAllocContiguous_def OsVmPageToVaddr_def page_taken_def)
      have "seg_serves g s n" using t(2) by (simp add: page_taken_def)
      then have "\<exists>g < g_vmPhysSegNum s. seg_serves g s n" using t(1) by blast
      then show ?thesis unfolding va using t by auto
    qed
  qed
qed

section \<open>Start-up\<close>

definition fresh_page :: "u32 \<Rightarrow> nat \<Rightarrow> LosVmPage \<Rightarrow> LosVmPage" where
  "fresh_page pa g p = p\<lparr>pg_flags := 0, refCounts := 0, physAddr := pa, segID := g, pg_order := VM_LIST_ORDER_MAX, pg_nPages := 0\<rparr>"

lemma page_init:
  "page_init_loop n p pa g s = (p + n, pa + of_nat (4096 * n),
     s\<lparr>g_vmPage := (\<lambda>q. if p \<le> q \<and> q < p + n then fresh_page (pa + of_nat (4096 * (q - p))) g (g_vmPage s q) else g_vmPage s q)\<rparr>)"
proof (induction n arbitrary: p pa s)
  case 0
  have e: "(p \<le> q \<and> q < p + 0) \<longleftrightarrow> False" for q by auto
  show ?case unfolding e by simp
next
  case (Suc n)
  have w: "pa + 4096 + of_nat (4096 * n) = pa + of_nat (4096 * Suc n)" by simp
  have "(if Suc p \<le> q \<and> q < Suc p + n then fresh_page (pa + 4096 + of_nat (4096 * (q - Suc p))) g (g_vmPage (OsVmPageInit p pa g s) q)
        else g_vmPage (OsVmPageInit p pa g s) q) =
      (if p \<le> q \<and> q < p + Suc n then fresh_page (pa + of_nat (4096 * (q - p))) g (g_vmPage s q) else g_vmPage s q)" for q
  proof (cases "q = p")
    case False
    have "4096 + of_nat (4096 * (q - Suc p)) = (of_nat (4096 * (q - p)) :: u32)" if "Suc p \<le> q"
    proof -
      have "q - p = Suc (q - Suc p)" using that by simp
      then show ?thesis by simp
    qed
    then show ?thesis using False by (auto simp: OsVmPageInit_def upd_page_def add.assoc)
  qed (simp add: OsVmPageInit_def upd_page_def fresh_page_def)
  then show ?case using Suc.IH [of "Suc p" "pa + 4096" "OsVmPageInit p pa g s"] w by (simp add: OsVmPageInit_def upd_page_def)
qed

lemma page_init_twice:
  assumes "page_init_loop a p pa g s = (p1, pa1, s1)"
  shows "page_init_loop b p1 pa1 g s1 = page_init_loop (a + b) p pa g s"
  using assms
proof (induction a arbitrary: p pa s)
  case (Suc a)
  then show ?case by simp
qed simp

definition seg_pre :: "nat \<Rightarrow> vm_phys \<Rightarrow> bool" where
  "seg_pre g s \<longleftrightarrow> g < VM_PHYS_SEG_MAX \<and> 4096 dvd unat (seg_start (g_vmPhysSeg s g)) \<and> 4096 dvd unat (seg_size (g_vmPhysSeg s g)) \<and>
     unat (seg_start (g_vmPhysSeg s g)) + unat (seg_size (g_vmPhysSeg s g)) < 2 ^ 32 \<and>
     (\<forall>k < VM_LIST_ORDER_MAX. freeList (g_vmPhysSeg s g) k = [] \<and> listCnt (g_vmPhysSeg s g) k = 0) \<and> vm_clean s"

definition seg_fresh :: "nat \<Rightarrow> vm_phys \<Rightarrow> vm_phys" where
  "seg_fresh g s = s\<lparr>g_vmPage := (\<lambda>q. if q \<in> page_range g s then fresh_page (frame_addr (seg_pfn g s + (q - pageBase (g_vmPhysSeg s g)))) g (g_vmPage s q)
     else g_vmPage s q)\<rparr>"

lemma page_range_eq: "page_range g s = {pageBase (g_vmPhysSeg s g) ..< pageBase (g_vmPhysSeg s g) + seg_pages g s}"
proof -
  have "q \<in> page_range g s" if "q \<in> {pageBase (g_vmPhysSeg s g) ..< pageBase (g_vmPhysSeg s g) + seg_pages g s}" for q
    using that by (intro image_eqI [of _ _ "seg_pfn g s + (q - pageBase (g_vmPhysSeg s g))"]) (auto simp: page_at_def)
  then show ?thesis by (auto simp: page_at_def)
qed

lemma seg_startup_eq:
  assumes "seg_pre g s"
  shows "seg_startup g s = OsVmPhysPagesFreeContiguous (pageBase (g_vmPhysSeg s g)) (seg_pages g s) (seg_fresh g s)"
proof -
  let ?S = "g_vmPhysSeg s g"
  let ?n = "drop_bit 12 (seg_size ?S)"
  have n: "unat ?n = seg_pages g s" by (simp add: seg_pages_def unat_drop_bit_eq drop_bit_eq_div unat_div)
  have "unat (drop_bit 3 ?n) * 8 + unat (?n AND 7) = unat ?n"
  proof -
    have "unat (drop_bit 3 ?n) = unat ?n div 8" by (simp add: unat_drop_bit_eq drop_bit_eq_div unat_div)
    moreover have "?n AND 7 = take_bit 3 ?n" by (simp add: take_bit_eq_mask mask_eq_exp_minus_1)
    then have "unat (?n AND 7) = unat ?n mod 8" by (simp add: unsigned_take_bit_eq take_bit_eq_mod unat_mod)
    ultimately show ?thesis by simp
  qed
  then have e: "unat (drop_bit 3 ?n) * 8 + unat (?n AND 7) = seg_pages g s" unfolding n .
  obtain p1 pa1 s1 where l: "page_init_loop (unat (drop_bit 3 ?n) * 8) (pageBase ?S) (seg_start ?S) g s = (p1, pa1, s1)"
    by (cases "page_init_loop (unat (drop_bit 3 ?n) * 8) (pageBase ?S) (seg_start ?S) g s")
  have st: "seg_start ?S + of_nat (4096 * i) = frame_addr (seg_pfn g s + i)" for i
  proof -
    have "unat (seg_start ?S) = 4096 * seg_pfn g s" using assms by (auto simp: seg_pre_def seg_pfn_def)
    moreover have "seg_start ?S = of_nat (unat (seg_start ?S))" by simp
    ultimately have "seg_start ?S = of_nat (4096 * seg_pfn g s)" by metis
    then show ?thesis unfolding frame_addr_def by (simp only: of_nat_add [symmetric] distrib_left)
  qed
  have "snd (snd (page_init_loop (seg_pages g s) (pageBase ?S) (seg_start ?S) g s)) = seg_fresh g s"
    unfolding page_init seg_fresh_def page_range_eq st by simp
  then show ?thesis
    unfolding seg_startup_def Let_def l prod.case page_init_twice [OF l] e n by (simp add: case_prod_beta)
qed

lemma seg_fresh_ok:
  assumes pre: "seg_pre g s"
  shows "seg_ok g (seg_fresh g s)" "vm_free g (seg_fresh g s) = {}"
    "seg_pfn g (seg_fresh g s) = seg_pfn g s" "seg_pages g (seg_fresh g s) = seg_pages g s" "page_at g (seg_fresh g s) = page_at g s"
proof -
  let ?t = "seg_fresh g s"
  have S: "g_vmPhysSeg ?t = g_vmPhysSeg s" by (simp add: seg_fresh_def)
  show v: "seg_pfn g ?t = seg_pfn g s" "seg_pages g ?t = seg_pages g s" "page_at g ?t = page_at g s"
    by (simp_all add: S seg_pfn_def seg_pages_def page_at_def fun_eq_iff)
  have p: "g_vmPage ?t (page_at g s f) = fresh_page (frame_addr f) g (g_vmPage s (page_at g s f))" if "f \<in> seg_frames g s" for f
    using that by (auto simp: seg_fresh_def page_at_def)
  then have o: "page_order ?t (page_at g s f) = 9" if "f \<in> seg_frames g s" for f using that by (simp add: fresh_page_def)
  have oo: "ord_of g ?t = (\<lambda>_. 9)" using o by (simp add: ord_of_def v fun_eq_iff)
  show "vm_free g ?t = {}" by (simp add: oo frees_def)
  have "seg_static g ?t" using pre p by (auto simp: seg_static_def seg_pre_def S v fresh_page_def)
  moreover have "seg_lists g ?t"
  proof (rule seg_listsI)
    fix k :: nat assume k: "k < 9"
    have "on_list g ?t k = {}" using o k by (auto simp: on_list_def v)
    then show "set (freeList (g_vmPhysSeg ?t g) k) = on_list g ?t k" "distinct (freeList (g_vmPhysSeg ?t g) k)"
      "listCnt (g_vmPhysSeg ?t g) k = of_nat (length (freeList (g_vmPhysSeg ?t g) k))" using pre k by (simp_all add: S seg_pre_def)
  qed (use o v in simp)
  moreover have "geom (seg_pfn g ?t) (seg_pfn g ?t + seg_pages g ?t) (ord_of g ?t)" by (simp add: oo geom_def)
  moreover have "vm_clean ?t" using pre by (simp add: seg_pre_def seg_fresh_def vm_clean_def)
  ultimately show "seg_ok g ?t" by (simp add: seg_ok_def)
qed

lemma seg_startup_ok:
  assumes pre: "seg_pre g s"
  shows "seg_to g (seg_fresh g s) (seg_frames g s) (seg_startup g s)"
proof -
  note f = seg_fresh_ok [OF pre]
  have p: "pageBase (g_vmPhysSeg s g) = page_at g (seg_fresh g s) (seg_pfn g s)" by (simp add: f(5), simp add: page_at_def)
  have "seg_to g (seg_fresh g s) (vm_free g (seg_fresh g s) \<union> {seg_pfn g s ..< seg_pfn g s + seg_pages g s})
      (OsVmPhysPagesFreeContiguous (page_at g (seg_fresh g s) (seg_pfn g s)) (seg_pages g s) (seg_fresh g s))"
    by (rule free_contiguous [OF f(1)]) (use f in simp_all)
  then show ?thesis unfolding seg_startup_eq [OF pre] p using f(2) by simp
qed

lemma unat_page_roundup: "unat x \<le> 2 ^ 32 - 4096 \<Longrightarrow> unat (page_roundup x) = (unat x + 4095) div 4096 * 4096"
proof -
  assume "unat x \<le> 2 ^ 32 - 4096"
  then have a: "unat (x + 4095) = unat x + 4095" by (simp add: unat_word_ariths)
  have "page_roundup x = (x + 4095) AND NOT (mask 12)" by (simp add: page_roundup_def mask_eq_exp_minus_1)
  then show ?thesis by (simp add: unat_clear_low a)
qed

lemma seg_add_one:
  assumes "g_physArea s = [a]" "g_vmPhysSegNum s = 0"
  shows "OsVmPhysSegAdd s = upd_seg 0 (\<lambda>S. S\<lparr>seg_start := area_start a, seg_size := area_size a\<rparr>) (s\<lparr>g_vmPhysSegNum := 1\<rparr>)"
  using assms by (simp add: OsVmPhysSegAdd_def OsVmPhysSegCreate_def upd_seg_def)

lemma one_segment:
  assumes a: "g_physArea s = [a]" "g_vmPhysSegNum s = 0" "vm_clean s" "4096 dvd unat (area_start a)" "4096 dvd unat (area_size a)"
    "unat (area_start a) + unat (area_size a) < 2 ^ 32"
  defines "u \<equiv> OsVmPhysInit (OsVmPhysSegAdd s)"
  defines "t \<equiv> fold seg_startup [0..<g_vmPhysSegNum u] u"
  shows "vm_ok t" "g_vmPhysSegNum t = 1" "seg_pfn 0 t = unat (area_start a) div 4096" "seg_pages 0 t = unat (area_size a) div 4096"
    "all_free t = {seg_pfn 0 t ..< seg_pfn 0 t + seg_pages 0 t}" "g_vmPageArraySize t = g_vmPageArraySize s"
    "KERNEL_ASPACE_BASE t = KERNEL_ASPACE_BASE s" "SYS_MEM_BASE t = SYS_MEM_BASE s"
proof -
  have u: "g_vmPhysSegNum u = 1" "seg_start (g_vmPhysSeg u 0) = area_start a" "seg_size (g_vmPhysSeg u 0) = area_size a" "vm_clean u"
    "g_vmPageArraySize u = g_vmPageArraySize s" "KERNEL_ASPACE_BASE u = KERNEL_ASPACE_BASE s" "SYS_MEM_BASE u = SYS_MEM_BASE s"
    "\<forall>k < 9. freeList (g_vmPhysSeg u 0) k = [] \<and> listCnt (g_vmPhysSeg u 0) k = 0"
    using a(3) by (simp_all add: u_def seg_add_one [OF a(1,2)] OsVmPhysInit_def upd_seg_def OsVmPhysLruInit_def OsVmPhysFreeListInit_def vm_clean_def)
  have pre: "seg_pre 0 u" using a(4-6) u by (simp add: seg_pre_def)
  have t: "t = seg_startup 0 u" by (simp add: t_def u(1))
  note st = seg_startup_ok [OF pre, folded t] note v = seg_toD [OF st] and f = seg_fresh_ok [OF pre]
  have fr: "vm_frame 0 (seg_fresh 0 u) t" by (rule v(2))
  show n: "g_vmPhysSegNum t = 1" using fr u(1) by (simp add: vm_frame_def seg_fresh_def)
  show "seg_pfn 0 t = unat (area_start a) div 4096" "seg_pages 0 t = unat (area_size a) div 4096"
    using v(6,7) f(3,4) u by (simp_all add: seg_pfn_def seg_pages_def)
  show "vm_ok t" using v(1) by (simp add: vm_ok_def n)
  show "all_free t = {seg_pfn 0 t ..< seg_pfn 0 t + seg_pages 0 t}" using v(3,6,7) f(3,4) by (simp add: all_free_def n lessThan_Suc)
  show "g_vmPageArraySize t = g_vmPageArraySize s" "KERNEL_ASPACE_BASE t = KERNEL_ASPACE_BASE s" "SYS_MEM_BASE t = SYS_MEM_BASE s"
    using fr u by (simp_all add: vm_frame_def seg_fresh_def)
qed

text \<open>The sizes at start-up: the pages that are left, the entries of the page array, and the pages it takes.\<close>

definition boot_pages :: "vm_phys \<Rightarrow> VmPhysArea \<Rightarrow> nat" where
  "boot_pages s a = (unat (area_size a) - unat (page_roundup (g_vmBootMemBase s - KERNEL_ASPACE_BASE s))) div 4096"

definition boot_entries :: "vm_phys \<Rightarrow> VmPhysArea \<Rightarrow> nat" where
  "boot_entries s a = boot_pages s a * 4096 div 4120"

definition boot_array :: "vm_phys \<Rightarrow> VmPhysArea \<Rightarrow> nat" where
  "boot_array s a = (24 * boot_entries s a + 4095) div 4096"

definition boot_area :: "vm_phys \<Rightarrow> VmPhysArea \<Rightarrow> bool" where
  "boot_area s a \<longleftrightarrow> g_physArea s = [a] \<and> g_vmPhysSegNum s = 0 \<and> vm_clean s \<and> \<not> g_kHeapInited s \<and>
     4096 dvd unat (area_start a) \<and> 4096 dvd unat (area_size a) \<and> unat (area_start a) + unat (area_size a) < 2 ^ 32 \<and>
     page_roundup (g_vmBootMemBase s - KERNEL_ASPACE_BASE s) \<le> area_size a"

lemma roundup_dvd: "4096 dvd unat (page_roundup x)"
proof -
  have "page_roundup x = (x + 4095) AND NOT (mask 12)" by (simp add: page_roundup_def mask_eq_exp_minus_1)
  then show ?thesis by (simp add: unat_clear_low)
qed

lemma adjust_area:
  assumes "g_physArea s = [a]" "sz \<le> area_size a" "unat (area_start a) + unat (area_size a) < 2 ^ 32" "4096 dvd unat (area_start a)"
    "4096 dvd unat (area_size a)" "4096 dvd unat sz"
  shows "\<exists>b. OsVmPhysAreaSizeAdjust sz s = s\<lparr>g_physArea := [b]\<rparr> \<and> unat (area_start b) = unat (area_start a) + unat sz \<and>
    unat (area_size b) = unat (area_size a) - unat sz \<and> 4096 dvd unat (area_start b) \<and> 4096 dvd unat (area_size b)"
proof (intro exI conjI)
  let ?b = "a\<lparr>area_start := area_start a + sz, area_size := area_size a - sz\<rparr>"
  show "OsVmPhysAreaSizeAdjust sz s = s\<lparr>g_physArea := [?b]\<rparr>" using assms(1) by (simp add: OsVmPhysAreaSizeAdjust_def)
  have le: "unat sz \<le> unat (area_size a)" using assms(2) by (simp add: word_le_nat_alt)
  show s: "unat (area_start ?b) = unat (area_start a) + unat sz" "unat (area_size ?b) = unat (area_size a) - unat sz"
    using assms(2,3) le by (simp_all add: unat_word_ariths unat_sub)
  show "4096 dvd unat (area_start ?b)" "4096 dvd unat (area_size ?b)" unfolding s using assms(4-6) by (auto intro: dvd_diff_nat)
qed

lemma boot_words:
  fixes s :: vm_phys and a :: VmPhysArea
  assumes P: "unat (sz :: u32) = 4096 * boot_pages s a" and Pl: "4096 * boot_pages s a < 2 ^ 32"
  defines "nP \<equiv> drop_bit 12 sz * 4096 div (4120 :: u32)"
  shows "unat (nP * 24) = 24 * boot_entries s a" "unat (page_roundup (nP * 24)) = boot_array s a * 4096" "boot_array s a \<le> boot_pages s a"
proof -
  have "unat (drop_bit 12 sz) = boot_pages s a" by (simp add: unat_drop_bit_eq drop_bit_eq_div unat_div P)
  then have "unat (drop_bit 12 sz * 4096) = boot_pages s a * 4096" using Pl by (simp add: unat_word_ariths)
  then have n: "unat nP = boot_entries s a" by (simp add: nP_def unat_div boot_entries_def)
  have nl: "boot_entries s a \<le> boot_pages s a" by (simp add: boot_entries_def)
  show sz: "unat (nP * 24) = 24 * boot_entries s a" using n nl Pl by (simp add: unat_word_ariths)
  have rl: "24 * boot_entries s a \<le> 4096 * boot_pages s a" using nl by simp
  show "unat (page_roundup (nP * 24)) = boot_array s a * 4096"
    using unat_page_roundup [of "nP * 24"] sz rl Pl nl by (simp add: boot_array_def)
  show "boot_array s a \<le> boot_pages s a" using rl unfolding boot_array_def by simp
qed

lemma startup_sizes:
  assumes b: "boot_area s a"
  defines "t \<equiv> OsVmPageStartup s"
  shows "vm_ok t" "g_vmPhysSegNum t = 1" "seg_pfn 0 t + seg_pages 0 t = (unat (area_start a) + unat (area_size a)) div 4096"
    "seg_pages 0 t = boot_pages s a - boot_array s a" "boot_array s a \<le> boot_pages s a"
    "all_free t = {seg_pfn 0 t ..< seg_pfn 0 t + seg_pages 0 t}" "unat (g_vmPageArraySize t) = 24 * boot_entries s a"
    "KERNEL_ASPACE_BASE t = KERNEL_ASPACE_BASE s" "SYS_MEM_BASE t = SYS_MEM_BASE s"
proof -
  let ?adj = "page_roundup (g_vmBootMemBase s - KERNEL_ASPACE_BASE s)"
  have h: "g_physArea s = [a]" "g_vmPhysSegNum s = 0" "vm_clean s" "\<not> g_kHeapInited s" "4096 dvd unat (area_start a)" "4096 dvd unat (area_size a)"
    "unat (area_start a) + unat (area_size a) < 2 ^ 32" "?adj \<le> area_size a" using b by (simp_all add: boot_area_def)
  obtain a1 where a1: "OsVmPhysAreaSizeAdjust ?adj s = s\<lparr>g_physArea := [a1]\<rparr>" "unat (area_start a1) = unat (area_start a) + unat ?adj"
    "unat (area_size a1) = unat (area_size a) - unat ?adj" "4096 dvd unat (area_start a1)" "4096 dvd unat (area_size a1)"
    using adjust_area [OF h(1,8,7,5,6) roundup_dvd] by blast
  have le: "unat ?adj \<le> unat (area_size a)" using h(8) by (simp add: word_le_nat_alt)
  define P where "P = boot_pages s a"
  have P: "unat (area_size a1) = 4096 * P" using a1(3,5) by (simp add: P_def boot_pages_def)
  have Pl: "4096 * P < 2 ^ 32" using P a1(3) h(7) by linarith
  define nP where "nP = (drop_bit 12 (area_size a1)) * 4096 div (4120 :: u32)"
  note w = boot_words [OF P [unfolded P_def] Pl [unfolded P_def], folded nP_def]
  note sz = w(1) and adj2 = w(2)
  show ba: "boot_array s a \<le> boot_pages s a" by (fact w(3))
  let ?s2 = "s\<lparr>g_physArea := [a1], g_vmPageArraySize := nP * 24, g_vmBootMemBase := LOS_Align (g_vmBootMemBase s) 4 + LOS_Align (nP * 24) 4,
      g_vmPageArray := LOS_Align (g_vmBootMemBase s) 4\<rparr>"
  have le2: "page_roundup (nP * 24) \<le> area_size a1" unfolding word_le_nat_alt adj2 P using ba by (simp add: P_def)
  have g1: "g_physArea ?s2 = [a1]" "unat (area_start a1) + unat (area_size a1) < 2 ^ 32" using a1(2,3) le h(7) by simp_all
  obtain a2 where a2: "OsVmPhysAreaSizeAdjust (page_roundup (nP * 24)) ?s2 = ?s2\<lparr>g_physArea := [a2]\<rparr>"
    "unat (area_start a2) = unat (area_start a1) + unat (page_roundup (nP * 24))" "unat (area_size a2) = unat (area_size a1) - unat (page_roundup (nP * 24))"
    "4096 dvd unat (area_start a2)" "4096 dvd unat (area_size a2)"
    using adjust_area [OF g1(1) le2 g1(2) a1(4,5) roundup_dvd] by blast
  let ?u = "?s2\<lparr>g_physArea := [a2]\<rparr>"
  have t: "t = fold seg_startup [0..<g_vmPhysSegNum (OsVmPhysInit (OsVmPhysSegAdd ?u))] (OsVmPhysInit (OsVmPhysSegAdd ?u))"
    using a2(1) h(4) unfolding t_def OsVmPageStartup_def a1(1) Let_def
    by (simp add: OsVmPhysPageNumGet_def OsVmBootMemAlloc_def nP_def [symmetric] Let_def)
  have pu: "g_physArea ?u = [a2]" "g_vmPhysSegNum ?u = 0" "vm_clean ?u" "unat (area_start a2) + unat (area_size a2) < 2 ^ 32"
    using h(2,3) g1(2) a2(2,3) le2 by (simp_all add: vm_clean_def word_le_nat_alt)
  note o = one_segment [OF pu(1-3) a2(4,5) pu(4), folded t]
  show "vm_ok t" "g_vmPhysSegNum t = 1" "all_free t = {seg_pfn 0 t ..< seg_pfn 0 t + seg_pages 0 t}" by (fact o)+
  show pg: "seg_pages 0 t = boot_pages s a - boot_array s a" unfolding o(4) a2(3) adj2 P by (simp add: P_def diff_mult_distrib2 [symmetric] mult.commute)
  have "unat (area_start a2) + unat (area_size a2) = unat (area_start a) + unat (area_size a)"
    using a2(2,3) a1(2,3) le le2 by (simp add: word_le_nat_alt)
  then show "seg_pfn 0 t + seg_pages 0 t = (unat (area_start a) + unat (area_size a)) div 4096"
    unfolding o(3,4) using a2(4,5) by (simp add: div_add [symmetric] del: div_add)
  show "unat (g_vmPageArraySize t) = 24 * boot_entries s a" using o(6) sz by simp
  show "KERNEL_ASPACE_BASE t = KERNEL_ASPACE_BASE s" "SYS_MEM_BASE t = SYS_MEM_BASE s" using o(7,8) by simp_all
qed

lemma array_short: "P mod 515 = 1 \<Longrightarrow> P * 4096 div 4120 < P - (24 * (P * 4096 div 4120) + 4095) div 4096" for P :: nat
proof -
  assume "P mod 515 = 1"
  then obtain k where k: "P = 515 * k + 1" by (metis mult_div_mod_eq)
  have n: "P * 4096 div 4120 = 512 * k" unfolding k by simp
  show ?thesis unfolding n by (simp add: k)
qed

section \<open>Properties\<close>

lemma serves_one:
  assumes ok: "vm_ok s"
  shows "(\<exists>g < g_vmPhysSegNum s. seg_serves g s 1) \<longleftrightarrow> all_free s \<noteq> {}"
proof -
  have "seg_serves g s 1 \<longleftrightarrow> vm_free g s \<noteq> {}" for g
    by (auto simp: seg_serves_def frees_def blk_def)
  then show ?thesis by (auto simp: all_free_def)
qed

lemma large_fit_hit: "paEnd \<le> paStart + push_bit 8 4096 \<Longrightarrow> large_fit (Suc k) s S paEnd paStart = Some True"
  by (simp add: Let_def)

lemma large_wrap:
  assumes ok: "seg_ok g s" and p: "freeList (g_vmPhysSeg s g) 8 = p # ps" and f: "p = page_at g s f" "ord_of g s f = 8"
    and n: "2 ^ 20 \<le> f + n" "n \<le> 2 ^ 20 + 256"
  shows "OsVmPhysLargeAlloc g n s = Some (Some p)" "seg_pfn g s + seg_pages g s < f + n"
proof -
  note st = seg_okD(1) [OF ok] note A = seg_addr_frames [OF st]
  have h: "blk_in g s f 8" "f \<in> seg_frames g s" by (rule free_head_in [OF ok f(2)]; simp)+
  have b: "seg_pfn g s \<le> f" "f + 256 \<le> seg_pfn g s + seg_pages g s" using h(1) by (simp_all add: blk_in_def)
  show "seg_pfn g s + seg_pages g s < f + n" using A(4) n by linarith
  have pa: "physAddr (g_vmPage s p) = frame_addr f" using st h(2) f(1) by (simp add: seg_static_def)
  define e where "e = f + n - 2 ^ 20"
  have e: "f + n = e + 2 ^ 20" "e \<le> f + 256" using n by (simp_all add: e_def)
  have en: "frame_addr f + push_bit 12 (of_nat n) = frame_addr e"
  proof -
    have "frame_addr f + push_bit 12 (of_nat n) = of_nat (4096 * (f + n))" by (simp add: frame_addr_def push_bit_eq_mult)
    also have "\<dots> = of_nat (4096 * e) + of_nat (2 ^ 32)" unfolding e(1) by simp
    also have "of_nat (2 ^ 32) = (0 :: u32)" by simp
    finally show ?thesis by (simp add: frame_addr_def)
  qed
  have lt: "e < 2 ^ 20" "f + 256 < 2 ^ 20" using e(2) b A(4) by linarith+
  have "\<not> frame_addr e > seg_start (g_vmPhysSeg s g) + seg_size (g_vmPhysSeg s g)"
    unfolding A(2) linorder_not_less using frame_addr_le [OF lt(1) A(4)] e(2) b by simp
  moreover have "large_fit 4096 s (g_vmPhysSeg s g) (frame_addr e) (frame_addr f) = Some True"
  proof -
    have "frame_addr e \<le> frame_addr (f + 256)" using frame_addr_le [OF lt] e(2) by simp
    then have "frame_addr e \<le> frame_addr f + push_bit 8 4096" unfolding frame_addr_add .
    then have "large_fit (Suc 4095) s (g_vmPhysSeg s g) (frame_addr e) (frame_addr f) = Some True" by (rule large_fit_hit)
    then show ?thesis by simp
  qed
  ultimately show "OsVmPhysLargeAlloc g n s = Some (Some p)" unfolding OsVmPhysLargeAlloc_def Let_def
    by (simp add: p Let_def pa en)
qed

text \<open>A board with memory from \<open>0x80000000\<close> on, before start-up, and what start-up makes of it.\<close>

definition vm_board :: "u32 \<Rightarrow> vm_phys" where
  "vm_board sz =
     \<lparr>g_vmPage = (\<lambda>_. \<lparr>physAddr = 0, refCounts = 0, pg_flags = 0, pg_order = 0, segID = 0, pg_nPages = 0\<rparr>),
      g_vmPhysSeg = (\<lambda>_. \<lparr>seg_start = 0, seg_size = 0, pageBase = 0, freeList = (\<lambda>_. []), listCnt = (\<lambda>_. 0), lruSize = (\<lambda>_. 0), lruList = (\<lambda>_. [])\<rparr>),
      g_vmPhysSegNum = 0, g_physArea = [\<lparr>area_start = 0x80000000, area_size = sz\<rparr>], KERNEL_ASPACE_BASE = 0x40000000, SYS_MEM_BASE = 0x80000000,
      g_vmBootMemBase = 0x40200000, g_kHeapInited = False, g_vmPageArray = 0, g_vmPageArraySize = 0,
      vm_panic = False, vm_assert = False, vm_fault = False, vm_diverged = False\<rparr>"

abbreviation (input) board_area :: "u32 \<Rightarrow> VmPhysArea" where
  "board_area sz \<equiv> \<lparr>area_start = 0x80000000, area_size = sz\<rparr>"

lemma board_roundup: "page_roundup 0x200000 = 0x200000"
  by (simp add: page_roundup_def)

lemma board: "boot_area (vm_board 0x1000000) (board_area 0x1000000)" "boot_area (vm_board 0x404000) (board_area 0x404000)"
    "boot_pages (vm_board 0x1000000) (board_area 0x1000000) = 3584" "boot_pages (vm_board 0x404000) (board_area 0x404000) = 516"
  by (simp_all add: boot_area_def boot_pages_def vm_board_def vm_clean_def board_roundup)

abbreviation (input) vm_run :: vm_phys where
  "vm_run \<equiv> OsVmPageStartup (vm_board 0x1000000)"

lemma board_run:
  "vm_ok vm_run" "g_vmPhysSegNum vm_run = 1" "fits32 1 vm_run" "all_free vm_run \<noteq> {}" "all_free vm_run \<subseteq> {0x80000 ..< 0x81000}"
  "KERNEL_ASPACE_BASE vm_run = 0x40000000" "SYS_MEM_BASE vm_run = 0x80000000"
proof -
  note b = startup_sizes [OF board(1)]
  have P: "boot_array (vm_board 0x1000000) (board_area 0x1000000) = 21" by (simp add: boot_array_def boot_entries_def board(3))
  have pg: "seg_pages 0 vm_run = 3563" using b(4) by (simp add: P board(3))
  have e: "seg_pfn 0 vm_run + seg_pages 0 vm_run = 0x81000" using b(3) by simp
  show "vm_ok vm_run" "g_vmPhysSegNum vm_run = 1" by (fact b)+
  show "fits32 1 vm_run" using e b(2) by (simp add: fits32_def)
  show "all_free vm_run \<noteq> {}" "all_free vm_run \<subseteq> {0x80000 ..< 0x81000}" using b(6) pg e by auto
  show "KERNEL_ASPACE_BASE vm_run = 0x40000000" "SYS_MEM_BASE vm_run = 0x80000000" using b(8,9) by (simp_all add: vm_board_def)
qed



text \<open>
  C2. Contiguous pages that are given back are free again: \<open>LOS_PhysPagesFreeContiguous\<close> undoes \<open>LOS_PhysPagesAllocContiguous\<close> on the set of free frames,
  whatever blocks were split and merged in between, if the address translation maps the kernel address to its physical address.
\<close>

theorem vm_alloc_free:
  assumes "vm_ok s" "0 < nPages" "fits32 nPages s" "LOS_PhysPagesAllocContiguous nPages s = (va, t)" "va \<noteq> 0"
    "LOS_PaddrQuery va = OsKVaddrToPaddr va t"
  shows "vm_ok (LOS_PhysPagesFreeContiguous LOS_PaddrQuery va nPages t) \<and> all_free (LOS_PhysPagesFreeContiguous LOS_PaddrQuery va nPages t) = all_free s"
proof -
  obtain g f p where t: "g < g_vmPhysSegNum s" "page_taken nPages s g f p t" "va = KERNEL_ASPACE_BASE s + frame_addr f - SYS_MEM_BASE s"
    using alloc_contiguous [OF assms(1-3)] assms(4,5) by (auto split: if_splits)
  have q: "LOS_PaddrQuery va = frame_addr f" using assms(5,6) t(2,3) by (simp add: OsKVaddrToPaddr_def page_taken_def)
  have f: "vm_ok t" "g < g_vmPhysSegNum t" "f \<in> seg_frames g t" "f + nPages \<le> seg_pfn g t + seg_pages g t" "{f ..< f + nPages} \<inter> all_free t = {}"
    "all_free t \<union> {f ..< f + nPages} = all_free s"
    using t(1,2) by (auto simp: page_taken_def)
  show ?thesis using vm_free_contiguous [where query = LOS_PaddrQuery and ptr = va, OF f(1-5) q assms(5)] f(6) by simp
qed

theorem vm_alloc_free_witness:
  "\<exists>va t. LOS_PhysPagesAllocContiguous 1 vm_run = (va, t) \<and> va \<noteq> 0 \<and>
    all_free (LOS_PhysPagesFreeContiguous (\<lambda>v. OsKVaddrToPaddr v t) va 1 t) = all_free vm_run"
proof -
  obtain va t where a: "LOS_PhysPagesAllocContiguous 1 vm_run = (va, t)" by (cases "LOS_PhysPagesAllocContiguous 1 vm_run")
  obtain f where f: "va = KERNEL_ASPACE_BASE vm_run + frame_addr f - SYS_MEM_BASE vm_run" "f \<in> all_free vm_run"
    using alloc_contiguous [OF board_run(1) zero_less_one board_run(3)] a serves_one [OF board_run(1)] board_run(4)
    by (auto simp: page_taken_def)
  have r: "0x80000 \<le> f" "f < 0x81000" using f(2) board_run(5) by auto
  then have u: "unat (frame_addr f) = 4096 * f" by (intro unat_frame) simp
  have "va \<noteq> 0"
  proof
    assume "va = 0"
    then have "frame_addr f = 0x40000000" using f(1) by (simp add: board_run(6,7) algebra_simps)
    then show False using u r(1) by simp
  qed
  then show ?thesis using vm_alloc_free [OF board_run(1) zero_less_one board_run(3) a, of "\<lambda>v. OsKVaddrToPaddr v t"] a by auto
qed

text \<open>C4. A single page is refused only when no frame of any segment is free.\<close>

theorem vm_page_alloc:
  assumes "vm_ok s" "fits32 1 s"
  shows "fst (LOS_PhysPageAlloc s) = None \<longleftrightarrow> all_free s = {}"
proof -
  have gs: "set [0..<g_vmPhysSegNum s] \<subseteq> {..<g_vmPhysSegNum s}" by auto
  have "0 < (1 :: nat)" by simp
  note a = pages_get_ok [OF assms(1) this assms(2) gs, folded OsVmPhysPagesGet_def LOS_PhysPageAlloc_def]
  show ?thesis
  proof (cases "fst (LOS_PhysPageAlloc s)")
    case None
    then have "\<forall>g < g_vmPhysSegNum s. \<not> seg_serves g s 1" using a by (cases "LOS_PhysPageAlloc s") auto
    then show ?thesis using None serves_one [OF assms(1)] by auto
  next
    case (Some p)
    then obtain g f t where "page_taken 1 s g f p t" using a by (cases "LOS_PhysPageAlloc s") auto
    then show ?thesis using Some by (auto simp: page_taken_def)
  qed
qed

theorem vm_page_alloc_witness: "fst (LOS_PhysPageAlloc vm_run) \<noteq> None"
  using vm_page_alloc [OF board_run(1,3)] board_run(4) by simp

text \<open>
  C3. Start-up with the one area of the board: after \<open>OsVmPageStartup\<close> there is one segment, in order, every frame of it is free, it ends where the area ends,
  and it has the pages that the kernel image and the page array leave.
\<close>

theorem vm_startup:
  assumes "boot_area s a"
  shows "vm_ok (OsVmPageStartup s) \<and> g_vmPhysSegNum (OsVmPageStartup s) = 1 \<and>
    seg_pages 0 (OsVmPageStartup s) = boot_pages s a - boot_array s a \<and>
    seg_pfn 0 (OsVmPageStartup s) + seg_pages 0 (OsVmPageStartup s) = (unat (area_start a) + unat (area_size a)) div 4096 \<and>
    all_free (OsVmPageStartup s) = {seg_pfn 0 (OsVmPageStartup s) ..< seg_pfn 0 (OsVmPageStartup s) + seg_pages 0 (OsVmPageStartup s)}"
  using startup_sizes [OF assms] by blast

theorem vm_startup_witness: "seg_pages 0 vm_run = 3563 \<and> vm_ok vm_run"
  using vm_startup [OF board(1)] by (simp add: boot_array_def boot_entries_def board(3))

text \<open>
  The page array can be one entry too short: it is rounded down to whole entries, but the pages left for the segment are not. If the number of pages at
  start-up is 1 modulo 515, the segment has more pages than the array has entries.
\<close>

theorem vm_page_array_short:
  assumes "boot_area s a" "boot_pages s a mod 515 = 1"
  shows "unat (g_vmPageArraySize (OsVmPageStartup s)) < 24 * seg_pages 0 (OsVmPageStartup s)"
  using startup_sizes(4,7) [OF assms(1)] array_short [OF assms(2)] by (simp add: boot_array_def boot_entries_def)

theorem vm_page_array_short_witness:
  "unat (g_vmPageArraySize (OsVmPageStartup (vm_board 0x404000))) < 24 * seg_pages 0 (OsVmPageStartup (vm_board 0x404000))"
  using vm_page_array_short [OF board(2)] by (simp add: board(4))

text \<open>A segment of one block of the largest order.\<close>

definition vm_bare :: vm_phys where
  "vm_bare = (vm_board 0)\<lparr>g_vmPhysSeg := (\<lambda>_. \<lparr>seg_start = 0x80000000, seg_size = 0x100000, pageBase = 0, freeList = (\<lambda>_. []), listCnt = (\<lambda>_. 0), lruSize = (\<lambda>_. 0), lruList = (\<lambda>_. [])\<rparr>)\<rparr>"

definition vm_block :: vm_phys where
  "vm_block = OsVmPhysFreeListAddUnsafe 0 8 (seg_fresh 0 vm_bare)"

lemma vm_block: "seg_ok 0 vm_block" "freeList (g_vmPhysSeg vm_block 0) 8 = [0]" "page_at 0 vm_block 0x80000 = 0" "ord_of 0 vm_block 0x80000 = 8"
proof -
  let ?t = "seg_fresh 0 vm_bare"
  have pre: "seg_pre 0 vm_bare" by (simp add: seg_pre_def vm_bare_def vm_board_def vm_clean_def)
  note f = seg_fresh_ok [OF pre]
  have F: "seg_pfn 0 ?t = 0x80000" "seg_pages 0 ?t = 0x100" unfolding f(3,4) by (simp_all add: seg_pfn_def seg_pages_def vm_bare_def)
  have p: "page_at 0 ?t 0x80000 = 0" unfolding f(5) by (simp add: page_at_def seg_pfn_def vm_bare_def)
  have b: "blk_in 0 ?t 0x80000 8" by (simp add: blk_in_def F)
  have u: "seg_to 0 ?t (blk 0x80000 8) vm_block" using add_ok [OF f(1) b] f(2) p by (simp add: vm_block_def)
  show "seg_ok 0 vm_block" "page_at 0 vm_block 0x80000 = 0" using seg_toD(1,4) [OF u] p by simp_all
  have s0: "segID (g_vmPage ?t 0) = 0" using seg_okD(1) [OF f(1)] blk_in_frame [OF b] p unfolding seg_static_def by metis
  show "freeList (g_vmPhysSeg vm_block 0) 8 = [0]" unfolding vm_block_def OsVmPhysFreeListAddUnsafe_def s0
    by (simp add: upd_seg_def upd_page_def, simp add: seg_fresh_def vm_bare_def)
  have o: "page_order ?t (page_at 0 ?t 0x80000) = 9" by (rule not_free_order [OF f(1) blk_in_frame [OF b]]) (simp add: f(2))
  show "ord_of 0 vm_block 0x80000 = 8"
    using list_add(3) [OF seg_okD(1) [OF f(1)] blk_in_frame [OF b] seg_okD(2) [OF f(1)] o, of 8] by (simp add: vm_block_def p)
qed

text \<open>
  The end address of a large request wraps around at 32 bits: for a request that would end beyond the address space, \<open>OsVmPhysLargeAlloc\<close> accepts the first block
  of the largest order although the pages do not lie in the segment.
\<close>

theorem vm_large_wrap:
  assumes "seg_ok g s" "freeList (g_vmPhysSeg s g) 8 = p # ps" "p = page_at g s f" "ord_of g s f = 8" "2 ^ 20 \<le> f + nPages" "nPages \<le> 2 ^ 20 + 256"
  shows "OsVmPhysLargeAlloc g nPages s = Some (Some p) \<and> seg_pfn g s + seg_pages g s < f + nPages"
  using large_wrap [OF assms] by blast

theorem vm_large_wrap_witness: "OsVmPhysLargeAlloc 0 0x80000 vm_block = Some (Some 0)"
proof -
  have "2 ^ 20 \<le> 0x80000 + (0x80000 :: nat)" "0x80000 \<le> 2 ^ 20 + (256 :: nat)" by simp_all
  then show ?thesis using vm_large_wrap [OF vm_block(1,2) vm_block(3) [symmetric] vm_block(4)] by blast
qed

end
