(* ===== verification/Tlsf_Index.thy ===== *)
theory Tlsf_Index
  imports Bitmap
begin

text \<open>
  The size classes of the heap, \<^verbatim>\<open>kernel/base/mem/tlsf/los_memory.c\<close>: the index of the free list for a size, by a first level (the logarithm) and a
  second level (three more bits). Below 128 every multiple of four has a list of its own.
\<close>

abbreviation (input) OS_MEM_SMALL_BUCKET_COUNT :: u32 where "OS_MEM_SMALL_BUCKET_COUNT \<equiv> 31"
abbreviation (input) OS_MEM_SMALL_BUCKET_MAX_SIZE :: u32 where "OS_MEM_SMALL_BUCKET_MAX_SIZE \<equiv> 128"
abbreviation (input) OS_MEM_SLI :: nat where "OS_MEM_SLI \<equiv> 3"
abbreviation (input) OS_MEM_FREE_LIST_NUM :: u32 where "OS_MEM_FREE_LIST_NUM \<equiv> 8"
abbreviation (input) OS_MEM_LARGE_START_BUCKET :: u32 where "OS_MEM_LARGE_START_BUCKET \<equiv> 7"
abbreviation (input) OS_MEM_FREE_LIST_COUNT :: u32 where "OS_MEM_FREE_LIST_COUNT \<equiv> 223"

definition OsMemFFS :: "u32 \<Rightarrow> nat" where
  "OsMemFFS bitmap = 31 - CLZ (bitmap AND (NOT bitmap + 1))"

definition OsMemFLS :: "u32 \<Rightarrow> nat" where
  "OsMemFLS bitmap = 31 - CLZ bitmap"

definition OsMemLog2 :: "u32 \<Rightarrow> nat" where
  "OsMemLog2 sz = OsMemFLS sz"

definition OsMemFlGet :: "u32 \<Rightarrow> u32" where
  "OsMemFlGet sz = (if sz < OS_MEM_SMALL_BUCKET_MAX_SIZE then drop_bit 2 sz - 1 else of_nat (OsMemLog2 sz))"

definition OsMemSlGet :: "u32 \<Rightarrow> u32 \<Rightarrow> u32" where
  "OsMemSlGet sz fl = drop_bit (unat fl) (push_bit OS_MEM_SLI sz) - OS_MEM_FREE_LIST_NUM"

definition OsMemFreeListIndexGet :: "u32 \<Rightarrow> u32" where
  "OsMemFreeListIndexGet sz =
     (let fl = OsMemFlGet sz
      in if sz < OS_MEM_SMALL_BUCKET_MAX_SIZE then fl
         else OS_MEM_SMALL_BUCKET_COUNT + push_bit OS_MEM_SLI (fl - OS_MEM_LARGE_START_BUCKET) + OsMemSlGet sz fl)"

section \<open>The index as a number\<close>

definition floor_log2 :: "nat \<Rightarrow> nat" where
  "floor_log2 n = LOS_HighBitGet (of_nat n)"

definition tlsf_index :: "nat \<Rightarrow> nat" where
  "tlsf_index n = (if n < 128 then n div 4 - 1 else 31 + 8 * (floor_log2 n - 7) + (8 * n div 2 ^ floor_log2 n - 8))"

lemma log2_bounds:
  assumes "128 \<le> n" "n < 2 ^ 31"
  shows "7 \<le> floor_log2 n" "floor_log2 n \<le> 30" "8 \<le> 8 * n div 2 ^ floor_log2 n" "8 * n div 2 ^ floor_log2 n \<le> 15"
proof -
  let ?k = "floor_log2 n"
  have k: "2 ^ ?k \<le> n" "n < 2 ^ Suc ?k" using high_order [of n] assms by (simp_all add: floor_log2_def)
  show "7 \<le> ?k"
  proof (rule ccontr)
    assume "\<not> 7 \<le> ?k"
    then have "(2 :: nat) ^ Suc ?k \<le> 2 ^ 7" by (intro power_increasing) simp_all
    then show False using k(2) assms(1) by simp
  qed
  show "?k \<le> 30"
  proof (rule ccontr)
    assume "\<not> ?k \<le> 30"
    then have "(2 :: nat) ^ 31 \<le> 2 ^ ?k" by (intro power_increasing) simp_all
    then show False using k(1) assms(2) by simp
  qed
  show "8 \<le> 8 * n div 2 ^ ?k" using k(1) by (simp add: less_eq_div_iff_mult_less_eq)
  have "8 * n < 16 * 2 ^ ?k" using k(2) by simp
  then have "8 * n div 2 ^ ?k < 16" by (simp add: less_mult_imp_div_less)
  then show "8 * n div 2 ^ ?k \<le> 15" by simp
qed

lemma floor_log2_mono:
  assumes "128 \<le> n" "n \<le> m" "m < 2 ^ 31"
  shows "floor_log2 n \<le> floor_log2 m"
proof (rule ccontr)
  assume "\<not> floor_log2 n \<le> floor_log2 m"
  then have "(2 :: nat) ^ Suc (floor_log2 m) \<le> 2 ^ floor_log2 n" by (intro power_increasing) simp_all
  moreover have "2 ^ floor_log2 n \<le> n" using high_order(1) [of n] assms by (simp add: floor_log2_def)
  moreover have "m < 2 ^ Suc (floor_log2 m)" using high_order(2) [of m] assms by (simp add: floor_log2_def)
  ultimately show False using assms(2) by linarith
qed

lemma tlsf_index_mono:
  assumes "n \<le> m" "m < 2 ^ 31"
  shows "tlsf_index n \<le> tlsf_index m"
proof (cases "n < 128")
  case n: True
  show ?thesis
  proof (cases "m < 128")
    case True
    have "n div 4 \<le> m div 4" using assms(1) by (rule div_le_mono)
    then show ?thesis using n True by (simp add: tlsf_index_def)
  next
    case False
    have "n div 4 - 1 \<le> 31" using n by simp
    then show ?thesis using n False by (simp add: tlsf_index_def)
  qed
next
  case False
  then have g: "128 \<le> n" "128 \<le> m" "n < 2 ^ 31" using assms by simp_all
  note a = log2_bounds [OF g(1,3)] and b = log2_bounds [OF g(2) assms(2)]
  show ?thesis
  proof (cases "floor_log2 n = floor_log2 m")
    case True
    have "8 * n div 2 ^ floor_log2 n \<le> 8 * m div 2 ^ floor_log2 m" unfolding True using assms(1) by (intro div_le_mono) simp
    then show ?thesis using g True by (simp add: tlsf_index_def)
  next
    case lt: False
    have "floor_log2 n < floor_log2 m" using floor_log2_mono [OF g(1) assms] lt by simp
    then have "8 * (floor_log2 n - 7) + 8 \<le> 8 * (floor_log2 m - 7)" using a(1) by simp
    then show ?thesis using g a(4) by (simp add: tlsf_index_def)
  qed
qed

lemma tlsf_index_bound: "n < 2 ^ 31 \<Longrightarrow> tlsf_index n < 223"
proof (cases "n < 128")
  case True
  then show ?thesis by (simp add: tlsf_index_def)
next
  case False
  assume "n < 2 ^ 31"
  then show ?thesis using log2_bounds [of n] False by (simp add: tlsf_index_def)
qed

lemma tlsf_index_less: "tlsf_index n < tlsf_index m \<Longrightarrow> n < 2 ^ 31 \<Longrightarrow> n < m"
  using tlsf_index_mono [of m n] by (meson leI leD)

lemma tlsf_index_small:
  assumes "tlsf_index n = tlsf_index m" "n < 128" "4 dvd n" "4 dvd m" "4 \<le> n" "4 \<le> m"
  shows "n = m"
proof -
  have "tlsf_index n \<le> 30" using assms(2) by (simp add: tlsf_index_def)
  then have "m < 128" using assms(1) by (simp add: tlsf_index_def split: if_splits)
  then have "n div 4 - 1 = m div 4 - 1" using assms(1,2) by (simp add: tlsf_index_def)
  moreover obtain i j where "n = 4 * i" "m = 4 * j" using assms(3,4) by (elim dvdE)
  ultimately show ?thesis using assms(5,6) by simp
qed

lemma unat_push3: "unat w < 2 ^ 29 \<Longrightarrow> unat (push_bit 3 w :: u32) = 8 * unat w"
  by (simp add: push_bit_eq_mult unat_word_ariths)

lemma index_get:
  assumes "n < 2 ^ 29" "4 \<le> n"
  shows "unat (OsMemFreeListIndexGet (of_nat n)) = tlsf_index n"
proof (cases "n < 128")
  case True
  have u: "unat (of_nat n :: u32) = n" using assms by (simp add: unat_of_nat take_bit_nat_eq_self)
  then have lt: "(of_nat n :: u32) < 128" using True by (simp add: word_less_nat_alt)
  have d: "unat (drop_bit 2 (of_nat n) :: u32) = n div 4" by (simp add: unat_drop_bit_eq drop_bit_eq_div unat_div u)
  have "(1 :: u32) \<le> drop_bit 2 (of_nat n)" unfolding word_le_nat_alt d using assms(2) by simp
  then have "unat (drop_bit 2 (of_nat n) - 1 :: u32) = n div 4 - 1" by (simp only: unat_sub d) simp
  then show ?thesis using lt True by (simp add: OsMemFreeListIndexGet_def OsMemFlGet_def tlsf_index_def)
next
  case False
  let ?w = "of_nat n :: u32" and ?k = "floor_log2 n"
  have u: "unat ?w = n" using assms by (simp add: unat_of_nat take_bit_nat_eq_self)
  then have lt: "\<not> ?w < 128" using False by (simp add: word_less_nat_alt)
  have n0: "?w \<noteq> 0" using lt by auto
  note b = log2_bounds [of n, OF _ less_trans [OF assms(1)]]
  have k: "7 \<le> ?k" "?k \<le> 30" "8 \<le> 8 * n div 2 ^ ?k" "8 * n div 2 ^ ?k \<le> 15" using b False by simp_all
  have fl: "OsMemFlGet ?w = of_nat ?k" using lt n0 by (simp add: OsMemFlGet_def OsMemLog2_def OsMemFLS_def floor_log2_def LOS_HighBitGet_def)
  have uk: "unat (of_nat ?k :: u32) = ?k" using k(2) by (simp add: unat_of_nat take_bit_nat_eq_self)
  have p: "unat (push_bit 3 ?w) = 8 * n" using assms(1) by (simp add: push_bit_eq_mult unat_word_ariths u)
  have sl0: "unat (drop_bit ?k (push_bit 3 ?w)) = 8 * n div 2 ^ ?k" unfolding unat_drop_bit_eq p by (simp add: drop_bit_eq_div)
  have sl: "unat (OsMemSlGet ?w (of_nat ?k)) = 8 * n div 2 ^ ?k - 8"
  proof -
    have "(8 :: u32) \<le> drop_bit ?k (push_bit 3 ?w)" unfolding word_le_nat_alt sl0 using k(3) by simp
    then show ?thesis unfolding OsMemSlGet_def uk by (simp only: unat_sub sl0) simp
  qed
  have f7: "unat (of_nat ?k - 7 :: u32) = ?k - 7"
  proof -
    have "(7 :: u32) \<le> of_nat ?k" unfolding word_le_nat_alt uk using k(1) by simp
    then show ?thesis by (simp only: unat_sub uk) simp
  qed
  have "unat (push_bit 3 (of_nat ?k - 7 :: u32)) = 8 * (?k - 7)" using unat_push3 [of "of_nat ?k - 7"] k(2) unfolding f7 by simp
  then show ?thesis using lt False k(2,4) sl
    by (simp add: OsMemFreeListIndexGet_def fl tlsf_index_def Let_def unat_word_ariths)
qed

section \<open>The lowest bit\<close>

lemma lowest_bit_odd: "odd v \<Longrightarrow> v AND - v = (1 :: u32)"
proof -
  assume v: "odd v"
  have "- v = NOT v OR 1"
  proof -
    have "- v = NOT v + 1" by (simp add: minus_eq_not_plus_1)
    also have "\<dots> = NOT v OR 1" using v by (subst disjunctive_add) (auto simp: bit_simps bit_1_iff bit_0)
    finally show ?thesis .
  qed
  then have "v AND - v = v AND 1" by (simp add: bit.conj_disj_distrib)
  also have "\<dots> = 1" using v by (simp add: and_one_eq odd_iff_mod_2_eq_one)
  finally show ?thesis .
qed

lemma OsMemFFS_eq:
  assumes "w \<noteq> 0"
  shows "OsMemFFS w = CTZ w"
proof -
  let ?c = "CTZ w" and ?v = "drop_bit (CTZ w) w"
  note c = CTZ_low [OF assms]
  have w: "w = push_bit ?c ?v"
  proof (rule bit_word_eqI)
    fix i :: nat
    show "bit w i \<longleftrightarrow> bit (push_bit ?c ?v) i" if "i < LENGTH(32)"
      using c(3) [of i] that by (cases "i < ?c") (simp_all add: bit_simps)
  qed
  have "bit ?v 0" using c(2) by (simp add: bit_drop_bit_eq)
  then have o: "odd ?v" by (simp add: bit_0)
  have "push_bit ?c (- ?v) = - push_bit ?c ?v" by (simp add: push_bit_eq_mult)
  then have "- w = push_bit ?c (- ?v)" using w by simp
  then have "w AND - w = push_bit ?c (?v AND - ?v)" using w by (metis push_bit_and)
  then have l: "w AND (NOT w + 1) = push_bit ?c 1" unfolding lowest_bit_odd [OF o] minus_eq_not_plus_1 [of w] .
  have "CLZ (push_bit ?c 1 :: u32) = 31 - ?c"
  proof (rule CLZ_eqI)
    show "31 - ?c < 32" by simp
    show "bit (push_bit ?c 1 :: u32) (31 - (31 - ?c))" using c(1) by (simp add: bit_exp_iff)
    show "\<not> bit (push_bit ?c 1 :: u32) (31 - k)" if "k < 31 - ?c" for k using that c(1) by (auto simp: bit_exp_iff)
  qed
  then show ?thesis unfolding OsMemFFS_def l using c(1) by simp
qed

end
