(* ===== verification/Tlsf.thy ===== *)
theory Tlsf
  imports Tlsf_Index Vm_Phys "HOL-Library.Monad_Syntax"
begin

text \<open>
  The dynamic memory of the kernel, \<^verbatim>\<open>kernel/base/mem/tlsf/los_memory.c\<close>, in the configuration with virtual memory and without the
  debugging options. The memory is a map from addresses to words; addresses and pointers are natural numbers, with the wrap-around at 32 bits written out
  where an operand is not checked. The words of a node are \<open>magic\<close>, \<open>ptr\<close>, \<open>sizeAndFlag\<close>, and for a free node \<open>prev\<close> and \<open>next\<close>. The fields of the pool head are those of
  a record, since no node overlaps them. A result \<open>None\<close> stands for a loop that does not end; \<open>mem_panic\<close> records \<open>LOS_Panic\<close>, \<open>mem_fault\<close> a write through the null pointer.
\<close>

section \<open>State\<close>

abbreviation (input) OS_MEM_NODE_MAGIC :: u32 where "OS_MEM_NODE_MAGIC \<equiv> 0xABCDDCBA"
abbreviation (input) OS_MEM_NODE_USED_FLAG :: u32 where "OS_MEM_NODE_USED_FLAG \<equiv> 0x80000000"
abbreviation (input) OS_MEM_NODE_ALIGNED_FLAG :: u32 where "OS_MEM_NODE_ALIGNED_FLAG \<equiv> 0x40000000"
abbreviation (input) OS_MEM_NODE_LAST_FLAG :: u32 where "OS_MEM_NODE_LAST_FLAG \<equiv> 0x20000000"
abbreviation (input) OS_MEM_NODE_ALIGNED_AND_USED_FLAG :: u32 where "OS_MEM_NODE_ALIGNED_AND_USED_FLAG \<equiv> 0xE0000000"
abbreviation (input) OS_MEM_POOL_EXPAND_ENABLE :: u32 where "OS_MEM_POOL_EXPAND_ENABLE \<equiv> 1"
abbreviation (input) OS_MEM_POOL_LOCK_ENABLE :: u32 where "OS_MEM_POOL_LOCK_ENABLE \<equiv> 2"
abbreviation (input) OS_MEM_NODE_HEAD_SIZE :: u32 where "OS_MEM_NODE_HEAD_SIZE \<equiv> 12"
abbreviation (input) OS_MEM_MIN_ALLOC_SIZE :: u32 where "OS_MEM_MIN_ALLOC_SIZE \<equiv> 8"
abbreviation (input) POOL_HEAD_SIZE :: nat where "POOL_HEAD_SIZE \<equiv> 936"
abbreviation (input) OS_MEM_MIN_POOL_SIZE :: u32 where "OS_MEM_MIN_POOL_SIZE \<equiv> 948"
abbreviation (input) MAX_SHRINK_PAGECACHE_TRY :: nat where "MAX_SHRINK_PAGECACHE_TRY \<equiv> 2"
abbreviation (input) MEM_OK :: u32 where "MEM_OK \<equiv> 0"
abbreviation (input) MEM_NOK :: u32 where "MEM_NOK \<equiv> 1"
abbreviation (input) MEM_OS_ERROR :: u32 where "MEM_OS_ERROR \<equiv> 0xFFFFFFFF"

record mem_pool =
  info_pool :: nat
  totalSize :: u32
  pool_attr :: u32
  freeListBitmap :: "nat \<Rightarrow> u32"
  pool_freeList :: "nat \<Rightarrow> nat"
  mem :: "nat \<Rightarrow> u32"
  mem_vm :: vm_phys
  mem_panic :: bool
  mem_fault :: bool

text \<open>Code outside of the heap: reclaiming pages of the page cache, and address translation.\<close>

record mem_env =
  OsTryShrinkMemory :: "nat \<Rightarrow> vm_phys \<Rightarrow> vm_phys"
  LOS_PaddrQuery :: "u32 \<Rightarrow> u32"

definition st :: "nat \<Rightarrow> u32 \<Rightarrow> mem_pool \<Rightarrow> mem_pool" where
  "st a w s = s\<lparr>mem := (mem s)(a := w)\<rparr>"

abbreviation nd_magic :: "mem_pool \<Rightarrow> nat \<Rightarrow> u32" where "nd_magic s a \<equiv> mem s a"
abbreviation nd_ptr :: "mem_pool \<Rightarrow> nat \<Rightarrow> nat" where "nd_ptr s a \<equiv> unat (mem s (a + 4))"
abbreviation sizeAndFlag :: "mem_pool \<Rightarrow> nat \<Rightarrow> u32" where "sizeAndFlag s a \<equiv> mem s (a + 8)"
abbreviation fn_prev :: "mem_pool \<Rightarrow> nat \<Rightarrow> nat" where "fn_prev s a \<equiv> unat (mem s (a + 12))"
abbreviation fn_next :: "mem_pool \<Rightarrow> nat \<Rightarrow> nat" where "fn_next s a \<equiv> unat (mem s (a + 16))"

definition OS_MEM_NODE_GET_SIZE :: "u32 \<Rightarrow> u32" where
  "OS_MEM_NODE_GET_SIZE w = w AND NOT OS_MEM_NODE_ALIGNED_AND_USED_FLAG"

definition OS_MEM_NODE_GET_ALIGNED_GAPSIZE :: "u32 \<Rightarrow> u32" where
  "OS_MEM_NODE_GET_ALIGNED_GAPSIZE w = w AND NOT OS_MEM_NODE_ALIGNED_FLAG"

abbreviation OS_MEM_NODE_GET_USED_FLAG :: "u32 \<Rightarrow> bool" where "OS_MEM_NODE_GET_USED_FLAG w \<equiv> has w OS_MEM_NODE_USED_FLAG"
abbreviation OS_MEM_NODE_GET_ALIGNED_FLAG :: "u32 \<Rightarrow> bool" where "OS_MEM_NODE_GET_ALIGNED_FLAG w \<equiv> has w OS_MEM_NODE_ALIGNED_FLAG"
abbreviation OS_MEM_NODE_GET_LAST_FLAG :: "u32 \<Rightarrow> bool" where "OS_MEM_NODE_GET_LAST_FLAG w \<equiv> has w OS_MEM_NODE_LAST_FLAG"

definition OS_MEM_ALIGN :: "u32 \<Rightarrow> u32 \<Rightarrow> u32" where
  "OS_MEM_ALIGN p alignSize = (p + alignSize - 1) AND NOT (alignSize - 1)"

definition OS_MEM_IS_ALIGNED :: "nat \<Rightarrow> u32 \<Rightarrow> bool" where
  "OS_MEM_IS_ALIGNED a b \<longleftrightarrow> of_nat a AND (b - 1) = 0"

definition OS_MEM_IS_POW_TWO :: "u32 \<Rightarrow> bool" where
  "OS_MEM_IS_POW_TWO v \<longleftrightarrow> v AND (v - 1) = 0"

definition OS_MEM_NEXT_NODE :: "mem_pool \<Rightarrow> nat \<Rightarrow> nat" where
  "OS_MEM_NEXT_NODE s node = (node + unat (OS_MEM_NODE_GET_SIZE (sizeAndFlag s node))) mod 2 ^ 32"

definition OS_MEM_FIRST_NODE :: "nat \<Rightarrow> nat" where
  "OS_MEM_FIRST_NODE pool = pool + POOL_HEAD_SIZE"

definition OS_MEM_END_NODE :: "nat \<Rightarrow> u32 \<Rightarrow> nat" where
  "OS_MEM_END_NODE pool sz = (pool + unat sz - 12) mod 2 ^ 32"

section \<open>Sentinel nodes\<close>

partial_function (option) sentinel_last :: "mem_pool \<Rightarrow> nat \<Rightarrow> nat \<Rightarrow> u32 \<Rightarrow> nat option" where
  "sentinel_last s node ptr sz =
     (if ptr \<noteq> 0 \<and> sz \<noteq> 0
      then let node = OS_MEM_END_NODE ptr sz
           in sentinel_last s node (nd_ptr s node) (OS_MEM_NODE_GET_SIZE (sizeAndFlag s node))
      else Some node)"

definition OsMemLastSentinelNodeGet :: "mem_pool \<Rightarrow> nat \<Rightarrow> nat option" where
  "OsMemLastSentinelNodeGet s sentinelNode =
     sentinel_last s 0 (nd_ptr s sentinelNode) (OS_MEM_NODE_GET_SIZE (sizeAndFlag s sentinelNode))"

definition OsMemSentinelNodeCheck :: "mem_pool \<Rightarrow> nat \<Rightarrow> bool" where
  "OsMemSentinelNodeCheck s sentinelNode \<longleftrightarrow>
     OS_MEM_NODE_GET_USED_FLAG (sizeAndFlag s sentinelNode) \<and> nd_magic s sentinelNode = OS_MEM_NODE_MAGIC"

definition OsMemIsLastSentinelNode :: "mem_pool \<Rightarrow> nat \<Rightarrow> bool" where
  "OsMemIsLastSentinelNode s sentinelNode \<longleftrightarrow>
     \<not> OsMemSentinelNodeCheck s sentinelNode \<or> OS_MEM_NODE_GET_SIZE (sizeAndFlag s sentinelNode) = 0 \<or> nd_ptr s sentinelNode = 0"

definition OsMemSentinelNodeSet :: "nat \<Rightarrow> nat \<Rightarrow> u32 \<Rightarrow> mem_pool \<Rightarrow> mem_pool option" where
  "OsMemSentinelNodeSet sentinelNode newNode sz s = do {
     node \<leftarrow> (if nd_ptr s sentinelNode \<noteq> 0 then OsMemLastSentinelNodeGet s sentinelNode else Some sentinelNode);
     if node = 0 then Some (s\<lparr>mem_fault := True\<rparr>)
     else Some (st (node + 8) (sz OR OS_MEM_NODE_USED_FLAG OR OS_MEM_NODE_LAST_FLAG) (st (node + 4) (of_nat newNode) s)) }"

definition OsMemSentinelNodeGet :: "mem_pool \<Rightarrow> nat \<Rightarrow> nat" where
  "OsMemSentinelNodeGet s node = nd_ptr s node"

partial_function (option) pre_sentinel :: "mem_pool \<Rightarrow> nat \<Rightarrow> nat \<Rightarrow> nat option" where
  "pre_sentinel s node sentinelNode =
     (if sentinelNode = 0 then Some 0
      else if OsMemIsLastSentinelNode s sentinelNode then Some 0
      else let nextNode = OsMemSentinelNodeGet s sentinelNode
           in if nextNode = node then Some sentinelNode
              else pre_sentinel s node (OS_MEM_END_NODE nextNode (OS_MEM_NODE_GET_SIZE (sizeAndFlag s sentinelNode))))"

definition PreSentinelNodeGet :: "nat \<Rightarrow> mem_pool \<Rightarrow> nat option" where
  "PreSentinelNodeGet node s = pre_sentinel s node (OS_MEM_END_NODE (info_pool s) (totalSize s))"

section \<open>Free lists\<close>

partial_function (option) OsMemFindCurSuitableBlock_loop :: "mem_pool \<Rightarrow> u32 \<Rightarrow> nat \<Rightarrow> nat option" where
  "OsMemFindCurSuitableBlock_loop s sz node =
     (if node = 0 then Some 0
      else if sizeAndFlag s node \<ge> sz then Some node
      else OsMemFindCurSuitableBlock_loop s sz (fn_next s node))"

definition OsMemFindCurSuitableBlock :: "mem_pool \<Rightarrow> u32 \<Rightarrow> u32 \<Rightarrow> nat option" where
  "OsMemFindCurSuitableBlock s index sz = OsMemFindCurSuitableBlock_loop s sz (pool_freeList s (unat index))"

definition BITMAP_INDEX :: "u32 \<Rightarrow> nat" where
  "BITMAP_INDEX index = unat (drop_bit 5 index)"

definition OsMemNotEmptyIndexGet :: "mem_pool \<Rightarrow> u32 \<Rightarrow> u32" where
  "OsMemNotEmptyIndexGet s index =
     (let mask = freeListBitmap s (BITMAP_INDEX index) AND NOT (push_bit (unat (index AND 0x1F)) 1 - 1)
      in if mask \<noteq> 0 then of_nat (OsMemFFS mask) + (index AND NOT 0x1F) else OS_MEM_FREE_LIST_COUNT)"

function next_word :: "mem_pool \<Rightarrow> nat \<Rightarrow> nat option" where
  "next_word s index =
     (if index < 223
      then let mask = freeListBitmap s (index div 32)
           in if mask \<noteq> 0 then Some (OsMemFFS mask + index) else next_word s (index + 32)
      else None)"
  by pat_completeness auto
termination by (relation "measure (\<lambda>(s, index). 223 - index)") auto

declare next_word.simps [simp del]

text \<open>The second component is \<open>outIndex\<close>.\<close>

definition OsMemFindNextSuitableBlock :: "mem_pool \<Rightarrow> u32 \<Rightarrow> (nat \<times> u32) option" where
  "OsMemFindNextSuitableBlock s sz =
     (let fl = OsMemFlGet sz;
          curIndex = (if sz < OS_MEM_SMALL_BUCKET_MAX_SIZE then OS_MEM_FREE_LIST_COUNT
                      else push_bit OS_MEM_SLI (fl - OS_MEM_LARGE_START_BUCKET) + OsMemSlGet sz fl + OS_MEM_SMALL_BUCKET_COUNT);
          index = (if sz < OS_MEM_SMALL_BUCKET_MAX_SIZE then fl else curIndex + 1);
          tmp = OsMemNotEmptyIndexGet s index
      in if tmp \<noteq> OS_MEM_FREE_LIST_COUNT then Some (pool_freeList s (unat tmp), tmp)
         else (case next_word s (unat (LOS_Align (index + 1) 32)) of
             Some i \<Rightarrow> Some (pool_freeList s i, of_nat i)
           | None \<Rightarrow>
               if curIndex = OS_MEM_FREE_LIST_COUNT then Some (0, 0)
               else do { node \<leftarrow> OsMemFindCurSuitableBlock s curIndex sz; Some (node, curIndex) }))"

definition OsMemSetFreeListBit :: "u32 \<Rightarrow> mem_pool \<Rightarrow> mem_pool" where
  "OsMemSetFreeListBit index s = s\<lparr>freeListBitmap := (freeListBitmap s)(BITMAP_INDEX index :=
     freeListBitmap s (BITMAP_INDEX index) OR push_bit (unat (index AND 0x1F)) 1)\<rparr>"

definition OsMemClearFreeListBit :: "u32 \<Rightarrow> mem_pool \<Rightarrow> mem_pool" where
  "OsMemClearFreeListBit index s = s\<lparr>freeListBitmap := (freeListBitmap s)(BITMAP_INDEX index :=
     freeListBitmap s (BITMAP_INDEX index) AND NOT (push_bit (unat (index AND 0x1F)) 1))\<rparr>"

definition set_head :: "nat \<Rightarrow> nat \<Rightarrow> mem_pool \<Rightarrow> mem_pool" where
  "set_head i node s = s\<lparr>pool_freeList := (pool_freeList s)(i := node)\<rparr>"

definition OsMemListAdd :: "u32 \<Rightarrow> nat \<Rightarrow> mem_pool \<Rightarrow> mem_pool" where
  "OsMemListAdd listIndex node s =
     (let firstNode = pool_freeList s (unat listIndex);
          s1 = (if firstNode \<noteq> 0 then st (firstNode + 12) (of_nat node) s else s);
          s2 = st (node + 16) (of_nat firstNode) (st (node + 12) 0 s1)
      in st node OS_MEM_NODE_MAGIC (OsMemSetFreeListBit listIndex (set_head (unat listIndex) node s2)))"

definition OsMemListDelete :: "u32 \<Rightarrow> nat \<Rightarrow> mem_pool \<Rightarrow> mem_pool" where
  "OsMemListDelete listIndex node s =
     st node OS_MEM_NODE_MAGIC
       (if node = pool_freeList s (unat listIndex)
        then let s1 = set_head (unat listIndex) (fn_next s node) s
             in if fn_next s node = 0 then OsMemClearFreeListBit listIndex s1 else st (fn_next s node + 12) 0 s1
        else if fn_prev s node = 0 then s\<lparr>mem_fault := True\<rparr>
        else let s1 = st (fn_prev s node + 16) (of_nat (fn_next s node)) s
             in if fn_next s1 node \<noteq> 0 then st (fn_next s1 node + 12) (of_nat (fn_prev s1 node)) s1 else s1)"

definition OsMemFreeNodeAdd :: "nat \<Rightarrow> mem_pool \<Rightarrow> mem_pool" where
  "OsMemFreeNodeAdd node s =
     (let index = OsMemFreeListIndexGet (sizeAndFlag s node)
      in if index \<ge> OS_MEM_FREE_LIST_COUNT then s\<lparr>mem_panic := True\<rparr> else OsMemListAdd index node s)"

definition OsMemFreeNodeDelete :: "nat \<Rightarrow> mem_pool \<Rightarrow> mem_pool" where
  "OsMemFreeNodeDelete node s =
     (let index = OsMemFreeListIndexGet (sizeAndFlag s node)
      in if index \<ge> OS_MEM_FREE_LIST_COUNT then s\<lparr>mem_panic := True\<rparr> else OsMemListDelete index node s)"

definition OsMemFreeNodeGet :: "u32 \<Rightarrow> mem_pool \<Rightarrow> (nat \<times> mem_pool) option" where
  "OsMemFreeNodeGet sz s = do {
     (firstNode, index) \<leftarrow> OsMemFindNextSuitableBlock s sz;
     Some (if firstNode = 0 then (0, s) else (firstNode, OsMemListDelete index firstNode s)) }"

section \<open>Nodes\<close>

definition OsMemMergeNode :: "nat \<Rightarrow> mem_pool \<Rightarrow> mem_pool" where
  "OsMemMergeNode node s =
     (let prev = nd_ptr s node;
          s1 = st (prev + 8) (sizeAndFlag s prev + sizeAndFlag s node) s;
          nextNode = (node + unat (sizeAndFlag s1 node)) mod 2 ^ 32
      in if \<not> OS_MEM_NODE_GET_LAST_FLAG (sizeAndFlag s1 nextNode) then st (nextNode + 4) (of_nat (nd_ptr s1 node)) s1 else s1)"

definition OsMemSplitNode :: "nat \<Rightarrow> u32 \<Rightarrow> mem_pool \<Rightarrow> mem_pool" where
  "OsMemSplitNode allocNode allocSize s =
     (let newFreeNode = (allocNode + unat allocSize) mod 2 ^ 32;
          s1 = st (newFreeNode + 4) (of_nat allocNode) s;
          s2 = st (newFreeNode + 8) (sizeAndFlag s1 allocNode - allocSize) s1;
          s3 = st (allocNode + 8) allocSize s2;
          nextNode = OS_MEM_NEXT_NODE s3 newFreeNode;
          s4 = (if \<not> OS_MEM_NODE_GET_LAST_FLAG (sizeAndFlag s3 nextNode)
                then let s5 = st (nextNode + 4) (of_nat newFreeNode) s3
                     in if \<not> OS_MEM_NODE_GET_USED_FLAG (sizeAndFlag s5 nextNode)
                        then OsMemMergeNode nextNode (OsMemFreeNodeDelete nextNode s5) else s5
                else s3)
      in OsMemFreeNodeAdd newFreeNode s4)"

definition OsMemCreateUsedNode :: "nat \<Rightarrow> nat" where
  "OsMemCreateUsedNode addr = addr + 12"

section \<open>Expansion and shrinking\<close>

text \<open>The pages of an expansion: up to \<open>k\<close> times the page cache is shrunk and the allocation is tried again.\<close>

fun expand_pages :: "mem_env \<Rightarrow> nat \<Rightarrow> nat \<Rightarrow> vm_phys \<Rightarrow> u32 \<times> vm_phys" where
  "expand_pages E nPages k v = (case LOS_PhysPagesAllocContiguous nPages v of
     (va, v1) \<Rightarrow> if va \<noteq> 0 then (va, v1)
       else (case k of 0 \<Rightarrow> (0, v1) | Suc j \<Rightarrow> expand_pages E nPages j (OsTryShrinkMemory E nPages v1)))"

text \<open>The result is whether the pool was expanded.\<close>

definition OsMemPoolExpandSub :: "mem_env \<Rightarrow> u32 \<Rightarrow> mem_pool \<Rightarrow> (bool \<times> mem_pool) option" where
  "OsMemPoolExpandSub E sz s =
     (let sz = page_roundup (sz + OS_MEM_NODE_HEAD_SIZE);
          endNode = OS_MEM_END_NODE (info_pool s) (totalSize s);
          (va, v1) = expand_pages E (unat (drop_bit 12 sz)) MAX_SHRINK_PAGECACHE_TRY (mem_vm s);
          s1 = s\<lparr>mem_vm := v1\<rparr>;
          newNode = unat va
      in if newNode = 0 then Some (False, s1)
         else do {
           s2 \<leftarrow> Some (st (newNode + 4) (of_nat (OS_MEM_END_NODE newNode sz)) (st (newNode + 8) (sz - OS_MEM_NODE_HEAD_SIZE) s1));
           s3 \<leftarrow> OsMemSentinelNodeSet endNode newNode sz s2;
           s4 \<leftarrow> Some (OsMemFreeNodeAdd newNode s3);
           endNode \<leftarrow> Some (OS_MEM_END_NODE newNode sz);
           s5 \<leftarrow> Some (st endNode OS_MEM_NODE_MAGIC (st (endNode + 4) 0 (st (endNode + 8) 0 s4)));
           s6 \<leftarrow> OsMemSentinelNodeSet endNode 0 0 s5;
           Some (True, s6) })"

partial_function (option) pool_size :: "mem_pool \<Rightarrow> nat \<Rightarrow> u32 \<Rightarrow> u32 option" where
  "pool_size s sentinel count =
     (if OsMemIsLastSentinelNode s sentinel then Some count
      else let sz = OS_MEM_NODE_GET_SIZE (sizeAndFlag s sentinel); node = OsMemSentinelNodeGet s sentinel
           in pool_size s (OS_MEM_END_NODE node sz) (count + sz))"

definition LOS_MemPoolSizeGet :: "nat \<Rightarrow> mem_pool \<Rightarrow> u32 option" where
  "LOS_MemPoolSizeGet pool s =
     (if pool = 0 then Some MEM_NOK else pool_size s (OS_MEM_END_NODE pool (totalSize s)) (totalSize s))"

definition OsMemPoolExpand :: "mem_env \<Rightarrow> u32 \<Rightarrow> mem_pool \<Rightarrow> (bool \<times> mem_pool) option" where
  "OsMemPoolExpand E allocSize s = do {
     total \<leftarrow> LOS_MemPoolSizeGet (info_pool s) s;
     expandDefault \<leftarrow> Some (drop_bit 3 total);
     (ok, s1) \<leftarrow> OsMemPoolExpandSub E (max expandDefault allocSize) s;
     if ok then Some (True, s1)
     else if allocSize > expandDefault then Some (False, s1)
     else OsMemPoolExpandSub E allocSize s1 }"

definition LOS_MemExpandEnable :: "nat \<Rightarrow> mem_pool \<Rightarrow> mem_pool" where
  "LOS_MemExpandEnable pool s = (if pool = 0 then s else s\<lparr>pool_attr := pool_attr s OR OS_MEM_POOL_EXPAND_ENABLE\<rparr>)"

definition OsMemLargeNodeFree :: "mem_env \<Rightarrow> nat \<Rightarrow> mem_pool \<Rightarrow> u32 \<times> mem_pool" where
  "OsMemLargeNodeFree E ptr s =
     (case OsVmVaddrToPage (LOS_PaddrQuery E) (of_nat ptr) (mem_vm s) of
        None \<Rightarrow> (MEM_NOK, s)
      | Some page \<Rightarrow>
          let n = pg_nPages (g_vmPage (mem_vm s) page)
          in if n = 0 then (MEM_NOK, s)
             else (MEM_OK, s\<lparr>mem_vm := LOS_PhysPagesFreeContiguous (LOS_PaddrQuery E) (of_nat ptr) (unat n) (mem_vm s)\<rparr>))"

definition TryShrinkPool :: "mem_env \<Rightarrow> nat \<Rightarrow> mem_pool \<Rightarrow> (bool \<times> mem_pool) option" where
  "TryShrinkPool E node s =
     (if OS_MEM_NODE_GET_SIZE (sizeAndFlag s node) \<noteq> of_nat (nd_ptr s node) - of_nat node then Some (False, s)
      else do {
        preSentinel \<leftarrow> PreSentinelNodeGet node s;
        if preSentinel = 0 then Some (False, s)
        else do {
          mySentinel \<leftarrow> Some (nd_ptr s node);
          s1 \<leftarrow> (if OsMemIsLastSentinelNode s mySentinel then OsMemSentinelNodeSet preSentinel 0 0 (st (preSentinel + 4) 0 s)
                 else Some (let s0 = st (preSentinel + 8) (sizeAndFlag s mySentinel) s
                            in st (preSentinel + 4) (of_nat (nd_ptr s0 mySentinel)) s0));
          case OsMemLargeNodeFree E node s1 of (ret, s2) \<Rightarrow> Some (ret = MEM_OK, s2) } })"

section \<open>Initialisation\<close>

definition OsMemPoolInit :: "nat \<Rightarrow> u32 \<Rightarrow> mem_pool \<Rightarrow> mem_pool option" where
  "OsMemPoolInit pool sz s =
     (let s1 = s\<lparr>info_pool := pool, totalSize := sz, pool_attr := OS_MEM_POOL_LOCK_ENABLE,
                 freeListBitmap := (\<lambda>_. 0), pool_freeList := (\<lambda>_. 0)\<rparr>;
          newNode = OS_MEM_FIRST_NODE pool;
          s2 = st newNode OS_MEM_NODE_MAGIC (st (newNode + 4) 0 (st (newNode + 8) (sz - of_nat POOL_HEAD_SIZE - OS_MEM_NODE_HEAD_SIZE) s1));
          s3 = OsMemFreeNodeAdd newNode s2;
          endNode = OS_MEM_END_NODE pool sz
      in OsMemSentinelNodeSet endNode 0 0 (st (endNode + 4) 0 (st endNode OS_MEM_NODE_MAGIC s3)))"

definition LOS_MemInit :: "nat \<Rightarrow> u32 \<Rightarrow> mem_pool \<Rightarrow> (u32 \<times> mem_pool) option" where
  "LOS_MemInit pool sz s =
     (if pool = 0 \<or> sz \<le> OS_MEM_MIN_POOL_SIZE then Some (MEM_OS_ERROR, s)
      else do { s1 \<leftarrow> OsMemPoolInit pool (OS_MEM_ALIGN sz 4) s; Some (MEM_OK, s1) })"

section \<open>Allocation\<close>

partial_function (option) OsMemAlloc_loop :: "mem_env \<Rightarrow> u32 \<Rightarrow> mem_pool \<Rightarrow> (nat \<times> mem_pool) option" where
  "OsMemAlloc_loop E allocSize s =
     Option.bind (OsMemFreeNodeGet allocSize s) (\<lambda>(allocNode, s1).
       if allocNode = 0 \<and> has (pool_attr s1) OS_MEM_POOL_EXPAND_ENABLE
       then Option.bind (OsMemPoolExpand E allocSize s1) (\<lambda>(ok, s2). if ok then OsMemAlloc_loop E allocSize s2 else Some (0, s2))
       else Some (allocNode, s1))"

definition OsMemAlloc :: "mem_env \<Rightarrow> u32 \<Rightarrow> mem_pool \<Rightarrow> (nat \<times> mem_pool) option" where
  "OsMemAlloc E sz s = do {
     allocSize \<leftarrow> Some (OS_MEM_ALIGN (sz + OS_MEM_NODE_HEAD_SIZE) 4);
     (allocNode, s1) \<leftarrow> OsMemAlloc_loop E allocSize s;
     if allocNode = 0 then Some (0, s1)
     else do {
       s2 \<leftarrow> Some (if allocSize + OS_MEM_NODE_HEAD_SIZE + OS_MEM_MIN_ALLOC_SIZE \<le> sizeAndFlag s1 allocNode
                   then OsMemSplitNode allocNode allocSize s1 else s1);
       Some (OsMemCreateUsedNode allocNode, st (allocNode + 8) (sizeAndFlag s2 allocNode OR OS_MEM_NODE_USED_FLAG) s2) } }"

definition LOS_MemAlloc :: "mem_env \<Rightarrow> nat \<Rightarrow> u32 \<Rightarrow> mem_pool \<Rightarrow> (nat \<times> mem_pool) option" where
  "LOS_MemAlloc E pool sz s =
     (if pool = 0 \<or> sz = 0
      then Some (if sz > 0 then (case OsVmBootMemAlloc sz (mem_vm s) of (p, v) \<Rightarrow> (unat p, s\<lparr>mem_vm := v\<rparr>)) else (0, s))
      else let sz = (if sz < OS_MEM_MIN_ALLOC_SIZE then OS_MEM_MIN_ALLOC_SIZE else sz)
           in if OS_MEM_NODE_GET_USED_FLAG sz \<or> OS_MEM_NODE_GET_ALIGNED_FLAG sz then Some (0, s) else OsMemAlloc E sz s)"

definition LOS_MemAllocAlign :: "mem_env \<Rightarrow> nat \<Rightarrow> u32 \<Rightarrow> u32 \<Rightarrow> mem_pool \<Rightarrow> (nat \<times> mem_pool) option" where
  "LOS_MemAllocAlign E pool sz boundary s =
     (if pool = 0 \<or> sz = 0 \<or> boundary = 0 \<or> \<not> OS_MEM_IS_POW_TWO boundary \<or> \<not> OS_MEM_IS_ALIGNED (unat boundary) 4 then Some (0, s)
      else let sz = (if sz < OS_MEM_MIN_ALLOC_SIZE then OS_MEM_MIN_ALLOC_SIZE else sz)
           in if boundary - 4 > - 1 - sz then Some (0, s)
              else let useSize = sz + boundary - 4
                   in if OS_MEM_NODE_GET_USED_FLAG useSize \<or> OS_MEM_NODE_GET_ALIGNED_FLAG useSize then Some (0, s)
                      else do {
                        (ptr, s1) \<leftarrow> OsMemAlloc E useSize s;
                        alignedPtr \<leftarrow> Some (unat (OS_MEM_ALIGN (of_nat ptr) boundary));
                        if ptr = alignedPtr then Some (ptr, s1)
                        else do {
                          gapSize \<leftarrow> Some (of_nat alignedPtr - of_nat ptr :: u32);
                          s2 \<leftarrow> Some (st (ptr - 12 + 8) (sizeAndFlag s1 (ptr - 12) OR OS_MEM_NODE_ALIGNED_FLAG) s1);
                          Some (alignedPtr, st (alignedPtr - 4) (gapSize OR OS_MEM_NODE_ALIGNED_FLAG) s2) } })"

section \<open>Checks\<close>

partial_function (option) addr_in_expand :: "mem_pool \<Rightarrow> nat \<Rightarrow> nat \<Rightarrow> bool option" where
  "addr_in_expand s addr sentinel =
     (if OsMemIsLastSentinelNode s sentinel then Some False
      else let sz = OS_MEM_NODE_GET_SIZE (sizeAndFlag s sentinel); node = OsMemSentinelNodeGet s sentinel
           in if node \<le> addr \<and> addr < (node + unat sz) mod 2 ^ 32 then Some True
              else addr_in_expand s addr (OS_MEM_END_NODE node sz))"

definition OsMemAddrValidCheck :: "mem_pool \<Rightarrow> nat \<Rightarrow> bool option" where
  "OsMemAddrValidCheck s addr =
     (if addr = 0 then Some True
      else if info_pool s + POOL_HEAD_SIZE \<le> addr \<and> addr < (info_pool s + unat (totalSize s)) mod 2 ^ 32 then Some True
      else addr_in_expand s addr (OS_MEM_END_NODE (info_pool s) (totalSize s)))"

definition OsMemIsNodeValid :: "mem_pool \<Rightarrow> nat \<Rightarrow> nat \<Rightarrow> nat \<Rightarrow> bool option" where
  "OsMemIsNodeValid s node startNode endNode =
     (if \<not> (startNode \<le> node \<and> node \<le> endNode) then Some False
      else if OS_MEM_NODE_GET_USED_FLAG (sizeAndFlag s node) then Some (nd_magic s node = OS_MEM_NODE_MAGIC)
      else OsMemAddrValidCheck s (nd_ptr s node))"

definition MemCheckUsedNode :: "mem_pool \<Rightarrow> nat \<Rightarrow> nat \<Rightarrow> nat \<Rightarrow> bool option" where
  "MemCheckUsedNode s node startNode endNode = do {
     v1 \<leftarrow> OsMemIsNodeValid s node startNode endNode;
     if \<not> v1 then Some False
     else if \<not> OS_MEM_NODE_GET_USED_FLAG (sizeAndFlag s node) then Some False
     else do {
       nextNode \<leftarrow> Some (OS_MEM_NEXT_NODE s node);
       v2 \<leftarrow> OsMemIsNodeValid s nextNode startNode endNode;
       if \<not> v2 then Some False
       else if \<not> OS_MEM_NODE_GET_LAST_FLAG (sizeAndFlag s nextNode) \<and> nd_ptr s nextNode \<noteq> node then Some False
       else if node = startNode then Some True
       else do {
         v3 \<leftarrow> OsMemIsNodeValid s (nd_ptr s node) startNode endNode;
         Some (v3 \<and> OS_MEM_NEXT_NODE s (nd_ptr s node) = node) } } }"

partial_function (option) check_used :: "mem_pool \<Rightarrow> nat \<Rightarrow> nat \<Rightarrow> nat \<Rightarrow> u32 option" where
  "check_used s node startNode endNode =
     Option.bind (MemCheckUsedNode s node startNode endNode) (\<lambda>doneFlag.
       if doneFlag then Some MEM_OK
       else if OsMemIsLastSentinelNode s endNode then Some MEM_NOK
       else check_used s node (OsMemSentinelNodeGet s endNode)
              (OS_MEM_END_NODE (OsMemSentinelNodeGet s endNode) (OS_MEM_NODE_GET_SIZE (sizeAndFlag s endNode))))"

definition OsMemCheckUsedNode :: "nat \<Rightarrow> mem_pool \<Rightarrow> u32 option" where
  "OsMemCheckUsedNode node s = check_used s node (OS_MEM_FIRST_NODE (info_pool s)) (OS_MEM_END_NODE (info_pool s) (totalSize s))"

section \<open>Freeing\<close>

definition OsMemFree :: "mem_env \<Rightarrow> nat \<Rightarrow> mem_pool \<Rightarrow> (u32 \<times> mem_pool) option" where
  "OsMemFree E node s = do {
     ret \<leftarrow> OsMemCheckUsedNode node s;
     if ret \<noteq> MEM_OK then Some (ret, s)
     else do {
       s1 \<leftarrow> Some (st (node + 8) (OS_MEM_NODE_GET_SIZE (sizeAndFlag s node)) s);
       preNode \<leftarrow> Some (nd_ptr s1 node);
       (node, s2) \<leftarrow> Some (if preNode \<noteq> 0 \<and> \<not> OS_MEM_NODE_GET_USED_FLAG (sizeAndFlag s1 preNode)
                          then (preNode, OsMemMergeNode node (OsMemFreeNodeDelete preNode s1)) else (node, s1));
       nextNode \<leftarrow> Some (OS_MEM_NEXT_NODE s2 node);
       s3 \<leftarrow> Some (if nextNode \<noteq> 0 \<and> \<not> OS_MEM_NODE_GET_USED_FLAG (sizeAndFlag s2 nextNode)
                   then OsMemMergeNode nextNode (OsMemFreeNodeDelete nextNode s2) else s2);
       (shrunk, s4) \<leftarrow> (if has (pool_attr s3) OS_MEM_POOL_EXPAND_ENABLE \<and> nd_ptr s3 node \<noteq> 0 \<and> nd_ptr s3 node > node
                        then TryShrinkPool E node s3 else Some (False, s3));
       Some (MEM_OK, if shrunk then s4 else OsMemFreeNodeAdd node s4) } }"

definition LOS_MemFree :: "mem_env \<Rightarrow> nat \<Rightarrow> nat \<Rightarrow> mem_pool \<Rightarrow> (u32 \<times> mem_pool) option" where
  "LOS_MemFree E pool ptr s =
     (if pool = 0 \<or> ptr = 0 \<or> \<not> OS_MEM_IS_ALIGNED pool 4 \<or> \<not> OS_MEM_IS_ALIGNED ptr 4 then Some (MEM_NOK, s)
      else let gapSize = mem s (ptr - 4)
           in if OS_MEM_NODE_GET_ALIGNED_FLAG gapSize \<and> OS_MEM_NODE_GET_USED_FLAG gapSize then Some (MEM_NOK, s)
              else if OS_MEM_NODE_GET_ALIGNED_FLAG gapSize
              then let gapSize = OS_MEM_NODE_GET_ALIGNED_GAPSIZE gapSize
                   in if gapSize AND 3 \<noteq> 0 \<or> gapSize > of_nat ptr - OS_MEM_NODE_HEAD_SIZE then Some (MEM_NOK, s)
                      else OsMemFree E (unat (of_nat ptr - gapSize - OS_MEM_NODE_HEAD_SIZE)) s
              else OsMemFree E (unat (of_nat ptr - OS_MEM_NODE_HEAD_SIZE)) s)"

section \<open>Reallocation\<close>

definition OsMemReAllocSmaller :: "u32 \<Rightarrow> nat \<Rightarrow> u32 \<Rightarrow> mem_pool \<Rightarrow> mem_pool" where
  "OsMemReAllocSmaller allocSize node nodeSize s =
     (let s1 = st (node + 8) nodeSize s;
          s2 = (if allocSize + OS_MEM_NODE_HEAD_SIZE + OS_MEM_MIN_ALLOC_SIZE \<le> nodeSize then OsMemSplitNode node allocSize s1 else s1)
      in st (node + 8) (sizeAndFlag s2 node OR OS_MEM_NODE_USED_FLAG) s2)"

definition OsMemMergeNodeForReAllocBigger :: "u32 \<Rightarrow> nat \<Rightarrow> u32 \<Rightarrow> nat \<Rightarrow> mem_pool \<Rightarrow> mem_pool" where
  "OsMemMergeNodeForReAllocBigger allocSize node nodeSize nextNode s =
     (let s1 = OsMemMergeNode nextNode (OsMemFreeNodeDelete nextNode (st (node + 8) nodeSize s));
          s2 = (if allocSize + OS_MEM_NODE_HEAD_SIZE + OS_MEM_MIN_ALLOC_SIZE \<le> sizeAndFlag s1 node then OsMemSplitNode node allocSize s1 else s1)
      in st (node + 8) (sizeAndFlag s2 node OR OS_MEM_NODE_USED_FLAG) s2)"

definition OsGetRealPtr :: "nat \<Rightarrow> nat \<Rightarrow> mem_pool \<Rightarrow> nat" where
  "OsGetRealPtr pool ptr s =
     (let gapSize = mem s (ptr - 4)
      in if OS_MEM_NODE_GET_ALIGNED_FLAG gapSize \<and> OS_MEM_NODE_GET_USED_FLAG gapSize then 0
         else if OS_MEM_NODE_GET_ALIGNED_FLAG gapSize
         then let gapSize = OS_MEM_NODE_GET_ALIGNED_GAPSIZE gapSize
              in if gapSize AND 3 \<noteq> 0 \<or> gapSize > of_nat ptr - OS_MEM_NODE_HEAD_SIZE - of_nat pool then 0
                 else unat (of_nat ptr - gapSize)
         else ptr)"

text \<open>
  \<open>memcpy_s\<close> of the C library (Annex K) copies \<open>n\<close> bytes, here whole words, unless \<open>n\<close> exceeds the size of the destination or the two overlap; what it then
  leaves in the destination is not modelled, since that block is freed.
\<close>

definition memcpy_words :: "nat \<Rightarrow> nat \<Rightarrow> nat \<Rightarrow> mem_pool \<Rightarrow> mem_pool" where
  "memcpy_words dst src n s = s\<lparr>mem := (\<lambda>a. if dst \<le> a \<and> a < dst + n then mem s (src + (a - dst)) else mem s a)\<rparr>"

definition OsMemRealloc :: "mem_env \<Rightarrow> nat \<Rightarrow> nat \<Rightarrow> nat \<Rightarrow> u32 \<Rightarrow> mem_pool \<Rightarrow> (nat \<times> mem_pool) option" where
  "OsMemRealloc E pool ptr node sz s =
     (let allocSize = OS_MEM_ALIGN (sz + OS_MEM_NODE_HEAD_SIZE) 4;
          nodeSize = OS_MEM_NODE_GET_SIZE (sizeAndFlag s node);
          nextNode = OS_MEM_NEXT_NODE s node
      in if nodeSize \<ge> allocSize then Some (ptr, OsMemReAllocSmaller allocSize node nodeSize s)
         else if \<not> OS_MEM_NODE_GET_USED_FLAG (sizeAndFlag s nextNode) \<and> sizeAndFlag s nextNode + nodeSize \<ge> allocSize
         then Some (ptr, OsMemMergeNodeForReAllocBigger allocSize node nodeSize nextNode s)
         else do {
           (tmpPtr, s1) \<leftarrow> OsMemAlloc E sz s;
           if tmpPtr = 0 then Some (0, s1)
           else let n = unat (nodeSize - OS_MEM_NODE_HEAD_SIZE)
                in if n > unat sz \<or> (tmpPtr < ptr + n \<and> ptr < tmpPtr + n)
                   then do { (_, s2) \<leftarrow> LOS_MemFree E pool tmpPtr s1; Some (0, s2) }
                   else do { (_, s2) \<leftarrow> OsMemFree E node (memcpy_words tmpPtr ptr n s1); Some (tmpPtr, s2) } })"

definition LOS_MemRealloc :: "mem_env \<Rightarrow> nat \<Rightarrow> nat \<Rightarrow> u32 \<Rightarrow> mem_pool \<Rightarrow> (nat \<times> mem_pool) option" where
  "LOS_MemRealloc E pool ptr sz s =
     (if pool = 0 \<or> OS_MEM_NODE_GET_USED_FLAG sz \<or> OS_MEM_NODE_GET_ALIGNED_FLAG sz then Some (0, s)
      else let sz = (if sz < OS_MEM_MIN_ALLOC_SIZE then OS_MEM_MIN_ALLOC_SIZE else sz)
           in if ptr = 0 then LOS_MemAlloc E pool sz s
              else if sz = 0 then do { (_, s1) \<leftarrow> LOS_MemFree E pool ptr s; Some (0, s1) }
              else let ptr = OsGetRealPtr pool ptr s
                   in if ptr = 0 then Some (0, s)
                      else do {
                        node \<leftarrow> Some (unat (of_nat ptr - OS_MEM_NODE_HEAD_SIZE :: u32));
                        ret \<leftarrow> OsMemCheckUsedNode node s;
                        if ret \<noteq> MEM_OK then Some (0, s) else OsMemRealloc E pool ptr node sz s })"

section \<open>Statistics and integrity\<close>

partial_function (option) total_used :: "mem_pool \<Rightarrow> nat \<Rightarrow> nat \<Rightarrow> u32 \<Rightarrow> u32 option" where
  "total_used s tmpNode endNode memUsed =
     (if tmpNode > endNode then Some memUsed
      else if tmpNode = endNode
      then if OsMemIsLastSentinelNode s endNode then Some (memUsed + OS_MEM_NODE_HEAD_SIZE)
           else total_used s (OsMemSentinelNodeGet s endNode)
                  (OS_MEM_END_NODE (OsMemSentinelNodeGet s endNode) (OS_MEM_NODE_GET_SIZE (sizeAndFlag s endNode)))
                  (memUsed + OS_MEM_NODE_HEAD_SIZE)
      else total_used s (OS_MEM_NEXT_NODE s tmpNode) endNode
             (if OS_MEM_NODE_GET_USED_FLAG (sizeAndFlag s tmpNode) then memUsed + OS_MEM_NODE_GET_SIZE (sizeAndFlag s tmpNode) else memUsed))"

definition LOS_MemTotalUsedGet :: "nat \<Rightarrow> mem_pool \<Rightarrow> u32 option" where
  "LOS_MemTotalUsedGet pool s =
     (if pool = 0 then Some MEM_NOK else total_used s (OS_MEM_FIRST_NODE pool) (OS_MEM_END_NODE pool (totalSize s)) 0)"

record LOS_MEM_POOL_STATUS =
  totalUsedSize :: u32
  totalFreeSize :: u32
  maxFreeNodeSize :: u32
  usedNodeNum :: u32
  freeNodeNum :: u32

definition OsMemInfoGet :: "mem_pool \<Rightarrow> nat \<Rightarrow> LOS_MEM_POOL_STATUS \<Rightarrow> LOS_MEM_POOL_STATUS" where
  "OsMemInfoGet s node poolStatus =
     (let sz = OS_MEM_NODE_GET_SIZE (sizeAndFlag s node)
      in if \<not> OS_MEM_NODE_GET_USED_FLAG (sizeAndFlag s node)
         then poolStatus\<lparr>totalFreeSize := totalFreeSize poolStatus + sz, maxFreeNodeSize := max (maxFreeNodeSize poolStatus) sz,
                         freeNodeNum := freeNodeNum poolStatus + 1\<rparr>
         else poolStatus\<lparr>totalUsedSize := totalUsedSize poolStatus + sz, usedNodeNum := usedNodeNum poolStatus + 1\<rparr>)"

text \<open>After a sentinel node, \<open>continue\<close> still runs the step of the \<open>for\<close> loop.\<close>

partial_function (option) info_loop :: "mem_pool \<Rightarrow> nat \<Rightarrow> nat \<Rightarrow> LOS_MEM_POOL_STATUS \<Rightarrow> LOS_MEM_POOL_STATUS option" where
  "info_loop s tmpNode endNode poolStatus =
     (if tmpNode > endNode then Some poolStatus
      else if tmpNode = endNode
      then let p1 = poolStatus\<lparr>totalUsedSize := totalUsedSize poolStatus + OS_MEM_NODE_HEAD_SIZE, usedNodeNum := usedNodeNum poolStatus + 1\<rparr>
           in if OsMemIsLastSentinelNode s endNode then Some p1
              else info_loop s (OS_MEM_NEXT_NODE s (OsMemSentinelNodeGet s endNode))
                     (OS_MEM_END_NODE (OsMemSentinelNodeGet s endNode) (OS_MEM_NODE_GET_SIZE (sizeAndFlag s endNode))) p1
      else info_loop s (OS_MEM_NEXT_NODE s tmpNode) endNode (OsMemInfoGet s tmpNode poolStatus))"

definition LOS_MemInfoGet :: "nat \<Rightarrow> mem_pool \<Rightarrow> (u32 \<times> LOS_MEM_POOL_STATUS) option" where
  "LOS_MemInfoGet pool s =
     (let zero = \<lparr>totalUsedSize = 0, totalFreeSize = 0, maxFreeNodeSize = 0, usedNodeNum = 0, freeNodeNum = 0\<rparr>
      in if pool = 0 \<or> info_pool s \<noteq> pool then Some (MEM_NOK, zero)
         else do { p \<leftarrow> info_loop s (OS_MEM_FIRST_NODE pool) (OS_MEM_END_NODE pool (totalSize s)) zero; Some (MEM_OK, p) })"

definition OsMemIntegrityCheckSub :: "mem_pool \<Rightarrow> nat \<Rightarrow> u32 option" where
  "OsMemIntegrityCheckSub s tmpNode =
     (if nd_magic s tmpNode \<noteq> OS_MEM_NODE_MAGIC then Some MEM_NOK
      else if OS_MEM_NODE_GET_USED_FLAG (sizeAndFlag s tmpNode) then Some MEM_OK
      else do {
        v1 \<leftarrow> OsMemAddrValidCheck s (fn_prev s tmpNode);
        if fn_prev s tmpNode \<noteq> 0 \<and> \<not> v1 then Some MEM_NOK
        else do {
          v2 \<leftarrow> OsMemAddrValidCheck s (fn_next s tmpNode);
          Some (if fn_next s tmpNode \<noteq> 0 \<and> \<not> v2 then MEM_NOK else MEM_OK) } })"

text \<open>\<open>OsMemPoolHeadCheck\<close> only prints and is left out.\<close>

partial_function (option) integrity :: "mem_pool \<Rightarrow> nat \<Rightarrow> nat \<Rightarrow> u32 option" where
  "integrity s tmpNode endNode =
     (if tmpNode < endNode
      then Option.bind (OsMemIntegrityCheckSub s tmpNode) (\<lambda>r.
        if r = MEM_NOK then Some MEM_NOK else integrity s (OS_MEM_NEXT_NODE s tmpNode) endNode)
      else if OsMemIsLastSentinelNode s tmpNode then Some MEM_OK
      else integrity s (OsMemSentinelNodeGet s tmpNode)
             (OS_MEM_END_NODE (OsMemSentinelNodeGet s tmpNode) (OS_MEM_NODE_GET_SIZE (sizeAndFlag s tmpNode))))"

definition LOS_MemIntegrityCheck :: "nat \<Rightarrow> mem_pool \<Rightarrow> (u32 \<times> mem_pool) option" where
  "LOS_MemIntegrityCheck pool s =
     (if pool = 0 then Some (MEM_NOK, s)
      else do {
        r \<leftarrow> integrity s (OS_MEM_FIRST_NODE pool) (OS_MEM_END_NODE pool (totalSize s));
        Some (if r = MEM_OK then (MEM_OK, s) else (MEM_NOK, s\<lparr>mem_panic := True\<rparr>)) })"

partial_function (option) heap_node :: "mem_pool \<Rightarrow> nat \<Rightarrow> nat \<Rightarrow> bool option" where
  "heap_node s ptr endNode =
     (if OsMemIsLastSentinelNode s endNode then Some False
      else let firstNode = OsMemSentinelNodeGet s endNode;
               endNode = OS_MEM_END_NODE firstNode (OS_MEM_NODE_GET_SIZE (sizeAndFlag s endNode))
           in if firstNode \<le> ptr \<and> ptr \<le> endNode then Some True else heap_node s ptr endNode)"

definition OsMemIsHeapNode :: "nat \<Rightarrow> mem_pool \<Rightarrow> bool option" where
  "OsMemIsHeapNode ptr s =
     (let endNode = OS_MEM_END_NODE (info_pool s) (totalSize s)
      in if OS_MEM_FIRST_NODE (info_pool s) \<le> ptr \<and> ptr \<le> endNode then Some True else heap_node s ptr endNode)"

section \<open>The kernel heap\<close>

text \<open>The result is \<open>LOS_OK\<close> or an error; the pool address is kept in the state.\<close>

definition OsKHeapInit :: "u32 \<Rightarrow> mem_pool \<Rightarrow> (int \<times> mem_pool) option" where
  "OsKHeapInit sz s =
     (let v = mem_vm s;
          end = (g_vmBootMemBase v + sz + 0xFFFFF) AND NOT 0xFFFFF;
          sz = end - g_vmBootMemBase v;
          (ptr, v1) = OsVmBootMemAlloc sz v;
          s1 = s\<lparr>mem_vm := v1\<rparr>
      in if ptr = 0 then Some (- 1, s1)
         else do {
           (ret, s2) \<leftarrow> LOS_MemInit (unat ptr) sz s1;
           Some (if ret \<noteq> MEM_OK then (int (unat ret), s2\<lparr>mem_vm := (mem_vm s2)\<lparr>g_vmBootMemBase := g_vmBootMemBase (mem_vm s2) - sz\<rparr>\<rparr>)
                 else (0, LOS_MemExpandEnable (unat ptr) s2)) })"

end
