(* ===== verification/Tlsf_Inv.thy ===== *)
theory Tlsf_Inv
  imports Tlsf
begin

text \<open>
  The invariant of the heap of the kernel and its free lists. A heap consists of regions, the pool itself and its expansions, each tiled by nodes and closed by a sentinel node;
  \<open>heap_ok\<close> relates the memory to a map of the nodes, to the free lists and to the list of regions. The lemmas of this theory say what adding a node to a free list and
  deleting it do to that relation, and that the contents of the nodes in use stay.
\<close>

unbundle bit_operations_syntax

section \<open>The layout of the heap\<close>

text \<open>
  A node is in use, on a free list, or, inside an operation, on no list (\<open>Loose\<close>) and possibly without its magic number (\<open>Raw\<close>). A region is its first node, the pointer to the
  previous node that its first node has, and its sentinel node.
\<close>

datatype nstat = Used | Free | Loose | Raw

type_synonym nodes = "nat \<rightharpoonup> nat \<times> nstat"
type_synonym regions = "(nat \<times> nat \<times> nat) list"

definition region_ok :: "nat \<times> nat \<times> nat \<Rightarrow> bool" where
  "region_ok r \<longleftrightarrow> (case r of (a, p, e) \<Rightarrow> 0 < a \<and> a < e \<and> 4 dvd a \<and> 4 dvd e \<and> e + 12 < 2 ^ 32 \<and> e + 12 < a + 2 ^ 29)"

definition regions_ok :: "regions \<Rightarrow> bool" where
  "regions_ok R \<longleftrightarrow> (\<forall>r \<in> set R. region_ok r) \<and>
     (\<forall>a p e b q f. (a, p, e) \<in> set R \<longrightarrow> (b, q, f) \<in> set R \<longrightarrow> (a, p, e) = (b, q, f) \<or> e + 12 \<le> b \<or> f + 12 \<le> a)"

definition node_in :: "nodes \<Rightarrow> regions \<Rightarrow> nat \<Rightarrow> nat \<Rightarrow> bool" where
  "node_in N R a n \<longleftrightarrow> 4 dvd a \<and> 4 dvd n \<and> 20 \<le> n \<and>
     (\<exists>b p e. (b, p, e) \<in> set R \<and> b \<le> a \<and> a + n \<le> e \<and> (a + n = e \<or> a + n \<in> dom N) \<and> (a = b \<or> (\<exists>c m k. N c = Some (m, k) \<and> c + m = a \<and> b \<le> c)))"

definition layout :: "nodes \<Rightarrow> regions \<Rightarrow> bool" where
  "layout N R \<longleftrightarrow> regions_ok R \<and> (\<forall>r \<in> set R. fst r \<in> dom N) \<and> (\<forall>a n k. N a = Some (n, k) \<longrightarrow> node_in N R a n) \<and>
     (\<forall>a b n k m l. N a = Some (n, k) \<longrightarrow> N b = Some (m, l) \<longrightarrow> a < b \<longrightarrow> a + n \<le> b)"

definition ends :: "regions \<Rightarrow> nat set" where
  "ends R = (\<lambda>(a, p, e). e) ` set R"

text \<open>The words that belong to a node or to a sentinel node.\<close>

definition cell :: "nodes \<Rightarrow> regions \<Rightarrow> nat \<Rightarrow> nat \<Rightarrow> bool" where
  "cell N R a i \<longleftrightarrow> (a \<in> dom N \<and> i < 20) \<or> (a \<in> ends R \<and> i < 12)"

lemma layoutD:
  assumes "layout N R"
  shows "regions_ok R" "r \<in> set R \<Longrightarrow> fst r \<in> dom N" "N a = Some (n, k) \<Longrightarrow> node_in N R a n"
    "N a = Some (n, k) \<Longrightarrow> N b = Some (m, l) \<Longrightarrow> a < b \<Longrightarrow> a + n \<le> b"
  using assms unfolding layout_def by blast+

lemma regionD:
  assumes "regions_ok R" "(a, p, e) \<in> set R"
  shows "0 < a" "a < e" "4 dvd a" "4 dvd e" "e + 12 < 2 ^ 32" "e + 12 < a + 2 ^ 29"
  using assms unfolding regions_ok_def region_ok_def by fastforce+

lemma regions_apart:
  assumes "regions_ok R" "(a, p, e) \<in> set R" "(b, q, f) \<in> set R"
  shows "(a, p, e) = (b, q, f) \<or> e + 12 \<le> b \<or> f + 12 \<le> a"
  using assms unfolding regions_ok_def by blast

lemma node_region:
  assumes "layout N R" "N a = Some (n, k)"
  obtains b p e where "(b, p, e) \<in> set R" "b \<le> a" "a + n \<le> e" "a + n = e \<or> a + n \<in> dom N" "a = b \<or> (\<exists>c m k. N c = Some (m, k) \<and> c + m = a \<and> b \<le> c)"
  using layoutD(3) [OF assms] unfolding node_in_def by blast

lemma node_sizes:
  assumes "layout N R" "N a = Some (n, k)"
  shows "4 dvd a" "4 dvd n" "20 \<le> n" "0 < a" "a + n + 12 < 2 ^ 32" "n < 2 ^ 29"
proof -
  show "4 dvd a" "4 dvd n" "20 \<le> n" using layoutD(3) [OF assms] by (simp_all add: node_in_def)
  obtain b p e where r: "(b, p, e) \<in> set R" "b \<le> a" "a + n \<le> e" using node_region [OF assms] by metis
  note d = regionD [OF layoutD(1) [OF assms(1)] r(1)]
  show "0 < a" "a + n + 12 < 2 ^ 32" "n < 2 ^ 29" using d r(2,3) by linarith+
qed

text \<open>Cells do not overlap.\<close>

lemma end_apart:
  assumes l: "layout N R" and a: "N a = Some (n, k)" and e: "e \<in> ends R"
  shows "a + n \<le> e \<or> e + 12 \<le> a"
proof -
  obtain c q where c: "(c, q, e) \<in> set R" using e by (auto simp: ends_def)
  obtain b p f where r: "(b, p, f) \<in> set R" "b \<le> a" "a + n \<le> f" using node_region [OF l a] by metis
  show ?thesis using regions_apart [OF layoutD(1) [OF l] r(1) c] r(2,3) regionD(2) [OF layoutD(1) [OF l] c] by auto
qed

lemma ends_apart:
  assumes l: "layout N R" and e: "e \<in> ends R" "f \<in> ends R" "e < f"
  shows "e + 12 \<le> f"
proof -
  obtain a p b q where c: "(a, p, e) \<in> set R" "(b, q, f) \<in> set R" using e(1,2) by (auto simp: ends_def)
  show ?thesis using regions_apart [OF layoutD(1) [OF l] c] e(3) regionD(2) [OF layoutD(1) [OF l] c(1)] regionD(2) [OF layoutD(1) [OF l] c(2)] by auto
qed

lemma cells_distinct:
  assumes l: "layout N R" and c: "cell N R a i" "cell N R b j"
  shows "a + i = b + j \<longleftrightarrow> a = b \<and> i = j"
proof -
  have "a + i \<noteq> b + j" if "a < b" "cell N R a i" "cell N R b j" for a b i j
    using that(2,3) unfolding cell_def
  proof (elim disjE conjE)
    assume x: "a \<in> dom N" "i < 20" "b \<in> dom N"
    then obtain n k m h where "N a = Some (n, k)" "N b = Some (m, h)" by auto
    then show ?thesis using layoutD(4) [OF l _ _ that(1)] node_sizes(3) [OF l] x(2) by fastforce
  next
    assume x: "a \<in> dom N" "i < 20" "b \<in> ends R" "j < 12"
    then obtain n k where "N a = Some (n, k)" by auto
    then show ?thesis using end_apart [OF l _ x(3)] node_sizes(3) [OF l] x(2) that(1) by fastforce
  next
    assume x: "a \<in> ends R" "i < 12" "b \<in> dom N" "j < 20"
    then obtain n k where "N b = Some (n, k)" by auto
    then show ?thesis using end_apart [OF l _ x(1)] node_sizes(3) [OF l] x(2) that(1) by fastforce
  next
    assume x: "a \<in> ends R" "i < 12" "b \<in> ends R" "j < 12"
    then show ?thesis using ends_apart [OF l x(1,3) that(1)] by linarith
  qed
  then show ?thesis using c by (metis add_left_cancel nat_neq_iff)
qed

lemma mem_st: "mem (st a w s) b = (if b = a then w else mem s b)"
  by (simp add: st_def)

lemma mem_cell:
  assumes "layout N R" "cell N R a i" "cell N R b j"
  shows "mem (st (a + i) w s) (b + j) = (if a = b \<and> i = j then w else mem s (b + j))"
  using cells_distinct [OF assms] by (auto simp: mem_st)

section \<open>Free lists in memory\<close>

definition hdn :: "nat list \<Rightarrow> nat \<Rightarrow> nat" where
  "hdn xs n = (case xs of [] \<Rightarrow> n | x # _ \<Rightarrow> x)"

lemma hdn_simps [simp]: "hdn [] n = n" "hdn (x # xs) n = x"
  by (simp_all add: hdn_def)

fun fseg :: "(nat \<Rightarrow> u32) \<Rightarrow> nat \<Rightarrow> nat list \<Rightarrow> nat \<Rightarrow> bool" where
  "fseg m p [] n \<longleftrightarrow> True"
| "fseg m p (x # xs) n \<longleftrightarrow> unat (m (x + 12)) = p \<and> unat (m (x + 16)) = hdn xs n \<and> fseg m x xs n"

definition lastn :: "nat \<Rightarrow> nat list \<Rightarrow> nat" where
  "lastn p xs = (if xs = [] then p else last xs)"

lemma lastn_simps [simp]: "lastn p [] = p" "lastn p (x # xs) = lastn x xs" "lastn p (xs @ [y]) = y"
  by (auto simp: lastn_def)

lemma fseg_append: "fseg m p (xs @ ys) n \<longleftrightarrow> fseg m p xs (hdn ys n) \<and> fseg m (lastn p xs) ys n"
  by (induction xs arbitrary: p) (auto simp: hdn_def split: list.splits)

lemma fseg_cong:
  assumes "\<And>x. x \<in> set xs \<Longrightarrow> m' (x + 12) = m (x + 12) \<and> m' (x + 16) = m (x + 16)"
  shows "fseg m' p xs n \<longleftrightarrow> fseg m p xs n"
  using assms by (induction xs arbitrary: p) auto

text \<open>The free lists hold exactly the free nodes, by size class, and the bit map tells which lists are not empty.\<close>

definition lists_ok :: "mem_pool \<Rightarrow> nodes \<Rightarrow> (nat \<Rightarrow> nat list) \<Rightarrow> bool" where
  "lists_ok s N L \<longleftrightarrow>
     (\<forall>i < 223. fseg (mem s) 0 (L i) 0 \<and> pool_freeList s i = hdn (L i) 0 \<and> distinct (L i) \<and>
        (\<forall>x \<in> set (L i). \<exists>n. N x = Some (n, Free) \<and> tlsf_index n = i) \<and>
        (bit (freeListBitmap s (i div 32)) (i mod 32) \<longleftrightarrow> L i \<noteq> [])) \<and>
     (\<forall>x n. N x = Some (n, Free) \<longrightarrow> x \<in> set (L (tlsf_index n))) \<and> \<not> bit (freeListBitmap s 6) 31"

lemma free_listsD:
  assumes "lists_ok s N L" "i < 223"
  shows "fseg (mem s) 0 (L i) 0" "pool_freeList s i = hdn (L i) 0" "distinct (L i)" "x \<in> set (L i) \<Longrightarrow> \<exists>n. N x = Some (n, Free) \<and> tlsf_index n = i"
    "bit (freeListBitmap s (i div 32)) (i mod 32) \<longleftrightarrow> L i \<noteq> []"
  using assms unfolding lists_ok_def by blast+

lemma lists_all: "lists_ok s N L \<Longrightarrow> N x = Some (n, Free) \<Longrightarrow> x \<in> set (L (tlsf_index n))"
  unfolding lists_ok_def by blast

lemma lists_disjoint:
  assumes "lists_ok s N L" "i < 223" "j < 223" "x \<in> set (L i)" "x \<in> set (L j)"
  shows "i = j"
  using free_listsD(4) [OF assms(1,2,4)] free_listsD(4) [OF assms(1,3,5)] by auto

section \<open>Headers\<close>

definition size_word :: "nstat \<Rightarrow> nat \<Rightarrow> u32 \<Rightarrow> bool" where
  "size_word k n w \<longleftrightarrow> (if k = Used then OS_MEM_NODE_GET_USED_FLAG w \<and> \<not> OS_MEM_NODE_GET_LAST_FLAG w \<and> OS_MEM_NODE_GET_SIZE w = of_nat n
     else w = of_nat n)"

definition prev_ok :: "nodes \<Rightarrow> regions \<Rightarrow> nat \<Rightarrow> nat \<Rightarrow> bool" where
  "prev_ok N R a p \<longleftrightarrow> (\<exists>e. (a, p, e) \<in> set R) \<or> (\<exists>m k. N p = Some (m, k) \<and> p + m = a)"

definition heads_ok :: "mem_pool \<Rightarrow> nodes \<Rightarrow> regions \<Rightarrow> bool" where
  "heads_ok s N R \<longleftrightarrow> (\<forall>a n k. N a = Some (n, k) \<longrightarrow> (k \<noteq> Raw \<longrightarrow> mem s a = OS_MEM_NODE_MAGIC) \<and> size_word k n (sizeAndFlag s a) \<and> prev_ok N R a (nd_ptr s a))"

fun chain :: "mem_pool \<Rightarrow> regions \<Rightarrow> bool" where
  "chain s [] \<longleftrightarrow> False"
| "chain s [(a, p, e)] \<longleftrightarrow> nd_ptr s e = 0 \<and> OS_MEM_NODE_GET_SIZE (sizeAndFlag s e) = 0"
| "chain s ((a, p, e) # (b, q, f) # R) \<longleftrightarrow>
     nd_ptr s e = b \<and> unat (OS_MEM_NODE_GET_SIZE (sizeAndFlag s e)) = f + 12 - b \<and> q = f \<and> chain s ((b, q, f) # R)"

definition ends_ok :: "mem_pool \<Rightarrow> regions \<Rightarrow> bool" where
  "ends_ok s R \<longleftrightarrow> chain s R \<and> (\<forall>e \<in> ends R. mem s e = OS_MEM_NODE_MAGIC \<and> OS_MEM_NODE_GET_USED_FLAG (sizeAndFlag s e) \<and> OS_MEM_NODE_GET_LAST_FLAG (sizeAndFlag s e))"

definition pool_ok :: "mem_pool \<Rightarrow> regions \<Rightarrow> bool" where
  "pool_ok s R \<longleftrightarrow> 0 < info_pool s \<and> 4 dvd info_pool s \<and> R \<noteq> [] \<and> 948 \<le> unat (totalSize s) \<and>
     hd R = (info_pool s + POOL_HEAD_SIZE, 0, info_pool s + unat (totalSize s) - 12) \<and> \<not> mem_panic s \<and> \<not> mem_fault s"

definition heap_ok :: "mem_pool \<Rightarrow> nodes \<Rightarrow> (nat \<Rightarrow> nat list) \<Rightarrow> regions \<Rightarrow> bool" where
  "heap_ok s N L R \<longleftrightarrow> layout N R \<and> heads_ok s N R \<and> ends_ok s R \<and> pool_ok s R \<and> lists_ok s N L"

lemma heap_okD:
  assumes "heap_ok s N L R"
  shows "layout N R" "heads_ok s N R" "ends_ok s R" "pool_ok s R" "lists_ok s N L"
  using assms by (simp_all add: heap_ok_def)

lemma headD:
  assumes "heads_ok s N R" "N a = Some (n, k)"
  shows "k \<noteq> Raw \<Longrightarrow> mem s a = OS_MEM_NODE_MAGIC" "size_word k n (sizeAndFlag s a)" "prev_ok N R a (nd_ptr s a)"
  using assms unfolding heads_ok_def by blast+

lemma heads_same:
  assumes h: "heads_ok s N R" and w: "\<And>a. a \<in> dom N \<Longrightarrow> mem t (a + 4) = mem s (a + 4) \<and> mem t (a + 8) = mem s (a + 8) \<and> (mem t a = mem s a \<or> mem t a = OS_MEM_NODE_MAGIC)"
  shows "heads_ok t N R"
  unfolding heads_ok_def
proof (intro allI impI)
  fix a n k assume a: "N a = Some (n, k)"
  have "mem t (a + 4) = mem s (a + 4)" "mem t (a + 8) = mem s (a + 8)" "mem t a = mem s a \<or> mem t a = OS_MEM_NODE_MAGIC" using w [of a] a by auto
  then show "(k \<noteq> Raw \<longrightarrow> mem t a = OS_MEM_NODE_MAGIC) \<and> size_word k n (sizeAndFlag t a) \<and> prev_ok N R a (nd_ptr t a)" using headD [OF h a] by auto
qed

lemma chain_same: "(\<And>e. e \<in> ends R \<Longrightarrow> mem t (e + 4) = mem s (e + 4) \<and> mem t (e + 8) = mem s (e + 8)) \<Longrightarrow> chain t R = chain s R"
  by (induction s R rule: chain.induct) (auto simp: ends_def)

lemma ends_same:
  assumes "ends_ok s R" "\<And>e i. e \<in> ends R \<Longrightarrow> i < 12 \<Longrightarrow> mem t (e + i) = mem s (e + i)"
  shows "ends_ok t R"
proof -
  have "mem t (e + 4) = mem s (e + 4)" "mem t (e + 8) = mem s (e + 8)" "mem t e = mem s e" if "e \<in> ends R" for e
    using assms(2) [OF that, of 4] assms(2) [OF that, of 8] assms(2) [OF that, of 0] by simp_all
  then show ?thesis using assms(1) chain_same [of R t s] by (simp add: ends_ok_def)
qed

lemma node_in_mono:
  assumes "node_in N R a n" "dom N \<subseteq> dom M" "\<And>c m k. N c = Some (m, k) \<Longrightarrow> c + m = a \<Longrightarrow> \<exists>m' k'. M c = Some (m', k') \<and> c + m' = a"
  shows "node_in M R a n"
proof -
  obtain b p e where b: "4 dvd a" "4 dvd n" "20 \<le> n" "(b, p, e) \<in> set R" "b \<le> a" "a + n \<le> e" "a + n = e \<or> a + n \<in> dom N"
    "a = b \<or> (\<exists>c m k. N c = Some (m, k) \<and> c + m = a \<and> b \<le> c)" using assms(1) unfolding node_in_def by blast
  have "a = b \<or> (\<exists>c m k. M c = Some (m, k) \<and> c + m = a \<and> b \<le> c)" using b(8) assms(3) by blast
  moreover have "a + n = e \<or> a + n \<in> dom M" using b(7) assms(2) by blast
  ultimately show ?thesis unfolding node_in_def using b(1-6) by blast
qed

lemma layoutI:
  assumes "regions_ok R" "\<And>r. r \<in> set R \<Longrightarrow> fst r \<in> dom N" "\<And>a n k. N a = Some (n, k) \<Longrightarrow> node_in N R a n"
    "\<And>a b n k m l. N a = Some (n, k) \<Longrightarrow> N b = Some (m, l) \<Longrightarrow> a < b \<Longrightarrow> a + n \<le> b"
  shows "layout N R"
  using assms unfolding layout_def by blast

lemma layout_status:
  assumes a: "N a = Some (n, k)" and l: "layout N R"
  shows "layout (N(a \<mapsto> (n, k'))) R"
proof (rule layoutI [OF layoutD(1) [OF l]])
  let ?M = "N(a \<mapsto> (n, k'))"
  have sz: "\<exists>j. N b = Some (m, j)" if "?M b = Some (m, i)" for b m i using that a by (auto split: if_splits)
  show "fst r \<in> dom ?M" if "r \<in> set R" for r using layoutD(2) [OF l that] by auto
  show "node_in ?M R b m" if h: "?M b = Some (m, i)" for b m i
  proof -
    obtain j where "N b = Some (m, j)" using sz [OF h] by blast
    note d = layoutD(3) [OF l this]
    show ?thesis by (rule node_in_mono [OF d]) (use a in \<open>auto split: if_splits\<close>)
  qed
  show "x + m \<le> y" if "?M x = Some (m, i)" "?M y = Some (m', j)" "x < y" for x y m i m' j
    using sz [OF that(1)] sz [OF that(2)] layoutD(4) [OF l _ _ that(3)] by blast
qed

lemma heads_status:
  assumes h: "heads_ok s N R" and a: "N a = Some (n, k)" and m: "k' \<noteq> Raw \<Longrightarrow> mem s a = OS_MEM_NODE_MAGIC" "size_word k' n (sizeAndFlag s a)"
  shows "heads_ok s (N(a \<mapsto> (n, k'))) R"
proof -
  have "prev_ok (N(a \<mapsto> (n, k'))) R b p = prev_ok N R b p" for b p unfolding prev_ok_def using a by auto
  then show ?thesis using h a m unfolding heads_ok_def by auto
qed

section \<open>What stays\<close>

text \<open>The contents of the used nodes, and the rest of the pool head.\<close>

definition kept :: "nodes \<Rightarrow> mem_pool \<Rightarrow> mem_pool \<Rightarrow> bool" where
  "kept N s t \<longleftrightarrow> (\<forall>b n w. N b = Some (n, Used) \<longrightarrow> b + 12 \<le> w \<longrightarrow> w < b + n \<longrightarrow> mem t w = mem s w) \<and>
     info_pool t = info_pool s \<and> totalSize t = totalSize s \<and> pool_attr t = pool_attr s \<and> mem_vm t = mem_vm s"

lemma kept_refl [simp]: "kept N s s"
  by (simp add: kept_def)

lemma kept_trans: "kept N s t \<Longrightarrow> kept N t u \<Longrightarrow> kept N s u"
  by (simp add: kept_def)

lemma kept_sub: "kept N s t \<Longrightarrow> (\<And>b n. M b = Some (n, Used) \<Longrightarrow> N b = Some (n, Used)) \<Longrightarrow> kept M s t"
  unfolding kept_def by blast

lemma st_simps [simp]: "info_pool (st a w s) = info_pool s" "totalSize (st a w s) = totalSize s" "pool_attr (st a w s) = pool_attr s"
    "mem_vm (st a w s) = mem_vm s" "mem_panic (st a w s) = mem_panic s" "mem_fault (st a w s) = mem_fault s"
    "pool_freeList (st a w s) = pool_freeList s" "freeListBitmap (st a w s) = freeListBitmap s"
  by (simp_all add: st_def)

lemma head_simps [simp]: "info_pool (set_head i x s) = info_pool s" "totalSize (set_head i x s) = totalSize s" "pool_attr (set_head i x s) = pool_attr s"
    "mem_vm (set_head i x s) = mem_vm s" "mem_panic (set_head i x s) = mem_panic s" "mem_fault (set_head i x s) = mem_fault s"
    "pool_freeList (set_head i x s) = (pool_freeList s)(i := x)" "freeListBitmap (set_head i x s) = freeListBitmap s" "mem (set_head i x s) = mem s"
  by (simp_all add: set_head_def)

lemma bits_simps [simp]: "info_pool (OsMemSetFreeListBit i s) = info_pool s" "totalSize (OsMemSetFreeListBit i s) = totalSize s"
    "pool_attr (OsMemSetFreeListBit i s) = pool_attr s" "mem_vm (OsMemSetFreeListBit i s) = mem_vm s" "mem_panic (OsMemSetFreeListBit i s) = mem_panic s"
    "mem_fault (OsMemSetFreeListBit i s) = mem_fault s" "pool_freeList (OsMemSetFreeListBit i s) = pool_freeList s" "mem (OsMemSetFreeListBit i s) = mem s"
    "info_pool (OsMemClearFreeListBit i s) = info_pool s" "totalSize (OsMemClearFreeListBit i s) = totalSize s"
    "pool_attr (OsMemClearFreeListBit i s) = pool_attr s" "mem_vm (OsMemClearFreeListBit i s) = mem_vm s" "mem_panic (OsMemClearFreeListBit i s) = mem_panic s"
    "mem_fault (OsMemClearFreeListBit i s) = mem_fault s" "pool_freeList (OsMemClearFreeListBit i s) = pool_freeList s" "mem (OsMemClearFreeListBit i s) = mem s"
  by (simp_all add: OsMemSetFreeListBit_def OsMemClearFreeListBit_def)

lemma bitmap_index: "BITMAP_INDEX w = unat w div 32" "unat (w AND 0x1F) = unat w mod 32"
proof -
  show "BITMAP_INDEX w = unat w div 32" by (simp add: BITMAP_INDEX_def unat_drop_bit_eq drop_bit_eq_div unat_div)
  have "w AND 0x1F = take_bit 5 w" by (simp add: take_bit_eq_mask mask_eq_exp_minus_1)
  then show "unat (w AND 0x1F) = unat w mod 32" by (simp add: unsigned_take_bit_eq take_bit_eq_mod unat_mod)
qed

lemma div_mod_32: "j div 32 = i div 32 \<and> j mod 32 = i mod 32 \<longleftrightarrow> j = (i :: nat)"
  by (metis div_mult_mod_eq)

lemma set_bit_at: "bit (freeListBitmap (OsMemSetFreeListBit w s) (j div 32)) (j mod 32) \<longleftrightarrow> j = unat w \<or> bit (freeListBitmap s (j div 32)) (j mod 32)"
proof -
  have "j mod 32 < 32" by simp
  then show ?thesis using div_mod_32 [of j "unat w"] by (auto simp: OsMemSetFreeListBit_def bitmap_index bit_simps bit_exp_iff)
qed

lemma clear_bit_at: "bit (freeListBitmap (OsMemClearFreeListBit w s) (j div 32)) (j mod 32) \<longleftrightarrow> j \<noteq> unat w \<and> bit (freeListBitmap s (j div 32)) (j mod 32)"
proof -
  have "j mod 32 < 32" by simp
  then show ?thesis using div_mod_32 [of j "unat w"] by (auto simp: OsMemClearFreeListBit_def bitmap_index bit_simps bit_exp_iff)
qed

lemma last_bit: "unat w < 223 \<Longrightarrow> bit (freeListBitmap (OsMemSetFreeListBit w s) 6) 31 \<longleftrightarrow> bit (freeListBitmap s 6) 31"
    "unat w < 223 \<Longrightarrow> bit (freeListBitmap (OsMemClearFreeListBit w s) 6) 31 \<longleftrightarrow> bit (freeListBitmap s 6) 31"
  using set_bit_at [of w s 223] clear_bit_at [of w s 223] by auto

lemma cell_unused:
  assumes l: "layout N R" and b: "N b = Some (m, Used)" "b + 12 \<le> w" "w < b + m" and c: "cell N R a i" "i < 12 \<or> (\<exists>n k. N a = Some (n, k) \<and> k \<noteq> Used)"
  shows "w \<noteq> a + i"
proof (cases "a \<in> dom N")
  case True
  then obtain n k where a: "N a = Some (n, k)" by auto
  have i: "i < 20" using c(1) by (auto simp: cell_def)
  show ?thesis
  proof (cases "a = b")
    case True
    then show ?thesis using c(2) b a by auto
  next
    case False
    then show ?thesis using layoutD(4) [OF l a b(1)] layoutD(4) [OF l b(1) a] node_sizes(3) [OF l a] i b(2,3) by (cases "a < b") auto
  qed
next
  case False
  then have "a \<in> ends R" "i < 12" using c(1) by (auto simp: cell_def)
  then show ?thesis using end_apart [OF l b(1)] b(2,3) by fastforce
qed

lemma kept_st:
  assumes "layout N R" "cell N R a i" "i < 12 \<or> (\<exists>n k. N a = Some (n, k) \<and> k \<noteq> Used)"
  shows "kept N s (st (a + i) w s)"
  using cell_unused [OF assms(1) _ _ _ assms(2,3)] by (auto simp: kept_def mem_st)

lemma kept_mem: "mem t = mem s \<Longrightarrow> info_pool t = info_pool s \<Longrightarrow> totalSize t = totalSize s \<Longrightarrow> pool_attr t = pool_attr s \<Longrightarrow> mem_vm t = mem_vm s \<Longrightarrow> kept N s t"
  by (simp add: kept_def)

section \<open>Adding to and deleting from a free list\<close>

lemma free_index:
  assumes l: "layout N R" and a: "N a = Some (n, k)" and w: "size_word k n w" "k \<noteq> Used"
  shows "unat (OsMemFreeListIndexGet w) = tlsf_index n" "tlsf_index n < 223" "\<not> OsMemFreeListIndexGet w \<ge> 223"
proof -
  note z = node_sizes [OF l a]
  have we: "w = of_nat n" using w by (simp add: size_word_def)
  show i: "unat (OsMemFreeListIndexGet w) = tlsf_index n" unfolding we using index_get z(3,6) by simp
  show b: "tlsf_index n < 223" using tlsf_index_bound z(6) by simp
  show "\<not> OsMemFreeListIndexGet w \<ge> 223" unfolding word_le_nat_alt i using b by simp
qed

lemma listed_cell: "lists_ok s N L \<Longrightarrow> i < 223 \<Longrightarrow> x \<in> set (L i) \<Longrightarrow> j < 20 \<Longrightarrow> cell N R x j"
  using free_listsD(4) [of s N L i x] by (auto simp: cell_def)

lemma listed_pos: "layout N R \<Longrightarrow> lists_ok s N L \<Longrightarrow> i < 223 \<Longrightarrow> x \<in> set (L i) \<Longrightarrow> 0 < x \<and> x < 2 ^ 32"
  using free_listsD(4) [of s N L i x] node_sizes(4,5) [of N R x] by fastforce

text \<open>The words that an operation on a list changes.\<close>

definition link_frame :: "nodes \<Rightarrow> regions \<Rightarrow> nat set \<Rightarrow> nat \<Rightarrow> mem_pool \<Rightarrow> mem_pool \<Rightarrow> bool" where
  "link_frame N R X a s t \<longleftrightarrow> kept N s t \<and> (mem_panic t = mem_panic s \<and> mem_fault t = mem_fault s) \<and> mem t a = OS_MEM_NODE_MAGIC \<and>
     (\<forall>b i. cell N R b i \<longrightarrow> i \<noteq> 12 \<and> i \<noteq> 16 \<or> b \<notin> X \<longrightarrow> (b, i) \<noteq> (a, 0) \<longrightarrow> mem t (b + i) = mem s (b + i))"

lemma link_frame_ok:
  assumes h: "heads_ok s N R" "ends_ok s R" "pool_ok s R" "layout N R" and f: "link_frame N R X a s t" and a: "a \<in> dom N"
  shows "heads_ok t N R" "ends_ok t R" "pool_ok t R"
proof -
  have w: "mem t (b + i) = mem s (b + i)" if "cell N R b i" "i \<noteq> 12" "i \<noteq> 16" "(b, i) \<noteq> (a, 0)" for b i
    using f that unfolding link_frame_def by blast
  show "heads_ok t N R"
  proof (rule heads_same [OF h(1)])
    fix b assume "b \<in> dom N"
    then have c: "cell N R b i" if "i < 20" for i using that by (simp add: cell_def)
    show "mem t (b + 4) = mem s (b + 4) \<and> mem t (b + 8) = mem s (b + 8) \<and> (mem t b = mem s b \<or> mem t b = OS_MEM_NODE_MAGIC)"
      using w [OF c, of 4] w [OF c, of 8] w [OF c, of 0] f by (cases "b = a") (auto simp: link_frame_def)
  qed
  show "ends_ok t R"
  proof (rule ends_same [OF h(2)])
    fix e i assume e: "e \<in> ends R" "i < (12 :: nat)"
    have "e \<noteq> a" using end_apart [OF h(4) _ e(1), of a] node_sizes(3) [OF h(4), of a] a by fastforce
    then show "mem t (e + i) = mem s (e + i)" using w [of e i] e by (simp add: cell_def)
  qed
  show "pool_ok t R" using h(3) f by (simp add: pool_ok_def link_frame_def kept_def)
qed

lemma list_add_frame:
  assumes l: "layout N R" and lo: "lists_ok s N L" and a: "N a = Some (n, k)" "k = Loose \<or> k = Raw" and i: "unat w < 223"
  defines "t \<equiv> OsMemListAdd w a s"
  shows "link_frame N R ({a} \<union> set (L (unat w))) a s t" "fn_prev t a = 0" "fn_next t a = hdn (L (unat w)) 0"
    "L (unat w) = x # xs \<Longrightarrow> fn_prev t x = a \<and> mem t (x + 16) = mem s (x + 16)"
    "b \<in> dom N \<Longrightarrow> b \<noteq> a \<Longrightarrow> b \<noteq> hdn (L (unat w)) 0 \<Longrightarrow> mem t (b + 12) = mem s (b + 12) \<and> mem t (b + 16) = mem s (b + 16)"
    "pool_freeList t = (pool_freeList s)(unat w := a)" "freeListBitmap t = freeListBitmap (OsMemSetFreeListBit w s)"
proof -
  let ?f = "hdn (L (unat w)) 0"
  have hd: "pool_freeList s (unat w) = ?f" by (rule free_listsD(2) [OF lo i])
  have ca: "cell N R a j" if "j < 20" for j using a that by (auto simp: cell_def)
  have z: "0 < a" "a < 2 ^ 32" using node_sizes(4,5) [OF l a(1)] by simp_all
  have fx: "?f \<noteq> 0 \<Longrightarrow> ?f \<in> set (L (unat w))" by (cases "L (unat w)") simp_all
  have ff: "?f \<noteq> 0 \<Longrightarrow> cell N R ?f j" if "j < 20" for j using listed_cell [OF lo i fx that] .
  have fn: "?f \<noteq> 0 \<Longrightarrow> \<exists>m. N ?f = Some (m, Free)" using free_listsD(4) [OF lo i fx] by blast
  have na: "?f \<noteq> a" using fn a z by (cases "?f = 0") auto
  have f32: "?f < 2 ^ 32" using listed_pos [OF l lo i fx] by (cases "?f = 0") simp_all
  have u: "unat (of_nat a :: u32) = a" "unat (of_nat ?f :: u32) = ?f" using z f32 by (simp_all add: unat_of_nat take_bit_nat_eq_self)
  have m: "mem t (b + j) = (if b = a \<and> j = 0 then OS_MEM_NODE_MAGIC else if b = a \<and> j = 16 then of_nat ?f else if b = a \<and> j = 12 then 0
      else if ?f \<noteq> 0 \<and> b = ?f \<and> j = 12 then of_nat a else mem s (b + j))" if c: "cell N R b j" for b j
    using mem_cell [OF l ca c, of 0] mem_cell [OF l ca c, of 16] mem_cell [OF l ca c, of 12] mem_cell [OF l ff c, of 12]
    by (cases "?f = 0") (auto simp: t_def OsMemListAdd_def Let_def hd)
  have k: "kept N s t"
  proof -
    have na: "\<exists>n k. N a = Some (n, k) \<and> k \<noteq> Used" using a by auto
    define s1 where "s1 = (if ?f \<noteq> 0 then st (?f + 12) (of_nat a) s else s)"
    have "kept N s s1" 
    proof (cases "?f = 0")
      case False
      then obtain m where "N ?f = Some (m, Free)" using fn by blast
      then show ?thesis using kept_st [OF l ff [of 12]] False by (simp add: s1_def)
    qed (simp add: s1_def kept_refl)
    moreover have "kept N s1 (st (a + 12) 0 s1)" by (rule kept_st [OF l ca]) (use na in auto)
    moreover have "kept N (st (a + 12) 0 s1) (st (a + 16) (of_nat ?f) (st (a + 12) 0 s1))" by (rule kept_st [OF l ca]) (use na in auto)
    moreover have "kept N v (st (a + 0) OS_MEM_NODE_MAGIC v)" for v by (rule kept_st [OF l ca]) simp_all
    ultimately show ?thesis unfolding t_def OsMemListAdd_def Let_def hd s1_def [symmetric]
      by (simp add: kept_def)
  qed
  show "link_frame N R ({a} \<union> set (L (unat w))) a s t" unfolding link_frame_def
  proof (intro conjI allI impI)
    show "mem t a = OS_MEM_NODE_MAGIC" using m [OF ca, of 0] by simp
    show "mem_panic t = mem_panic s" "mem_fault t = mem_fault s" by (simp_all add: t_def OsMemListAdd_def Let_def)
    show "mem t (b + j) = mem s (b + j)" if "cell N R b j" "j \<noteq> 12 \<and> j \<noteq> 16 \<or> b \<notin> {a} \<union> set (L (unat w))" "(b, j) \<noteq> (a, 0)" for b j
      using m [OF that(1)] that(2,3) fx by auto
  qed (rule k)
  show "fn_prev t a = 0" "fn_next t a = ?f" using m [OF ca, of 12] m [OF ca, of 16] u by simp_all
  show "fn_prev t x = a \<and> mem t (x + 16) = mem s (x + 16)" if x: "L (unat w) = x # xs"
  proof -
    have c: "cell N R x j" if "j < 20" for j using listed_cell [OF lo i _ that, of x] x by simp
    have "x \<noteq> 0" using listed_pos [OF l lo i, of x] x by simp
    then show ?thesis using m [OF c, of 12] m [OF c, of 16] u na x by simp
  qed
  show "mem t (b + 12) = mem s (b + 12) \<and> mem t (b + 16) = mem s (b + 16)" if "b \<in> dom N" "b \<noteq> a" "b \<noteq> ?f" for b
    using m [of b 12] m [of b 16] that by (simp add: cell_def)
  show "pool_freeList t = (pool_freeList s)(unat w := a)" "freeListBitmap t = freeListBitmap (OsMemSetFreeListBit w s)"
    by (simp_all add: t_def OsMemListAdd_def Let_def OsMemSetFreeListBit_def set_head_def st_def)
qed

lemma kept_of_frame: "link_frame N R X a s t \<Longrightarrow> kept N s t"
  by (simp add: link_frame_def)

lemma free_node_add:
  assumes h: "heap_ok s N L R" and a: "N a = Some (n, k)" "k = Loose \<or> k = Raw"
  defines "i \<equiv> tlsf_index n" and "t \<equiv> OsMemFreeNodeAdd a s"
  shows "heap_ok t (N(a \<mapsto> (n, Free))) (L(i := a # L i)) R" "kept N s t"
proof -
  note d = heap_okD [OF h] and lo = heap_okD(5) [OF h]
  let ?w = "OsMemFreeListIndexGet (sizeAndFlag s a)" and ?N = "N(a \<mapsto> (n, Free))" and ?L = "L(i := a # L i)"
  have sw: "size_word k n (sizeAndFlag s a)" "k \<noteq> Used" using headD(2) [OF d(2) a(1)] a(2) by auto
  note ix = free_index [OF d(1) a(1) sw]
  have w: "unat ?w = i" "i < 223" using ix i_def by simp_all
  have t: "t = OsMemListAdd ?w a s" unfolding t_def OsMemFreeNodeAdd_def Let_def using ix(3) by simp
  have w3: "unat ?w < 223" using w by simp
  note F = list_add_frame [OF d(1) lo a w3, folded t, unfolded w(1)]
  have ad: "a \<in> dom N" using a(1) by blast
  note fr = link_frame_ok [OF d(2,3,4,1) F(1) ad]
  have mg: "mem t a = OS_MEM_NODE_MAGIC" and keep: "kept N s t" using F(1) by (simp_all add: link_frame_def)
  have hs: "heads_ok t ?N R"
    by (rule heads_status [OF fr(1) a(1)]) (use mg headD(2) [OF fr(1) a(1)] a(2) in \<open>auto simp: size_word_def\<close>)
  have na: "a \<notin> set (L j)" if "j < 223" for j using free_listsD(4) [OF lo that, of a] a by auto
  have far: "mem t (x + 12) = mem s (x + 12) \<and> mem t (x + 16) = mem s (x + 16)" if x: "x \<in> set (L j)" "j < 223" "x \<noteq> hdn (L i) 0" for x j
    by (rule F(5)) (use free_listsD(4) [OF lo x(2,1)] na [OF x(2)] x(1,3) in auto)
  have ls: "lists_ok t ?N ?L" unfolding lists_ok_def
  proof (intro conjI allI impI ballI)
    fix j :: nat assume j: "j < 223"
    show "fseg (mem t) 0 (?L j) 0"
    proof (cases "j = i")
      case True
      have ok: "fseg (mem s) 0 (L i) 0" "distinct (L i)" using free_listsD(1,3) [OF lo w(2)] by blast+
      have "fseg (mem t) a (L i) 0"
      proof (cases "L i")
        case (Cons x xs)
        have "fseg (mem t) x xs 0 = fseg (mem s) x xs 0"
          by (rule fseg_cong) (use Cons ok far [OF _ w(2)] in auto)
        then show ?thesis using ok Cons F(4) [OF Cons] by simp
      qed simp
      then show ?thesis using True F(2,3) by simp
    next
      case False
      have "fseg (mem t) 0 (L j) 0 = fseg (mem s) 0 (L j) 0"
      proof (rule fseg_cong)
        fix x assume x: "x \<in> set (L j)"
        have "x \<noteq> hdn (L i) 0" using lists_disjoint [OF lo j w(2) x] False listed_pos [OF d(1) lo j x] by (cases "L i") auto
        then show "mem t (x + 12) = mem s (x + 12) \<and> mem t (x + 16) = mem s (x + 16)" by (rule far [OF x j])
      qed
      then show ?thesis using False free_listsD(1) [OF lo j] by simp
    qed
    show "pool_freeList t j = hdn (?L j) 0" using F(6) free_listsD(2) [OF lo j] by simp
    show "distinct (?L j)" using free_listsD(3) [OF lo j] na [OF w(2)] j by auto
    show "\<exists>m. ?N x = Some (m, Free) \<and> tlsf_index m = j" if "x \<in> set (?L j)" for x
      using that free_listsD(4) [OF lo j, of x] na [OF j] i_def by (cases "x = a") (auto split: if_splits)
    show "bit (freeListBitmap t (j div 32)) (j mod 32) \<longleftrightarrow> ?L j \<noteq> []"
      using free_listsD(5) [OF lo j] unfolding F(7) set_bit_at w(1) by simp
  next
    fix x m assume "?N x = Some (m, Free)"
    then show "x \<in> set (?L (tlsf_index m))" using lists_all [OF lo, of x m] i_def by (auto split: if_splits)
  next
    show "\<not> bit (freeListBitmap t 6) 31" unfolding F(7) last_bit(1) [OF w3] using lo by (simp add: lists_ok_def)
  qed
  show "heap_ok t ?N ?L R" using layout_status [OF a(1) d(1)] hs fr(2,3) ls by (simp add: heap_ok_def)
  show "kept N s t" by (rule keep)
qed

lemma list_delete_frame:
  assumes l: "layout N R" and lo: "lists_ok s N L" and i: "unat w < 223" and L: "L (unat w) = xs @ a # ys"
  defines "t \<equiv> OsMemListDelete w a s"
  shows "link_frame N R (set (L (unat w))) a s t"
    "xs = us @ [p] \<Longrightarrow> fn_next t p = hdn ys 0 \<and> mem t (p + 12) = mem s (p + 12)"
    "ys = y # zs \<Longrightarrow> fn_prev t y = lastn 0 xs \<and> mem t (y + 16) = mem s (y + 16)"
    "b \<in> dom N \<Longrightarrow> b \<noteq> lastn 0 xs \<Longrightarrow> b \<noteq> hdn ys 0 \<Longrightarrow> mem t (b + 12) = mem s (b + 12) \<and> mem t (b + 16) = mem s (b + 16)"
    "pool_freeList t = (if xs = [] then (pool_freeList s)(unat w := hdn ys 0) else pool_freeList s)"
    "freeListBitmap t = (if xs = [] \<and> ys = [] then freeListBitmap (OsMemClearFreeListBit w s) else freeListBitmap s)"
proof -
  let ?p = "lastn 0 xs" and ?q = "hdn ys 0"
  have sg: "fseg (mem s) 0 (xs @ a # ys) 0" "distinct (xs @ a # ys)" and hd: "pool_freeList s (unat w) = hdn (xs @ a # ys) 0"
    using free_listsD(1,2,3) [OF lo i] L by simp_all
  have pq: "fn_prev s a = ?p" "fn_next s a = ?q" using sg(1) by (simp_all add: fseg_append)
  have cl: "x \<in> set (xs @ a # ys) \<Longrightarrow> j < 20 \<Longrightarrow> cell N R x j" for x j using listed_cell [OF lo i, of x j] L by simp
  have ps: "x \<in> set (xs @ a # ys) \<Longrightarrow> 0 < x \<and> x < 2 ^ 32" for x using listed_pos [OF l lo i, of x] L by simp
  have fr: "x \<in> set (xs @ a # ys) \<Longrightarrow> \<exists>n k. N x = Some (n, k) \<and> k \<noteq> Used" for x using free_listsD(4) [OF lo i, of x] L by fastforce
  have p: "?p = 0 \<longleftrightarrow> xs = []" "xs \<noteq> [] \<Longrightarrow> ?p \<in> set xs" using ps by (auto simp: lastn_def)
  have q: "?q = 0 \<longleftrightarrow> ys = []" "ys \<noteq> [] \<Longrightarrow> ?q \<in> set ys" using ps by (cases ys; auto)+
  have ah: "a = hdn (xs @ a # ys) 0 \<longleftrightarrow> xs = []" using sg(2) by (cases xs) auto
  have "?q < 2 ^ 32" "?p < 2 ^ 32" using p(2) q(2) ps [of ?p] ps [of ?q] by (cases "ys = []"; cases "xs = []"; simp)+
  then have u: "unat (of_nat ?q :: u32) = ?q" "unat (of_nat ?p :: u32) = ?p" by (simp_all add: unat_of_nat take_bit_nat_eq_self)
  have ca: "cell N R a j" if "j < 20" for j by (rule cl) (use that in auto)
  have cp: "xs \<noteq> [] \<Longrightarrow> cell N R ?p 16" by (rule cl) (use p in auto)
  have cq: "ys \<noteq> [] \<Longrightarrow> cell N R ?q 12" by (rule cl) (use q in auto)
  have dj: "xs \<noteq> [] \<Longrightarrow> ?p \<noteq> a" "ys \<noteq> [] \<Longrightarrow> ?q \<noteq> a" "xs \<noteq> [] \<Longrightarrow> ys \<noteq> [] \<Longrightarrow> ?p \<noteq> ?q" using sg(2) p q by auto
  define s1 where "s1 = (if xs = [] then set_head (unat w) ?q s else st (?p + 16) (of_nat ?q) s)"
  define s2 where "s2 = (if ys = [] then if xs = [] then OsMemClearFreeListBit w s1 else s1 else st (?q + 12) (of_nat ?p) s1)"
  have nx: "xs \<noteq> [] \<Longrightarrow> mem (st (?p + 16) v s) (a + 12) = mem s (a + 12) \<and> mem (st (?p + 16) v s) (a + 16) = mem s (a + 16)" for v
    using mem_cell [OF l cp ca, of 12] mem_cell [OF l cp ca, of 16] dj by simp
  have t: "t = st a OS_MEM_NODE_MAGIC s2"
    unfolding t_def OsMemListDelete_def Let_def hd ah s2_def s1_def using pq p(1) q(1) nx by auto
  have m: "mem t (b + j) = (if b = a \<and> j = 0 then OS_MEM_NODE_MAGIC else if ys \<noteq> [] \<and> b = ?q \<and> j = 12 then of_nat ?p
      else if xs \<noteq> [] \<and> b = ?p \<and> j = 16 then of_nat ?q else mem s (b + j))" if c: "cell N R b j" for b j
  proof -
    have 1: "mem s1 (b + j) = (if xs \<noteq> [] \<and> b = ?p \<and> j = 16 then of_nat ?q else mem s (b + j))"
      using mem_cell [OF l cp c] by (cases "xs = []") (auto simp: s1_def)
    have 2: "mem s2 (b + j) = (if ys \<noteq> [] \<and> b = ?q \<and> j = 12 then of_nat ?p else mem s1 (b + j))"
      using mem_cell [OF l cq c] by (cases "ys = []") (auto simp: s2_def)
    show ?thesis using mem_cell [OF l ca c, of 0 OS_MEM_NODE_MAGIC s2] unfolding t 2 1 by auto
  qed
  have k: "kept N s t"
  proof -
    have 1: "kept N s s1" unfolding s1_def using kept_st [OF l cp] fr p(2) by (auto simp: kept_mem)
    have 2: "kept N s1 s2" unfolding s2_def using kept_st [OF l cq] fr q(2) by (auto simp: kept_mem)
    have "kept N s2 (st (a + 0) OS_MEM_NODE_MAGIC s2)" by (rule kept_st [OF l ca]) simp_all
    then show ?thesis unfolding t using kept_trans [OF kept_trans [OF 1 2]] by simp
  qed
  show "link_frame N R (set (L (unat w))) a s t" unfolding link_frame_def
  proof (intro conjI allI impI)
    show "mem t a = OS_MEM_NODE_MAGIC" using m [OF ca, of 0] by simp
    show "mem_panic t = mem_panic s" "mem_fault t = mem_fault s" by (simp_all add: t s2_def s1_def)
    show "mem t (b + j) = mem s (b + j)" if "cell N R b j" "j \<noteq> 12 \<and> j \<noteq> 16 \<or> b \<notin> set (L (unat w))" "(b, j) \<noteq> (a, 0)" for b j
      using m [OF that(1)] that(2,3) p(2) q(2) L by auto
  qed (rule k)
  show "fn_next t p = ?q \<and> mem t (p + 12) = mem s (p + 12)" if x: "xs = us @ [p]"
    using m [OF cl, of p 16] m [OF cl, of p 12] u dj(1,3) sg(2) x by auto
  show "fn_prev t y = ?p \<and> mem t (y + 16) = mem s (y + 16)" if y: "ys = y # zs"
    using m [OF cl, of y 16] m [OF cl, of y 12] u dj y p(2) sg(2) by auto
  show "mem t (b + 12) = mem s (b + 12) \<and> mem t (b + 16) = mem s (b + 16)" if "b \<in> dom N" "b \<noteq> ?p" "b \<noteq> ?q" for b
    using m [of b 12] m [of b 16] that by (simp add: cell_def)
  show "pool_freeList t = (if xs = [] then (pool_freeList s)(unat w := ?q) else pool_freeList s)"
    "freeListBitmap t = (if xs = [] \<and> ys = [] then freeListBitmap (OsMemClearFreeListBit w s) else freeListBitmap s)"
    by (simp_all add: t s2_def s1_def OsMemClearFreeListBit_def)
qed

lemma fseg_delete:
  assumes f: "fseg (mem s) 0 (xs @ a # ys) 0" "distinct (xs @ a # ys)" "0 \<notin> set (xs @ ys)"
    and p: "\<And>us p. xs = us @ [p] \<Longrightarrow> fn_next t p = hdn ys 0 \<and> mem t (p + 12) = mem s (p + 12)"
    and q: "\<And>y zs. ys = y # zs \<Longrightarrow> fn_prev t y = lastn 0 xs \<and> mem t (y + 16) = mem s (y + 16)"
    and o: "\<And>b. b \<in> set (xs @ ys) \<Longrightarrow> b \<noteq> lastn 0 xs \<Longrightarrow> b \<noteq> hdn ys 0 \<Longrightarrow> mem t (b + 12) = mem s (b + 12) \<and> mem t (b + 16) = mem s (b + 16)"
  shows "fseg (mem t) 0 (xs @ ys) 0"
proof -
  have "fseg (mem t) 0 xs (hdn ys 0)"
  proof (cases xs rule: rev_cases)
    case (snoc us u)
    have "u \<notin> set us" "hdn ys 0 \<notin> set us" using f(2,3) snoc by (cases ys; auto)+
    then have m: "mem t (x + 12) = mem s (x + 12) \<and> mem t (x + 16) = mem s (x + 16)" if "x \<in> set us" for x
      using o [of x] that snoc by auto
    have "fseg (mem t) 0 us u = fseg (mem s) 0 us u" by (rule fseg_cong) (use m in blast)
    then show ?thesis using f(1) snoc p [OF snoc] by (simp add: fseg_append)
  qed simp
  moreover have "fseg (mem t) (lastn 0 xs) ys 0"
  proof (cases ys)
    case (Cons y zs)
    have "lastn 0 xs \<notin> set zs" "y \<notin> set zs" using f(2,3) Cons by (cases xs rule: rev_cases; auto)+
    then have m: "mem t (x + 12) = mem s (x + 12) \<and> mem t (x + 16) = mem s (x + 16)" if "x \<in> set zs" for x
      using o [of x] that Cons by auto
    have "fseg (mem t) y zs 0 = fseg (mem s) y zs 0" by (rule fseg_cong) (use m in blast)
    then show ?thesis using f(1) Cons q [OF Cons] by (simp add: fseg_append)
  qed simp
  ultimately show ?thesis by (simp add: fseg_append)
qed

lemma list_delete:
  assumes h: "heap_ok s N L R" and a: "N a = Some (n, Free)" and w: "unat w = tlsf_index n"
  defines "i \<equiv> tlsf_index n" and "t \<equiv> OsMemListDelete w a s"
  obtains xs ys where "L i = xs @ a # ys" "heap_ok t (N(a \<mapsto> (n, Loose))) (L(i := xs @ ys)) R" "kept N s t"
proof -
  note d = heap_okD [OF h] and lo = heap_okD(5) [OF h]
  have i: "i < 223" unfolding i_def using tlsf_index_bound node_sizes(6) [OF d(1) a] by simp
  have w3: "unat w < 223" using w i i_def by simp
  obtain xs ys where L: "L i = xs @ a # ys" using lists_all [OF lo a] i_def split_list by metis
  let ?N = "N(a \<mapsto> (n, Loose))" and ?L = "L(i := xs @ ys)"
  have wi: "unat w = i" using w i_def by simp
  have Lw: "L (unat w) = xs @ a # ys" using L wi by simp
  note F = list_delete_frame [OF d(1) lo w3 Lw, folded t_def, unfolded wi]
  have ad: "a \<in> dom N" using a by blast
  note fr = link_frame_ok [OF d(2,3,4,1) F(1) ad]
  have mg: "mem t a = OS_MEM_NODE_MAGIC" and keep: "kept N s t" using F(1) by (simp_all add: link_frame_def)
  have hs: "heads_ok t ?N R"
    by (rule heads_status [OF fr(1) a]) (use mg headD(2) [OF fr(1) a] in \<open>auto simp: size_word_def\<close>)
  have ok: "fseg (mem s) 0 (xs @ a # ys) 0" "distinct (xs @ a # ys)" using free_listsD(1,3) [OF lo i] L by simp_all
  have pos: "0 < x" "x \<in> dom N" if "x \<in> set (L j)" "j < 223" for x j
    using listed_pos [OF d(1) lo that(2,1)] free_listsD(4) [OF lo that(2,1)] by auto
  have z: "0 \<notin> set (xs @ ys)" using pos(1) [of 0 i] L i by auto
  have ls: "lists_ok t ?N ?L" unfolding lists_ok_def
  proof (intro conjI allI impI ballI)
    fix j :: nat assume j: "j < 223"
    show "fseg (mem t) 0 (?L j) 0"
    proof (cases "j = i")
      case True
      have "fseg (mem t) 0 (xs @ ys) 0"
        by (rule fseg_delete [OF ok z F(2) F(3) F(4)]) (use pos(2) [OF _ i] L in auto)
      then show ?thesis using True by simp
    next
      case False
      have "fseg (mem t) 0 (L j) 0 = fseg (mem s) 0 (L j) 0"
      proof (rule fseg_cong)
        fix x assume x: "x \<in> set (L j)"
        have "x \<notin> set (L i)" "0 < x" using lists_disjoint [OF lo j i x] False pos [OF x j] by auto
        then have "x \<noteq> lastn 0 xs" "x \<noteq> hdn ys 0" using L by (cases ys; auto simp: lastn_def split: if_splits)+
        then show "mem t (x + 12) = mem s (x + 12) \<and> mem t (x + 16) = mem s (x + 16)" by (rule F(4) [OF pos(2) [OF x j]])
      qed
      then show ?thesis using False free_listsD(1) [OF lo j] by simp
    qed
    show "pool_freeList t j = hdn (?L j) 0" using F(5) free_listsD(2) [OF lo j] L by (cases xs) auto
    show "distinct (?L j)" using free_listsD(3) [OF lo j] L by (cases "j = i") auto
    show "\<exists>m. ?N x = Some (m, Free) \<and> tlsf_index m = j" if x: "x \<in> set (?L j)" for x
    proof -
      have "x \<noteq> a" using x ok(2) lists_disjoint [OF lo i j, of a] L by (cases "j = i") auto
      moreover have "x \<in> set (L j)" using x L by (cases "j = i") auto
      ultimately show ?thesis using free_listsD(4) [OF lo j, of x] by simp
    qed
    show "bit (freeListBitmap t (j div 32)) (j mod 32) \<longleftrightarrow> ?L j \<noteq> []"
      using free_listsD(5) [OF lo j] L clear_bit_at [of w s j] wi unfolding F(6) by (cases "j = i") auto
  next
    fix x m assume x: "?N x = Some (m, Free)"
    then have "x \<noteq> a" "N x = Some (m, Free)" by (auto split: if_splits)
    then show "x \<in> set (?L (tlsf_index m))" using lists_all [OF lo, of x m] L by (cases "tlsf_index m = i") auto
  next
    show "\<not> bit (freeListBitmap t 6) 31" using lo last_bit(2) [OF w3, of s] unfolding F(6) by (simp add: lists_ok_def)
  qed
  have "heap_ok t ?N ?L R" using layout_status [OF a d(1)] hs fr(2,3) ls by (simp add: heap_ok_def)
  then show ?thesis using that L keep by blast
qed

lemma free_node_delete:
  assumes h: "heap_ok s N L R" and a: "N a = Some (n, Free)"
  obtains L' where "heap_ok (OsMemFreeNodeDelete a s) (N(a \<mapsto> (n, Loose))) L' R" "kept N s (OsMemFreeNodeDelete a s)"
proof -
  note d = heap_okD [OF h]
  let ?w = "OsMemFreeListIndexGet (sizeAndFlag s a)"
  note ix = free_index [OF d(1) a headD(2) [OF d(2) a], simplified]
  have "OsMemFreeNodeDelete a s = OsMemListDelete ?w a s" unfolding OsMemFreeNodeDelete_def Let_def using ix(3) by simp
  then show ?thesis using list_delete [OF h a ix(1)] that by metis
qed

end
