(* ===== verification/Tlsf_Nodes.thy ===== *)
theory Tlsf_Nodes
  imports Tlsf_Inv
begin

text \<open>Operations on the nodes of the heap: a node is marked, merged with the one before it, cut, or split with the rest put on a free list.\<close>

unbundle bit_operations_syntax

section \<open>Merging and splitting\<close>

lemma flag_bit: "OS_MEM_NODE_GET_LAST_FLAG w \<longleftrightarrow> bit w 29" "OS_MEM_NODE_GET_ALIGNED_FLAG w \<longleftrightarrow> bit w 30" "OS_MEM_NODE_GET_USED_FLAG w \<longleftrightarrow> bit w 31"
proof -
  have "has w (2 ^ i) \<longleftrightarrow> bit w i" for i by (simp add: has_def and_exp_eq_0_iff_not_bit)
  from this [of 29] this [of 30] this [of 31]
  show "OS_MEM_NODE_GET_LAST_FLAG w \<longleftrightarrow> bit w 29" "OS_MEM_NODE_GET_ALIGNED_FLAG w \<longleftrightarrow> bit w 30" "OS_MEM_NODE_GET_USED_FLAG w \<longleftrightarrow> bit w 31" by simp_all
qed

lemma flags_bits: "bit OS_MEM_NODE_ALIGNED_AND_USED_FLAG i \<longleftrightarrow> i = 29 \<or> i = 30 \<or> i = 31"
proof -
  have e: "OS_MEM_NODE_ALIGNED_AND_USED_FLAG = 2 ^ 29 OR 2 ^ 30 OR 2 ^ 31" by simp
  show ?thesis unfolding e by (simp only: bit_or_iff bit_exp_iff) auto
qed

lemma used_bits: "bit OS_MEM_NODE_USED_FLAG i \<longleftrightarrow> i = 31"
proof -
  have e: "OS_MEM_NODE_USED_FLAG = 2 ^ 31" by simp
  show ?thesis unfolding e by (simp only: bit_exp_iff) auto
qed

lemma size_bits: "bit (OS_MEM_NODE_GET_SIZE w) i \<longleftrightarrow> i < 29 \<and> bit w i"
  unfolding OS_MEM_NODE_GET_SIZE_def bit_and_iff bit_not_iff flags_bits by (cases "i < 32") (auto dest: bit_imp_le_length)

lemma small_bits:
  assumes "n < 2 ^ 29"
  shows "bit (of_nat n :: u32) i \<longleftrightarrow> i < 29 \<and> bit n i"
proof -
  have "take_bit 29 n = n" using assms by (simp add: take_bit_nat_eq_self)
  then have "bit n i \<longleftrightarrow> i < 29 \<and> bit n i" by (metis bit_take_bit_iff)
  then show ?thesis by (auto simp: bit_of_nat_iff_bit bit_simps)
qed

lemma small_word:
  assumes "n < 2 ^ 29"
  shows "\<not> OS_MEM_NODE_GET_LAST_FLAG (of_nat n)" "\<not> OS_MEM_NODE_GET_USED_FLAG (of_nat n)" "OS_MEM_NODE_GET_SIZE (of_nat n) = of_nat n" "unat (of_nat n :: u32) = n"
    "OS_MEM_NODE_GET_SIZE (of_nat n OR OS_MEM_NODE_USED_FLAG) = of_nat n" "OS_MEM_NODE_GET_USED_FLAG (of_nat n OR OS_MEM_NODE_USED_FLAG)"
    "\<not> OS_MEM_NODE_GET_LAST_FLAG (of_nat n OR OS_MEM_NODE_USED_FLAG)"
proof -
  note b = small_bits [OF assms]
  show "\<not> OS_MEM_NODE_GET_LAST_FLAG (of_nat n)" "\<not> OS_MEM_NODE_GET_USED_FLAG (of_nat n)" unfolding flag_bit b by simp_all
  show "OS_MEM_NODE_GET_SIZE (of_nat n) = of_nat n" by (rule bit_eqI) (auto simp: size_bits b)
  show "unat (of_nat n :: u32) = n" using assms by (simp add: unat_of_nat take_bit_nat_eq_self)
  show "OS_MEM_NODE_GET_SIZE (of_nat n OR OS_MEM_NODE_USED_FLAG) = of_nat n" by (rule bit_eqI) (unfold size_bits bit_or_iff used_bits b, auto)
  show "OS_MEM_NODE_GET_USED_FLAG (of_nat n OR OS_MEM_NODE_USED_FLAG)"
    "\<not> OS_MEM_NODE_GET_LAST_FLAG (of_nat n OR OS_MEM_NODE_USED_FLAG)" unfolding flag_bit bit_or_iff used_bits b by simp_all
qed

lemma free_word: "size_word k n w \<Longrightarrow> k \<noteq> Used \<Longrightarrow> w = of_nat n"
  by (simp add: size_word_def)

lemma word_size:
  assumes "size_word k n w" "n < 2 ^ 29"
  shows "unat (OS_MEM_NODE_GET_SIZE w) = n" "\<not> OS_MEM_NODE_GET_LAST_FLAG w" "OS_MEM_NODE_GET_USED_FLAG w \<longleftrightarrow> k = Used"
  using assms small_word [OF assms(2)] by (auto simp: size_word_def split: if_splits)

lemma next_node:
  assumes h: "heap_ok s N L R" and a: "N a = Some (n, k)"
  shows "OS_MEM_NEXT_NODE s a = a + n"
    "a + n \<in> ends R \<and> OS_MEM_NODE_GET_LAST_FLAG (sizeAndFlag s (a + n)) \<and> OS_MEM_NODE_GET_USED_FLAG (sizeAndFlag s (a + n)) \<or>
     (\<exists>m l. N (a + n) = Some (m, l) \<and> size_word l m (sizeAndFlag s (a + n)) \<and> m < 2 ^ 29)"
proof -
  note d = heap_okD [OF h] and z = node_sizes [OF heap_okD(1) [OF h]]
  have "unat (OS_MEM_NODE_GET_SIZE (sizeAndFlag s a)) = n" by (rule word_size [OF headD(2) [OF d(2) a] z(6) [OF a]])
  then show "OS_MEM_NEXT_NODE s a = a + n" using z(5) [OF a] by (simp add: OS_MEM_NEXT_NODE_def)
  obtain b p e where r: "(b, p, e) \<in> set R" "a + n = e \<or> a + n \<in> dom N" using node_region [OF d(1) a] by metis
  show "a + n \<in> ends R \<and> OS_MEM_NODE_GET_LAST_FLAG (sizeAndFlag s (a + n)) \<and> OS_MEM_NODE_GET_USED_FLAG (sizeAndFlag s (a + n)) \<or>
     (\<exists>m l. N (a + n) = Some (m, l) \<and> size_word l m (sizeAndFlag s (a + n)) \<and> m < 2 ^ 29)"
  proof (cases "a + n = e")
    case True
    then have "a + n \<in> ends R" using r(1) by (force simp: ends_def)
    then show ?thesis using d(3) by (simp add: ends_ok_def)
  next
    case False
    then obtain m l where "N (a + n) = Some (m, l)" using r(2) by auto
    then show ?thesis using headD(2) [OF d(2)] z(6) by blast
  qed
qed

lemma prev_unique:
  assumes l: "layout N R" and p: "N p = Some (n, k)" "p + n = b" and q: "prev_ok N R b q"
  shows "q = p"
proof -
  have no: "(b, q, e) \<notin> set R" for q e
  proof
    assume x: "(b, q, e) \<in> set R"
    obtain c r f where c: "(c, r, f) \<in> set R" "c \<le> p" "p + n \<le> f" using node_region [OF l p(1)] by metis
    show False using regions_apart [OF layoutD(1) [OF l] c(1) x] regionD(2) [OF layoutD(1) [OF l] x] c(2,3) p(2) node_sizes(3) [OF l p(1)] by auto
  qed
  then obtain m j where q: "N q = Some (m, j)" "q + m = b" using q unfolding prev_ok_def by blast
  show ?thesis using layoutD(4) [OF l q(1) p(1)] layoutD(4) [OF l p(1) q(1)] q(2) p(2) node_sizes(3) [OF l q(1)] node_sizes(3) [OF l p(1)]
    by (cases "p < q"; cases "q < p") auto
qed

lemma not_start:
  assumes l: "layout N R" and p: "N p = Some (n, k)" "p + n = b"
  shows "(b, q, e) \<notin> set R"
proof
  assume "(b, q, e) \<in> set R"
  then have "prev_ok N R b q" "prev_ok N R b p" using p by (auto simp: prev_ok_def)
  obtain c r f where c: "(c, r, f) \<in> set R" "c \<le> p" "p + n \<le> f" using node_region [OF l p(1)] by metis
  show False using regions_apart [OF layoutD(1) [OF l] c(1) \<open>(b, q, e) \<in> set R\<close>] regionD(2) [OF layoutD(1) [OF l] \<open>(b, q, e) \<in> set R\<close>] c(2,3) p(2) node_sizes(3) [OF l p(1)] by auto
qed

lemma lists_frame:
  assumes lo: "lists_ok s N L" and f: "\<And>x n. M x = Some (n, Free) \<longleftrightarrow> N x = Some (n, Free)"
    and m: "\<And>x n. N x = Some (n, Free) \<Longrightarrow> mem t (x + 12) = mem s (x + 12) \<and> mem t (x + 16) = mem s (x + 16)"
    and b: "freeListBitmap t = freeListBitmap s" "pool_freeList t = pool_freeList s"
  shows "lists_ok t M L"
proof -
  have "fseg (mem t) 0 (L i) 0" if "i < 223" for i
  proof -
    have "fseg (mem t) 0 (L i) 0 = fseg (mem s) 0 (L i) 0" by (rule fseg_cong) (use free_listsD(4) [OF lo that] m in blast)
    then show ?thesis using free_listsD(1) [OF lo that] by simp
  qed
  then show ?thesis using lo unfolding lists_ok_def b f by blast
qed

lemma prev_ok_mono:
  assumes "prev_ok N R x q" "\<And>m k. N q = Some (m, k) \<Longrightarrow> q + m = x \<Longrightarrow> \<exists>k'. M q = Some (m, k')"
  shows "prev_ok M R x q"
  using assms unfolding prev_ok_def by blast

lemma layout_merge:
  assumes l: "layout N R" and p: "N p = Some (n, k)" and b: "N (p + n) = Some (m, j)"
  shows "layout (N(p + n := None, p \<mapsto> (n + m, k'))) R"
proof (rule layoutI [OF layoutD(1) [OF l]])
  let ?M = "N(p + n := None, p \<mapsto> (n + m, k'))"
  note z = node_sizes [OF l p] and zb = node_sizes [OF l b]
  have M: "?M p = Some (n + m, k')" "?M (p + n) = None" "\<And>x. x \<noteq> p \<Longrightarrow> x \<noteq> p + n \<Longrightarrow> ?M x = N x" using z(3) by simp_all
  show "fst r \<in> dom ?M" if "r \<in> set R" for r
  proof -
    have "fst r \<noteq> p + n" using not_start [OF l p refl] that by (cases r) auto
    then show ?thesis using layoutD(2) [OF l that] by (cases "fst r = p") auto
  qed
  show "node_in ?M R x i" if x: "?M x = Some (i, h)" for x i h
  proof (cases "x = p")
    case True
    obtain c q e where c: "(c, q, e) \<in> set R" "c \<le> p" "p + n \<le> e" "p = c \<or> (\<exists>c' m k. N c' = Some (m, k) \<and> c' + m = p \<and> c \<le> c')" using node_region [OF l p] by metis
    obtain c2 q2 e2 where c2: "(c2, q2, e2) \<in> set R" "c2 \<le> p + n" "p + n + m \<le> e2" "p + n + m = e2 \<or> p + n + m \<in> dom N" using node_region [OF l b] by metis
    have same: "(c2, q2, e2) = (c, q, e)" using regions_apart [OF layoutD(1) [OF l] c2(1) c(1)] c2(2,3) c(2,3) regionD(2) [OF layoutD(1) [OF l] c(1)] zb(3) by auto
    have nx: "p + (n + m) = e \<or> p + (n + m) \<in> dom ?M" using c2(4) same M(3) [of "p + n + m"] z(3) zb(3) by (auto simp: add.assoc)
    have "p = c \<or> (\<exists>c' m k. ?M c' = Some (m, k) \<and> c' + m = p \<and> c \<le> c')"
    proof (cases "p = c")
      case False
      then obtain c' m' k2 where "N c' = Some (m', k2)" "c' + m' = p" "c \<le> c'" using c(4) by blast
      moreover have "c' < p" using node_sizes(3) [OF l calculation(1)] calculation(2) by simp
      ultimately have "?M c' = Some (m', k2)" "c' + m' = p" "c \<le> c'" by simp_all
      then show ?thesis by (intro disjI2 exI conjI)
    qed simp
    then have "node_in ?M R p (n + m)" unfolding node_in_def
      using c(1,2) c2(3) same nx z(1,2,3) zb(2) by (intro conjI exI) (simp_all add: add.assoc)
    then show ?thesis using True x M(1) by simp
  next
    case False
    then have xn: "x \<noteq> p + n" "N x = Some (i, h)" using x M by (auto split: if_splits)
    note zx = node_sizes [OF l xn(2)]
    obtain c q e where c: "(c, q, e) \<in> set R" "c \<le> x" "x + i \<le> e" "x + i = e \<or> x + i \<in> dom N" "x = c \<or> (\<exists>c' m k. N c' = Some (m, k) \<and> c' + m = x \<and> c \<le> c')" using node_region [OF l xn(2)] by metis
    have "x + i \<noteq> p + n" using prev_unique [OF l p refl, of x] xn(2) False by (auto simp: prev_ok_def)
    then have "x + i \<in> dom ?M" if "x + i \<in> dom N" using that by (cases "x + i = p") auto
    moreover have "x = c \<or> (\<exists>c' m k. ?M c' = Some (m, k) \<and> c' + m = x \<and> c \<le> c')"
    proof (cases "x = c")
      case xc: False
      then obtain c' m' k2 where c': "N c' = Some (m', k2)" "c' + m' = x" "c \<le> c'" using c(5) by blast
      have "c' \<noteq> p" using xn(1) c'(1,2) p by auto
      show ?thesis
      proof (cases "c' = p + n")
        case True
        obtain c2 q2 e2 where c2: "(c2, q2, e2) \<in> set R" "c2 \<le> p" "p + n \<le> e2" using node_region [OF l p] by metis
        have "c2 = c" using regions_apart [OF layoutD(1) [OF l] c2(1) c(1)] c2(2,3) c(2,3) c'(2,3) True by auto
        then show ?thesis using c' True b M(1) c2(2) by (intro disjI2 exI [of _ p] exI [of _ "n + m"] exI [of _ k']) auto
      next
        case False
        then have "?M c' = Some (m', k2)" using c'(1) \<open>c' \<noteq> p\<close> by simp
        then show ?thesis using c'(2,3) by (intro disjI2 exI conjI)
      qed
    qed simp
    moreover have "x + i = e \<or> x + i \<in> dom ?M" using c(4) calculation(1) by blast
    ultimately show ?thesis unfolding node_in_def using c(1-3) zx(1-3) by (intro conjI exI)
  qed
  show "x + i \<le> y" if x: "?M x = Some (i, h)" and y: "?M y = Some (i', h')" and lt: "x < y" for x y i h i' h'
  proof -
    have yn: "y \<noteq> p + n" "\<exists>i h. N y = Some (i, h)" using y M(2) p by (cases "y = p + n"; auto split: if_splits)+
    have "p + n \<le> y \<Longrightarrow> p + n + m \<le> y" using layoutD(4) [OF l b] yn by force
    moreover have "x = p \<Longrightarrow> p + n \<le> y" using layoutD(4) [OF l p] yn(2) lt by fastforce
    moreover have "x \<noteq> p \<Longrightarrow> x + i \<le> y"
    proof -
      assume "x \<noteq> p"
      then have "N x = Some (i, h)" using x M by (auto split: if_splits)
      then show "x + i \<le> y" using layoutD(4) [OF l] yn(2) lt by blast
    qed
    moreover have "x = p \<Longrightarrow> i = n + m" using x M(1) by simp
    ultimately show ?thesis using lt by (cases "x = p") auto
  qed
qed

lemma node_not_end: "layout N R \<Longrightarrow> N a = Some (n, k) \<Longrightarrow> a \<notin> ends R"
  using end_apart [of N R a n k a] node_sizes(3) [of N R a n k] by auto

text \<open>The status of a node that is on no list is in its size word.\<close>

lemma set_size:
  assumes h: "heap_ok s N L R" and a: "N a = Some (n, k)" "k \<noteq> Free" and k: "k' \<noteq> Free" "k = Raw \<Longrightarrow> k' = Raw" "size_word k' n w"
  shows "heap_ok (st (a + 8) w s) (N(a \<mapsto> (n, k'))) L R" "kept N s (st (a + 8) w s)"
proof -
  note d = heap_okD [OF h]
  let ?t = "st (a + 8) w s" and ?N = "N(a \<mapsto> (n, k'))"
  have ca: "cell N R a 8" using a by (auto simp: cell_def)
  note m = mem_cell [OF d(1) ca]
  have ea: "a \<notin> ends R" by (rule node_not_end [OF d(1) a(1)])
  have pv: "prev_ok ?N R x q" if "prev_ok N R x q" for x q by (rule prev_ok_mono [OF that]) (use a in auto)
  have hd: "heads_ok ?t ?N R" unfolding heads_ok_def
  proof (intro allI impI)
    fix x i j assume x: "?N x = Some (i, j)"
    then obtain j' where x': "N x = Some (i, j')" "x = a \<or> j' = j" using a by (auto split: if_splits)
    have "cell N R x o'" if "o' < 20" for o' using x' that by (auto simp: cell_def)
    then have "mem ?t x = mem s x" "mem ?t (x + 4) = mem s (x + 4)" "mem ?t (x + 8) = (if x = a then w else mem s (x + 8))"
      using m [of x 0] m [of x 4] m [of x 8] by auto
    then show "(j \<noteq> Raw \<longrightarrow> mem ?t x = OS_MEM_NODE_MAGIC) \<and> size_word j i (sizeAndFlag ?t x) \<and> prev_ok ?N R x (nd_ptr ?t x)"
      using headD [OF d(2) x'(1)] x x' k a pv by (auto split: if_splits)
  qed
  have en: "ends_ok ?t R"
    by (rule ends_same [OF d(3)]) (use m ea in \<open>auto simp: cell_def\<close>)
  have ls: "lists_ok ?t ?N L"
    by (rule lists_frame [OF d(5)]) (use m [of _ 12] m [of _ 16] a k(1) in \<open>auto simp: cell_def dom_def\<close>)
  show "heap_ok ?t ?N L R" using layout_status [OF a(1) d(1)] hd en d(4) ls by (simp add: heap_ok_def pool_ok_def)
  show "kept N s ?t" by (rule kept_st [OF d(1) ca]) simp
qed

lemma heads_merge:
  assumes h: "heap_ok s N L R" and p: "N p = Some (n, k)" and k: "k = Loose \<or> k = Raw" and b: "N (p + n) = Some (m, Loose)"
    and t: "mem t p = mem s p" "mem t (p + 4) = mem s (p + 4)" "mem t (p + 8) = of_nat (n + m)"
    and o: "\<And>x i. x \<in> dom N \<Longrightarrow> x \<noteq> p \<Longrightarrow> x \<noteq> p + n \<Longrightarrow> i < 20 \<Longrightarrow> mem t (x + i) = (if x = p + n + m \<and> i = 4 then of_nat p else mem s (x + i))"
  shows "heads_ok t (N(p + n := None, p \<mapsto> (n + m, k))) R"
  unfolding heads_ok_def
proof (intro allI impI)
  let ?M = "N(p + n := None, p \<mapsto> (n + m, k))"
  note d = heap_okD [OF h] and z = node_sizes [OF heap_okD(1) [OF h] p]
  fix x i j assume x: "?M x = Some (i, j)"
  show "(j \<noteq> Raw \<longrightarrow> mem t x = OS_MEM_NODE_MAGIC) \<and> size_word j i (sizeAndFlag t x) \<and> prev_ok ?M R x (nd_ptr t x)"
  proof (cases "x = p")
    case True
    have "prev_ok ?M R p (nd_ptr s p)"
      by (rule prev_ok_mono [OF headD(3) [OF d(2) p]]) (use node_sizes(3) [OF d(1)] in fastforce)
    then show ?thesis using True x t headD(1) [OF d(2) p] k by (auto simp: size_word_def)
  next
    case False
    then have xn: "x \<noteq> p + n" "N x = Some (i, j)" using x by (auto split: if_splits)
    have w: "mem t (x + j) = (if x = p + n + m \<and> j = 4 then of_nat p else mem s (x + j))" if "j < 20" for j using o [of x j] xn False that by blast
    have "prev_ok ?M R x (nd_ptr t x)"
    proof (cases "x = p + n + m")
      case True
      have "unat (of_nat p :: u32) = p" using z(5) by (simp add: unat_of_nat take_bit_nat_eq_self)
      then show ?thesis using w [of 4] True by (auto simp: prev_ok_def)
    next
      case xm: False
      have "prev_ok N R x (nd_ptr s x)" by (rule headD(3) [OF d(2) xn(2)])
      then have "prev_ok ?M R x (nd_ptr s x)"
        by (rule prev_ok_mono) (use p b xm xn(1) in auto)
      then show ?thesis using w [of 4] xm by simp
    qed
    then show ?thesis using headD(1,2) [OF d(2) xn(2)] w [of 0] w [of 8] by simp
  qed
qed

lemma merge_node:
  assumes h: "heap_ok s N L R" and p: "N p = Some (n, k)" and k: "k = Loose \<or> k = Raw" and b: "N (p + n) = Some (m, Loose)"
  defines "t \<equiv> OsMemMergeNode (p + n) s"
  shows "heap_ok t (N(p + n := None, p \<mapsto> (n + m, k))) L R" "kept N s t"
proof -
  let ?M = "N(p + n := None, p \<mapsto> (n + m, k))" and ?b = "p + n" and ?c = "p + n + m"
  note d = heap_okD [OF h] and z = node_sizes [OF heap_okD(1) [OF h] p] and zb = node_sizes [OF heap_okD(1) [OF h] b]
  have pb: "nd_ptr s ?b = p" by (rule prev_unique [OF d(1) p refl headD(3) [OF d(2) b]])
  have w: "sizeAndFlag s p = of_nat n" "sizeAndFlag s ?b = of_nat m" using headD(2) [OF d(2) p] headD(2) [OF d(2) b] k by (auto simp: size_word_def)
  have cp: "cell N R p 8" and cb: "cell N R ?b 8" "cell N R ?b 4" using p b by (auto simp: cell_def)
  define s1 where "s1 = st (p + 8) (of_nat (n + m)) s"
  note m1 = mem_cell [OF d(1) cp]
  have u: "unat (of_nat m :: u32) = m" "unat (of_nat p :: u32) = p" using zb(5) z(5) by (simp_all add: unat_of_nat take_bit_nat_eq_self)
  have b1: "sizeAndFlag s1 ?b = of_nat m" "nd_ptr s1 ?b = p" using m1 [OF cb(1)] m1 [OF cb(2)] z(3) w pb by (simp_all add: s1_def)
  have cmod: "(?b + unat (of_nat m :: u32)) mod 2 ^ 32 = ?c" using zb(5) u by simp
  have t: "t = (if \<not> OS_MEM_NODE_GET_LAST_FLAG (sizeAndFlag s1 ?c) then st (?c + 4) (of_nat p) s1 else s1)"
    unfolding t_def OsMemMergeNode_def Let_def pb w of_nat_add [symmetric] s1_def [symmetric] b1 cmod by (simp add: add.assoc)
  have cc: "sizeAndFlag s1 ?c = sizeAndFlag s ?c" and fl: "OS_MEM_NODE_GET_LAST_FLAG (sizeAndFlag s ?c) \<longleftrightarrow> ?c \<in> ends R" and cd: "?c \<notin> ends R \<Longrightarrow> ?c \<in> dom N"
  proof -
    consider "?c \<in> ends R" "OS_MEM_NODE_GET_LAST_FLAG (sizeAndFlag s ?c)" | i l where "N ?c = Some (i, l)" "size_word l i (sizeAndFlag s ?c)" "i < 2 ^ 29"
      using next_node(2) [OF h b] by blast
    then show "OS_MEM_NODE_GET_LAST_FLAG (sizeAndFlag s ?c) \<longleftrightarrow> ?c \<in> ends R" "?c \<notin> ends R \<Longrightarrow> ?c \<in> dom N" "sizeAndFlag s1 ?c = sizeAndFlag s ?c"
      using word_size(2) m1 [of ?c 8] z(3) zb(3) end_apart [OF d(1)] node_sizes(3) [OF d(1)] by (cases; fastforce simp: cell_def s1_def)+
  qed
  have pc: "?c \<notin> ends R \<Longrightarrow> cell N R ?c 4" using cd by (simp add: cell_def)
  have mt: "mem t (x + i) = (if x = p \<and> i = 8 then of_nat (n + m) else if ?c \<notin> ends R \<and> x = ?c \<and> i = 4 then of_nat p else mem s (x + i))" if c: "cell N R x i" for x i
    using m1 [OF c] mem_cell [OF d(1) pc c] unfolding t cc fl by (cases "?c \<in> ends R") (auto simp: s1_def)
  have ex: "p \<notin> ends R" by (rule node_not_end [OF d(1) p])
  have hd: "heads_ok t ?M R"
  proof (rule heads_merge [OF h p k b])
    have "cell N R p 0" "cell N R p 4" using cp by (auto simp: cell_def)
    then show "mem t p = mem s p" "mem t (p + 4) = mem s (p + 4)" "mem t (p + 8) = of_nat (n + m)"
      using mt [of p 0] mt [of p 4] mt [OF cp] zb(3) by auto
    show "mem t (x + i) = (if x = ?c \<and> i = 4 then of_nat p else mem s (x + i))" if "x \<in> dom N" "x \<noteq> p" "x \<noteq> ?b" "i < 20" for x i
    proof -
      have "x \<notin> ends R" using that(1) node_not_end [OF d(1)] by fastforce
      then show ?thesis using mt [of x i] that by (auto simp: cell_def)
    qed
  qed
  have en: "ends_ok t R" by (rule ends_same [OF d(3)]) (use mt ex in \<open>auto simp: cell_def\<close>)
  have bm: "freeListBitmap t = freeListBitmap s" "pool_freeList t = pool_freeList s" "info_pool t = info_pool s" "totalSize t = totalSize s" "mem_panic t = mem_panic s" "mem_fault t = mem_fault s"
    by (simp_all add: t s1_def)
  have ls: "lists_ok t ?M L"
    by (rule lists_frame [OF d(5) _ _ bm(1,2)]) (use mt [of _ 12] mt [of _ 16] p b k in \<open>auto simp: cell_def dom_def\<close>)
  show "heap_ok t ?M L R" using layout_merge [OF d(1) p b] hd en d(4) ls bm by (simp add: heap_ok_def pool_ok_def)
  have k1: "kept N s s1" unfolding s1_def by (rule kept_st [OF d(1) cp]) simp
  have "kept N s1 t" unfolding t cc fl using kept_st [OF d(1) pc] by simp
  then show "kept N s t" by (rule kept_trans [OF k1])
qed

lemma cut_none:
  assumes "layout N R" "N a = Some (n, k)" "0 < c" "c < n"
  shows "N (a + c) = None"
  using layoutD(4) [OF assms(1,2), of "a + c"] assms(3,4) by (cases "N (a + c)") auto

lemma layout_split:
  assumes l: "layout N R" and a: "N a = Some (n, k)" and c: "20 \<le> c" "c + 20 \<le> n" "4 dvd c"
  shows "layout (N(a \<mapsto> (c, k1), a + c \<mapsto> (n - c, k2))) R"
proof (rule layoutI [OF layoutD(1) [OF l]])
  let ?M = "N(a \<mapsto> (c, k1), a + c \<mapsto> (n - c, k2))"
  note z = node_sizes [OF l a]
  have no: "N (a + c) = None" by (rule cut_none [OF l a]) (use c in auto)
  have M: "?M a = Some (c, k1)" "?M (a + c) = Some (n - c, k2)" "\<And>x. x \<noteq> a \<Longrightarrow> x \<noteq> a + c \<Longrightarrow> ?M x = N x" using c(1) by simp_all
  have Ms: "?M x = N x" if "N x = Some (i, h)" "x \<noteq> a" for x i h using that no by auto
  have dm: "x \<in> dom ?M" if "x \<in> dom N" for x using that by auto
  obtain b p e where r: "(b, p, e) \<in> set R" "b \<le> a" "a + n \<le> e" "a + n = e \<or> a + n \<in> dom N" "a = b \<or> (\<exists>c m k. N c = Some (m, k) \<and> c + m = a \<and> b \<le> c)"
    using node_region [OF l a] by metis
  show "fst r \<in> dom ?M" if "r \<in> set R" for r using layoutD(2) [OF l that] by (rule dm)
  show "node_in ?M R x i" if x: "?M x = Some (i, h)" for x i h
  proof -
    consider "x = a" "i = c" | "x = a + c" "i = n - c" | "x \<noteq> a" "x \<noteq> a + c" "N x = Some (i, h)" using x by (auto split: if_splits)
    then show ?thesis
    proof cases
      case 1
      have "a = b \<or> (\<exists>c m k. ?M c = Some (m, k) \<and> c + m = a \<and> b \<le> c)"
      proof (cases "a = b")
        case False
        then obtain c' m' k' where c': "N c' = Some (m', k')" "c' + m' = a" "b \<le> c'" using r(5) by blast
        then have "?M c' = Some (m', k')" using Ms [OF c'(1)] node_sizes(3) [OF l c'(1)] by simp
        then show ?thesis using c'(2,3) by (intro disjI2 exI conjI)
      qed simp
      moreover have "a + c = e \<or> a + c \<in> dom ?M" using M(2) by blast
      moreover have "a + c \<le> e" using r(3) c(2) by linarith
      ultimately show ?thesis unfolding node_in_def 1 using r(1,2) z(1) c(1,3) by (intro conjI exI)
    next
      case 2
      have "a + c = b \<or> (\<exists>c' m k. ?M c' = Some (m, k) \<and> c' + m = a + c \<and> b \<le> c')" using M(1) r(2) by (intro disjI2 exI conjI) simp_all
      moreover have "a + c + (n - c) = e \<or> a + c + (n - c) \<in> dom ?M" using r(4) dm [of "a + n"] c(2) by auto
      moreover have "b \<le> a + c" "a + c + (n - c) \<le> e" "20 \<le> n - c" "4 dvd a + c" "4 dvd n - c" using r(2,3) c z(1,2) by simp_all
      ultimately show ?thesis unfolding node_in_def 2 using r(1) by (intro conjI exI)
    next
      case 3
      obtain b' p' e' where r': "(b', p', e') \<in> set R" "b' \<le> x" "x + i \<le> e'" "x + i = e' \<or> x + i \<in> dom N" "x = b' \<or> (\<exists>c m k. N c = Some (m, k) \<and> c + m = x \<and> b' \<le> c)"
        using node_region [OF l 3(3)] by metis
      have "x = b' \<or> (\<exists>c m k. ?M c = Some (m, k) \<and> c + m = x \<and> b' \<le> c)"
      proof (cases "x = b'")
        case False
        then obtain c' m' k' where c': "N c' = Some (m', k')" "c' + m' = x" "b' \<le> c'" using r'(5) by blast
        show ?thesis
        proof (cases "c' = a")
          case True
          then have "?M (a + c) = Some (n - c, k2)" "a + c + (n - c) = x" "b' \<le> a + c" using c' a c(2) M(2) by simp_all
          then show ?thesis by (intro disjI2 exI conjI)
        next
          case False
          then have "?M c' = Some (m', k')" using Ms c'(1) by simp
          then show ?thesis using c'(2,3) by (intro disjI2 exI conjI)
        qed
      qed simp
      moreover have "x + i = e' \<or> x + i \<in> dom ?M" using r'(4) dm by blast
      ultimately show ?thesis unfolding node_in_def using r'(1-3) node_sizes(1-3) [OF l 3(3)] by (intro conjI exI)
    qed
  qed
  show "x + i \<le> y" if x: "?M x = Some (i, h)" and y: "?M y = Some (i', h')" and lt: "x < y" for x y i h i' h'
  proof -
    have oy: "a + n \<le> y" if "y \<noteq> a + c" "a < y"
      using that y layoutD(4) [OF l a, of y i' h'] by (auto split: if_splits)
    consider "x = a" "i = c" | "x = a + c" "i = n - c" | "x \<noteq> a" "x \<noteq> a + c" "N x = Some (i, h)" using x by (auto split: if_splits)
    then show ?thesis
    proof cases
      case 3
      have le: "x < a \<Longrightarrow> x + i \<le> a" using layoutD(4) [OF l 3(3) a] by simp
      have "\<not> (a < x \<and> x < a + n)" using layoutD(4) [OF l a 3(3)] by auto
      then have "y = a \<or> y = a + c \<Longrightarrow> x < a" using lt c 3 by auto
      moreover have "y \<noteq> a \<Longrightarrow> y \<noteq> a + c \<Longrightarrow> x + i \<le> y" using layoutD(4) [OF l 3(3) _ lt] y by (auto split: if_splits)
      ultimately show ?thesis using le by (cases "y = a \<or> y = a + c") auto
    qed (use oy lt c in \<open>cases "y = a + c", auto\<close>)
  qed
qed

text \<open>A node of which the first \<open>c\<close> bytes are kept; the rest has no magic number yet.\<close>

definition cut_raw :: "nat \<Rightarrow> nat \<Rightarrow> nat \<Rightarrow> nat \<Rightarrow> mem_pool \<Rightarrow> mem_pool" where
  "cut_raw a c n x s = (let s3 = st (a + 8) (of_nat c) (st (a + c + 8) (of_nat (n - c)) (st (a + c + 4) (of_nat a) s))
     in if OS_MEM_NODE_GET_LAST_FLAG (sizeAndFlag s3 x) then s3 else st (x + 4) (of_nat (a + c)) s3)"

lemma heads_split:
  assumes h: "heap_ok s N L R" and a: "N a = Some (n, Loose)" and c: "20 \<le> c" "c + 20 \<le> n" "4 dvd c"
    and t: "mem t a = mem s a" "mem t (a + 4) = mem s (a + 4)" "mem t (a + 8) = of_nat c" "mem t (a + c + 4) = of_nat a" "mem t (a + c + 8) = of_nat (n - c)"
    and o: "\<And>x i. x \<in> dom N \<Longrightarrow> x \<noteq> a \<Longrightarrow> i < 20 \<Longrightarrow> mem t (x + i) = (if x = a + n \<and> i = 4 then of_nat (a + c) else mem s (x + i))"
  shows "heads_ok t (N(a \<mapsto> (c, Loose), a + c \<mapsto> (n - c, Raw))) R"
  unfolding heads_ok_def
proof (intro allI impI)
  let ?M = "N(a \<mapsto> (c, Loose), a + c \<mapsto> (n - c, Raw))"
  note d = heap_okD [OF h] and z = node_sizes [OF heap_okD(1) [OF h] a]
  have no: "N (a + c) = None" by (rule cut_none [OF d(1) a]) (use c in auto)
  have u: "unat (of_nat a :: u32) = a" "unat (of_nat (a + c) :: u32) = a + c" using z(5) c by (simp_all add: unat_of_nat take_bit_nat_eq_self del: of_nat_add)
  have M: "?M a = Some (c, Loose)" "?M (a + c) = Some (n - c, Raw)" using c(1) by simp_all
  fix x i k assume x: "?M x = Some (i, k)"
  consider "x = a" "i = c" "k = Loose" | "x = a + c" "i = n - c" "k = Raw" | "x \<noteq> a" "x \<noteq> a + c" "N x = Some (i, k)" using x by (auto split: if_splits)
  then show "(k \<noteq> Raw \<longrightarrow> mem t x = OS_MEM_NODE_MAGIC) \<and> size_word k i (sizeAndFlag t x) \<and> prev_ok ?M R x (nd_ptr t x)"
  proof cases
    case 1
    have "prev_ok ?M R a (nd_ptr s a)"
    proof (rule prev_ok_mono [OF headD(3) [OF d(2) a]])
      show "\<exists>k'. ?M (nd_ptr s a) = Some (m, k')" if q: "N (nd_ptr s a) = Some (m, j)" "nd_ptr s a + m = a" for m j
        using q no node_sizes(3) [OF d(1) q(1)] by auto
    qed
    then show ?thesis using 1 t headD(1) [OF d(2) a] by (simp add: size_word_def)
  next
    case 2
    then show ?thesis using t u M(1) by (auto simp: size_word_def prev_ok_def)
  next
    case 3
    have w: "mem t (x + j) = (if x = a + n \<and> j = 4 then of_nat (a + c) else mem s (x + j))" if "j < 20" for j using o [of x j] 3 that by blast
    have "prev_ok ?M R x (nd_ptr t x)"
    proof (cases "x = a + n")
      case True
      then show ?thesis using w [of 4] u M(2) c(2) by (auto simp: prev_ok_def)
    next
      case xm: False
      have "prev_ok N R x (nd_ptr s x)" by (rule headD(3) [OF d(2) 3(3)])
      then have "prev_ok ?M R x (nd_ptr s x)"
        by (rule prev_ok_mono) (use a no xm in auto)
      then show ?thesis using w [of 4] xm by simp
    qed
    then show ?thesis using headD(1,2) [OF d(2) 3(3)] w [of 0] w [of 8] by simp
  qed
qed

lemma cut_node:
  assumes h: "heap_ok s N L R" and a: "N a = Some (n, Loose)" and c: "20 \<le> c" "c + 20 \<le> n" "4 dvd c"
  defines "t \<equiv> cut_raw a c n (a + n) s"
  shows "heap_ok t (N(a \<mapsto> (c, Loose), a + c \<mapsto> (n - c, Raw))) L R" "kept N s t"
proof -
  let ?M = "N(a \<mapsto> (c, Loose), a + c \<mapsto> (n - c, Raw))" and ?x = "a + n"
  note d = heap_okD [OF h] and z = node_sizes [OF heap_okD(1) [OF h] a]
  have ly: "layout ?M R" by (rule layout_split [OF d(1) a c])
  have no: "N (a + c) = None" by (rule cut_none [OF d(1) a]) (use c in auto)
  have ca: "cell ?M R a 8" and cc: "cell ?M R (a + c) 8" "cell ?M R (a + c) 4" using c(1) by (auto simp: cell_def)
  have ml: "cell ?M R x i" if "cell N R x i" for x i using that by (auto simp: cell_def)
  define s3 where "s3 = st (a + 8) (of_nat c) (st (a + c + 8) (of_nat (n - c)) (st (a + c + 4) (of_nat a) s))"
  have m3: "mem s3 (x + i) = (if x = a \<and> i = 8 then of_nat c else if x = a + c \<and> i = 8 then of_nat (n - c) else if x = a + c \<and> i = 4 then of_nat a else mem s (x + i))"
    if "cell ?M R x i" for x i
    unfolding s3_def mem_cell [OF ly ca that] mem_cell [OF ly cc(1) that] mem_cell [OF ly cc(2) that] by auto
  have fl: "OS_MEM_NODE_GET_LAST_FLAG (sizeAndFlag s3 ?x) \<longleftrightarrow> ?x \<in> ends R" and cd: "?x \<notin> ends R \<Longrightarrow> ?x \<in> dom N"
  proof -
    consider "?x \<in> ends R" "OS_MEM_NODE_GET_LAST_FLAG (sizeAndFlag s ?x)" | i l where "N ?x = Some (i, l)" "size_word l i (sizeAndFlag s ?x)" "i < 2 ^ 29"
      using next_node(2) [OF h a] by blast
    note cs = this
    then have "cell N R ?x 8" by cases (auto simp: cell_def)
    then have "sizeAndFlag s3 ?x = sizeAndFlag s ?x" using m3 [OF ml] c by auto
    moreover have "OS_MEM_NODE_GET_LAST_FLAG (sizeAndFlag s ?x) \<longleftrightarrow> ?x \<in> ends R" using cs
    proof cases
      case (2 i l)
      then show ?thesis using word_size(2) [OF 2(2,3)] node_not_end [OF d(1) 2(1)] by simp
    qed simp
    ultimately show "OS_MEM_NODE_GET_LAST_FLAG (sizeAndFlag s3 ?x) \<longleftrightarrow> ?x \<in> ends R" by simp
    show "?x \<notin> ends R \<Longrightarrow> ?x \<in> dom N" using cs by cases auto
  qed
  have t: "t = (if ?x \<in> ends R then s3 else st (?x + 4) (of_nat (a + c)) s3)"
    unfolding t_def cut_raw_def Let_def s3_def [symmetric] fl ..
  have px: "?x \<notin> ends R \<Longrightarrow> cell ?M R ?x 4" using cd ml by (simp add: cell_def)
  have mt: "mem t (x + i) = (if ?x \<notin> ends R \<and> x = ?x \<and> i = 4 then of_nat (a + c) else mem s3 (x + i))" if "cell ?M R x i" for x i
    using mem_cell [OF ly px that] unfolding t by (cases "?x \<in> ends R") auto
  have ne: "a \<notin> ends R" "a + c \<notin> ends R" using node_not_end [OF ly, of a c Loose] node_not_end [OF ly, of "a + c" "n - c" Raw] c by auto
  have hd: "heads_ok t ?M R"
  proof (rule heads_split [OF h a c])
    have "cell ?M R a 0" "cell ?M R a 4" by (auto simp: cell_def)
    then show "mem t a = mem s a" "mem t (a + 4) = mem s (a + 4)" "mem t (a + 8) = of_nat c"
      using mt [of a 0] mt [of a 4] mt [OF ca] m3 [of a 0] m3 [of a 4] m3 [OF ca] c z(3) by simp_all
    show "mem t (a + c + 4) = of_nat a" "mem t (a + c + 8) = of_nat (n - c)"
      using mt [OF cc(1)] mt [OF cc(2)] m3 [OF cc(1)] m3 [OF cc(2)] c by simp_all
    show "mem t (x + i) = (if x = ?x \<and> i = 4 then of_nat (a + c) else mem s (x + i))" if "x \<in> dom N" "x \<noteq> a" "i < 20" for x i
    proof -
      have xe: "x \<notin> ends R" "x \<noteq> a + c" using that(1) node_not_end [OF d(1)] no by fastforce+
      have "cell ?M R x i" using that ml by (simp add: cell_def)
      from mt [OF this] m3 [OF this] show ?thesis using xe that by auto
    qed
  qed
  have en: "ends_ok t R"
  proof (rule ends_same [OF d(3)])
    fix e i assume e: "e \<in> ends R" "i < (12 :: nat)"
    then have "cell ?M R e i" by (simp add: cell_def)
    from mt [OF this] m3 [OF this] show "mem t (e + i) = mem s (e + i)" using ne e by auto
  qed
  have bm: "freeListBitmap t = freeListBitmap s" "pool_freeList t = pool_freeList s" "info_pool t = info_pool s" "totalSize t = totalSize s" "mem_panic t = mem_panic s" "mem_fault t = mem_fault s"
    by (simp_all add: t s3_def)
  have ls: "lists_ok t ?M L"
  proof (rule lists_frame [OF d(5) _ _ bm(1,2)])
    show "?M x = Some (i, Free) \<longleftrightarrow> N x = Some (i, Free)" for x i using a no by auto
    show "mem t (x + 12) = mem s (x + 12) \<and> mem t (x + 16) = mem s (x + 16)" if "N x = Some (i, Free)" for x i
    proof -
      have "cell ?M R x 12" "cell ?M R x 16" using that ml by (auto simp: cell_def)
      then show ?thesis using mt [of x 12] mt [of x 16] m3 [of x 12] m3 [of x 16] by simp
    qed
  qed
  show "heap_ok t ?M L R" using ly hd en d(4) ls bm by (simp add: heap_ok_def pool_ok_def)
  have k: "kept ?M v (st (b + i) w v)" if "cell ?M R b i" "i < 12" for v b i w by (rule kept_st [OF ly that(1)]) (use that(2) in simp)
  have "kept ?M s s3" unfolding s3_def by (rule kept_trans [OF kept_trans [OF k [OF cc(2)] k [OF cc(1)]] k [OF ca]]) simp_all
  moreover have "kept ?M s3 t" unfolding t using k [OF px] by simp
  ultimately have "kept ?M s t" by (rule kept_trans)
  then show "kept N s t" by (rule kept_sub) (use a no in auto)
qed

lemma split_eq:
  assumes h: "heap_ok s N L R" and a: "N a = Some (n, Loose)" and c: "20 \<le> c" "c + 20 \<le> n" "4 dvd c"
  defines "u \<equiv> cut_raw a c n (a + n) s"
  shows "OsMemSplitNode a (of_nat c) s = OsMemFreeNodeAdd (a + c)
     (if OS_MEM_NODE_GET_USED_FLAG (sizeAndFlag u (a + n)) then u else OsMemMergeNode (a + n) (OsMemFreeNodeDelete (a + n) u))"
proof -
  note d = heap_okD [OF h] and z = node_sizes [OF heap_okD(1) [OF h] a]
  let ?M = "N(a \<mapsto> (c, Loose), a + c \<mapsto> (n - c, Raw))"
  have ly: "layout ?M R" by (rule layout_split [OF d(1) a c])
  have hu: "heap_ok u ?M L R" unfolding u_def by (rule cut_node [OF h a c])
  have Mc: "?M (a + c) = Some (n - c, Raw)" by simp
  have uc: "unat (of_nat c :: u32) = c" using z(6) c(2) by (simp add: unat_of_nat take_bit_nat_eq_self)
  have new: "(a + unat (of_nat c :: u32)) mod 2 ^ 32 = a + c" unfolding uc using z(5) c(2) by simp
  have ca: "cell ?M R a 8" and cc: "cell ?M R (a + c) 8" "cell ?M R (a + c) 4" using c(1) by (auto simp: cell_def)
  let ?s1 = "st (a + c + 4) (of_nat a) s"
  have w: "sizeAndFlag ?s1 a - of_nat c = of_nat (n - c)"
    using mem_cell [OF ly cc(2) ca] headD(2) [OF d(2) a] c by (simp add: size_word_def of_nat_diff)
  define s3 where "s3 = st (a + 8) (of_nat c) (st (a + c + 8) (of_nat (n - c)) ?s1)"
  have "n - c < 2 ^ 29" using z(6) by linarith
  note sw = small_word [OF this]
  have "sizeAndFlag s3 (a + c) = of_nat (n - c)" unfolding s3_def mem_cell [OF ly ca cc(1)] mem_cell [OF ly cc(1) cc(1)] using c(1) by simp
  then have nx: "OS_MEM_NEXT_NODE s3 (a + c) = a + n" using sw(3,4) z(5) c(2) by (simp add: OS_MEM_NEXT_NODE_def)
  have u: "u = (if OS_MEM_NODE_GET_LAST_FLAG (sizeAndFlag s3 (a + n)) then s3 else st (a + n + 4) (of_nat (a + c)) s3)"
    unfolding u_def cut_raw_def s3_def Let_def ..
  have ul: "OS_MEM_NODE_GET_USED_FLAG (sizeAndFlag u (a + n))" if "OS_MEM_NODE_GET_LAST_FLAG (sizeAndFlag s3 (a + n))"
  proof -
    have "OS_MEM_NODE_GET_LAST_FLAG (sizeAndFlag u (a + n))" using u that by simp
    moreover have "a + c + (n - c) = a + n" using c(2) by simp
    ultimately show ?thesis using next_node(2) [OF hu Mc] word_size(2) by fastforce
  qed
  show ?thesis
    unfolding OsMemSplitNode_def Let_def new w s3_def [symmetric] nx using u ul
    by (cases "OS_MEM_NODE_GET_LAST_FLAG (sizeAndFlag s3 (a + n))") simp_all
qed

text \<open>The nodes after a split: the rest is joined with a free node that follows.\<close>

definition split_nodes :: "nat \<Rightarrow> nat \<Rightarrow> nat \<Rightarrow> nodes \<Rightarrow> nodes" where
  "split_nodes a c n N = (case N (a + n) of
     Some (m, Free) \<Rightarrow> N(a \<mapsto> (c, Loose), a + n := None, a + c \<mapsto> (n - c + m, Free))
   | _ \<Rightarrow> N(a \<mapsto> (c, Loose), a + c \<mapsto> (n - c, Free)))"

lemma used_flag:
  assumes h: "heap_ok s N L R" and a: "N a = Some (n, k)"
  shows "OS_MEM_NODE_GET_USED_FLAG (sizeAndFlag s a) \<longleftrightarrow> k = Used"
  using word_size(3) [OF headD(2) [OF heap_okD(2) [OF h] a] node_sizes(6) [OF heap_okD(1) [OF h] a]] .

lemma next_used_flag:
  assumes h: "heap_ok s N L R" and a: "N a = Some (n, k)" and o: "\<And>m j. N (a + n) = Some (m, j) \<Longrightarrow> j = Used \<or> j = Free"
  shows "OS_MEM_NODE_GET_USED_FLAG (sizeAndFlag s (a + n)) \<longleftrightarrow> (\<nexists>m. N (a + n) = Some (m, Free))"
proof (cases "N (a + n)")
  case None
  then show ?thesis using next_node(2) [OF h a] by auto
next
  case (Some v)
  obtain m j where v: "N (a + n) = Some (m, j)" using Some by (cases v) auto
  show ?thesis unfolding used_flag [OF h v] using o [OF v] v by auto
qed

lemma split_node:
  assumes h: "heap_ok s N L R" and a: "N a = Some (n, Loose)" and c: "20 \<le> c" "c + 20 \<le> n" "4 dvd c"
    and o: "\<And>m j. N (a + n) = Some (m, j) \<Longrightarrow> j = Used \<or> j = Free"
  obtains L' where "heap_ok (OsMemSplitNode a (of_nat c) s) (split_nodes a c n N) L' R" "kept N s (OsMemSplitNode a (of_nat c) s)"
proof -
  let ?M = "N(a \<mapsto> (c, Loose), a + c \<mapsto> (n - c, Raw))" and ?u = "cut_raw a c n (a + n) s" and ?t = "OsMemSplitNode a (of_nat c) s"
  note cn = cut_node [OF h a c] and d = heap_okD [OF h]
  have Mc: "?M (a + c) = Some (n - c, Raw)" by simp
  have cn': "a + c + (n - c) = a + n" "a + n \<noteq> a" "a + n \<noteq> a + c" using c by simp_all
  have no: "N (a + c) = None" by (rule cut_none [OF d(1) a]) (use c in auto)
  have kM: "kept N v w" if "kept ?M v w" for v w by (rule kept_sub [OF that]) (use a no in auto)
  have Mn: "?M (a + n) = N (a + n)" using cn' by simp
  have uf: "OS_MEM_NODE_GET_USED_FLAG (sizeAndFlag ?u (a + n)) \<longleftrightarrow> (\<nexists>m. N (a + n) = Some (m, Free))"
    using next_used_flag [OF cn(1) Mc] o unfolding cn'(1) Mn by blast
  show ?thesis
  proof (cases "\<exists>m. N (a + n) = Some (m, Free)")
    case True
    then obtain m where m: "N (a + n) = Some (m, Free)" by blast
    let ?u1 = "OsMemFreeNodeDelete (a + n) ?u" and ?M2 = "?M(a + n \<mapsto> (m, Loose))"
    let ?u2 = "OsMemMergeNode (a + n) ?u1" and ?M3 = "?M2(a + n := None, a + c \<mapsto> (n - c + m, Raw))"
    obtain L1 where L1: "heap_ok ?u1 ?M2 L1 R" "kept ?M ?u ?u1" using free_node_delete [OF cn(1), of "a + n" m] m Mn by metis
    have p: "?M2 (a + c) = Some (n - c, Raw)" "?M2 (a + c + (n - c)) = Some (m, Loose)" using cn' by simp_all
    have mg: "heap_ok ?u2 ?M3 L1 R" "kept ?M2 ?u1 ?u2" using merge_node [OF L1(1) p(1) _ p(2)] unfolding cn'(1) by blast+
    have M3: "?M3 (a + c) = Some (n - c + m, Raw)" by simp
    have t: "?t = OsMemFreeNodeAdd (a + c) ?u2" unfolding split_eq [OF h a c] using uf m by simp
    have eq: "?M3(a + c \<mapsto> (n - c + m, Free)) = split_nodes a c n N" using m cn' by (auto simp: split_nodes_def fun_eq_iff)
    have ad: "heap_ok ?t (?M3(a + c \<mapsto> (n - c + m, Free))) (L1(tlsf_index (n - c + m) := (a + c) # L1 (tlsf_index (n - c + m)))) R" "kept ?M3 ?u2 ?t"
      using free_node_add [OF mg(1) M3] unfolding t by blast+
    have k2: "kept ?M ?u1 ?u2" by (rule kept_sub [OF mg(2)]) (use m in \<open>auto split: if_splits\<close>)
    have k3: "kept ?M ?u2 ?t" by (rule kept_sub [OF ad(2)]) (use m in \<open>auto split: if_splits\<close>)
    have "kept N ?u ?t" by (rule kM [OF kept_trans [OF kept_trans [OF L1(2) k2] k3]])
    then show ?thesis using that [OF ad(1) [unfolded eq]] kept_trans [OF cn(2)] by blast
  next
    case False
    have t: "?t = OsMemFreeNodeAdd (a + c) ?u" unfolding split_eq [OF h a c] using uf False by simp
    have ad: "heap_ok ?t (?M(a + c \<mapsto> (n - c, Free))) (L(tlsf_index (n - c) := (a + c) # L (tlsf_index (n - c)))) R" "kept ?M ?u ?t"
      using free_node_add [OF cn(1) Mc] unfolding t by blast+
    have eq: "?M(a + c \<mapsto> (n - c, Free)) = split_nodes a c n N" using False unfolding split_nodes_def
      by (auto simp: fun_eq_iff split: option.split nstat.split)
    show ?thesis using that [OF ad(1) [unfolded eq]] kept_trans [OF cn(2) kM [OF ad(2)]] by blast
  qed
qed

end
