(* ===== verification/Spec2Isabelle.thy ===== *)
theory Spec2Isabelle
  imports Dl_List Bitmap Sort_Link Sched_Props Ipc_Sem Ipc_Queue Ipc_Event Ipc_Rwlock Membox Swtmr Cir_Buf Crc32 Capability Vm_Alloc Tlsf_Nodes
begin

text \<open>
  Development of the scheduling and communication core of the kernel.
\<close>

end
